(* ===== verification/Janus_Prelude.thy ===== *)
theory Janus_Prelude
  imports Main "HOL-Library.Word" "HOL-Library.Monad_Syntax"
begin

text \<open>
  The vocabulary every component of the development shares: the machine integers of the
  i386 target (\<open>unsigned int\<close>, \<open>unsigned long\<close> and pointers are 32 bits wide, \<open>short\<close> 16,
  \<open>char\<close> 8 and signed), the flat little-endian byte memory the kernel runs in, NUL-terminated
  strings in that memory, and the I/O ports with the history of everything the kernel has read
  from and written to them.
\<close>

unbundle bit_operations_syntax

section \<open>Collections\<close>

named_theorems mem_simps
  \<open>loads after stores, in the byte memory\<close>
named_theorems frame_simps
  \<open>what an operation leaves unchanged\<close>

section \<open>Machine integers and characters\<close>

type_synonym byte = "8 word"
type_synonym half = "16 word"
type_synonym uint = "32 word"
type_synonym addr = "32 word"

abbreviation NULL :: addr where
  "NULL \<equiv> 0"

definition ch :: "char \<Rightarrow> byte" where
  "ch c = of_char c"

definition str :: "string \<Rightarrow> byte list" where
  "str s = map of_char s"

lemma str_simps [simp]:
  "str [] = []"
  "str (c # s) = ch c # str s"
  "str (s @ t) = str s @ str t"
  by (simp_all add: str_def ch_def)

lemma length_str [simp]: "length (str s) = length s"
  by (simp add: str_def)

lemma ch_Char [simp]:
  "ch (Char b0 b1 b2 b3 b4 b5 b6 b7) =
     horner_sum of_bool 2 [b0, b1, b2, b3, b4, b5, b6, b7]"
  by (simp add: ch_def of_char_Char)

text \<open>A signed 32-bit \<open>int\<close> of the source, read from the word that holds it.\<close>

abbreviation s32 :: "uint \<Rightarrow> int" where
  "s32 w \<equiv> sint w"

lemma unat_uint_less: "unat (w :: uint) < 4294967296"
  using unsigned_less [of w] by simp

lemma unat_of_nat32: "unat (of_nat n :: uint) = n mod 4294967296"
  by (simp add: unat_of_nat)

lemma unat_of_nat_small: "n < 4294967296 \<Longrightarrow> unat (of_nat n :: uint) = n"
  by (simp add: unat_of_nat32)

lemma word_of_nat_unat32: "of_nat (unat (w :: uint)) = w"
  by simp

lemma unat_add_small:
  "unat a + unat b < 4294967296 \<Longrightarrow> unat (a + b :: uint) = unat a + unat b"
  using unat_add_lem [of a b] by simp

lemma unat_add_of_nat:
  "unat a + n < 4294967296 \<Longrightarrow> unat (a + of_nat n :: uint) = unat a + n"
  by (subst unat_add_small) (auto simp: unat_of_nat32)

lemma of_nat_inj_small:
  "i < 4294967296 \<Longrightarrow> j < 4294967296 \<Longrightarrow> (of_nat i :: uint) = of_nat j \<longleftrightarrow> i = j"
  by (metis unat_of_nat_small)

lemma unat_inc: "(a :: uint) < b \<Longrightarrow> unat (a + 1) = unat a + 1"
  using unat_uint_less [of b] by (subst unat_add_small) (auto simp: word_less_nat_alt)

lemma unat_dec: "(a :: uint) < b \<Longrightarrow> unat (b - 1) = unat b - 1 \<and> 0 < unat b"
  by (metis gr_implies_not0 gr_zeroI unat_minus_one unat_eq_zero word_less_nat_alt)

lemma sint_eq_iff [simp]: "sint (a :: 'a::len word) = sint b \<longleftrightarrow> a = b"
  using word_eq_iff_signed [of a b] by auto

text \<open>A byte below 128 is its own signed value.\<close>

lemma sint_ascii: "unat (c :: byte) < 128 \<Longrightarrow> sint c = int (unat c)"
proof -
  assume "unat c < 128"
  then have "uint c < 128" using of_nat_less_iff [of "unat c" 128, where 'a = int] by simp
  moreover have "- 128 \<le> uint c" by (rule order.trans [of _ 0]) simp_all
  ultimately show ?thesis by (simp add: sint_uint signed_take_bit_int_eq_self)
qed
lemma sint_high: "\<not> unat (c :: byte) < 128 \<Longrightarrow> sint c < 0"
proof -
  assume "\<not> unat c < 128"
  then have u: "128 \<le> uint c" using of_nat_less_iff [of "unat c" 128, where 'a = int] by simp
  have "uint c < 256" using unsigned_less [of c] by simp
  then have "signed_take_bit 7 (uint c - 256) = uint c - 256" 
    using u by (intro signed_take_bit_int_eq_self) auto
  moreover have "signed_take_bit 7 (uint c - 256) = signed_take_bit 7 (uint c)"
    by (simp add: signed_take_bit_eq_iff_take_bit_eq take_bit_eq_mod)
  ultimately show ?thesis using \<open>uint c < 256\<close> by (simp add: sint_uint)
qed

lemma sint_scast_byte [simp]: "sint (scast (c :: byte) :: uint) = sint c"
  by (rule sint_up_scast) (simp add: is_up)

lemma scast_ascii: "unat (c :: byte) < 128 \<Longrightarrow> (scast c :: uint) = of_nat (unat c)"
  by (metis of_int_of_nat_eq of_int_sint sint_ascii sint_scast_byte)

lemma sint_range_ascii:
  assumes "hi < 128"
  shows "(int lo \<le> sint (c :: byte) \<and> sint c \<le> int hi) \<longleftrightarrow> (lo \<le> unat c \<and> unat c \<le> hi)"
proof (cases "unat c < 128")
  case True
  then show ?thesis by (simp only: sint_ascii of_nat_le_iff)
next
  case False
  then have "sint c < 0" by (rule sint_high)
  moreover have "(0::int) \<le> int lo" by simp
  ultimately have "\<not> int lo \<le> sint c" by linarith
  with False assms show ?thesis by simp
qed

lemma sint_of_nat_small: "n < 2147483648 \<Longrightarrow> sint (of_nat n :: uint) = int n"
  by (simp add: signed_of_nat signed_take_bit_int_eq_self)

section \<open>The byte memory\<close>

type_synonym memory = "addr \<Rightarrow> byte"

definition ld16 :: "memory \<Rightarrow> addr \<Rightarrow> half" where
  "ld16 m a = ucast (m a) OR push_bit 8 (ucast (m (a + 1)))"

definition ld32 :: "memory \<Rightarrow> addr \<Rightarrow> uint" where
  "ld32 m a = ucast (m a) OR push_bit 8 (ucast (m (a + 1)))
     OR push_bit 16 (ucast (m (a + 2))) OR push_bit 24 (ucast (m (a + 3)))"

definition st16 :: "addr \<Rightarrow> half \<Rightarrow> memory \<Rightarrow> memory" where
  "st16 a v m = m(a := ucast v, a + 1 := ucast (drop_bit 8 v))"

definition st32 :: "addr \<Rightarrow> uint \<Rightarrow> memory \<Rightarrow> memory" where
  "st32 a v m = m(a := ucast v, a + 1 := ucast (drop_bit 8 v),
     a + 2 := ucast (drop_bit 16 v), a + 3 := ucast (drop_bit 24 v))"

text \<open>\<open>region a n\<close>: the \<open>n\<close> bytes from \<open>a\<close> on.\<close>

definition region :: "addr \<Rightarrow> nat \<Rightarrow> addr set" where
  "region a n = (\<lambda>i. a + of_nat i) ` {..<n}"

lemma region_simps [simp]:
  "region a 0 = {}"
  "region a (Suc n) = insert a (region (a + 1) n)"
proof -
  show "region a 0 = {}" by (simp add: region_def)
  have "{..<Suc n} = insert 0 (Suc ` {..<n})" by (rule lessThan_Suc_eq_insert_0)
  then show "region a (Suc n) = insert a (region (a + 1) n)"
    by (simp add: region_def image_image add.assoc)
qed

lemma region_numeral:
  "region a (numeral k) = insert a (region (a + 1) (pred_numeral k))"
  by (simp add: numeral_eq_Suc)

lemma regionI: "i < n \<Longrightarrow> a + of_nat i \<in> region a n"
  by (auto simp: region_def)

lemma region_mono: "n \<le> k \<Longrightarrow> region a n \<subseteq> region a k"
  by (auto simp: region_def)

lemma region_offset: "region (a + of_nat k) n \<subseteq> region a (k + n)"
proof
  fix x assume "x \<in> region (a + of_nat k) n"
  then obtain i where "i < n" "x = a + of_nat (k + i)" by (auto simp: region_def add.assoc)
  then show "x \<in> region a (k + n)" using regionI [of "k + i" "k + n" a] by simp
qed

lemma region_iff:
  assumes "unat a + n \<le> 4294967296"
  shows "x \<in> region a n \<longleftrightarrow> unat a \<le> unat x \<and> unat x < unat a + n"
proof
  assume "x \<in> region a n"
  then obtain i where "i < n" "x = a + of_nat i" by (auto simp: region_def)
  with assms show "unat a \<le> unat x \<and> unat x < unat a + n"
    by (simp add: unat_add_of_nat)
next
  assume x: "unat a \<le> unat x \<and> unat x < unat a + n"
  then have "a + of_nat (unat x - unat a) = x"
    by (simp add: of_nat_diff)
  with x show "x \<in> region a n" using regionI [of "unat x - unat a" n a] by (simp add: less_diff_conv2)
qed

lemma ld32_st32_same [simp, mem_simps]: "ld32 (st32 a v m) a = v"
proof (rule bit_word_eqI)
  fix n assume "n < LENGTH(32)"
  then consider "n < 8" | "8 \<le> n" "n < 16" | "16 \<le> n" "n < 24" | "24 \<le> n" "n < 32"
    by fastforce
  then show "bit (ld32 (st32 a v m) a) n = bit v n"
    by cases (auto simp: ld32_def st32_def bit_simps)
qed

lemma ld32_bytes:
  "ucast (ld32 m a) = m a"
  "ucast (drop_bit 8 (ld32 m a)) = m (a + 1)"
  "ucast (drop_bit 16 (ld32 m a)) = m (a + 2)"
  "ucast (drop_bit 24 (ld32 m a)) = m (a + 3)"
  by (rule bit_word_eqI; fastforce simp: ld32_def bit_simps dest: bit_imp_le_length)+

lemma st32_ld32 [simp, mem_simps]: "st32 a (ld32 m a) m = m"
  by (simp add: st32_def ld32_bytes)

lemma ld16_st16_same [simp, mem_simps]: "ld16 (st16 a v m) a = v"
  by (rule bit_word_eqI) (auto simp: ld16_def st16_def bit_simps)

lemma region_4: "region a 4 = {a, a + 1, a + 2, a + 3}"
  by (simp add: region_numeral add.assoc)

lemma region_2: "region a 2 = {a, a + 1}"
  by (simp add: region_numeral)

lemma st32_outside [frame_simps]: "x \<notin> region a 4 \<Longrightarrow> st32 a v m x = m x"
  by (simp add: st32_def region_4)

lemma st16_outside [frame_simps]: "x \<notin> region a 2 \<Longrightarrow> st16 a v m x = m x"
  by (simp add: st16_def region_2)

lemma ld32_cong: "(\<And>x. x \<in> region a 4 \<Longrightarrow> m x = m' x) \<Longrightarrow> ld32 m a = ld32 m' a"
  by (simp add: ld32_def region_4)

lemma ld16_cong: "(\<And>x. x \<in> region a 2 \<Longrightarrow> m x = m' x) \<Longrightarrow> ld16 m a = ld16 m' a"
  by (simp add: ld16_def region_2)

lemma ld32_st32_disjoint:
  "region a 4 \<inter> region b 4 = {} \<Longrightarrow> ld32 (st32 a v m) b = ld32 m b"
  by (rule ld32_cong) (rule st32_outside, blast)

text \<open>Words at distinct addresses that are multiples of four do not overlap.\<close>

abbreviation aligned4 :: "addr \<Rightarrow> bool" where
  "aligned4 a \<equiv> 4 dvd unat a"

lemma aligned4_room: "aligned4 a \<Longrightarrow> unat a + 4 \<le> 4294967296"
  using unat_uint_less [of a] by (auto elim!: dvdE)

lemma aligned4_disjoint:
  assumes "aligned4 a" "aligned4 b" "a \<noteq> b"
  shows "region a 4 \<inter> region b 4 = {}"
proof -
  have "unat a \<noteq> unat b" using assms(3) by (simp add: word_unat_eq_iff)
  then have "unat a + 4 \<le> unat b \<or> unat b + 4 \<le> unat a"
    using assms(1,2) by (auto elim!: dvdE)
  then have "x \<notin> region b 4" if "x \<in> region a 4" for x
    using that assms(1,2) by (auto simp: region_iff aligned4_room)
  then show ?thesis by blast
qed

lemma ld32_st32_aligned [mem_simps]:
  "aligned4 a \<Longrightarrow> aligned4 b \<Longrightarrow> ld32 (st32 a v m) b = (if a = b then v else ld32 m b)"
  by (cases "a = b") (simp, simp add: aligned4_disjoint ld32_st32_disjoint)

lemma region_offsets_disjoint:
  assumes "i + n \<le> j" "j + k \<le> 4294967296"
  shows "region (a + of_nat i) n \<inter> region (a + of_nat j) k = {}"
proof -
  have "a + of_nat i + of_nat p \<noteq> a + of_nat j + of_nat q" if "p < n" "q < k" for p q
  proof -
    have "(of_nat (i + p) :: addr) \<noteq> of_nat (j + q)"
      using that assms by (subst of_nat_inj_small) auto
    then show ?thesis by (simp add: add.assoc)
  qed
  then show ?thesis by (auto simp: region_def)
qed

text \<open>Words in a row.\<close>

primrec st_words :: "addr \<Rightarrow> uint list \<Rightarrow> memory \<Rightarrow> memory" where
  "st_words a [] m = m"
| "st_words a (w # ws) m = st_words (a + 4) ws (st32 a w m)"

lemma st_words_outside [frame_simps]:
  "x \<notin> region a (4 * length ws) \<Longrightarrow> st_words a ws m x = m x"
proof (induction ws arbitrary: a m)
  case (Cons w ws)
  have "region a 4 \<subseteq> region a (4 * length (w # ws))" by (rule region_mono) simp
  moreover have "region (a + 4) (4 * length ws) \<subseteq> region a (4 * length (w # ws))"
    using region_offset [of a 4 "4 * length ws"] by simp
  ultimately have "x \<notin> region a 4" "x \<notin> region (a + 4) (4 * length ws)"
    using Cons.prems by blast+
  then show ?case using Cons.IH [of "a + 4" "st32 a w m"] by (simp add: st32_outside)
qed simp

lemma ld32_st_words [mem_simps]:
  "4 * length ws \<le> 4294967296 \<Longrightarrow> i < length ws \<Longrightarrow> ld32 (st_words a ws m) (a + of_nat (4 * i)) = ws ! i"
proof (induction ws arbitrary: a m i)
  case (Cons w ws)
  show ?case
  proof (cases i)
    case 0
    have "region (a + of_nat 0) 4 \<inter> region (a + of_nat 4) (4 * length ws) = {}"
      using Cons.prems by (intro region_offsets_disjoint) auto
    then have "ld32 (st_words (a + 4) ws (st32 a w m)) a = ld32 (st32 a w m) a"
      by (intro ld32_cong st_words_outside) auto
    with 0 show ?thesis by simp
  next
    case (Suc j)
    then have "ld32 (st_words (a + 4) ws (st32 a w m)) (a + 4 + of_nat (4 * j)) = ws ! j"
      using Cons by simp
    with Suc show ?thesis by (simp add: add.assoc)
  qed
qed simp

section \<open>Byte sequences and NUL-terminated strings in memory\<close>

primrec bytes_at :: "memory \<Rightarrow> addr \<Rightarrow> byte list \<Rightarrow> bool" where
  "bytes_at m a [] = True"
| "bytes_at m a (b # bs) = (m a = b \<and> bytes_at m (a + 1) bs)"

primrec cstr :: "memory \<Rightarrow> addr \<Rightarrow> byte list \<Rightarrow> bool" where
  "cstr m a [] = (m a = 0)"
| "cstr m a (c # s) = (c \<noteq> 0 \<and> m a = c \<and> cstr m (a + 1) s)"

primrec st_bytes :: "addr \<Rightarrow> byte list \<Rightarrow> memory \<Rightarrow> memory" where
  "st_bytes a [] m = m"
| "st_bytes a (b # bs) m = st_bytes (a + 1) bs (m(a := b))"

lemma cstr_bytes_at: "cstr m a s \<longleftrightarrow> 0 \<notin> set s \<and> bytes_at m a (s @ [0])"
  by (induction s arbitrary: a) auto

lemma bytes_at_append:
  "bytes_at m a (xs @ ys) \<longleftrightarrow> bytes_at m a xs \<and> bytes_at m (a + of_nat (length xs)) ys"
  by (induction xs arbitrary: a) (auto simp: add.assoc)

lemma bytes_at_nth: "bytes_at m a bs \<Longrightarrow> i < length bs \<Longrightarrow> m (a + of_nat i) = bs ! i"
proof (induction bs arbitrary: a i)
  case (Cons b bs)
  then show ?case by (cases i) (auto simp: add.assoc [symmetric])
qed simp

lemma cstr_nth: "cstr m a s \<Longrightarrow> i < length s \<Longrightarrow> m (a + of_nat i) = s ! i \<and> s ! i \<noteq> 0"
  using bytes_at_nth [of m a "s @ [0]" i]
  by (auto simp: cstr_bytes_at nth_append) (metis nth_mem)

lemma cstr_end: "cstr m a s \<Longrightarrow> m (a + of_nat (length s)) = 0"
  by (simp add: cstr_bytes_at bytes_at_append)

text \<open>A string ends before it could wrap around the address space.\<close>

lemma cstr_length: "cstr m a s \<Longrightarrow> length s < 4294967296"
proof (rule ccontr)
  assume s: "cstr m a s" and "\<not> length s < 4294967296"
  then have le: "4294967296 \<le> length s" by simp
  define i where "i = length s - 4294967296"
  have "(of_nat (length s) :: addr) = of_nat i + of_nat 4294967296"
    using le unfolding i_def by (metis le_add_diff_inverse2 of_nat_add)
  then have "(of_nat (length s) :: addr) = of_nat i" by simp
  moreover have "i < length s" using le by (simp add: i_def)
  ultimately show False using cstr_nth [OF s, of i] cstr_end [OF s] by simp
qed

lemma bytes_at_cong:
  "(\<And>x. x \<in> region a (length bs) \<Longrightarrow> m x = m' x) \<Longrightarrow> bytes_at m a bs = bytes_at m' a bs"
  by (induction bs arbitrary: a) auto

lemma cstr_cong:
  "(\<And>x. x \<in> region a (Suc (length s)) \<Longrightarrow> m x = m' x) \<Longrightarrow> cstr m a s = cstr m' a s"
  using bytes_at_cong [of a "s @ [0]" m m'] by (simp add: cstr_bytes_at)

lemma cstr_unique: "cstr m a s \<Longrightarrow> cstr m a t \<Longrightarrow> s = t"
proof (induction s arbitrary: a t)
  case Nil
  then show ?case by (cases t) auto
next
  case (Cons c s)
  then show ?case by (cases t) auto
qed

lemma st_bytes_outside [frame_simps]:
  "x \<notin> region a (length bs) \<Longrightarrow> st_bytes a bs m x = m x"
  by (induction bs arbitrary: a m) auto

lemma st_bytes_append:
  "st_bytes a (xs @ ys) m = st_bytes (a + of_nat (length xs)) ys (st_bytes a xs m)"
  by (induction xs arbitrary: a m) (auto simp: add.assoc)

lemma region_next_notin: "n < 4294967296 \<Longrightarrow> a \<notin> region (a + 1) n"
proof
  assume n: "n < 4294967296" and "a \<in> region (a + 1) n"
  then obtain i where "i < n" and "a = a + 1 + of_nat i" by (auto simp: region_def)
  then have "(of_nat (Suc i) :: addr) = of_nat 0" by (simp add: add.assoc)
  moreover have "Suc i < 4294967296" using n \<open>i < n\<close> by simp
  ultimately show False by (subst (asm) of_nat_inj_small) auto
qed

lemma bytes_at_st_bytes [mem_simps]:
  "length bs \<le> 4294967296 \<Longrightarrow> bytes_at (st_bytes a bs m) a bs"
proof (induction bs arbitrary: a m)
  case (Cons b bs)
  then have "a \<notin> region (a + 1) (length bs)" by (intro region_next_notin) simp
  with Cons show ?case by (simp add: st_bytes_outside)
qed simp

lemma st_bytes_same: "bytes_at m a bs \<Longrightarrow> st_bytes a bs m = m"
proof (induction bs arbitrary: a)
  case (Cons b bs)
  then have "m(a := b) = m" by auto
  with Cons show ?case by simp
qed simp

lemma cstr_bytes: "cstr m a s \<Longrightarrow> bytes_at m a s"
  by (simp add: cstr_bytes_at bytes_at_append)

text \<open>Executable abstraction of a string of at most \<open>n\<close> bytes.\<close>

fun read_cstr :: "nat \<Rightarrow> memory \<Rightarrow> addr \<Rightarrow> byte list option" where
  "read_cstr 0 m a = None"
| "read_cstr (Suc n) m a =
     (if m a = 0 then Some [] else map_option ((#) (m a)) (read_cstr n m (a + 1)))"

lemma read_cstr_iff: "read_cstr n m a = Some s \<longleftrightarrow> length s < n \<and> cstr m a s"
proof (induction n m a arbitrary: s rule: read_cstr.induct)
  case (2 n m a)
  then show ?case by (cases s) auto
qed simp

section \<open>Ports\<close>

text \<open>
  What the kernel does to the hardware goes through \<open>inportb\<close>, \<open>outportb\<close>, \<open>inportw\<close> and
  \<open>outportw\<close> (\<open>kernel/x86.c\<close>). The state keeps the whole history of port accesses. The hardware is a
  parameter: a \<open>device\<close> answers an input from the history so far. The answer is the full
  32-bit register \<open>eax\<close> after the \<open>in\<close> instruction: \<open>inb\<close> and \<open>inw\<close> set only its low 8 and
  16 bits, and the C code returns the register as it is.
\<close>

datatype io_event = Out8 uint byte | Out16 uint half | In8 uint uint | In16 uint uint

type_synonym device = "io_event list \<Rightarrow> uint \<Rightarrow> uint"

record machine =
  mem :: memory
  io :: "io_event list"

definition inportb :: "device \<Rightarrow> uint \<Rightarrow> 'a machine_scheme \<Rightarrow> uint \<times> 'a machine_scheme" where
  "inportb dev port s = (let v = dev (io s) port in (v, s\<lparr>io := io s @ [In8 port v]\<rparr>))"

definition inportw :: "device \<Rightarrow> uint \<Rightarrow> 'a machine_scheme \<Rightarrow> uint \<times> 'a machine_scheme" where
  "inportw dev port s = (let v = dev (io s) port in (v, s\<lparr>io := io s @ [In16 port v]\<rparr>))"

definition outportb :: "uint \<Rightarrow> uint \<Rightarrow> 'a machine_scheme \<Rightarrow> 'a machine_scheme" where
  "outportb port val s = s\<lparr>io := io s @ [Out8 port (ucast val)]\<rparr>"

definition outportw :: "uint \<Rightarrow> uint \<Rightarrow> 'a machine_scheme \<Rightarrow> 'a machine_scheme" where
  "outportw port val s = s\<lparr>io := io s @ [Out16 port (ucast val)]\<rparr>"

lemma outportb_simps [simp, frame_simps]:
  "mem (outportb port val s) = mem s"
  "io (outportb port val s) = io s @ [Out8 port (ucast val)]"
  by (simp_all add: outportb_def)

lemma outportw_simps [simp, frame_simps]:
  "mem (outportw port val s) = mem s"
  "io (outportw port val s) = io s @ [Out16 port (ucast val)]"
  by (simp_all add: outportw_def)

text \<open>
  \<open>answers dev h t\<close>: from history \<open>h\<close> on the device gives the answers that the trace \<open>t\<close> of port
  accesses records.
\<close>

fun answer :: "device \<Rightarrow> io_event list \<Rightarrow> io_event \<Rightarrow> bool" where
  "answer dev h (In8 p v) = (dev h p = v)"
| "answer dev h (In16 p v) = (dev h p = v)"
| "answer dev h _ = True"

primrec answers :: "device \<Rightarrow> io_event list \<Rightarrow> io_event list \<Rightarrow> bool" where
  "answers dev h [] = True"
| "answers dev h (e # t) = (answer dev h e \<and> answers dev (h @ [e]) t)"

lemma answers_append [simp]: "answers dev h (t @ u) \<longleftrightarrow> answers dev h t \<and> answers dev (h @ t) u"
  by (induction t arbitrary: h) auto

text \<open>Waiting: a loop that reads a status port until a bit is set or clear.\<close>

partial_function (option) poll ::
    "device \<Rightarrow> uint \<Rightarrow> (uint \<Rightarrow> bool) \<Rightarrow> 'a machine_scheme \<Rightarrow> 'a machine_scheme option" where
  "poll dev port again s =
     (case inportb dev port s of (v, s1) \<Rightarrow> if again v then poll dev port again s1 else Some s1)"

lemma poll_trace:
  "answers dev (io s) (map (In8 port) (vs @ [w])) \<Longrightarrow> list_all again vs \<Longrightarrow> \<not> again w \<Longrightarrow>
   poll dev port again s = Some (s\<lparr>io := io s @ map (In8 port) (vs @ [w])\<rparr>)"
proof (induction vs arbitrary: s)
  case Nil
  then show ?case by (subst poll.simps) (simp add: inportb_def Let_def)
next
  case (Cons v vs)
  then have "poll dev port again (s\<lparr>io := io s @ [In8 port v]\<rparr>) =
      Some (s\<lparr>io := (io s @ [In8 port v]) @ map (In8 port) (vs @ [w])\<rparr>)"
    using Cons.IH [of "s\<lparr>io := io s @ [In8 port v]\<rparr>"] by simp
  with Cons.prems show ?case by (subst poll.simps) (simp add: inportb_def Let_def)
qed

text \<open>A device that plays back a trace, for concrete runs.\<close>

fun reply :: "io_event \<Rightarrow> uint" where
  "reply (In8 p v) = v"
| "reply (In16 p v) = v"
| "reply _ = 0"

definition replay :: "io_event list \<Rightarrow> device" where
  "replay t h p = (if length h < length t then reply (t ! length h) else 0)"

lemma answer_reply: "dev h p = reply e \<Longrightarrow> (\<And>q. dev h q = dev h p) \<Longrightarrow> answer dev h e"
  by (cases e) simp_all

lemma answers_replay_suffix: "t = h @ u \<Longrightarrow> answers (replay t) h u"
proof (induction u arbitrary: h)
  case (Cons e u)
  then have "answer (replay t) h e" by (intro answer_reply) (simp_all add: replay_def)
  with Cons show ?case by simp
qed simp

lemma answers_replay: "answers (replay t) [] t"
  by (simp add: answers_replay_suffix)

end
