(* ===== verification/String_Lib.thy ===== *)
theory String_Lib
  imports Janus_Prelude
begin

text \<open>
  The kernel's string library, \<open>src/kernel/string.c\<close>: every function of the file, on addresses
  of the byte memory, as the loops of the source run. A loop that is not bounded by a counter is a
  \<open>partial_function\<close>, so not returning is \<open>None\<close>. \<open>char\<close> is signed: comparisons read bytes with
  \<open>sint\<close>. The list functions \<open>strcmp_spec\<close>, \<open>dec_value\<close>, \<open>hex_value\<close> are
  what the library promises on strings as lists; the lemmas relate the two.
\<close>

section \<open>memset, memcpy, memcmp\<close>

fun memset_loop :: "nat \<Rightarrow> addr \<Rightarrow> uint \<Rightarrow> memory \<Rightarrow> memory" where
  "memset_loop 0 p c m = m"
| "memset_loop (Suc n) p c m = memset_loop n (p + 1) c (m(p := ucast c))"

definition memset :: "addr \<Rightarrow> uint \<Rightarrow> uint \<Rightarrow> memory \<Rightarrow> addr \<times> memory" where
  "memset s c n m = (s, memset_loop (unat n) s c m)"

fun memcpy_loop :: "nat \<Rightarrow> addr \<Rightarrow> addr \<Rightarrow> memory \<Rightarrow> memory" where
  "memcpy_loop 0 d s m = m"
| "memcpy_loop (Suc n) d s m = memcpy_loop n (d + 1) (s + 1) (m(d := m s))"

definition memcpy :: "addr \<Rightarrow> addr \<Rightarrow> uint \<Rightarrow> memory \<Rightarrow> addr \<times> memory" where
  "memcpy dst src n m = (dst, memcpy_loop (unat n) dst src m)"

text \<open>The loop of \<open>memcmp\<close> never decrements \<open>n\<close>.\<close>

partial_function (option) memcmp :: "memory \<Rightarrow> addr \<Rightarrow> addr \<Rightarrow> uint \<Rightarrow> int option" where
  "memcmp m s1 s2 n =
     (if n > 0 then
        (let cmp = sint (m s1) - sint (m s2)
         in if cmp \<noteq> 0 then Some cmp else memcmp m (s1 + 1) (s2 + 1) n)
      else Some 0)"

section \<open>Lengths and comparison\<close>

partial_function (option) strlen_loop :: "memory \<Rightarrow> addr \<Rightarrow> uint \<Rightarrow> uint option" where
  "strlen_loop m s len = (if m s \<noteq> 0 then strlen_loop m (s + 1) (len + 1) else Some len)"

definition strlen :: "memory \<Rightarrow> addr \<Rightarrow> uint option" where
  "strlen m s = strlen_loop m s 0"

function strnlen_loop :: "memory \<Rightarrow> addr \<Rightarrow> uint \<Rightarrow> uint \<Rightarrow> uint" where
  "strnlen_loop m s maxlen len =
     (if len < maxlen \<and> m s \<noteq> 0 then strnlen_loop m (s + 1) maxlen (len + 1) else len)"
  by pat_completeness auto
termination
proof (relation "measure (\<lambda>(m, s, maxlen, len). unat maxlen - unat len)", simp)
  fix m :: memory and s maxlen len :: uint
  assume "len < maxlen \<and> m s \<noteq> 0"
  then have "unat len < unat maxlen" by (simp add: word_less_nat_alt)
  moreover have "unat (len + 1) = unat len + 1"
    using \<open>len < maxlen \<and> m s \<noteq> 0\<close> by (blast intro: unat_inc)
  ultimately show "((m, s + 1, maxlen, len + 1), m, s, maxlen, len)
      \<in> measure (\<lambda>(m, s, maxlen, len). unat maxlen - unat len)" by simp
qed

definition strnlen :: "memory \<Rightarrow> addr \<Rightarrow> uint \<Rightarrow> uint" where
  "strnlen m s maxlen = strnlen_loop m s maxlen 0"

partial_function (option) strcmp :: "memory \<Rightarrow> addr \<Rightarrow> addr \<Rightarrow> int option" where
  "strcmp m s1 s2 =
     (let cmp = sint (m s1) - sint (m s2)
      in if cmp \<noteq> 0 \<or> m s1 = 0 \<or> m s2 = 0 then Some cmp else strcmp m (s1 + 1) (s2 + 1))"

text \<open>\<open>i\<close> counts up to \<open>limit\<close>: the recursion is on \<open>limit - i\<close>.\<close>

fun strncmp_loop :: "nat \<Rightarrow> memory \<Rightarrow> addr \<Rightarrow> addr \<Rightarrow> int" where
  "strncmp_loop 0 m s1 s2 = 0"
| "strncmp_loop (Suc k) m s1 s2 =
     (let cmp = sint (m s1) - sint (m s2)
      in if cmp \<noteq> 0 \<or> m s1 = 0 \<or> m s2 = 0 then cmp else strncmp_loop k m (s1 + 1) (s2 + 1))"

definition strncmp :: "memory \<Rightarrow> addr \<Rightarrow> addr \<Rightarrow> uint \<Rightarrow> int" where
  "strncmp m s1 s2 limit = strncmp_loop (unat limit) m s1 s2"

section \<open>Copying\<close>

partial_function (option) str_end :: "memory \<Rightarrow> addr \<Rightarrow> addr option" where
  "str_end m s = (if m s \<noteq> 0 then str_end m (s + 1) else Some s)"

partial_function (option) strcpy_loop :: "addr \<Rightarrow> addr \<Rightarrow> memory \<Rightarrow> memory option" where
  "strcpy_loop dest src m =
     (if m src \<noteq> 0 then strcpy_loop (dest + 1) (src + 1) (m(dest := m src))
      else Some (m(dest := 0)))"

definition strcat :: "addr \<Rightarrow> addr \<Rightarrow> memory \<Rightarrow> (addr \<times> memory) option" where
  "strcat s1 s2 m = do {
     e \<leftarrow> str_end m s1;
     m' \<leftarrow> strcpy_loop e s2 m;
     Some (s1, m') }"

definition strcpy :: "addr \<Rightarrow> addr \<Rightarrow> memory \<Rightarrow> (addr \<times> memory) option" where
  "strcpy dest src m = do { m' \<leftarrow> strcpy_loop dest src m; Some (dest, m') }"

fun strncpy_loop :: "nat \<Rightarrow> addr \<Rightarrow> addr \<Rightarrow> memory \<Rightarrow> memory" where
  "strncpy_loop 0 dest src m = m"
| "strncpy_loop (Suc limit) dest src m =
     (if m src \<noteq> 0 then strncpy_loop limit (dest + 1) (src + 1) (m(dest := m src))
      else m(dest := 0))"

definition strncpy :: "addr \<Rightarrow> addr \<Rightarrow> uint \<Rightarrow> memory \<Rightarrow> addr \<times> memory" where
  "strncpy dest src limit m = (dest, strncpy_loop (unat limit) dest src m)"

section \<open>Numbers\<close>

text \<open>\<open>power(a, b)\<close>: \<open>int\<close> products wrap; a negative \<open>b\<close> runs the loop not at all.\<close>

fun power_loop :: "nat \<Rightarrow> uint \<Rightarrow> uint \<Rightarrow> uint" where
  "power_loop 0 pro a = pro"
| "power_loop (Suc n) pro a = power_loop n (pro * a) a"

definition c_power :: "uint \<Rightarrow> uint \<Rightarrow> uint" where
  "c_power a b = power_loop (nat (sint b)) 1 a"

text \<open>The three range tests of the hexadecimal branch; no match leaves \<open>val\<close> as it was.\<close>

definition hex_val :: "byte \<Rightarrow> uint \<Rightarrow> uint" where
  "hex_val c val =
     (let v1 = (if sint c \<ge> 48 \<and> sint c \<le> 57 then scast c - 48 else val);
          v2 = (if sint c \<ge> 65 \<and> sint c \<le> 70 then scast c - 65 + 10 else v1)
      in if sint c \<ge> 97 \<and> sint c \<le> 102 then scast c - 97 + 10 else v2)"

fun atoi_hex :: "nat \<Rightarrow> memory \<Rightarrow> addr \<Rightarrow> uint \<Rightarrow> uint \<Rightarrow> uint \<Rightarrow> uint" where
  "atoi_hex 0 m buf i val ret = ret"
| "atoi_hex (Suc len) m buf i val ret =
     (let val' = hex_val (m (buf + of_nat len)) val
      in atoi_hex len m buf (i + 1) val' (ret + c_power 16 i * val'))"

partial_function (option) atoi_dec :: "memory \<Rightarrow> addr \<Rightarrow> uint \<Rightarrow> uint option" where
  "atoi_dec m buf ret =
     (if sint (m buf) \<ge> 48 \<and> sint (m buf) \<le> 57
      then atoi_dec m (buf + 1) (ret * 10 + (scast (m buf) - 48)) else Some ret)"

text \<open>\<open>val0\<close> is what the uninitialised local \<open>val\<close> holds on entry.\<close>

definition atoi :: "uint \<Rightarrow> memory \<Rightarrow> addr \<Rightarrow> uint option" where
  "atoi val0 m buf =
     (if m buf = 48 \<and> (m (buf + 1) = 120 \<or> m (buf + 1) = 88) then do {
        len \<leftarrow> strlen m (buf + 2);
        Some (atoi_hex (nat (sint len)) m (buf + 2) 0 val0 0) }
      else atoi_dec m buf 0)"

section \<open>Searching\<close>

partial_function (option) strchr :: "memory \<Rightarrow> addr \<Rightarrow> uint \<Rightarrow> addr option" where
  "strchr m s c =
     (if m s \<noteq> 0 then (if sint (m s) = sint c then Some s else strchr m (s + 1) c) else Some NULL)"

function strrchr_loop :: "memory \<Rightarrow> addr \<Rightarrow> uint \<Rightarrow> addr \<Rightarrow> addr" where
  "strrchr_loop m s c p =
     (if p > s then (if sint (m (p - 1)) = sint c then p - 1 else strrchr_loop m s c (p - 1))
      else NULL)"
  by pat_completeness auto
termination
  by (relation "measure (\<lambda>(m, s, c, p). unat p)") (auto dest: unat_dec)

definition strrchr :: "memory \<Rightarrow> addr \<Rightarrow> uint \<Rightarrow> addr option" where
  "strrchr m s c = do { len \<leftarrow> strlen m s; Some (strrchr_loop m s c (s + len)) }"

fun in_accept :: "nat \<Rightarrow> memory \<Rightarrow> byte \<Rightarrow> addr \<Rightarrow> bool" where
  "in_accept 0 m c accept = False"
| "in_accept (Suc n) m c accept = (c = m accept \<or> in_accept n m c (accept + 1))"

partial_function (option) strpbrk_loop :: "memory \<Rightarrow> addr \<Rightarrow> addr \<Rightarrow> nat \<Rightarrow> addr option" where
  "strpbrk_loop m s accept n =
     (if m s \<noteq> 0 then (if in_accept n m (m s) accept then Some s
                       else strpbrk_loop m (s + 1) accept n) else Some NULL)"

definition strpbrk :: "memory \<Rightarrow> addr \<Rightarrow> addr \<Rightarrow> addr option" where
  "strpbrk m s accept = do { setLen \<leftarrow> strlen m accept; strpbrk_loop m s accept (unat setLen) }"

declare strnlen_loop.simps [simp del] strrchr_loop.simps [simp del]

section \<open>What the library promises, on lists\<close>

fun strcmp_spec :: "byte list \<Rightarrow> byte list \<Rightarrow> int" where
  "strcmp_spec [] [] = 0"
| "strcmp_spec [] (d # t) = - sint d"
| "strcmp_spec (c # s) [] = sint c"
| "strcmp_spec (c # s) (d # t) = (if c = d then strcmp_spec s t else sint c - sint d)"

definition is_dec :: "byte \<Rightarrow> bool" where
  "is_dec c \<longleftrightarrow> 48 \<le> unat c \<and> unat c \<le> 57"

definition is_hex :: "byte \<Rightarrow> bool" where
  "is_hex c \<longleftrightarrow> is_dec c \<or> 65 \<le> unat c \<and> unat c \<le> 70 \<or> 97 \<le> unat c \<and> unat c \<le> 102"

definition digit_value :: "byte \<Rightarrow> nat" where
  "digit_value c =
     (if unat c \<le> 57 then unat c - 48 else if unat c \<le> 70 then unat c - 55 else unat c - 87)"

fun value_of :: "nat \<Rightarrow> nat \<Rightarrow> byte list \<Rightarrow> nat" where
  "value_of radix acc [] = acc"
| "value_of radix acc (c # s) = value_of radix (radix * acc + digit_value c) s"

abbreviation dec_value :: "byte list \<Rightarrow> nat" where
  "dec_value \<equiv> value_of 10 0"

abbreviation hex_value :: "byte list \<Rightarrow> nat" where
  "hex_value \<equiv> value_of 16 0"

lemma value_of_append:
  "value_of radix acc (s @ t) = value_of radix (value_of radix acc s) t"
  by (induction s arbitrary: acc) auto

section \<open>Lengths\<close>

lemma strlen_loop_cstr: "cstr m a s \<Longrightarrow> strlen_loop m a len = Some (len + of_nat (length s))"
  by (induction s arbitrary: a len) (simp_all add: strlen_loop.simps)

lemma strlen_cstr: "cstr m a s \<Longrightarrow> strlen m a = Some (of_nat (length s))"
  by (simp add: strlen_def strlen_loop_cstr)

lemma strlen_loop_Some:
  assumes "strlen_loop m a len = Some n"
  shows "\<exists>s. cstr m a s \<and> n = len + of_nat (length s)"
proof (rule strlen_loop.raw_induct
    [where P = "\<lambda>m a len n. \<exists>s. cstr m a s \<and> n = len + of_nat (length s)", OF _ assms])
  fix f m a len n
  assume IH: "\<And>m a len n. f m a len = Some n \<Longrightarrow> \<exists>s. cstr m a s \<and> n = len + of_nat (length s)"
    and eq: "(if m a \<noteq> 0 then f m (a + 1) (len + 1) else Some len) = Some n"
  show "\<exists>s. cstr m a s \<and> n = len + of_nat (length s)"
  proof (cases "m a = 0")
    case True
    with eq show ?thesis by (intro exI [of _ "[]"]) simp
  next
    case False
    with eq IH [of m "a + 1" "len + 1" n] obtain s
      where "cstr m (a + 1) s" "n = len + 1 + of_nat (length s)" by auto
    with False show ?thesis by (intro exI [of _ "m a # s"]) (simp add: add.assoc)
  qed
qed

lemma strnlen_loop_cstr:
  "cstr m a s \<Longrightarrow> len \<le> maxlen \<Longrightarrow>
     unat (strnlen_loop m a maxlen len) = min (unat len + length s) (unat maxlen)"
proof (induction s arbitrary: a len)
  case Nil
  then show ?case by (subst strnlen_loop.simps) (simp add: word_le_nat_alt min_def)
next
  case (Cons c s)
  show ?case
  proof (cases "len < maxlen")
    case True
    then have "unat (len + 1) = unat len + 1" by (rule unat_inc)
    moreover from this True have "len + 1 \<le> maxlen" by (simp add: word_le_nat_alt word_less_nat_alt)
    ultimately show ?thesis using Cons True by (subst strnlen_loop.simps) simp
  next
    case False
    with Cons.prems have "len = maxlen" by simp
    then show ?thesis by (subst strnlen_loop.simps) simp
  qed
qed

section \<open>Comparison\<close>

lemma strcmp_cstr: "cstr m a s \<Longrightarrow> cstr m b t \<Longrightarrow> strcmp m a b = Some (strcmp_spec s t)"
proof (induction s t arbitrary: a b rule: strcmp_spec.induct)
  case 1
  then show ?case by (simp add: strcmp.simps)
next
  case (2 d t)
  then show ?case by (simp add: strcmp.simps)
next
  case (3 c s)
  then show ?case by (simp add: strcmp.simps)
next
  case (4 c s d t)
  then show ?case
    by (subst strcmp.simps) (auto simp: Let_def)
qed

lemma strncmp_cstr:
  "cstr m a s \<Longrightarrow> cstr m b t \<Longrightarrow>
     strncmp_loop n m a b = strcmp_spec (take n s) (take n t)"
proof (induction n arbitrary: a b s t)
  case (Suc n)
  then show ?case
    by (cases s; cases t) (auto simp: Let_def)
qed simp

lemma strcmp_spec_eq_0:
  "0 \<notin> set s \<Longrightarrow> 0 \<notin> set t \<Longrightarrow> strcmp_spec s t = 0 \<longleftrightarrow> s = t"
  by (induction s t rule: strcmp_spec.induct) (auto simp: signed_eq_0_iff)

lemma strcmp_spec_swap: "strcmp_spec t s = - strcmp_spec s t"
  by (induction s t rule: strcmp_spec.induct) auto

section \<open>Copying and filling\<close>

lemma memset_loop_st_bytes: "memset_loop n p c m = st_bytes p (replicate n (ucast c)) m"
  by (induction n arbitrary: p m) auto

definition bytes_of :: "memory \<Rightarrow> addr \<Rightarrow> nat \<Rightarrow> byte list" where
  "bytes_of m a n = map (\<lambda>i. m (a + of_nat i)) [0..<n]"

lemma bytes_of_simps [simp]:
  "bytes_of m a 0 = []"
  "bytes_of m a (Suc n) = m a # bytes_of m (a + 1) n"
proof -
  show "bytes_of m a 0 = []" by (simp add: bytes_of_def)
  have "[0..<Suc n] = 0 # map Suc [0..<n]" by (simp add: map_Suc_upt upt_conv_Cons)
  then show "bytes_of m a (Suc n) = m a # bytes_of m (a + 1) n"
    by (simp add: bytes_of_def add.assoc)
qed

lemma bytes_of_numeral: "bytes_of m a (numeral k) = m a # bytes_of m (a + 1) (pred_numeral k)"
  by (simp add: numeral_eq_Suc)

lemma bytes_of_cong:
  "(\<And>x. x \<in> region a n \<Longrightarrow> m x = m' x) \<Longrightarrow> bytes_of m a n = bytes_of m' a n"
  by (induction n arbitrary: a) auto

lemma bytes_at_bytes_of: "bytes_at m a bs \<longleftrightarrow> bytes_of m a (length bs) = bs"
  by (induction bs arbitrary: a) auto

lemma memcpy_loop_st_bytes:
  "region d n \<inter> region s n = {} \<Longrightarrow> memcpy_loop n d s m = st_bytes d (bytes_of m s n) m"
proof (induction n arbitrary: d s m)
  case (Suc n)
  then have "region (d + 1) n \<inter> region (s + 1) n = {}"
    and eq: "bytes_of (m(d := m s)) (s + 1) n = bytes_of m (s + 1) n"
    by (auto intro!: bytes_of_cong)
  with Suc.IH show ?case by (simp del: fun_upd_apply)
qed simp

lemma str_end_cstr: "cstr m a s \<Longrightarrow> str_end m a = Some (a + of_nat (length s))"
  by (induction s arbitrary: a) (simp_all add: str_end.simps add.assoc)

lemma strcpy_loop_st_bytes:
  "cstr m src s \<Longrightarrow> region dest (length s) \<inter> region src (Suc (length s)) = {} \<Longrightarrow>
     strcpy_loop dest src m = Some (st_bytes dest (s @ [0]) m)"
proof (induction s arbitrary: dest src m)
  case Nil
  then show ?case by (subst strcpy_loop.simps) simp
next
  case (Cons c s)
  let ?m = "m(dest := m src)"
  from Cons.prems have "cstr m (src + 1) s" by simp
  then have c: "cstr ?m (src + 1) s"
    using Cons.prems(2) by (subst cstr_cong [of _ _ _ m]) auto
  moreover have "region (dest + 1) (length s) \<inter> region (src + 1) (Suc (length s)) = {}"
    using Cons.prems(2) by auto
  ultimately have "strcpy_loop (dest + 1) (src + 1) ?m = Some (st_bytes (dest + 1) (s @ [0]) ?m)"
    by (rule Cons.IH)
  with Cons.prems(1) show ?case by (subst strcpy_loop.simps) simp
qed

lemma cstr_st_bytes [mem_simps]:
  "0 \<notin> set s \<Longrightarrow> length s < 4294967296 \<Longrightarrow> cstr (st_bytes a (s @ [0]) m) a s"
  by (simp add: cstr_bytes_at bytes_at_st_bytes)

lemma strncpy_loop_st_bytes:
  "cstr m src s \<Longrightarrow> region dest n \<inter> region src (Suc (length s)) = {} \<Longrightarrow>
     strncpy_loop n dest src m =
       st_bytes dest (take n s @ (if length s < n then [0] else [])) m"
proof (induction n arbitrary: dest src m s)
  case (Suc n)
  show ?case
  proof (cases s)
    case Nil
    with Suc.prems show ?thesis by simp
  next
    case (Cons c t)
    let ?m = "m(dest := m src)"
    from Suc.prems(2) Cons have disj: "region (dest + 1) n \<inter> region (src + 1) (Suc (length t)) = {}"
      and d: "dest \<notin> region (src + 1) (Suc (length t))" by auto
    have "cstr ?m (src + 1) t"
      using Suc.prems(1) Cons d by (subst cstr_cong [of _ _ _ m]) auto
    from Suc.IH [OF this disj] show ?thesis
      using Suc.prems(1) Cons by (simp del: fun_upd_apply)
  qed
qed simp

section \<open>The comparison that ignores its length\<close>

lemma memcmp_differ:
  "0 < n \<Longrightarrow> \<forall>i < j. m (a + of_nat i) = m (b + of_nat i) \<Longrightarrow> m (a + of_nat j) \<noteq> m (b + of_nat j) \<Longrightarrow>
   memcmp m a b n = Some (sint (m (a + of_nat j)) - sint (m (b + of_nat j)))"
proof (induction j arbitrary: a b)
  case 0
  then show ?case by (subst memcmp.simps) (auto simp: Let_def)
next
  case (Suc j)
  have "\<forall>i < j. m (a + 1 + of_nat i) = m (b + 1 + of_nat i)" using Suc.prems(2) by (auto simp: add.assoc dest: spec [of _ "Suc _"])
  moreover have "m (a + 1 + of_nat j) \<noteq> m (b + 1 + of_nat j)" using Suc.prems(3) by (simp add: add.assoc)
  ultimately have "memcmp m (a + 1) (b + 1) n = Some (sint (m (a + 1 + of_nat j)) - sint (m (b + 1 + of_nat j)))"
    by (rule Suc.IH [OF Suc.prems(1)])
  moreover have "m a = m b" using Suc.prems(2) by (auto dest: spec [of _ 0])
  ultimately show ?case using Suc.prems(1) by (subst memcmp.simps) (simp add: Let_def add.assoc)
qed

lemma memcmp_equal_None:
  assumes "0 < n" "\<forall>i. m (a + of_nat i) = m (b + of_nat i)"
  shows "memcmp m a b n = None"
proof (rule ccontr)
  assume "memcmp m a b n \<noteq> None"
  then obtain r where r: "memcmp m a b n = Some r" by blast
  have "\<not> (0 < n \<and> (\<forall>i. m (a + of_nat i) = m (b + of_nat i)))"
  proof (rule memcmp.raw_induct [where P = "\<lambda>m a b n r. \<not> (0 < n \<and> (\<forall>i. m (a + of_nat i) = m (b + of_nat i)))", OF _ r])
    fix f m a b n r
    assume IH: "\<And>m a b n r. f m a b n = Some r \<Longrightarrow> \<not> (0 < n \<and> (\<forall>i. m (a + of_nat i) = m (b + of_nat i)))"
      and eq: "(if 0 < n then let cmp = sint (m a) - sint (m b)
          in if cmp \<noteq> 0 then Some cmp else f m (a + 1) (b + 1) n else Some 0) = Some r"
    show "\<not> (0 < n \<and> (\<forall>i. m (a + of_nat i) = m (b + of_nat i)))"
    proof
      assume s: "0 < n \<and> (\<forall>i. m (a + of_nat i) = m (b + of_nat i))"
      then have "m a = m b" by (auto dest: spec [of _ 0])
      then have "f m (a + 1) (b + 1) n = Some r" using eq s by (simp add: Let_def)
      moreover have "m (a + 1 + of_nat i) = m (b + 1 + of_nat i)" for i using s by (auto simp: add.assoc dest: spec [of _ "Suc i"])
      ultimately show False using IH s by blast
    qed
  qed
  with assms show False by simp
qed

section \<open>Numbers\<close>

lemma power_loop_eq: "power_loop n pro a = pro * a ^ n"
  by (induction n arbitrary: pro) (auto simp: mult.assoc)

lemma c_power_of_nat: "n < 2147483648 \<Longrightarrow> c_power a (of_nat n) = a ^ n"
  by (simp add: c_power_def power_loop_eq sint_of_nat_small)

lemma is_dec_sint: "is_dec c \<longleftrightarrow> 48 \<le> sint c \<and> sint c \<le> 57"
  using sint_range_ascii [of 57 48 c] by (simp add: is_dec_def)

lemma dec_step: "is_dec c \<Longrightarrow> (scast c - 48 :: uint) = of_nat (digit_value c)"
  by (simp add: is_dec_def digit_value_def scast_ascii of_nat_diff)

lemma hex_val_digit: "is_hex c \<Longrightarrow> hex_val c val = of_nat (digit_value c)"
  using sint_range_ascii [of 57 48 c] sint_range_ascii [of 70 65 c] sint_range_ascii [of 102 97 c]
  by (auto simp: hex_val_def is_hex_def is_dec_def digit_value_def scast_ascii of_nat_diff Let_def)

lemma atoi_dec_cstr:
  assumes "cstr m a (ds @ rest)" "list_all is_dec ds" "rest = [] \<or> \<not> is_dec (hd rest)"
  shows "atoi_dec m a (of_nat acc) = Some (of_nat (value_of 10 acc ds))"
  using assms
proof (induction ds arbitrary: a acc)
  case Nil
  have "\<not> is_dec (m a)"
    using Nil by (cases rest) (auto simp: is_dec_def)
  then show ?case by (subst atoi_dec.simps) (auto simp: is_dec_sint)
next
  case (Cons d ds)
  then have "atoi_dec m (a + 1) (of_nat (10 * acc + digit_value d)) =
      Some (of_nat (value_of 10 (10 * acc + digit_value d) ds))" by (intro Cons.IH) auto
  with Cons.prems show ?case
    by (subst atoi_dec.simps) (auto simp: is_dec_sint [symmetric] dec_step mult.commute)
qed

lemma atoi_hex_digits:
  assumes "bytes_at m buf ds" "list_all is_hex ds" "k + length ds < 2147483648"
  shows "atoi_hex (length ds) m buf (of_nat k) val ret = ret + 16 ^ k * of_nat (hex_value ds)"
  using assms
proof (induction ds arbitrary: k val ret rule: rev_induct)
  case (snoc d ds)
  let ?v = "of_nat (digit_value d) :: uint"
  have d: "m (buf + of_nat (length ds)) = d" and ds: "bytes_at m buf ds"
    using snoc.prems(1) by (auto simp: bytes_at_append)
  have p: "c_power 16 (of_nat k) = 16 ^ k" using snoc.prems(3) by (intro c_power_of_nat) simp
  have "atoi_hex (length (ds @ [d])) m buf (of_nat k) val ret =
      atoi_hex (length ds) m buf (of_nat (Suc k)) ?v (ret + 16 ^ k * ?v)"
    using snoc.prems(2) by (simp add: d p hex_val_digit Let_def add.commute)
  also have "\<dots> = ret + 16 ^ k * ?v + 16 ^ Suc k * of_nat (hex_value ds)"
    using ds snoc.prems by (intro snoc.IH) auto
  also have "\<dots> = ret + 16 ^ k * of_nat (hex_value (ds @ [d]))"
    by (simp add: value_of_append algebra_simps)
  finally show ?case .
qed simp

section \<open>Searching\<close>

lemma strchr_cstr:
  "cstr m a s \<Longrightarrow> strchr m a (scast c) =
     Some (if c \<in> set s then a + of_nat (length (takeWhile (\<lambda>x. x \<noteq> c) s)) else NULL)"
proof (induction s arbitrary: a)
  case Nil
  then show ?case by (subst strchr.simps) simp
next
  case (Cons d s)
  then show ?case by (subst strchr.simps) (auto simp: add.assoc)
qed

lemma strrchr_loop_bytes:
  assumes "bytes_at m a s" "unat a + length s < 4294967296"
  shows "strrchr_loop m a (scast c) (a + of_nat (length s)) =
     (if c \<in> set s
      then a + of_nat (length s - 1 - length (takeWhile (\<lambda>x. x \<noteq> c) (rev s))) else NULL)"
  using assms
proof (induction s rule: rev_induct)
  case Nil
  then show ?case by (subst strrchr_loop.simps) simp
next
  case (snoc d s)
  have gt: "a + of_nat (length (s @ [d])) > a"
    using snoc.prems(2) unat_add_of_nat [of a "length (s @ [d])"] by (simp add: word_less_nat_alt)
  have prev: "a + of_nat (length (s @ [d])) - 1 = a + of_nat (length s)" by simp
  have d: "m (a + of_nat (length s)) = d" and s: "bytes_at m a s"
    using snoc.prems(1) by (auto simp: bytes_at_append)
  from snoc.IH [OF s] snoc.prems(2) show ?case
    by (subst strrchr_loop.simps) (simp only: gt prev d if_True, auto)
qed

lemma atoi_dec_value:
  assumes "cstr m buf (ds @ rest)" and "list_all is_dec ds" and "ds \<noteq> []"
    and "rest = [] \<or> \<not> is_dec (hd rest) \<and> hd rest \<notin> {88, 120}"
  shows "atoi val0 m buf = Some (of_nat (dec_value ds))"
proof -
  have "\<not> (m buf = 48 \<and> (m (buf + 1) = 120 \<or> m (buf + 1) = 88))"
  proof (cases "tl ds @ rest")
    case Nil
    with assms show ?thesis by (cases ds) auto
  next
    case (Cons c cs)
    with assms have "m (buf + 1) = c" by (cases ds) auto
    moreover have "c \<notin> {88, 120}"
      using Cons assms by (cases ds; cases "tl ds") (auto simp: is_dec_def)
    ultimately show ?thesis by auto
  qed
  then show ?thesis
    using atoi_dec_cstr [of m buf ds rest 0] assms by (auto simp: atoi_def)
qed

lemma atoi_hex_digits_value:
  assumes "cstr m buf (48 # x # ds)" and "x = 120 \<or> x = 88"
    and "list_all is_hex ds" and "length ds < 2147483648"
  shows "atoi val0 m buf = Some (of_nat (hex_value ds))"
proof -
  from assms(1) have ds: "cstr m (buf + 2) ds" by (simp add: add.assoc)
  have "atoi_hex (length ds) m (buf + 2) (of_nat 0) val0 0 = 0 + 16 ^ 0 * of_nat (hex_value ds)"
    using cstr_bytes [OF ds] assms(3,4) by (intro atoi_hex_digits) auto
  with assms strlen_cstr [OF ds] show ?thesis
    by (auto simp: atoi_def sint_of_nat_small)
qed

lemma atoi_dec_numeral:
  "cstr m buf ds \<Longrightarrow> list_all is_dec ds \<Longrightarrow> ds \<noteq> [] \<Longrightarrow> atoi val0 m buf = Some (of_nat (dec_value ds))"
  using atoi_dec_value [of m buf ds "[]"] by simp

lemma atoi_hex_numeral:
  "cstr m buf (48 # 120 # ds) \<Longrightarrow> list_all is_hex ds \<Longrightarrow> length ds < 2147483648 \<Longrightarrow>
   atoi val0 m buf = Some (of_nat (hex_value ds))"
  by (rule atoi_hex_digits_value [of _ _ 120]) simp_all

section \<open>Properties\<close>

text \<open>C1: \<open>strlen\<close> returns exactly when the address holds a NUL-terminated string, and what it
  returns is that string's length, which fits in a \<open>size_t\<close>.\<close>

theorem strlen_returns_iff:
  "strlen m a = Some n \<longleftrightarrow> (\<exists>s. cstr m a s \<and> unat n = length s)"
proof
  assume "strlen m a = Some n"
  then obtain s where s: "cstr m a s" and n: "n = of_nat (length s)"
    using strlen_loop_Some [of m a 0 n] by (auto simp: strlen_def)
  with cstr_length [OF s] show "\<exists>s. cstr m a s \<and> unat n = length s"
    by (auto simp: unat_of_nat_small)
next
  assume "\<exists>s. cstr m a s \<and> unat n = length s"
  then show "strlen m a = Some n" by (metis strlen_cstr word_of_nat_unat32)
qed

lemma strcmp_returns:
  assumes "cstr m a s" and "cstr m b t"
  shows "\<exists>r. strcmp m a b = Some r \<and> (r = 0 \<longleftrightarrow> s = t) \<and> strcmp m b a = Some (- r)"
proof -
  have "strcmp_spec s t = 0 \<longleftrightarrow> s = t"
    using assms by (intro strcmp_spec_eq_0) (auto simp: cstr_bytes_at)
  with strcmp_cstr [OF assms] strcmp_cstr [OF assms(2,1)] show ?thesis
    by (simp add: strcmp_spec_swap [of t s])
qed

text \<open>C13: on two strings \<open>strcmp\<close> returns; the result is 0 exactly when the strings are equal,
  and swapping the arguments negates it.\<close>

theorem strcmp_correct:
  assumes "cstr m a s" and "cstr m b t"
  shows "\<exists>r. strcmp m a b = Some r \<and> (r = 0 \<longleftrightarrow> s = t) \<and> strcmp m b a = Some (- r)"
  using assms by (rule strcmp_returns)

text \<open>C3: \<open>strcpy\<close> into a buffer that does not overlap the source returns the destination; the
  destination then holds the source string, the source is intact, and no byte outside
  the \<open>strlen + 1\<close> bytes of the destination has changed.\<close>

theorem strcpy_copies:
  assumes "cstr m src s" and "region dest (Suc (length s)) \<inter> region src (Suc (length s)) = {}"
  shows "\<exists>m'. strcpy dest src m = Some (dest, m') \<and> cstr m' dest s \<and> cstr m' src s \<and>
    (\<forall>x. x \<in> region dest (Suc (length s)) \<or> m' x = m x)"
proof -
  let ?m = "st_bytes dest (s @ [0]) m"
  have out: "?m x = m x" if "x \<notin> region dest (Suc (length s))" for x
    using that by (intro st_bytes_outside) simp
  have "region dest (length s) \<inter> region src (Suc (length s)) = {}"
    using assms(2) region_mono [of "length s" "Suc (length s)" dest] by auto
  then have "strcpy dest src m = Some (dest, ?m)"
    using assms(1) by (simp add: strcpy_def strcpy_loop_st_bytes)
  moreover have "cstr ?m dest s"
    using assms(1) cstr_length [OF assms(1)] by (intro cstr_st_bytes) (auto simp: cstr_bytes_at)
  moreover have "cstr ?m src s"
    using assms out by (subst cstr_cong [of _ _ _ m]) blast+
  ultimately show ?thesis using out by blast
qed

text \<open>C4: \<open>strcat\<close> appends: when the free space behind the first string does not overlap the
  second one, the first argument then holds the concatenation.\<close>

theorem strcat_appends:
  assumes "cstr m s1 s" and "cstr m s2 t"
    and "region s1 (length s + Suc (length t)) \<inter> region s2 (Suc (length t)) = {}"
    and "length s + length t < 4294967296"
  shows "\<exists>m'. strcat s1 s2 m = Some (s1, m') \<and> cstr m' s1 (s @ t)"
proof -
  let ?e = "s1 + of_nat (length s)"
  let ?m = "st_bytes ?e (t @ [0]) m"
  have e: "region ?e (Suc (length t)) \<subseteq> region s1 (length s + Suc (length t))"
    by (rule region_offset)
  have "region ?e (length t) \<subseteq> region ?e (Suc (length t))" by (rule region_mono) simp
  with e assms(3) have "region ?e (length t) \<inter> region s2 (Suc (length t)) = {}" by blast
  then have run: "strcat s1 s2 m = Some (s1, ?m)"
    using assms(1,2) by (simp add: strcat_def str_end_cstr strcpy_loop_st_bytes)
  have "st_bytes s1 (s @ t @ [0]) m = ?m"
    by (simp add: st_bytes_append st_bytes_same assms(1) cstr_bytes)
  moreover have "cstr (st_bytes s1 ((s @ t) @ [0]) m) s1 (s @ t)"
    using assms by (intro cstr_st_bytes) (auto simp: cstr_bytes_at)
  ultimately show ?thesis using run by auto
qed

text \<open>C5: \<open>strncpy\<close> writes the first \<open>limit\<close> bytes of the source and a terminator only when
  there is room for it: a source of \<open>limit\<close> bytes or more leaves the destination unterminated.
  It never writes outside \<open>limit\<close> bytes.\<close>

theorem strncpy_truncates:
  assumes "cstr m src s" and "region dest (unat limit) \<inter> region src (Suc (length s)) = {}"
  shows "\<exists>m'. strncpy dest src limit m = (dest, m') \<and>
    bytes_at m' dest (take (unat limit) s) \<and>
    (if length s < unat limit then cstr m' dest s
     else \<forall>x. x \<in> region dest (length (take (unat limit) s)) \<or> m' x = m x) \<and>
    (\<forall>x. x \<in> region dest (unat limit) \<or> m' x = m x)"
proof -
  let ?bs = "take (unat limit) s @ (if length s < unat limit then [0] else [])"
  have len: "length ?bs \<le> unat limit" by (auto simp: min_def)
  then have "length ?bs \<le> 4294967296" using unat_uint_less [of limit] by linarith
  then have at: "bytes_at (st_bytes dest ?bs m) dest ?bs" by (rule bytes_at_st_bytes)
  have out: "x \<in> region dest (unat limit) \<or> st_bytes dest ?bs m x = m x" for x
    using region_mono [OF len, of dest] st_bytes_outside [of x dest ?bs m] by blast
  have "\<not> length s < unat limit \<Longrightarrow>
      x \<in> region dest (length (take (unat limit) s)) \<or> st_bytes dest ?bs m x = m x" for x
    using st_bytes_outside [of x dest ?bs m] by auto
  moreover have "strncpy dest src limit m = (dest, st_bytes dest ?bs m)"
    using assms by (simp add: strncpy_def strncpy_loop_st_bytes)
  ultimately show ?thesis
    using at out assms(1) by (auto simp: bytes_at_append cstr_bytes_at)
qed

text \<open>C6: \<open>memcpy\<close> between regions that do not overlap copies exactly \<open>n\<close> bytes.\<close>

theorem memcpy_copies:
  assumes "region dst (unat n) \<inter> region src (unat n) = {}"
  shows "\<exists>m'. memcpy dst src n m = (dst, m') \<and>
    bytes_of m' dst (unat n) = bytes_of m src (unat n) \<and>
    (\<forall>x. x \<in> region dst (unat n) \<or> m' x = m x)"
proof -
  let ?bs = "bytes_of m src (unat n)"
  have len: "length ?bs = unat n" by (simp add: bytes_of_def)
  then have "length ?bs \<le> 4294967296" using unat_uint_less [of n] by linarith
  then have "bytes_at (st_bytes dst ?bs m) dst ?bs" by (rule bytes_at_st_bytes)
  with len have "bytes_of (st_bytes dst ?bs m) dst (unat n) = ?bs"
    by (metis bytes_at_bytes_of)
  moreover have "\<forall>x. x \<in> region dst (unat n) \<or> st_bytes dst ?bs m x = m x"
    using st_bytes_outside [of _ dst ?bs m] len by metis
  ultimately show ?thesis using assms by (auto simp: memcpy_def memcpy_loop_st_bytes)
qed

text \<open>C15: \<open>memcmp\<close> does not look at its length beyond testing that it is not 0. For a positive length it returns the
  difference of the first two bytes that differ, wherever they are, also behind the bytes it was asked to compare; and when
  no bytes ever differ, as when a region is compared with itself, it does not return.\<close>

theorem memcmp_ignores_length:
  assumes "0 < n"
  shows "(\<forall>j. (\<forall>i < j. m (a + of_nat i) = m (b + of_nat i)) \<and> m (a + of_nat j) \<noteq> m (b + of_nat j) \<longrightarrow>
      memcmp m a b n = Some (sint (m (a + of_nat j)) - sint (m (b + of_nat j)))) \<and>
    ((\<forall>i. m (a + of_nat i) = m (b + of_nat i)) \<longrightarrow> memcmp m a b n = None) \<and> memcmp m a a n = None"
  using memcmp_differ [OF assms] memcmp_equal_None [OF assms] by blast

text \<open>C14: \<open>atoi\<close> reads a decimal numeral, up to the first character that is not a digit, as its
  value modulo \<open>2^32\<close>.\<close>

theorem atoi_decimal:
  assumes "cstr m buf (ds @ rest)" and "list_all is_dec ds" and "ds \<noteq> []"
    and "rest = [] \<or> \<not> is_dec (hd rest) \<and> hd rest \<notin> {88, 120}"
  shows "atoi val0 m buf = Some (of_nat (dec_value ds))"
  using assms by (rule atoi_dec_value)

text \<open>C9: \<open>atoi\<close> reads \<open>0x\<close> or \<open>0X\<close> and hexadecimal digits of either case as the numeral's
  value modulo \<open>2^32\<close>, whatever the uninitialised local \<open>val\<close> holds.\<close>

theorem atoi_hexadecimal:
  assumes "cstr m buf (48 # x # ds)" and "x = 120 \<or> x = 88"
    and "list_all is_hex ds" and "length ds < 2147483648"
  shows "atoi val0 m buf = Some (of_nat (hex_value ds))"
  using assms by (rule atoi_hex_digits_value)

text \<open>C10: \<open>strchr\<close> and \<open>strrchr\<close> find the first and the last occurrence of a character in a
  string that does not wrap around the address space, and return \<open>NULL\<close> when there is none.\<close>

theorem strchr_strrchr_correct:
  assumes "cstr m a s" and "unat a + length s < 4294967296"
  shows "strchr m a (scast c) =
      Some (if c \<in> set s then a + of_nat (length (takeWhile (\<lambda>x. x \<noteq> c) s)) else NULL) \<and>
    strrchr m a (scast c) =
      Some (if c \<in> set s
        then a + of_nat (length s - 1 - length (takeWhile (\<lambda>x. x \<noteq> c) (rev s))) else NULL)"
  using strchr_cstr [OF assms(1)] strrchr_loop_bytes [OF cstr_bytes [OF assms(1)] assms(2)]
  by (simp add: strrchr_def strlen_cstr [OF assms(1)])

section \<open>Witnesses\<close>

theorem strcmp_correct_witness:
  "\<exists>r. strcmp (st_bytes 16 [97, 98] (\<lambda>_. 0)) 16 17 = Some r \<and> (r = 0 \<longleftrightarrow> [97, 98] = [98 :: byte]) \<and>
     strcmp (st_bytes 16 [97, 98] (\<lambda>_. 0)) 17 16 = Some (- r)"
  by (rule strcmp_correct) simp_all

theorem strcpy_copies_witness:
  "\<exists>m'. strcpy 32 16 (st_bytes 16 [97, 98] (\<lambda>_. 0)) = Some (32, m') \<and> cstr m' 32 [97, 98] \<and>
     cstr m' 16 [97, 98] \<and>
     (\<forall>x. x \<in> region 32 (Suc (length [97, 98 :: byte])) \<or>
        m' x = st_bytes 16 [97, 98] (\<lambda>_. 0) x)"
  by (rule strcpy_copies) simp_all

theorem strcat_appends_witness:
  "\<exists>m'. strcat 16 32 (st_bytes 16 [97, 98] (st_bytes 32 [99] (\<lambda>_. 0))) = Some (16, m') \<and>
     cstr m' 16 ([97, 98] @ [99])"
  by (rule strcat_appends) simp_all

theorem strncpy_truncates_witness:
  "\<exists>m'. strncpy 32 16 1 (st_bytes 16 [97, 98] (\<lambda>_. 0)) = (32, m') \<and> m' 32 = 97 \<and> m' 33 = 0"
  using strncpy_truncates [of "st_bytes 16 [97, 98] (\<lambda>_. 0)" 16 "[97, 98]" 32 1]
  by (auto dest: spec [of _ 33])

theorem memcpy_copies_witness:
  "\<exists>m'. memcpy 32 16 2 (st_bytes 16 [97, 98] (\<lambda>_. 0)) = (32, m') \<and>
     bytes_of m' 32 2 = [97, 98]"
  using memcpy_copies [of 32 2 16 "st_bytes 16 [97, 98] (\<lambda>_. 0)"]
  by (auto simp: region_numeral bytes_of_numeral)

theorem memcmp_ignores_length_witness:
  "memcmp (st_bytes 16 [97, 98, 97, 99] (\<lambda>_. 0)) 16 18 1 = Some (-1) \<and>
   memcmp (st_bytes 16 [97, 98, 97, 99] (\<lambda>_. 0)) 16 16 3 = None"
proof -
  let ?m = "st_bytes 16 [97, 98, 97, 99] (\<lambda>_. 0) :: memory"
  have "\<forall>i < 1. ?m (16 + of_nat i) = ?m (18 + of_nat i)" "?m (16 + of_nat 1) \<noteq> ?m (18 + of_nat 1)"
    "sint (?m (16 + of_nat 1)) - sint (?m (18 + of_nat 1)) = -1" by simp_all
  moreover have "\<forall>i. ?m (16 + of_nat i) = ?m (16 + of_nat i)" by simp
  ultimately show ?thesis
    using memcmp_ignores_length [of 1 ?m 16 18, THEN conjunct1, THEN spec [of _ 1]] memcmp_ignores_length [of 3 ?m 16 16] by simp
qed

theorem atoi_decimal_witness:
  "atoi 7 (st_bytes 16 (str ''120 '') (\<lambda>_. 0)) 16 = Some 120"
  using atoi_decimal [of "st_bytes 16 (str ''120 '') (\<lambda>_. 0)" 16 "str ''120''" "str '' ''" 7]
  by (simp add: is_dec_def digit_value_def)

theorem atoi_hexadecimal_witness:
  "atoi 7 (st_bytes 16 (str ''0x7C0f'') (\<lambda>_. 0)) 16 = Some 0x7C0F"
  using atoi_hexadecimal [of "st_bytes 16 (str ''0x7C0f'') (\<lambda>_. 0)" 16 120 "str ''7C0f''" 7]
  by (simp add: is_hex_def is_dec_def digit_value_def)

theorem strchr_strrchr_correct_witness:
  "strchr (st_bytes 16 (str ''a/b/c'') (\<lambda>_. 0)) 16 47 = Some 17 \<and>
   strrchr (st_bytes 16 (str ''a/b/c'') (\<lambda>_. 0)) 16 47 = Some 19"
  using strchr_strrchr_correct
    [of "st_bytes 16 (str ''a/b/c'') (\<lambda>_. 0)" 16 "str ''a/b/c''" 47] by simp

end
