(* ===== verification/Kprintf.thy ===== *)
theory Kprintf
  imports String_Lib
begin

text \<open>
  Formatted output, \<open>vsnprintf\<close> of \<open>src/kernel/kprintf.c\<close>. The state of the scan is a
  record: the memory, the output pointer \<open>str\<close>, \<open>count\<close>, the \<open>state\<close> of the format automaton, its
  \<open>flags\<close> and \<open>given_wd\<close>, and the \<open>va_list\<close>, which on this machine is a pointer to the
  stacked arguments. The local \<open>buf\<close> of the digits is a list; \<open>where\<close> points either into it or to a
  string in memory. The \<open>switch\<close> of the source falls through from case to case, so case \<open>k\<close> is the
  definition \<open>pr_case\<close>\<open>k\<close> and ends in the next one. The argument \<open>size\<close> is never used.
\<close>

section \<open>State and flags\<close>

record pr =
  pm :: memory
  pstr :: addr
  pcount :: uint
  pstate :: nat
  pflags :: uint
  pwd :: uint
  pargs :: addr

abbreviation PR_LJFY :: uint where "PR_LJFY \<equiv> 0x01"
abbreviation PR_CAPS :: uint where "PR_CAPS \<equiv> 0x02"
abbreviation PR_SIGN :: uint where "PR_SIGN \<equiv> 0x04"
abbreviation PR_NUM32 :: uint where "PR_NUM32 \<equiv> 0x08"
abbreviation PR_NUM16 :: uint where "PR_NUM16 \<equiv> 0x10"
abbreviation PR_NUM0 :: uint where "PR_NUM0 \<equiv> 0x20"
abbreviation PR_ZEROPAD :: uint where "PR_ZEROPAD \<equiv> 0x40"
abbreviation PR_FARPTR :: uint where "PR_FARPTR \<equiv> 0x80"

datatype where_ptr = Buf "byte list" | Ptr addr

section \<open>Emitting\<close>

definition emit :: "byte \<Rightarrow> pr \<Rightarrow> pr" where
  "emit c s = s\<lparr>pm := (pm s)(pstr s := c), pstr := pstr s + 1, pcount := pcount s + 1\<rparr>"

function pad_out :: "byte \<Rightarrow> uint \<Rightarrow> uint \<Rightarrow> pr \<Rightarrow> uint \<times> pr" where
  "pad_out c given_wd actual_wd s =
     (if given_wd > actual_wd then pad_out c (given_wd - 1) actual_wd (emit c s) else (given_wd, s))"
  by auto
termination
  by (relation "measure (\<lambda>(c, g, a, s). unat g)") (use unat_dec in auto)

declare pad_out.simps [simp del]

partial_function (option) emit_string :: "addr \<Rightarrow> pr \<Rightarrow> pr option" where
  "emit_string a s = (if pm s a = 0 then Some s else emit_string (a + 1) (emit (pm s a) s))"

definition emit_where :: "where_ptr \<Rightarrow> pr \<Rightarrow> pr option" where
  "emit_where w s = (case w of
     Buf bs \<Rightarrow> Some (fold emit (takeWhile (\<lambda>c. c \<noteq> 0) bs) s)
   | Ptr a \<Rightarrow> emit_string a s)"

definition strlen_where :: "where_ptr \<Rightarrow> pr \<Rightarrow> uint option" where
  "strlen_where w s = (case w of
     Buf bs \<Rightarrow> Some (of_nat (length (takeWhile (\<lambda>c. c \<noteq> 0) bs)))
   | Ptr a \<Rightarrow> strlen (pm s) a)"

definition pr_emit2 :: "where_ptr \<Rightarrow> uint \<Rightarrow> pr \<Rightarrow> pr option" where
  "pr_emit2 w actual_wd s =
     (let flags = pflags s;
          (given, s1) = (if flags AND PR_LJFY = 0
             then pad_out (if flags AND PR_ZEROPAD \<noteq> 0 then ch CHR ''0'' else ch CHR '' '')
               (pwd s) actual_wd s
             else (pwd s, s));
          s2 = (if flags AND (PR_NUM0 OR PR_ZEROPAD) = PR_NUM0 then emit (ch CHR ''-'') s1 else s1)
      in do {
        s3 \<leftarrow> emit_where w s2;
        let given' = (if given < actual_wd then 0 else given - actual_wd);
        let (given'', s4) = pad_out (ch CHR '' '') given' 0 s3;
        Some (s4\<lparr>pwd := given''\<rparr>) })"

definition pr_emit :: "where_ptr \<Rightarrow> pr \<Rightarrow> pr option" where
  "pr_emit w s = do {
     len \<leftarrow> strlen_where w s;
     let actual_wd = (if pflags s AND PR_NUM0 \<noteq> 0 then len + 1 else len);
     let s1 = (if pflags s AND (PR_NUM0 OR PR_ZEROPAD) = PR_NUM0 OR PR_ZEROPAD
               then emit (ch CHR ''-'') s else s);
     pr_emit2 w actual_wd s1 }"

section \<open>Conversions\<close>

definition pr_digit :: "bool \<Rightarrow> uint \<Rightarrow> byte" where
  "pr_digit caps temp =
     (if temp < 10 then ucast (temp + 48)
      else if caps then ucast (temp - 10 + 65) else ucast (temp - 10 + 97))"

lemma unat_div_less: "(num :: uint) div radix \<noteq> 0 \<Longrightarrow> 1 < radix \<Longrightarrow> unat (num div radix) < unat num"
proof -
  assume a: "num div radix \<noteq> 0" "1 < radix"
  then have "unat num \<noteq> 0" by (auto simp: unat_eq_zero)
  moreover have "1 < unat radix" using a(2) by (simp add: word_less_nat_alt)
  ultimately show ?thesis by (simp add: unat_div)
qed

function pr_digits :: "bool \<Rightarrow> uint \<Rightarrow> uint \<Rightarrow> byte list \<Rightarrow> byte list" where
  "pr_digits caps radix num buf =
     (let buf' = pr_digit caps (num mod radix) # buf; num' = num div radix
      in if num' \<noteq> 0 \<and> 1 < radix then pr_digits caps radix num' buf' else buf')"
  by auto

termination
  by (relation "measure (\<lambda>(c, r, n, b). unat n)") (use unat_div_less in auto)

declare pr_digits.simps [simp del]

definition pr_load :: "pr \<Rightarrow> uint" where
  "pr_load s =
     (if pflags s AND PR_NUM32 \<noteq> 0 then ld32 (pm s) (pargs s)
      else if pflags s AND PR_NUM16 \<noteq> 0 then
        (if pflags s AND PR_SIGN \<noteq> 0 then scast (ld16 (pm s) (pargs s))
         else ucast (ld16 (pm s) (pargs s)))
      else ld32 (pm s) (pargs s))"

definition pr_num :: "uint \<Rightarrow> pr \<Rightarrow> pr option" where
  "pr_num radix s =
     (let num = pr_load s; neg = pflags s AND PR_SIGN \<noteq> 0 \<and> s32 num < 0;
          s1 = s\<lparr>pargs := pargs s + 4, pflags := (if neg then pflags s OR PR_NUM0 else pflags s)\<rparr>;
          num1 = (if neg then - num else num)
      in pr_emit (Buf (pr_digits (pflags s1 AND PR_CAPS \<noteq> 0) radix num1 [])) s1)"

definition pr_convert :: "byte \<Rightarrow> pr \<Rightarrow> pr option" where
  "pr_convert c s =
     (if c = ch CHR ''X'' then pr_num 16 (s\<lparr>pflags := pflags s OR PR_CAPS\<rparr>)
      else if c = ch CHR ''x'' \<or> c = ch CHR ''p'' \<or> c = ch CHR ''n'' then pr_num 16 s
      else if c = ch CHR ''d'' \<or> c = ch CHR ''i'' then pr_num 10 (s\<lparr>pflags := pflags s OR PR_SIGN\<rparr>)
      else if c = ch CHR ''u'' then pr_num 10 s
      else if c = ch CHR ''o'' then pr_num 8 s
      else if c = ch CHR ''c'' then
        pr_emit2 (Buf [pm s (pargs s)]) 1
          (s\<lparr>pflags := pflags s AND NOT PR_ZEROPAD, pargs := pargs s + 4\<rparr>)
      else if c = ch CHR ''s'' then
        pr_emit (Ptr (ld32 (pm s) (pargs s)))
          (s\<lparr>pflags := pflags s AND NOT PR_ZEROPAD, pargs := pargs s + 4\<rparr>)
      else Some s)"

section \<open>The format automaton\<close>

definition pr_reset :: "pr \<Rightarrow> pr" where
  "pr_reset s = s\<lparr>pstate := 0, pflags := 0, pwd := 0\<rparr>"

definition pr_case4 :: "addr \<Rightarrow> pr \<Rightarrow> (addr \<times> pr) option" where
  "pr_case4 fmt s = do { s' \<leftarrow> pr_convert (pm s fmt) s; Some (fmt, pr_reset s') }"

definition pr_case3 :: "addr \<Rightarrow> pr \<Rightarrow> (addr \<times> pr) option" where
  "pr_case3 fmt s =
     (let c = pm s fmt in
      if c = ch CHR ''F'' then Some (fmt, s\<lparr>pflags := pflags s OR PR_FARPTR\<rparr>)
      else if c = ch CHR ''N'' then Some (fmt, s)
      else if c = ch CHR ''l'' then Some (fmt, s\<lparr>pflags := pflags s OR PR_NUM32\<rparr>)
      else if c = ch CHR ''h'' then Some (fmt, s\<lparr>pflags := pflags s OR PR_NUM16\<rparr>)
      else pr_case4 fmt (s\<lparr>pstate := 4\<rparr>))"

definition pr_case2 :: "addr \<Rightarrow> pr \<Rightarrow> (addr \<times> pr) option" where
  "pr_case2 fmt s =
     (let c = pm s fmt in
      if 48 \<le> sint c \<and> sint c \<le> 57
      then Some (fmt, s\<lparr>pwd := 10 * pwd s + (scast c - 48)\<rparr>)
      else pr_case3 fmt (s\<lparr>pstate := 3\<rparr>))"

definition pr_case1 :: "addr \<Rightarrow> pr \<Rightarrow> (addr \<times> pr) option" where
  "pr_case1 fmt s =
     (let c = pm s fmt in
      if c = ch CHR ''%'' then Some (fmt, pr_reset (emit c s))
      else if c = ch CHR ''-'' then
        (if pflags s AND PR_LJFY \<noteq> 0 then Some (fmt, pr_reset s)
         else Some (fmt, s\<lparr>pflags := pflags s OR PR_LJFY\<rparr>))
      else if c = ch CHR ''0'' then
        pr_case2 (fmt + 1) (s\<lparr>pstate := 2, pflags := pflags s OR PR_ZEROPAD\<rparr>)
      else pr_case2 fmt (s\<lparr>pstate := 2\<rparr>))"

definition pr_step :: "addr \<Rightarrow> pr \<Rightarrow> (addr \<times> pr) option" where
  "pr_step fmt s =
     (if pstate s = 0 then
        (if pm s fmt \<noteq> ch CHR ''%'' then Some (fmt, emit (pm s fmt) s)
         else pr_case1 (fmt + 1) (s\<lparr>pstate := 1\<rparr>))
      else if pstate s = 1 then pr_case1 fmt s
      else if pstate s = 2 then pr_case2 fmt s
      else if pstate s = 3 then pr_case3 fmt s
      else if pstate s = 4 then pr_case4 fmt s
      else Some (fmt, pr_reset s))"

partial_function (option) pr_loop :: "addr \<Rightarrow> pr \<Rightarrow> pr option" where
  "pr_loop fmt s =
     (if pm s fmt = 0 then Some s
      else do { (fmt', s') \<leftarrow> pr_step fmt s; pr_loop (fmt' + 1) s' })"

definition vsnprintf :: "addr \<Rightarrow> uint \<Rightarrow> addr \<Rightarrow> addr \<Rightarrow> memory \<Rightarrow> (uint \<times> memory) option" where
  "vsnprintf strp sz fmt args m = do {
     s \<leftarrow> pr_loop fmt \<lparr>pm = m, pstr = strp, pcount = 0, pstate = 0, pflags = 0, pwd = 0, pargs = args\<rparr>;
     Some (pcount s, (pm s)(pstr s := 0)) }"

definition snprintf :: "addr \<Rightarrow> uint \<Rightarrow> addr \<Rightarrow> addr \<Rightarrow> memory \<Rightarrow> (uint \<times> memory) option" where
  "snprintf strp sz fmt vargs m = vsnprintf strp sz fmt vargs m"

section \<open>Appending to the output\<close>

definition app :: "byte list \<Rightarrow> pr \<Rightarrow> pr" where
  "app bs s = s\<lparr>pm := st_bytes (pstr s) bs (pm s), pstr := pstr s + of_nat (length bs),
     pcount := pcount s + of_nat (length bs)\<rparr>"

lemma app_simps [simp]:
  "pm (app bs s) = st_bytes (pstr s) bs (pm s)"
  "pstr (app bs s) = pstr s + of_nat (length bs)"
  "pcount (app bs s) = pcount s + of_nat (length bs)"
  "pstate (app bs s) = pstate s" "pflags (app bs s) = pflags s" "pwd (app bs s) = pwd s"
  "pargs (app bs s) = pargs s"
  by (simp_all add: app_def)

lemma app_Nil [simp]: "app [] s = s"
  by (simp add: app_def)

lemma app_app [simp]: "app ys (app xs s) = app (xs @ ys) s"
  by (simp add: app_def st_bytes_append add.assoc)

lemma emit_app: "emit c s = app [c] s"
  by (simp add: emit_def app_def)

lemma fold_emit: "fold emit bs s = app bs s"
  by (induction bs arbitrary: s) (auto simp: emit_app)

lemma pad_out_app:
  "pad_out c g a s = (if a < g then a else g, app (replicate (unat g - unat a) c) s)"
proof (induction c g a s rule: pad_out.induct)
  case (1 c g a s)
  show ?case
  proof (cases "a < g")
    case True
    note d = unat_dec [OF True]
    have "unat a < unat g" using True by (simp add: word_less_nat_alt)
    then have r: "unat g - unat a = Suc (unat (g - 1) - unat a)" using d by simp
    have "(if a < g - 1 then a else g - 1) = a"
      using True d by (auto simp: word_less_nat_alt not_less word_unat_eq_iff)
    with 1 True r show ?thesis by (subst pad_out.simps) (simp add: emit_app)
  next
    case False
    then show ?thesis by (subst pad_out.simps) (simp add: word_less_nat_alt not_less)
  qed
qed

lemma emit_string_app:
  "cstr (pm s) a t \<Longrightarrow> region a (Suc (length t)) \<inter> region (pstr s) (length t) = {} \<Longrightarrow>
   emit_string a s = Some (app t s)"
proof (induction t arbitrary: a s)
  case Nil
  then show ?case by (subst emit_string.simps) simp
next
  case (Cons c t)
  from Cons.prems have pmc: "pm s a = c" "c \<noteq> 0" by auto
  have "region (a + 1) (Suc (length t)) \<inter> region (pstr s) (length (c # t)) = {}"
    using Cons.prems(2) by auto
  then have ps: "pstr s \<notin> region (a + 1) (Suc (length t))"
    and d: "region (a + 1) (Suc (length t)) \<inter> region (pstr s + 1) (length t) = {}" by auto
  have "cstr ((pm s)(pstr s := c)) (a + 1) t = cstr (pm s) (a + 1) t"
    using ps by (intro cstr_cong) auto
  with Cons.prems have "cstr (pm (app [c] s)) (a + 1) t" by simp
  from Cons.IH [OF this] d pmc show ?case by (subst emit_string.simps) (simp add: emit_app)
qed

text \<open>The text \<open>where\<close> points to, apart from the bytes \<open>R\<close> the output goes to.\<close>

definition where_holds :: "memory \<Rightarrow> addr set \<Rightarrow> where_ptr \<Rightarrow> byte list \<Rightarrow> bool" where
  "where_holds m R w body = (case w of
     Buf bs \<Rightarrow> bs = body \<and> 0 \<notin> set bs
   | Ptr a \<Rightarrow> cstr m a body \<and> region a (Suc (length body)) \<inter> R = {})"

lemma takeWhile_no_zero: "(0 :: byte) \<notin> set bs \<Longrightarrow> takeWhile (\<lambda>c. c \<noteq> 0) bs = bs"
  by (induction bs) auto

lemma where_holds_cong:
  assumes "where_holds m R w body" "\<And>x. x \<notin> R \<Longrightarrow> m' x = m x"
  shows "where_holds m' R w body"
proof (cases w)
  case (Ptr a)
  then have "cstr m' a body = cstr m a body"
    using assms by (intro cstr_cong) (auto simp del: region_simps simp: where_holds_def)
  with Ptr assms show ?thesis by (simp add: where_holds_def)
qed (use assms in \<open>simp add: where_holds_def\<close>)

lemma strlen_where_holds: "where_holds (pm s) R w body \<Longrightarrow> strlen_where w s = Some (of_nat (length body))"
  by (cases w) (auto simp: where_holds_def strlen_where_def takeWhile_no_zero strlen_cstr)

lemma emit_where_app:
  assumes "where_holds (pm s) R w body" "region (pstr s) (length body) \<subseteq> R"
  shows "emit_where w s = Some (app body s)"
proof (cases w)
  case (Ptr a)
  with assms have "region a (Suc (length body)) \<inter> region (pstr s) (length body) = {}"
    by (auto simp del: region_simps simp: where_holds_def)
  with Ptr assms(1) emit_string_app [of s a body] show ?thesis
    by (simp add: emit_where_def where_holds_def)
qed (use assms in \<open>simp add: emit_where_def where_holds_def takeWhile_no_zero fold_emit\<close>)

lemma app_outside:
  "region (pstr s) (length bs) \<subseteq> R \<Longrightarrow> x \<notin> R \<Longrightarrow> pm (app bs s) x = pm s x"
  by (auto intro!: st_bytes_outside)

section \<open>Fields\<close>

text \<open>What a conversion should print: the body, its sign, padded to the field width.\<close>

definition field :: "bool \<Rightarrow> bool \<Rightarrow> nat \<Rightarrow> bool \<Rightarrow> byte list \<Rightarrow> byte list" where
  "field left zero wd neg body =
     (let sign = (if neg then str ''-'' else []); n = wd - length (sign @ body) in
      if left then sign @ body @ replicate n (ch CHR '' '')
      else if zero then sign @ replicate n (ch CHR ''0'') @ body
      else replicate n (ch CHR '' '') @ sign @ body)"

lemma flag_bits:
  fixes f :: uint
  shows "f AND 0x01 = 0 \<longleftrightarrow> \<not> bit f 0" "f AND 0x02 = 0 \<longleftrightarrow> \<not> bit f 1"
    "f AND 0x04 = 0 \<longleftrightarrow> \<not> bit f 2" "f AND 0x08 = 0 \<longleftrightarrow> \<not> bit f 3"
    "f AND 0x10 = 0 \<longleftrightarrow> \<not> bit f 4" "f AND 0x20 = 0 \<longleftrightarrow> \<not> bit f 5"
    "f AND 0x40 = 0 \<longleftrightarrow> \<not> bit f 6"
    "f AND 0x60 = 0x20 \<longleftrightarrow> bit f 5 \<and> \<not> bit f 6"
    "f AND 0x60 = 0x60 \<longleftrightarrow> bit f 5 \<and> bit f 6"
proof -
  have e: "f AND 2 ^ n = 0 \<longleftrightarrow> \<not> bit f n" for n
    by (simp add: and_exp_eq_0_iff_not_bit)
  show "f AND 0x01 = 0 \<longleftrightarrow> \<not> bit f 0" "f AND 0x02 = 0 \<longleftrightarrow> \<not> bit f 1"
    "f AND 0x04 = 0 \<longleftrightarrow> \<not> bit f 2" "f AND 0x08 = 0 \<longleftrightarrow> \<not> bit f 3"
    "f AND 0x10 = 0 \<longleftrightarrow> \<not> bit f 4" "f AND 0x20 = 0 \<longleftrightarrow> \<not> bit f 5"
    "f AND 0x40 = 0 \<longleftrightarrow> \<not> bit f 6"
    using e [of 0] e [of 1] e [of 2] e [of 3] e [of 4] e [of 5] e [of 6] by simp_all
  have b: "bit (0x60 :: uint) n \<longleftrightarrow> n = 5 \<or> n = 6" "bit (0x20 :: uint) n \<longleftrightarrow> n = 5" for n
  proof -
    have c: "(0x60 :: uint) = 2 ^ 5 OR 2 ^ 6" "(0x20 :: uint) = 2 ^ 5" by simp_all
    show "bit (0x60 :: uint) n \<longleftrightarrow> n = 5 \<or> n = 6"
      unfolding c(1) bit_or_iff bit_exp_iff possible_bit_def by auto
    show "bit (0x20 :: uint) n \<longleftrightarrow> n = 5"
      unfolding c(2) bit_exp_iff possible_bit_def by auto
  qed
  show "f AND 0x60 = 0x20 \<longleftrightarrow> bit f 5 \<and> \<not> bit f 6" "f AND 0x60 = 0x60 \<longleftrightarrow> bit f 5 \<and> bit f 6"
  proof -
    have r: "bit (f AND 0x60) n \<longleftrightarrow> bit f n \<and> (n = 5 \<or> n = 6)" for n by (simp only: bit_and_iff b)
    have "f AND 0x60 = g \<longleftrightarrow> (\<forall>n. bit (f AND 0x60) n = bit g n)" for g
      by (metis bit_word_eqI)
    then have q: "f AND 0x60 = g \<longleftrightarrow> (\<forall>n. (bit f n \<and> (n = 5 \<or> n = 6)) = bit g n)" for g
      by (simp only: r)
    show "f AND 0x60 = 0x20 \<longleftrightarrow> bit f 5 \<and> \<not> bit f 6" "f AND 0x60 = 0x60 \<longleftrightarrow> bit f 5 \<and> bit f 6"
      unfolding q b by (auto dest: spec [of _ 5] spec [of _ 6])
  qed
qed

lemma pr_reset_app [simp]:
  "pr_reset (app bs s\<lparr>pwd := x\<rparr>) = pr_reset (app bs s)"
  "pr_reset (s\<lparr>pwd := x\<rparr>) = pr_reset s"
  by (simp_all add: pr_reset_def)

lemma pr_emit2_app:
  fixes s :: pr and actual :: uint
  defines "l \<equiv> bit (pflags s) 0" and "z \<equiv> bit (pflags s) 6" and "n \<equiv> unat (pwd s) - unat actual"
  defines "pre \<equiv> (if l then [] else replicate n (if z then ch CHR ''0'' else ch CHR '' ''))
      @ (if bit (pflags s) 5 \<and> \<not> z then str ''-'' else [])"
  assumes w: "where_holds (pm s) R w body" and R: "region (pstr s) (length (pre @ body)) \<subseteq> R"
  shows "map_option pr_reset (pr_emit2 w actual s) =
    Some (pr_reset (app (pre @ body @ (if l then replicate n (ch CHR '' '') else [])) s))"
proof -
  have len: "region (pstr s) (length pre) \<subseteq> R" 
    using R region_mono [of "length pre" "length (pre @ body)" "pstr s"] by auto
  have "region (pstr s + of_nat (length pre)) (length body) \<subseteq> R"
    using R region_offset [of "pstr s" "length pre" "length body"] by auto
  moreover have "where_holds (pm (app pre s)) R w body"
    using app_outside [OF len] by (rule where_holds_cong [OF w])
  ultimately have e: "emit_where w (app pre s) = Some (app (pre @ body) s)"
    using emit_where_app [of "app pre s" R w body] by simp
  have f: "pflags s AND 1 = 0 \<longleftrightarrow> \<not> l" "pflags s AND 64 = 0 \<longleftrightarrow> \<not> z"
    "pflags s AND 96 = 32 \<longleftrightarrow> bit (pflags s) 5 \<and> \<not> z"
    by (simp_all add: flag_bits l_def z_def)
  have lp: "pwd s < actual \<Longrightarrow> n = 0" "\<not> pwd s < actual \<Longrightarrow> unat (pwd s - actual) = n"
    by (auto simp: n_def word_less_nat_alt unat_sub word_le_nat_alt)
  show ?thesis
  proof (cases l)
    case True
    with e f lp show ?thesis
      by (cases "bit (pflags s) 5"; cases "pwd s < actual"; cases z)
        (simp_all add: pr_emit2_def emit_app pad_out_app pre_def Let_def split_def)
  next
    case False
    with e f show ?thesis
      by (cases "bit (pflags s) 5"; cases "actual < pwd s"; cases z)
        (simp_all add: pr_emit2_def emit_app pad_out_app pre_def n_def Let_def split_def)
  qed
qed

lemma length_field: "length (field l z n neg body) = max n (length body + of_bool neg)"
  by (auto simp: field_def Let_def)

lemma pr_emit_field:
  fixes s :: pr
  defines "out \<equiv> field (bit (pflags s) 0) (bit (pflags s) 6) (unat (pwd s)) (bit (pflags s) 5)"
  assumes w: "where_holds (pm s) R w body" and len: "length body + 1 < 4294967296"
    and R: "region (pstr s) (length (out body)) \<subseteq> R"
  shows "map_option pr_reset (pr_emit w s) = Some (pr_reset (app (out body) s))"
proof -
  let ?l = "bit (pflags s) 0" and ?z = "bit (pflags s) 6" and ?neg = "bit (pflags s) 5"
  let ?actual = "of_nat (length body + of_bool ?neg) :: uint"
  let ?sign = "if ?neg \<and> ?z then str ''-'' else []"
  let ?s1 = "app ?sign s"
  let ?n = "unat (pwd s) - unat ?actual"
  let ?pre = "(if ?l then [] else replicate ?n (if ?z then ch CHR ''0'' else ch CHR '' ''))
      @ (if ?neg \<and> \<not> ?z then str ''-'' else [])"
  have ua: "unat ?actual = length body + of_bool ?neg"
    using len by (intro unat_of_nat_small) (auto simp: of_bool_def)
  have run: "pr_emit w s = pr_emit2 w ?actual ?s1"
    using strlen_where_holds [OF w] by (simp add: pr_emit_def flag_bits emit_app add.commute)
  have l: "length ?sign + length (?pre @ body) \<le> length (out body)"
    unfolding out_def length_field ua by auto
  then have "region (pstr s) (length ?sign) \<subseteq> R"
    using R region_mono [of "length ?sign" "length (out body)" "pstr s"] by auto
  from app_outside [OF this] have w1: "where_holds (pm ?s1) R w body"
    by (rule where_holds_cong [OF w])
  note region_offset [of "pstr s" "length ?sign" "length (?pre @ body)"]
  also note region_mono [OF l, of "pstr s"]
  also note R
  finally have "region (pstr ?s1) (length (?pre @ body)) \<subseteq> R" by (simp only: app_simps)
  with w1 have "map_option pr_reset (pr_emit2 w ?actual ?s1) = Some (pr_reset (app (?pre @ body @
      (if ?l then replicate ?n (ch CHR '' '') else [])) ?s1))"
    using pr_emit2_app [of ?s1 R w body ?actual] by (simp only: app_simps)
  then have "map_option pr_reset (pr_emit w s) = Some (pr_reset (app (?sign @ ?pre @ body @
      (if ?l then replicate ?n (ch CHR '' '') else [])) s))"
    by (simp only: run app_app append_assoc)
  moreover have "?sign @ ?pre @ body @ (if ?l then replicate ?n (ch CHR '' '') else []) = out body"
    unfolding out_def field_def ua by (auto simp: Let_def)
  ultimately show ?thesis by simp
qed

section \<open>Numerals\<close>

text \<open>The numeral of a number, most significant digit first.\<close>

fun numeral_of :: "bool \<Rightarrow> nat \<Rightarrow> nat \<Rightarrow> byte list" where
  "numeral_of caps radix n =
     (if n < radix \<or> radix < 2 then [pr_digit caps (of_nat (n mod radix))]
      else numeral_of caps radix (n div radix) @ [pr_digit caps (of_nat (n mod radix))])"

declare numeral_of.simps [simp del]

lemma pr_digits_numeral:
  assumes "1 < radix"
  shows "pr_digits caps radix num buf = numeral_of caps (unat radix) (unat num) @ buf"
  using assms
proof (induction caps radix num buf rule: pr_digits.induct)
  case (1 caps radix num buf)
  have r: "1 < unat radix" using 1(2) by (simp add: word_less_nat_alt)
  have m: "pr_digit caps (num mod radix) = pr_digit caps (of_nat (unat num mod unat radix))"
    by (metis unat_mod_distrib word_of_nat_unat32)
  have z: "num div radix = 0 \<longleftrightarrow> unat num < unat radix"
    using r by (metis div_eq_0_iff not_less_zero unat_div unat_eq_zero)
  show ?case
  proof (cases "num div radix = 0")
    case True
    with z m show ?thesis by (subst pr_digits.simps, subst numeral_of.simps) (simp add: Let_def)
  next
    case False
    with 1 have "pr_digits caps radix (num div radix) (pr_digit caps (num mod radix) # buf) =
        numeral_of caps (unat radix) (unat (num div radix)) @ pr_digit caps (num mod radix) # buf"
      by simp
    with False z m r 1(2) show ?thesis
      by (subst pr_digits.simps, subst numeral_of.simps) (simp add: Let_def unat_div)
  qed
qed

lemma unat_ucast_small: "k < 256 \<Longrightarrow> unat (ucast (of_nat k :: uint) :: byte) = k"
  by (simp add: unat_of_nat unsigned_of_nat take_bit_nat_eq_self)

lemma unat_pr_digit:
  assumes "d < 16"
  shows "unat (pr_digit caps (of_nat d)) = (if d < 10 then d + 48 else if caps then d + 55 else d + 87)"
proof -
  have lt: "(of_nat d :: uint) < 10 \<longleftrightarrow> d < 10" using assms by (simp add: word_less_nat_alt unat_of_nat_small)
  have "(of_nat d + 48 :: uint) = of_nat (d + 48)" by simp
  moreover have "(of_nat d - 10 + 65 :: uint) = of_nat (d + 55)" "(of_nat d - 10 + 97 :: uint) = of_nat (d + 87)"
    by simp_all
  ultimately show ?thesis
    unfolding pr_digit_def lt using assms by (simp only: unat_ucast_small if_distrib [of unat])
qed

lemma pr_digit_char:
  assumes "d < 16"
  shows "digit_value (pr_digit caps (of_nat d)) = d" "pr_digit caps (of_nat d) \<noteq> 0"
    "is_hex (pr_digit caps (of_nat d))" "d < 10 \<Longrightarrow> is_dec (pr_digit caps (of_nat d))"
  using assms unat_pr_digit [OF assms, of caps]
  by (auto simp: digit_value_def is_hex_def is_dec_def split: if_splits)

lemma numeral_of_value:
  assumes "2 \<le> radix" "radix \<le> 16"
  shows "value_of radix 0 (numeral_of caps radix n) = n \<and> 0 \<notin> set (numeral_of caps radix n) \<and>
    list_all is_hex (numeral_of caps radix n) \<and>
    (radix \<le> 10 \<longrightarrow> list_all is_dec (numeral_of caps radix n))"
  using assms
proof (induction caps radix n rule: numeral_of.induct)
  case (1 caps radix n)
  have "n mod radix < radix" using 1(2) by simp
  then have "n mod radix < 16" "radix \<le> 10 \<longrightarrow> n mod radix < 10" using 1(2,3) by linarith+
  note d = pr_digit_char [OF this(1), of caps] this(2)
  show ?case
  proof (cases "n < radix")
    case True
    then have "numeral_of caps radix n = [pr_digit caps (of_nat (n mod radix))]"
      by (subst numeral_of.simps) simp
    with True d 1(2) show ?thesis by simp
  next
    case False
    then have "numeral_of caps radix n =
        numeral_of caps radix (n div radix) @ [pr_digit caps (of_nat (n mod radix))]"
      using 1(2) by (subst numeral_of.simps) simp
    with 1 False d show ?thesis by (simp add: value_of_append)
  qed
qed

lemma numeral_of_length:
  "2 \<le> radix \<Longrightarrow> n < radix ^ k \<Longrightarrow> 0 < k \<Longrightarrow> length (numeral_of caps radix n) \<le> k"
proof (induction k arbitrary: n)
  case (Suc k)
  show ?case
  proof (cases "n < radix")
    case False
    with Suc.prems have "0 < k" by (cases k) auto
    moreover have "n div radix < radix ^ k" using Suc.prems by (simp add: less_mult_imp_div_less mult.commute)
    ultimately show ?thesis using Suc False by (subst numeral_of.simps) auto
  qed (subst numeral_of.simps, simp)
qed simp

lemma numeral_of_nonempty: "numeral_of caps radix n \<noteq> []"
  by (subst numeral_of.simps) simp

section \<open>Formats as they are meant\<close>

text \<open>
  A format is a list of items: a character to copy, \<open>%%\<close>, or a directive with its flags, the digits
  of its field width, its modifiers and its conversion character.
\<close>

datatype item =
    Lit byte
  | Percent
  | Dir bool bool "byte list" "byte list" byte

datatype varg = Num uint | Str "byte list"

definition modifiers :: "byte set" where
  "modifiers = set (str ''FNlh'')"

definition num_convs :: "byte set" where
  "num_convs = set (str ''Xxpndiuo'')"

fun item_text :: "item \<Rightarrow> byte list" where
  "item_text (Lit c) = [c]"
| "item_text Percent = str ''%%''"
| "item_text (Dir l z w ms c) = str ''%'' @ (if l then str ''-'' else []) @
     (if z then str ''0'' else []) @ w @ ms @ [c]"

fun wf_item :: "item \<Rightarrow> bool" where
  "wf_item (Lit c) = (c \<noteq> 0 \<and> c \<noteq> ch CHR ''%'')"
| "wf_item Percent = True"
| "wf_item (Dir l z w ms c) = (list_all is_dec w \<and> (z \<or> w = [] \<or> hd w \<noteq> ch CHR ''0'') \<and>
     set ms \<subseteq> modifiers \<and> c \<in> num_convs \<union> set (str ''cs''))"

definition format_text :: "item list \<Rightarrow> byte list" where
  "format_text its = concat (map item_text its)"

text \<open>The value a numeric conversion prints: signed for \<open>d\<close> and \<open>i\<close>, 16 bits wide after \<open>h\<close> without \<open>l\<close>.\<close>

definition conv_value :: "byte list \<Rightarrow> byte \<Rightarrow> uint \<Rightarrow> int" where
  "conv_value ms c w =
     (let short = ch CHR ''h'' \<in> set ms \<and> ch CHR ''l'' \<notin> set ms in
      if c \<in> set (str ''di'') then (if short then sint (ucast w :: half) else sint w)
      else if short then uint (ucast w :: half) else uint w)"

definition conv_radix :: "byte \<Rightarrow> nat" where
  "conv_radix c = (if c \<in> set (str ''diu'') then 10 else if c = ch CHR ''o'' then 8 else 16)"

fun render :: "item \<Rightarrow> varg \<Rightarrow> byte list option" where
  "render (Dir l z w ms c) (Num n) =
     (if c \<in> num_convs then
        (let v = conv_value ms c n in
         Some (field l z (dec_value w mod 2 ^ 32) (v < 0)
           (numeral_of (c = ch CHR ''X'') (conv_radix c) (nat \<bar>v\<bar>))))
      else if c = ch CHR ''c'' \<and> (ucast n :: byte) \<noteq> 0 then
        Some (field l False (dec_value w mod 2 ^ 32) False [ucast n])
      else None)"
| "render (Dir l z w ms c) (Str s) =
     (if c = ch CHR ''s'' then Some (field l False (dec_value w mod 2 ^ 32) False s) else None)"
| "render _ _ = None"

fun renders :: "item list \<Rightarrow> varg list \<Rightarrow> byte list option" where
  "renders [] vs = Some []"
| "renders (Lit c # its) vs = map_option ((#) c) (renders its vs)"
| "renders (Percent # its) vs = map_option ((#) (ch CHR ''%'')) (renders its vs)"
| "renders (Dir l z w ms c # its) [] = None"
| "renders (Dir l z w ms c # its) (v # vs) = do {
     xs \<leftarrow> render (Dir l z w ms c) v; ys \<leftarrow> renders its vs; Some (xs @ ys) }"

text \<open>The stacked arguments, apart from the bytes \<open>R\<close> the output goes to.\<close>

fun arg_at :: "memory \<Rightarrow> addr set \<Rightarrow> addr \<Rightarrow> varg \<Rightarrow> bool" where
  "arg_at m R a (Num w) = (region a 4 \<inter> R = {} \<and> ld32 m a = w)"
| "arg_at m R a (Str s) = (region a 4 \<inter> R = {} \<and> cstr m (ld32 m a) s \<and>
     region (ld32 m a) (Suc (length s)) \<inter> R = {})"

primrec args_at :: "memory \<Rightarrow> addr set \<Rightarrow> addr \<Rightarrow> varg list \<Rightarrow> bool" where
  "args_at m R a [] = True"
| "args_at m R a (v # vs) = (arg_at m R a v \<and> args_at m R (a + 4) vs)"

lemma arg_at_cong: "(\<And>x. x \<notin> R \<Longrightarrow> m' x = m x) \<Longrightarrow> arg_at m R a v \<Longrightarrow> arg_at m' R a v"
proof -
  assume R: "\<And>x. x \<notin> R \<Longrightarrow> m' x = m x" and v: "arg_at m R a v"
  then have "region a 4 \<inter> R = {}" by (cases v) auto
  then have l: "ld32 m' a = ld32 m a" using R by (intro ld32_cong) auto
  show ?thesis
  proof (cases v)
    case (Str s)
    then have "region (ld32 m a) (Suc (length s)) \<inter> R = {}" using v by (simp del: region_simps)
    then have "cstr m' (ld32 m a) s = cstr m (ld32 m a) s" using R by (intro cstr_cong) blast
    with Str v l show ?thesis by (simp del: region_simps)
  qed (use v l in simp)
qed

lemma args_at_cong: "(\<And>x. x \<notin> R \<Longrightarrow> m' x = m x) \<Longrightarrow> args_at m R a vs \<Longrightarrow> args_at m' R a vs"
  using arg_at_cong [of R m' m] by (induction vs arbitrary: a) auto

section \<open>A conversion prints its field\<close>

lemma flag_const_bits:
  "bit (0x01 :: uint) n \<longleftrightarrow> n = 0" "bit (0x02 :: uint) n \<longleftrightarrow> n = 1" "bit (0x04 :: uint) n \<longleftrightarrow> n = 2"
  "bit (0x08 :: uint) n \<longleftrightarrow> n = 3" "bit (0x10 :: uint) n \<longleftrightarrow> n = 4" "bit (0x20 :: uint) n \<longleftrightarrow> n = 5"
  "bit (0x40 :: uint) n \<longleftrightarrow> n = 6" "bit (0x80 :: uint) n \<longleftrightarrow> n = 7"
proof -
  have e: "bit (2 ^ k :: uint) n \<longleftrightarrow> k = n" if "k < 32" for k
    using that unfolding bit_exp_iff possible_bit_def by auto
  show "bit (0x01 :: uint) n \<longleftrightarrow> n = 0" "bit (0x02 :: uint) n \<longleftrightarrow> n = 1" "bit (0x04 :: uint) n \<longleftrightarrow> n = 2"
    "bit (0x08 :: uint) n \<longleftrightarrow> n = 3" "bit (0x10 :: uint) n \<longleftrightarrow> n = 4" "bit (0x20 :: uint) n \<longleftrightarrow> n = 5"
    "bit (0x40 :: uint) n \<longleftrightarrow> n = 6" "bit (0x80 :: uint) n \<longleftrightarrow> n = 7"
    using e [of 0] e [of 1] e [of 2] e [of 3] e [of 4] e [of 5] e [of 6] e [of 7] by auto
qed

lemmas flag_simps = flag_bits flag_const_bits bit_or_iff

definition dir_flags :: "uint \<Rightarrow> bool \<Rightarrow> bool \<Rightarrow> byte list \<Rightarrow> bool" where
  "dir_flags f l z ms \<longleftrightarrow> bit f 0 = l \<and> bit f 6 = z \<and> bit f 3 = (ch CHR ''l'' \<in> set ms) \<and>
     bit f 4 = (ch CHR ''h'' \<in> set ms) \<and> \<not> bit f 1 \<and> \<not> bit f 2 \<and> \<not> bit f 5"

lemma pr_reset_same:
  "pm s = pm t \<Longrightarrow> pstr s = pstr t \<Longrightarrow> pcount s = pcount t \<Longrightarrow> pargs s = pargs t \<Longrightarrow> pr_reset s = pr_reset t"
  by (cases s; cases t) (simp add: pr_reset_def)

lemma numeral_fits: "2 \<le> radix \<Longrightarrow> length (numeral_of caps radix (unat (w :: uint))) \<le> 32"
proof -
  assume r: "2 \<le> radix"
  have "unat w < 2 ^ 32" using unat_uint_less [of w] by simp
  also have "(2 :: nat) ^ 32 \<le> radix ^ 32" using r by (rule power_mono) simp
  finally show ?thesis using r by (intro numeral_of_length) auto
qed

lemma pr_num_field:
  fixes s :: pr and radix :: uint
  defines "num \<equiv> pr_load s"
  defines "neg \<equiv> bit (pflags s) 2 \<and> s32 num < 0"
  defines "out \<equiv> field (bit (pflags s) 0) (bit (pflags s) 6) (unat (pwd s)) neg
     (numeral_of (bit (pflags s) 1) (unat radix) (unat (if neg then - num else num)))"
  assumes r: "2 \<le> unat radix" "unat radix \<le> 16" and f: "\<not> bit (pflags s) 5"
    and R: "region (pstr s) (length out) \<subseteq> R"
  shows "map_option pr_reset (pr_num radix s) = Some (pr_reset (app out (s\<lparr>pargs := pargs s + 4\<rparr>)))"
proof -
  let ?s1 = "s\<lparr>pargs := pargs s + 4, pflags := (if neg then pflags s OR PR_NUM0 else pflags s)\<rparr>"
  let ?body = "numeral_of (bit (pflags s) 1) (unat radix) (unat (if neg then - num else num))"
  have bits: "bit (pflags ?s1) 0 = bit (pflags s) 0" "bit (pflags ?s1) 6 = bit (pflags s) 6"
    "bit (pflags ?s1) 5 = neg" "bit (pflags ?s1) 1 = bit (pflags s) 1"
    using f by (simp_all add: flag_simps)
  have "1 < radix" using r(1) by (simp add: word_less_nat_alt)
  then have run: "pr_num radix s = pr_emit (Buf ?body) ?s1"
    using bits(4) by (simp add: pr_num_def pr_digits_numeral Let_def num_def neg_def flag_simps)
  have "where_holds (pm ?s1) R (Buf ?body) ?body"
    using numeral_of_value [OF r] by (simp add: where_holds_def)
  moreover have "length ?body + 1 < 4294967296"
    using numeral_fits [OF r(1)] by (rule order.strict_trans1 [OF add_right_mono]) simp
  ultimately have "map_option pr_reset (pr_emit (Buf ?body) ?s1) = Some (pr_reset (app out ?s1))"
    using pr_emit_field [of ?s1 R "Buf ?body" ?body] R bits(1,2,3) unfolding out_def by simp
  also have "pr_reset (app out ?s1) = pr_reset (app out (s\<lparr>pargs := pargs s + 4\<rparr>))"
    by (rule pr_reset_same) simp_all
  finally show ?thesis unfolding run .
qed

lemma ld16_ld32: "ld16 m a = ucast (ld32 m a)"
  by (rule bit_word_eqI) (auto simp: ld16_def ld32_def bit_simps)

lemma unat_word_of_int32: "0 \<le> k \<Longrightarrow> k < 4294967296 \<Longrightarrow> unat (word_of_int k :: uint) = nat k"
  by (simp add: unsigned_of_int take_bit_int_eq_self)

lemma sint_bounds32: "- 2147483648 \<le> sint (w :: uint)" "sint (w :: uint) < 2147483648"
  using sint_ge [of w] sint_lt [of w] by simp_all

lemma unat_abs_sint: "unat (if sint (w :: uint) < 0 then - w else w) = nat \<bar>sint w\<bar>"
proof (cases "sint w < 0")
  case True
  have "- w = word_of_int (- sint w)" by simp
  then have "unat (- w) = unat (word_of_int (- sint w) :: uint)" by (rule arg_cong)
  also have "\<dots> = nat (- sint w)" using True sint_bounds32 [of w] by (intro unat_word_of_int32) auto
  finally show ?thesis using True by simp
next
  case False
  have "unat w = unat (word_of_int (sint w) :: uint)" by simp
  also have "\<dots> = nat (sint w)" using False sint_bounds32 [of w] by (intro unat_word_of_int32) auto
  finally show ?thesis using False by simp
qed

lemma sint_scast_half [simp]: "sint (scast (h :: half) :: uint) = sint h"
  by (rule sint_up_scast) (simp add: is_up)

lemma uint_ucast_half [simp]: "uint (ucast (h :: half) :: uint) = uint h"
  by (rule uint_up_ucast) (simp add: is_up)

text \<open>The number loaded and negated as in the source is the absolute value of the one meant.\<close>

lemma pr_load_value:
  assumes f: "bit (pflags s) 3 = (ch CHR ''l'' \<in> set ms)" "bit (pflags s) 4 = (ch CHR ''h'' \<in> set ms)"
    and c: "bit (pflags s) 2 = (c \<in> set (str ''di''))" and w: "ld32 (pm s) (pargs s) = w"
  defines "neg \<equiv> bit (pflags s) 2 \<and> s32 (pr_load s) < 0"
  shows "neg = (conv_value ms c w < 0)"
    and "unat (if neg then - pr_load s else pr_load s) = nat \<bar>conv_value ms c w\<bar>"
proof -
  have s: "sint (pr_load s) = conv_value ms c w" if "bit (pflags s) 2"
    using that f c w by (simp add: pr_load_def conv_value_def Let_def flag_simps ld16_ld32 del: str_simps)
  have u: "uint (pr_load s) = conv_value ms c w" if "\<not> bit (pflags s) 2"
    using that f c w by (simp add: pr_load_def conv_value_def Let_def flag_simps ld16_ld32 del: str_simps)
  have u0: "0 \<le> conv_value ms c w" if "\<not> bit (pflags s) 2" using u [OF that] by (metis uint_ge_0)
  show n: "neg = (conv_value ms c w < 0)" using s u0 by (cases "bit (pflags s) 2") (auto simp: neg_def)
  show "unat (if neg then - pr_load s else pr_load s) = nat \<bar>conv_value ms c w\<bar>"
  proof (cases "bit (pflags s) 2")
    case True
    with s n unat_abs_sint [of "pr_load s"] show ?thesis by simp
  next
    case False
    with u u0 n show ?thesis by (simp add: neg_def) (metis abs_of_nonneg unat_eq_nat_uint)
  qed
qed

definition conv_flags :: "byte \<Rightarrow> uint" where
  "conv_flags c = (if c = ch CHR ''X'' then PR_CAPS else if c \<in> set (str ''di'') then PR_SIGN else 0)"

lemma pr_convert_num:
  "c \<in> num_convs \<Longrightarrow>
   pr_convert c s = pr_num (of_nat (conv_radix c)) (s\<lparr>pflags := pflags s OR conv_flags c\<rparr>)"
  by (auto simp: num_convs_def conv_radix_def pr_convert_def conv_flags_def)

lemma conv_flags_bits:
  "bit (conv_flags c) n \<longleftrightarrow> (c = ch CHR ''X'' \<and> n = 1) \<or> (c \<in> set (str ''di'') \<and> n = 2)"
proof -
  consider "c = ch CHR ''X''" | "c \<noteq> ch CHR ''X''" "c \<in> set (str ''di'')"
    | "c \<noteq> ch CHR ''X''" "c \<notin> set (str ''di'')" by blast
  then show ?thesis
  proof cases
    case 1
    then have "conv_flags c = 2" "c \<notin> set (str ''di'')" by (simp_all add: conv_flags_def)
    with 1 show ?thesis by (simp only: flag_const_bits) simp
  next
    case 2
    then have "conv_flags c = 4" by (simp add: conv_flags_def del: str_simps)
    with 2 show ?thesis by (simp only: flag_const_bits) simp
  next
    case 3
    then show ?thesis by (simp add: conv_flags_def del: str_simps)
  qed
qed

lemma pr_convert_num_field:
  assumes c: "c \<in> num_convs" and f: "dir_flags (pflags s) l z ms"
    and w: "ld32 (pm s) (pargs s) = n" and wd: "unat (pwd s) = wd"
  defines "v \<equiv> conv_value ms c n"
  defines "out \<equiv> field l z wd (v < 0) (numeral_of (c = ch CHR ''X'') (conv_radix c) (nat \<bar>v\<bar>))"
  assumes R: "region (pstr s) (length out) \<subseteq> R"
  shows "map_option pr_reset (pr_convert c s) = Some (pr_reset (app out (s\<lparr>pargs := pargs s + 4\<rparr>)))"
proof -
  let ?s = "s\<lparr>pflags := pflags s OR conv_flags c\<rparr>"
  have bits: "bit (pflags ?s) 0 = l" "bit (pflags ?s) 6 = z" "bit (pflags ?s) 1 = (c = ch CHR ''X'')"
    "\<not> bit (pflags ?s) 5" "bit (pflags ?s) 2 = (c \<in> set (str ''di''))"
    "bit (pflags ?s) 3 = (ch CHR ''l'' \<in> set ms)" "bit (pflags ?s) 4 = (ch CHR ''h'' \<in> set ms)"
    using f by (auto simp: dir_flags_def bit_or_iff conv_flags_bits simp del: str_simps)
  have "ld32 (pm ?s) (pargs ?s) = n" using w by simp
  note v1 = pr_load_value(1) [OF bits(6,7,5) this, folded v_def]
  note v2 = pr_load_value(2) [OF bits(6,7,5) \<open>ld32 (pm ?s) (pargs ?s) = n\<close>, folded v_def, unfolded v1]
  have r: "unat (of_nat (conv_radix c) :: uint) = conv_radix c" "2 \<le> conv_radix c" "conv_radix c \<le> 16"
    by (auto simp: conv_radix_def)
  have "map_option pr_reset (pr_num (of_nat (conv_radix c)) ?s) =
      Some (pr_reset (app out (?s\<lparr>pargs := pargs ?s + 4\<rparr>)))"
    using pr_num_field [of "of_nat (conv_radix c)" ?s R] r R wd bits(4)
    unfolding v1 v2 bits(1,2,3) r(1) by (simp add: out_def)
  also have "pr_reset (app out (?s\<lparr>pargs := pargs ?s + 4\<rparr>)) = pr_reset (app out (s\<lparr>pargs := pargs s + 4\<rparr>))"
    by (rule pr_reset_same) simp_all
  finally show ?thesis using pr_convert_num [OF c] by simp
qed

lemma pr_convert_char_field:
  assumes f: "dir_flags (pflags s) l z ms" and w: "ld32 (pm s) (pargs s) = n" "(ucast n :: byte) \<noteq> 0"
    and wd: "unat (pwd s) = wd"
  defines "out \<equiv> field l False wd False [ucast n]"
  assumes R: "region (pstr s) (length out) \<subseteq> R"
  shows "map_option pr_reset (pr_convert (ch CHR ''c'') s) =
    Some (pr_reset (app out (s\<lparr>pargs := pargs s + 4\<rparr>)))"
proof -
  define s' where "s' = s\<lparr>pflags := pflags s AND NOT PR_ZEROPAD, pargs := pargs s + 4\<rparr>"
  have bits: "bit (pflags s') 0 = l" "\<not> bit (pflags s') 6" "\<not> bit (pflags s') 5" "unat (pwd s') = wd"
    using f wd by (simp_all add: s'_def dir_flags_def bit_and_iff bit_not_iff flag_const_bits)
  have b: "pm s (pargs s) = ucast n" using w(1) ld32_bytes(1) [of "pm s" "pargs s"] by simp
  have "where_holds (pm s') R (Buf [ucast n]) [ucast n]" using w(2) by (simp add: where_holds_def)
  moreover have "length ((if l then [] else replicate (wd - 1) (ch CHR '' '')) @ [ucast n :: byte])
      \<le> length out"
    by (auto simp: out_def length_field)
  from region_mono [OF this, of "pstr s"] have "region (pstr s')
      (length (((if l then [] else replicate (wd - 1) (ch CHR '' '')) @ []) @ [ucast n :: byte])) \<subseteq> R"
    using R by (cases l) (auto simp: s'_def)
  ultimately have "map_option pr_reset (pr_emit2 (Buf [ucast n]) 1 s') = Some (pr_reset (app out s'))"
    using pr_emit2_app [of s' R "Buf [ucast n]" "[ucast n]" 1] bits
    by (cases l) (simp_all add: out_def field_def)
  also have "pr_reset (app out s') = pr_reset (app out (s\<lparr>pargs := pargs s + 4\<rparr>))"
    by (rule pr_reset_same) (simp_all add: s'_def)
  finally show ?thesis using b by (simp add: pr_convert_def s'_def)
qed

lemma pr_convert_string_field:
  assumes f: "dir_flags (pflags s) l z ms" and v: "arg_at (pm s) R (pargs s) (Str t)"
    and len: "length t + 1 < 4294967296" and wd: "unat (pwd s) = wd"
  defines "out \<equiv> field l False wd False t"
  assumes R: "region (pstr s) (length out) \<subseteq> R"
  shows "map_option pr_reset (pr_convert (ch CHR ''s'') s) =
    Some (pr_reset (app out (s\<lparr>pargs := pargs s + 4\<rparr>)))"
proof -
  let ?s = "s\<lparr>pflags := pflags s AND NOT PR_ZEROPAD, pargs := pargs s + 4\<rparr>"
  let ?w = "Ptr (ld32 (pm s) (pargs s))"
  have bits: "bit (pflags ?s) 0 = l" "bit (pflags ?s) 6 = False" "bit (pflags ?s) 5 = False"
    using f by (simp_all add: dir_flags_def bit_and_iff bit_not_iff flag_const_bits)
  have "where_holds (pm ?s) R ?w t" using v by (simp add: where_holds_def del: region_simps)
  then have "map_option pr_reset (pr_emit ?w ?s) = Some (pr_reset (app out ?s))"
    using pr_emit_field [of ?s R ?w t] bits wd R len unfolding out_def by simp
  also have "pr_reset (app out ?s) = pr_reset (app out (s\<lparr>pargs := pargs s + 4\<rparr>))"
    by (rule pr_reset_same) simp_all
  finally show ?thesis by (simp add: pr_convert_def)
qed

lemma pr_convert_field:
  assumes f: "dir_flags (pflags s) l z ms" and v: "arg_at (pm s) R (pargs s) v"
    and out: "render (Dir l z w ms c) v = Some out" and wd: "unat (pwd s) = dec_value w mod 2 ^ 32"
    and R: "region (pstr s) (length out) \<subseteq> R" and len: "length out + 1 < 4294967296"
  shows "map_option pr_reset (pr_convert c s) = Some (pr_reset (app out (s\<lparr>pargs := pargs s + 4\<rparr>)))"
proof (cases v)
  case (Num n)
  with v have n: "ld32 (pm s) (pargs s) = n" by simp
  show ?thesis
  proof (cases "c \<in> num_convs")
    case True
    with out Num R pr_convert_num_field [OF True f n wd] show ?thesis by (auto simp: Let_def)
  next
    case False
    with out Num R pr_convert_char_field [OF f n _ wd] show ?thesis by (auto split: if_splits)
  qed
next
  case (Str t)
  with out have o: "c = ch CHR ''s''" "out = field l False (dec_value w mod 2 ^ 32) False t"
    by (auto split: if_splits)
  then have "length t + 1 < 4294967296" using len by (simp add: length_field)
  with o Str v R pr_convert_string_field [OF f _ _ wd] show ?thesis by auto
qed

section \<open>Scanning a directive\<close>

definition pr_from :: "(addr \<Rightarrow> pr \<Rightarrow> (addr \<times> pr) option) \<Rightarrow> addr \<Rightarrow> pr \<Rightarrow> pr option" where
  "pr_from f fmt s = do { (fmt', s') \<leftarrow> f fmt s; pr_loop (fmt' + 1) s' }"

lemma pr_loop_from:
  assumes "pm s fmt \<noteq> 0"
  shows "pstate s = 0 \<Longrightarrow> pm s fmt = ch CHR ''%'' \<Longrightarrow>
      pr_loop fmt s = pr_from pr_case1 (fmt + 1) (s\<lparr>pstate := 1\<rparr>)"
    and "pstate s = 0 \<Longrightarrow> pm s fmt \<noteq> ch CHR ''%'' \<Longrightarrow> pr_loop fmt s = pr_loop (fmt + 1) (app [pm s fmt] s)"
    and "pstate s = 1 \<Longrightarrow> pr_loop fmt s = pr_from pr_case1 fmt s"
    and "pstate s = 2 \<Longrightarrow> pr_loop fmt s = pr_from pr_case2 fmt s"
    and "pstate s = 3 \<Longrightarrow> pr_loop fmt s = pr_from pr_case3 fmt s"
  using assms by (subst pr_loop.simps; simp add: pr_step_def pr_from_def emit_app del: ch_Char)+

lemma scan_width:
  "pstate s = 2 \<Longrightarrow> bytes_at (pm s) fmt (ds @ [c]) \<Longrightarrow> list_all is_dec ds \<Longrightarrow> c \<noteq> 0 \<Longrightarrow>
   pwd s = of_nat acc \<Longrightarrow>
   pr_from pr_case2 fmt s =
     pr_from pr_case2 (fmt + of_nat (length ds)) (s\<lparr>pwd := of_nat (value_of 10 acc ds)\<rparr>)"
proof (induction ds arbitrary: fmt s acc)
  case Nil
  then have "s\<lparr>pwd := of_nat acc\<rparr> = s" by (cases s) simp
  then show ?case by simp
next
  case (Cons d ds)
  let ?s = "s\<lparr>pwd := of_nat (10 * acc + digit_value d)\<rparr>"
  have d: "pm s fmt = d" "is_dec d" using Cons.prems by auto
  have "pm s (fmt + 1) = hd (ds @ [c])" "hd (ds @ [c]) \<noteq> 0"
    using Cons.prems by (cases ds; auto simp: is_dec_def)+
  then have nz: "pm ?s (fmt + 1) \<noteq> 0" by simp
  have "pr_from pr_case2 fmt s = pr_loop (fmt + 1) ?s"
    using d dec_step [OF d(2)] Cons.prems(5)
    by (simp add: pr_from_def pr_case2_def is_dec_sint)
  also have "\<dots> = pr_from pr_case2 (fmt + 1) ?s"
    using Cons.prems by (intro pr_loop_from(4) [OF nz]) simp
  also have "\<dots> = pr_from pr_case2 (fmt + 1 + of_nat (length ds))
      (?s\<lparr>pwd := of_nat (value_of 10 (10 * acc + digit_value d) ds)\<rparr>)"
    using Cons.prems by (intro Cons.IH) auto
  finally show ?case by (simp add: add.assoc)
qed

definition mod_flag :: "byte \<Rightarrow> uint \<Rightarrow> uint" where
  "mod_flag c f = (if c = ch CHR ''F'' then f OR PR_FARPTR else if c = ch CHR ''l'' then f OR PR_NUM32
     else if c = ch CHR ''h'' then f OR PR_NUM16 else f)"

lemma scan_modifiers:
  "pstate s = 3 \<Longrightarrow> bytes_at (pm s) fmt (ms @ [c]) \<Longrightarrow> set ms \<subseteq> modifiers \<Longrightarrow> c \<noteq> 0 \<Longrightarrow>
   pr_from pr_case3 fmt s =
     pr_from pr_case3 (fmt + of_nat (length ms)) (s\<lparr>pflags := fold mod_flag ms (pflags s)\<rparr>)"
proof (induction ms arbitrary: fmt s)
  case (Cons d ms)
  let ?s = "s\<lparr>pflags := mod_flag d (pflags s)\<rparr>"
  have d: "pm s fmt = d" "d \<in> modifiers" using Cons.prems by auto
  have "pm s (fmt + 1) = hd (ms @ [c])" "hd (ms @ [c]) \<noteq> 0"
    using Cons.prems by (cases ms; auto simp: modifiers_def)+
  then have nz: "pm ?s (fmt + 1) \<noteq> 0" by simp
  have "pr_from pr_case3 fmt s = pr_loop (fmt + 1) ?s"
    using d by (auto simp: pr_from_def pr_case3_def modifiers_def mod_flag_def)
  also have "\<dots> = pr_from pr_case3 (fmt + 1) ?s"
    using Cons.prems by (intro pr_loop_from(5) [OF nz]) simp
  also have "\<dots> = pr_from pr_case3 (fmt + 1 + of_nat (length ms))
      (?s\<lparr>pflags := fold mod_flag ms (pflags ?s)\<rparr>)"
    using Cons.prems by (intro Cons.IH) auto
  finally show ?case by (simp add: add.assoc)
qed simp

lemma mod_flags:
  "bit (fold mod_flag ms f) 3 \<longleftrightarrow> bit f 3 \<or> ch CHR ''l'' \<in> set ms"
  "bit (fold mod_flag ms f) 4 \<longleftrightarrow> bit f 4 \<or> ch CHR ''h'' \<in> set ms"
  "n \<in> {0, 1, 2, 5, 6} \<Longrightarrow> bit (fold mod_flag ms f) n = bit f n"
  by (induction ms arbitrary: f) (auto simp: mod_flag_def bit_or_iff flag_const_bits)

lemma scan_after_flags:
  assumes s: "pstate s = 2" "pwd s = 0" and t: "bytes_at (pm s) fmt (w @ ms @ [c])"
    and wf: "wf_item (Dir l True w ms c)"
  shows "pr_from pr_case2 fmt s = (map_option pr_reset (pr_convert c (s\<lparr>
      pwd := of_nat (dec_value w), pflags := fold mod_flag ms (pflags s), pstate := 4\<rparr>)) \<bind>
      pr_loop (fmt + of_nat (length (w @ ms)) + 1))"
proof -
  have cs: "c \<noteq> 0" "\<not> is_dec c" "c \<notin> modifiers" and m0: "\<forall>d \<in> set ms. d \<noteq> 0 \<and> \<not> is_dec d"
    using wf by (auto simp: num_convs_def modifiers_def is_dec_def)
  let ?a = "fmt + of_nat (length w)" and ?s1 = "s\<lparr>pwd := of_nat (dec_value w)\<rparr>"
  let ?s2 = "?s1\<lparr>pstate := 3\<rparr>"
  let ?s3 = "?s2\<lparr>pflags := fold mod_flag ms (pflags s)\<rparr>"
  let ?h = "hd (ms @ [c])"
  have h: "?h \<noteq> 0" "\<not> is_dec ?h" using cs m0 by (cases ms; auto)+
  have b: "bytes_at (pm s) fmt (w @ [?h])" "bytes_at (pm s) ?a (ms @ [c])"
    using t by (cases ms; auto simp: bytes_at_append)+
  then have ha: "pm s ?a = ?h" by (simp add: bytes_at_append)
  have "pr_from pr_case2 fmt s = pr_from pr_case2 ?a ?s1"
    using s b(1) wf h by (intro scan_width [of _ _ _ _ 0]) auto
  also have "\<dots> = pr_from pr_case3 ?a ?s2"
  proof -
    have "\<not> (48 \<le> sint (pm ?s1 ?a) \<and> sint (pm ?s1 ?a) \<le> 57)"
      using ha h(2) by (simp add: is_dec_sint del: hd_append2)
    then show ?thesis by (simp only: pr_from_def pr_case2_def Let_def if_False)
  qed
  also have "\<dots> = pr_from pr_case3 (?a + of_nat (length ms)) ?s3"
    using b(2) wf cs(1) by (subst scan_modifiers [of _ _ _ c]) auto
  also have "\<dots> = (map_option pr_reset (pr_convert c (?s3\<lparr>pstate := 4\<rparr>)) \<bind>
      pr_loop (?a + of_nat (length ms) + 1))"
  proof -
    have "pm s (?a + of_nat (length ms)) = c" using b(2) by (simp add: bytes_at_append)
    with cs(3) show ?thesis
      by (cases "pr_convert c (?s3\<lparr>pstate := 4\<rparr>)")
        (simp_all add: pr_from_def pr_case3_def pr_case4_def modifiers_def)
  qed
  finally show ?thesis by (simp add: add.assoc)
qed

lemma directive_chars:
  "c \<in> num_convs \<union> set (str ''cs'') \<union> modifiers \<Longrightarrow> c \<notin> {0, ch CHR ''%'', ch CHR ''-'', ch CHR ''0''}"
  "is_dec c \<Longrightarrow> c \<notin> {0, ch CHR ''%'', ch CHR ''-''}"
  by (auto simp: num_convs_def modifiers_def is_dec_def)

lemma hd_after_flags:
  assumes "wf_item (Dir l z w ms c)"
  shows "hd (w @ ms @ [c]) \<notin> {0, ch CHR ''%'', ch CHR ''-''}" "z \<or> hd (w @ ms @ [c]) \<noteq> ch CHR ''0''"
proof -
  consider d w' where "w = d # w'" | d ms' where "w = []" "ms = d # ms'" | "w = []" "ms = []"
    by (cases w; cases ms) auto
  then have "hd (w @ ms @ [c]) \<notin> {0, ch CHR ''%'', ch CHR ''-''} \<and> (z \<or> hd (w @ ms @ [c]) \<noteq> ch CHR ''0'')"
  proof cases
    case 1
    then show ?thesis using assms directive_chars(2) [of d] by simp
  next
    case 2
    then show ?thesis using assms directive_chars(1) [of d] by simp
  next
    case 3
    then show ?thesis using assms directive_chars(1) [of c] by (simp del: str_simps ch_Char)
  qed
  then show "hd (w @ ms @ [c]) \<notin> {0, ch CHR ''%'', ch CHR ''-''}" "z \<or> hd (w @ ms @ [c]) \<noteq> ch CHR ''0''"
    by blast+
qed

text \<open>After the optional minus sign, with the scanner in state 1.\<close>

lemma scan_zero:
  assumes s: "pstate s = 1" "pwd s = 0"
    and t: "bytes_at (pm s) fmt ((if z then str ''0'' else []) @ w @ ms @ [c])"
    and wf: "wf_item (Dir l z w ms c)"
  shows "pr_from pr_case1 fmt s = (map_option pr_reset (pr_convert c (s\<lparr>pwd := of_nat (dec_value w),
      pflags := fold mod_flag ms (if z then pflags s OR PR_ZEROPAD else pflags s), pstate := 4\<rparr>)) \<bind>
      pr_loop (fmt + of_nat (length ((if z then str ''0'' else []) @ w @ ms)) + 1))"
proof (cases z)
  case True
  let ?s = "s\<lparr>pstate := 2, pflags := pflags s OR PR_ZEROPAD\<rparr>"
  have t': "pm s fmt = ch CHR ''0''" "bytes_at (pm s) (fmt + 1) (w @ ms @ [c])" using t True by auto
  then have "pr_from pr_case1 fmt s = pr_from pr_case2 (fmt + 1) ?s"
    by (simp add: pr_from_def pr_case1_def)
  also have "\<dots> = (map_option pr_reset (pr_convert c (?s\<lparr>pwd := of_nat (dec_value w),
      pflags := fold mod_flag ms (pflags ?s), pstate := 4\<rparr>)) \<bind>
      pr_loop (fmt + 1 + of_nat (length (w @ ms)) + 1))"
    using s t' wf True by (intro scan_after_flags [of _ _ _ _ _ l]) auto
  finally show ?thesis using True by (simp add: add.assoc add.left_commute)
next
  case False
  let ?s = "s\<lparr>pstate := 2\<rparr>"
  have t': "bytes_at (pm s) fmt (w @ ms @ [c])" using t False by simp
  then have h: "pm s fmt = hd (w @ ms @ [c])" by (cases "w @ ms @ [c]") auto
  have n: "pm s fmt \<noteq> ch CHR ''%''" "pm s fmt \<noteq> ch CHR ''-''" "pm s fmt \<noteq> ch CHR ''0''"
    using hd_after_flags [OF wf] False unfolding h by blast+
  have "pr_from pr_case1 fmt s = pr_from pr_case2 fmt ?s"
    using n by (simp only: pr_from_def pr_case1_def Let_def if_False)
  also have "\<dots> = (map_option pr_reset (pr_convert c (?s\<lparr>pwd := of_nat (dec_value w),
      pflags := fold mod_flag ms (pflags ?s), pstate := 4\<rparr>)) \<bind>
      pr_loop (fmt + of_nat (length (w @ ms)) + 1))"
    using s t' wf by (intro scan_after_flags [of _ _ _ _ _ l]) auto
  finally show ?thesis using False by simp
qed

lemma scan_directive:
  assumes s: "pstate s = 0" "pflags s = 0" "pwd s = 0"
    and t: "bytes_at (pm s) fmt (item_text (Dir l z w ms c))"
    and wf: "wf_item (Dir l z w ms c)"
  shows "\<exists>F. dir_flags F l z ms \<and> pr_loop fmt s =
    (map_option pr_reset (pr_convert c (s\<lparr>pwd := of_nat (dec_value w), pflags := F, pstate := 4\<rparr>)) \<bind>
      pr_loop (fmt + of_nat (length (item_text (Dir l z w ms c)))))"
proof -
  let ?z = "if z then str ''0'' else []"
  let ?f = "if l then PR_LJFY else 0" and ?k = "if l then 1 else (0 :: nat)"
  let ?s = "s\<lparr>pstate := 1, pflags := ?f\<rparr>"
  let ?F = "fold mod_flag ms (if z then ?f OR PR_ZEROPAD else ?f)"
  have t': "pm s fmt = ch CHR ''%''" "bytes_at (pm s) (fmt + 1) ((if l then str ''-'' else []) @ ?z @ w @ ms @ [c])"
    using t by auto
  have "pr_loop fmt s = pr_from pr_case1 (fmt + 1) (s\<lparr>pstate := 1\<rparr>)"
    using s t' by (intro pr_loop_from(1)) auto
  also have "\<dots> = pr_from pr_case1 (fmt + 1 + of_nat ?k) ?s"
  proof (cases l)
    case True
    have hz: "hd (?z @ w @ ms @ [c]) \<noteq> 0" using hd_after_flags(1) [OF wf] by (cases z) auto
    have m: "pm s (fmt + 1) = ch CHR ''-''" "bytes_at (pm s) (fmt + 1 + 1) (?z @ w @ ms @ [c])"
      using t' True by (auto simp: add.assoc)
    have nz: "pm ?s (fmt + 1 + 1) \<noteq> 0"
      using m(2) hz by (cases "?z @ w @ ms @ [c]") auto
    have "pr_from pr_case1 (fmt + 1) (s\<lparr>pstate := 1\<rparr>) = pr_loop (fmt + 1 + 1) ?s"
      using m(1) s True by (simp add: pr_from_def pr_case1_def)
    also have "\<dots> = pr_from pr_case1 (fmt + 1 + 1) ?s" by (rule pr_loop_from(3) [OF nz]) simp
    finally show ?thesis using True by simp
  next
    case False
    have "?s = s\<lparr>pstate := 1\<rparr>" using False s by (cases s) simp
    with False show ?thesis by simp
  qed
  also have "\<dots> = (map_option pr_reset (pr_convert c (?s\<lparr>pwd := of_nat (dec_value w), pflags := ?F, pstate := 4\<rparr>))
      \<bind> pr_loop (fmt + 1 + of_nat ?k + of_nat (length (?z @ w @ ms)) + 1))"
    using scan_zero [of ?s "fmt + 1 + of_nat ?k" z w ms c l] s t' wf by (cases l) (simp_all add: add.assoc)
  also have "fmt + 1 + of_nat ?k + of_nat (length (?z @ w @ ms)) + 1 =
      fmt + of_nat (length (item_text (Dir l z w ms c)))"
    by (cases l; cases z) (simp_all add: algebra_simps)
  finally have "pr_loop fmt s = (map_option pr_reset (pr_convert c
      (s\<lparr>pwd := of_nat (dec_value w), pflags := ?F, pstate := 4\<rparr>)) \<bind>
      pr_loop (fmt + of_nat (length (item_text (Dir l z w ms c)))))"
    by simp
  moreover have "dir_flags ?F l z ms"
    by (simp add: dir_flags_def mod_flags flag_simps)
  ultimately show ?thesis by blast
qed

section \<open>The whole format\<close>

lemma pr_reset_clean [simp]:
  "pstate (pr_reset s) = 0" "pflags (pr_reset s) = 0" "pwd (pr_reset s) = 0" "pm (pr_reset s) = pm s"
  "pstr (pr_reset s) = pstr s" "pcount (pr_reset s) = pcount s" "pargs (pr_reset s) = pargs s"
  by (simp_all add: pr_reset_def)

lemma pr_clean_reset: "pstate s = 0 \<Longrightarrow> pflags s = 0 \<Longrightarrow> pwd s = 0 \<Longrightarrow> pr_reset s = s"
  by (cases s) (simp add: pr_reset_def)

lemma cstr_append: "cstr m a (xs @ ys) \<longleftrightarrow> 0 \<notin> set xs \<and> bytes_at m a xs \<and> cstr m (a + of_nat (length xs)) ys"
  by (auto simp: cstr_bytes_at bytes_at_append)

lemma args_at_app:
  assumes "region (pstr s) (length xs) \<subseteq> R" "args_at (pm s) R a vs"
  shows "args_at (pm (app xs s)) R a vs"
  using args_at_cong [of R "pm (app xs s)" "pm s" a vs] app_outside [OF assms(1)] assms(2) by blast

text \<open>One item: its text is consumed, what it renders to is appended, its argument is taken.\<close>

lemma pr_loop_item:
  assumes clean: "pr_reset s = s" and t: "bytes_at (pm s) fmt (item_text i)" and wf: "wf_item i"
    and r: "renders (i # its) vs = Some out" and a: "args_at (pm s) R (pargs s) vs"
    and R: "region (pstr s) (length out) \<subseteq> R" and len: "length out + 1 < 4294967296"
  obtains xs ys vs' s' where "out = xs @ ys" "renders its vs' = Some ys"
    "pr_loop fmt s = pr_loop (fmt + of_nat (length (item_text i))) s'"
    "s' = app xs (s\<lparr>pargs := pargs s'\<rparr>)" "args_at (pm s') R (pargs s') vs'" "pr_reset s' = s'"
proof (cases i)
  case (Lit c)
  then obtain ys where ys: "out = [c] @ ys" "renders its vs = Some ys" using r by auto
  have c: "pm s fmt = c" "c \<noteq> 0" "c \<noteq> ch CHR ''%''" using t wf Lit by auto
  have cl: "pstate s = 0" "pflags s = 0" "pwd s = 0" using clean by (metis pr_reset_clean)+
  then have "pr_loop fmt s = pr_loop (fmt + of_nat (length (item_text i))) (app [c] s)"
    using pr_loop_from(2) [of s fmt] c Lit by simp
  moreover have "args_at (pm (app [c] s)) R (pargs (app [c] s)) vs"
    using R ys a args_at_app [of s "[c]" R "pargs s" vs] by auto
  moreover have "pr_reset (app [c] s) = app [c] s"
    using cl by (intro pr_clean_reset) simp_all
  ultimately show thesis using that [of "[c]" ys vs "app [c] s"] ys by simp
next
  case Percent
  let ?c = "ch CHR ''%''"
  obtain ys where ys: "out = [?c] @ ys" "renders its vs = Some ys" using r Percent by auto
  have c: "pm s fmt = ?c" "pm s (fmt + 1) = ?c" using t Percent by auto
  have cl: "pstate s = 0" "pflags s = 0" "pwd s = 0" using clean by (metis pr_reset_clean)+
  then have "pr_loop fmt s = pr_loop (fmt + 1 + 1) (pr_reset (emit ?c (s\<lparr>pstate := 1\<rparr>)))"
    using pr_loop_from(1) [of s fmt] c by (simp add: pr_from_def pr_case1_def)
  moreover have "pr_reset (emit ?c (s\<lparr>pstate := 1\<rparr>)) = app [?c] s"
    by (subst clean [symmetric]) (simp add: pr_reset_def emit_def app_def)
  moreover have "args_at (pm (app [?c] s)) R (pargs (app [?c] s)) vs"
    using R ys a args_at_app [of s "[?c]" R "pargs s" vs] by auto
  moreover have "pr_reset (app [?c] s) = app [?c] s"
    using cl by (intro pr_clean_reset) simp_all
  ultimately show thesis using that [of "[?c]" ys vs "app [?c] s"] ys Percent by (simp add: add.assoc)
next
  case (Dir l z w ms c)
  then obtain v vs' xs ys where v: "vs = v # vs'" "render i v = Some xs" "renders its vs' = Some ys"
    "out = xs @ ys"
    using r by (cases vs) (auto split: bind_splits)
  have cl: "pstate s = 0" "pflags s = 0" "pwd s = 0" using clean by (metis pr_reset_clean)+
  obtain F where F: "dir_flags F l z ms" and run: "pr_loop fmt s =
      (map_option pr_reset (pr_convert c (s\<lparr>pwd := of_nat (dec_value w), pflags := F, pstate := 4\<rparr>)) \<bind>
      pr_loop (fmt + of_nat (length (item_text i))))"
    using scan_directive [OF cl] t wf Dir by metis
  let ?S = "s\<lparr>pwd := of_nat (dec_value w), pflags := F, pstate := 4\<rparr>"
  have xsR: "region (pstr s) (length xs) \<subseteq> R"
    using R v(4) region_mono [of "length xs" "length out" "pstr s"] by auto
  have "map_option pr_reset (pr_convert c ?S) = Some (pr_reset (app xs (?S\<lparr>pargs := pargs ?S + 4\<rparr>)))"
    using F v a Dir xsR len
    by (intro pr_convert_field [where v = v and l = l and z = z and ms = ms and w = w and R = R])
      (auto simp: unat_of_nat32)
  moreover have "pr_reset (app xs (?S\<lparr>pargs := pargs ?S + 4\<rparr>)) = app xs (s\<lparr>pargs := pargs s + 4\<rparr>)"
    by (subst (2) clean [symmetric]) (simp add: pr_reset_def app_def)
  ultimately have "pr_loop fmt s = pr_loop (fmt + of_nat (length (item_text i)))
      (app xs (s\<lparr>pargs := pargs s + 4\<rparr>))"
    using run by (simp only: Option.bind.bind_lunit)
  moreover have "args_at (pm (app xs (s\<lparr>pargs := pargs s + 4\<rparr>))) R (pargs s + 4) vs'"
    using args_at_app [OF xsR, of "pargs s + 4" vs'] a v(1) by simp
  moreover have "pr_reset (app xs (s\<lparr>pargs := pargs s + 4\<rparr>)) = app xs (s\<lparr>pargs := pargs s + 4\<rparr>)"
    using cl by (intro pr_clean_reset) simp_all
  ultimately show thesis using that [of xs ys vs' "app xs (s\<lparr>pargs := pargs s + 4\<rparr>)"] v by simp
qed

lemma pr_loop_format:
  "pr_reset s = s \<Longrightarrow> cstr (pm s) fmt (format_text its) \<Longrightarrow> list_all wf_item its \<Longrightarrow>
   region fmt (Suc (length (format_text its))) \<inter> R = {} \<Longrightarrow>
   renders its vs = Some out \<Longrightarrow> args_at (pm s) R (pargs s) vs \<Longrightarrow>
   region (pstr s) (length out) \<subseteq> R \<Longrightarrow> length out + 1 < 4294967296 \<Longrightarrow>
   \<exists>s'. pr_loop fmt s = Some s' \<and> pm s' = st_bytes (pstr s) out (pm s) \<and>
     pstr s' = pstr s + of_nat (length out) \<and> pcount s' = pcount s + of_nat (length out)"
proof (induction its arbitrary: s fmt vs out)
  case Nil
  then show ?case by (subst pr_loop.simps) (simp add: format_text_def)
next
  case (Cons i its)
  let ?n = "length (item_text i)" and ?l = "length (format_text its)"
  have ft: "format_text (i # its) = item_text i @ format_text its" by (simp add: format_text_def)
  have tx: "bytes_at (pm s) fmt (item_text i)" "cstr (pm s) (fmt + of_nat ?n) (format_text its)"
    using Cons.prems(2) unfolding ft by (simp_all add: cstr_append)
  have wf: "wf_item i" using Cons.prems(3) by simp
  obtain xs ys vs' s' where st: "out = xs @ ys" "renders its vs' = Some ys"
    "pr_loop fmt s = pr_loop (fmt + of_nat ?n) s'" "s' = app xs (s\<lparr>pargs := pargs s'\<rparr>)"
    "args_at (pm s') R (pargs s') vs'" "pr_reset s' = s'"
    by (rule pr_loop_item [OF Cons.prems(1) tx(1) wf Cons.prems(5-8)])
  have s': "pm s' = st_bytes (pstr s) xs (pm s)" "pstr s' = pstr s + of_nat (length xs)"
    "pcount s' = pcount s + of_nat (length xs)"
    by (subst st(4), simp)+
  have "region (fmt + of_nat ?n) (Suc ?l) \<subseteq> region fmt (Suc (length (format_text (i # its))))"
    using region_offset [of fmt ?n "Suc ?l"] unfolding ft by simp
  then have dj: "region (fmt + of_nat ?n) (Suc ?l) \<inter> R = {}" using Cons.prems(4) by blast
  have ysR: "region (pstr s') (length ys) \<subseteq> R"
    using Cons.prems(7) region_offset [of "pstr s" "length xs" "length ys"] st(1) s'(2) by auto
  have xsR: "region (pstr s) (length xs) \<subseteq> R"
    using Cons.prems(7) region_mono [of "length xs" "length out" "pstr s"] st(1) by auto
  have "cstr (pm s') (fmt + of_nat ?n) (format_text its) =
      cstr (pm s) (fmt + of_nat ?n) (format_text its)"
    unfolding s'(1) using dj xsR by (intro cstr_cong st_bytes_outside) blast
  with tx(2) Cons.IH [of s' "fmt + of_nat ?n" vs' ys] st(2,5,6) dj ysR Cons.prems(3,8) st(1)
  obtain s'' where "pr_loop (fmt + of_nat ?n) s' = Some s''" "pm s'' = st_bytes (pstr s') ys (pm s')"
    "pstr s'' = pstr s' + of_nat (length ys)" "pcount s'' = pcount s' + of_nat (length ys)"
    by auto
  then show ?case using st(1,3) s' by (simp add: st_bytes_append add.assoc)
qed

lemma vsnprintf_format:
  assumes "cstr m fmt (format_text its)" "list_all wf_item its" "renders its vs = Some out"
    and "args_at m (region dst (Suc (length out))) args vs"
    and "region fmt (Suc (length (format_text its))) \<inter> region dst (Suc (length out)) = {}"
    and "length out + 1 < 4294967296"
  shows "\<exists>m'. vsnprintf dst sz fmt args m = Some (of_nat (length out), m') \<and>
    bytes_at m' dst (out @ [0]) \<and> (\<forall>x. x \<in> region dst (Suc (length out)) \<or> m' x = m x)"
proof -
  let ?s = "\<lparr>pm = m, pstr = dst, pcount = 0, pstate = 0, pflags = 0, pwd = 0, pargs = args\<rparr>"
  let ?m = "st_bytes dst (out @ [0]) m"
  have "pr_reset ?s = ?s" by (simp add: pr_reset_def)
  then obtain s' where "pr_loop fmt ?s = Some s'" "pm s' = st_bytes dst out m"
    "pstr s' = dst + of_nat (length out)" "pcount s' = of_nat (length out)"
    using pr_loop_format [of ?s fmt its "region dst (Suc (length out))" vs out] assms
      region_mono [of "length out" "Suc (length out)" dst] by auto
  then have "vsnprintf dst sz fmt args m = Some (of_nat (length out), ?m)"
    by (simp add: vsnprintf_def st_bytes_append)
  moreover have "bytes_at ?m dst (out @ [0])" using assms(6) by (intro bytes_at_st_bytes) simp
  moreover have "\<forall>x. x \<in> region dst (Suc (length out)) \<or> ?m x = m x"
    using st_bytes_outside [of _ dst "out @ [0]" m] by force
  ultimately show ?thesis by blast
qed

section \<open>Properties\<close>

text \<open>
  C16 (refinement). On a well-formed format and matching arguments \<open>vsnprintf\<close> returns, whatever
  \<open>size\<close> is: the buffer then holds, NUL-terminated, exactly what the items of the format
  render to (literal text, \<open>%%\<close>, and padded, signed fields in the radix of their
  conversion), the result is its length, and no byte outside the buffer has changed. Format, arguments
  and strings must not overlap the output.
\<close>

theorem vsnprintf_renders:
  assumes "cstr m fmt (format_text its)" "list_all wf_item its" "renders its vs = Some out"
    and "args_at m (region dst (Suc (length out))) args vs"
    and "region fmt (Suc (length (format_text its))) \<inter> region dst (Suc (length out)) = {}"
    and "length out + 1 < 4294967296"
  shows "\<exists>m'. vsnprintf dst sz fmt args m = Some (of_nat (length out), m') \<and>
    bytes_at m' dst (out @ [0]) \<and> (\<forall>x. x \<in> region dst (Suc (length out)) \<or> m' x = m x)"
  using assms by (rule vsnprintf_format)

text \<open>
  The digits of a number fit in the 15 bytes of \<open>buf\<close> before its terminator, in every
  radix the conversions use, and are a numeral of the number.
\<close>

theorem pr_digits_fit:
  assumes "radix \<in> {8, 10, 16}"
  shows "length (pr_digits caps radix num []) \<le> 11 \<and> 0 \<notin> set (pr_digits caps radix num []) \<and>
    value_of (unat radix) 0 (pr_digits caps radix num []) = unat num"
proof -
  have r: "2 \<le> unat radix" "unat radix \<le> 16" "1 < radix" "8 \<le> unat radix" using assms by auto
  have "unat num < 8 ^ 11" using unat_uint_less [of num] by simp
  also have "(8 :: nat) ^ 11 \<le> unat radix ^ 11" using r(4) by (rule power_mono) simp
  finally have "length (numeral_of caps (unat radix) (unat num)) \<le> 11"
    using r by (intro numeral_of_length) auto
  with numeral_of_value [OF r(1,2), of caps "unat num"] show ?thesis
    by (simp add: pr_digits_numeral [OF r(3)])
qed

lemma renders_lits: "renders (map Lit pre @ its) vs = map_option ((@) pre) (renders its vs)"
proof (induction pre)
  case Nil
  then show ?case by (cases "renders its vs") auto
next
  case (Cons c pre)
  then show ?case by (cases "renders its vs") auto
qed

lemma vsnprintf_number:
  assumes fmt: "cstr m fmt (format_text (map Lit pre @ [Dir False False [] [] c]))"
    and pre: "0 \<notin> set pre" "ch CHR ''%'' \<notin> set pre" "length pre \<le> 2"
    and c: "c \<in> num_convs" "c \<notin> set (str ''di'')" and r: "radix = conv_radix c" "8 < radix"
    and dj: "region args 4 \<inter> region dst 13 = {}" "region fmt (length pre + 3) \<inter> region dst 13 = {}"
  shows "\<exists>n m'. vsnprintf dst sz fmt args m = Some (n, m') \<and>
    cstr m' dst (pre @ numeral_of (c = ch CHR ''X'') radix (unat (ld32 m args)))"
proof -
  let ?its = "map Lit pre @ [Dir False False [] [] c]" and ?w = "ld32 m args"
  let ?num = "numeral_of (c = ch CHR ''X'') radix (unat ?w)"
  let ?out = "pre @ ?num"
  have r10: "10 \<le> radix" "radix \<le> 16" using r by (auto simp: conv_radix_def split: if_splits)
  have "unat ?w < 10 ^ 10" using unat_uint_less [of ?w] by simp
  also have "(10 :: nat) ^ 10 \<le> radix ^ 10" using r10(1) by (rule power_mono) simp
  finally have "length ?num \<le> 10" using r10 by (intro numeral_of_length) auto
  then have len: "Suc (length ?out) \<le> 13" using pre(3) by simp
  note sub = region_mono [OF len, of dst]
  have val: "conv_value [] c ?w = uint ?w" using c(2) by (simp add: conv_value_def del: str_simps)
  have nu: "nat (uint ?w) = unat ?w" by simp
  have rd: "renders ?its [Num ?w] = Some ?out"
    using c(1) by (simp add: renders_lits val nu r(1) field_def)
  have wf: "list_all wf_item ?its" using pre(1,2) c(1) by (auto simp: list_all_iff)
  have ft: "Suc (length (format_text ?its)) = length pre + 3" by (simp add: format_text_def comp_def)
  have ar: "args_at m (region dst (Suc (length ?out))) args [Num ?w]" using dj(1) sub by auto
  have fd: "region fmt (Suc (length (format_text ?its))) \<inter> region dst (Suc (length ?out)) = {}"
    unfolding ft using dj(2) sub by blast
  have "length ?out + 1 < 4294967296" using len by simp
  from vsnprintf_format [OF fmt wf rd ar fd this, of sz]
  obtain m' where "vsnprintf dst sz fmt args m = Some (of_nat (length ?out), m')"
    "bytes_at m' dst (?out @ [0])" by blast
  moreover have "0 \<notin> set ?out" using pre(1) numeral_of_value [of radix] r10 by auto
  ultimately show ?thesis unfolding cstr_bytes_at by blast
qed

text \<open>
  C19 (roundtrip). What \<open>%u\<close>, \<open>0x%x\<close> and \<open>0x%X\<close> print, \<open>atoi\<close> reads back as the same number.
\<close>

theorem vsnprintf_atoi:
  assumes "cstr m fmt t" "t \<in> {str ''%u'', str ''0x%x'', str ''0x%X''}"
    and "region args 4 \<inter> region dst 13 = {}" "region fmt 5 \<inter> region dst 13 = {}"
  shows "\<exists>n m'. vsnprintf dst sz fmt args m = Some (n, m') \<and> atoi val0 m' dst = Some (ld32 m args)"
proof -
  have f3: "region fmt 3 \<inter> region dst 13 = {}" using assms(4) region_mono [of 3 5 fmt] by auto
  let ?w = "unat (ld32 m args)"
  consider (u) "t = str ''%u''" | (x) c where "c = ch CHR ''x'' \<or> c = ch CHR ''X''" "t = str ''0x%'' @ [c]"
    using assms(2) by auto
  then show ?thesis
  proof cases
    case u
    have "\<exists>n m'. vsnprintf dst sz fmt args m = Some (n, m') \<and>
        cstr m' dst ([] @ numeral_of (ch CHR ''u'' = ch CHR ''X'') 10 ?w)"
      using u assms(1,3) f3
      by (intro vsnprintf_number) (auto simp: format_text_def num_convs_def conv_radix_def)
    then obtain n m' where "vsnprintf dst sz fmt args m = Some (n, m')"
      "cstr m' dst (numeral_of False 10 ?w)" by auto
    moreover from atoi_dec_numeral [OF this(2)] numeral_of_value [of 10 False ?w] numeral_of_nonempty
    have "atoi val0 m' dst = Some (ld32 m args)" by auto
    ultimately show ?thesis by blast
  next
    case x
    have "\<exists>n m'. vsnprintf dst sz fmt args m = Some (n, m') \<and>
        cstr m' dst (str ''0x'' @ numeral_of (c = ch CHR ''X'') 16 ?w)"
      using x assms(1,3,4)
      by (intro vsnprintf_number) (auto simp: format_text_def num_convs_def conv_radix_def)
    then obtain n m' where "vsnprintf dst sz fmt args m = Some (n, m')"
      "cstr m' dst (48 # 120 # numeral_of (c = ch CHR ''X'') 16 ?w)" by auto
    moreover from atoi_hex_numeral [OF this(2)] numeral_of_value [of 16 "c = ch CHR ''X''" ?w]
      numeral_fits [of 16 "c = ch CHR ''X''" "ld32 m args"]
    have "atoi val0 m' dst = Some (ld32 m args)" by auto
    ultimately show ?thesis by blast
  qed
qed

section \<open>Witnesses\<close>

definition demo_mem :: "string \<Rightarrow> uint \<Rightarrow> memory" where
  "demo_mem f w = st32 0x2000 w (st_bytes 0x1000 (str f @ [0]) (\<lambda>_. 0))"

definition demo_items :: "item list" where
  "demo_items = [Lit (ch CHR ''n''), Lit (ch CHR ''=''), Dir False False (str ''5'') [] (ch CHR ''d''), Percent]"

theorem vsnprintf_renders_witness:
  "\<exists>m'. vsnprintf 0x3000 100 0x1000 0x2000 (demo_mem ''n=%5d%%'' (- 7)) = Some (8, m') \<and>
     bytes_at m' 0x3000 (str ''n=   -7%'' @ [0])"
proof -
  let ?m = "demo_mem ''n=%5d%%'' (- 7)" and ?out = "str ''n=   -7%''"
  have ft: "format_text demo_items = str ''n=%5d%%''" by (simp add: demo_items_def format_text_def)
  have c: "cstr ?m 0x1000 (format_text demo_items)" by (simp add: ft demo_mem_def st32_def)
  have wf: "list_all wf_item demo_items" by (simp add: demo_items_def is_dec_def num_convs_def)
  have "numeral_of False 10 7 = str ''7''" "replicate 3 (32 :: byte) = [32, 32, 32]"
    by (subst numeral_of.simps, simp add: pr_digit_def, simp add: numeral_3_eq_3)
  then have r: "renders demo_items [Num (- 7)] = Some ?out"
    by (simp add: demo_items_def num_convs_def conv_value_def conv_radix_def digit_value_def field_def)
  have l: "Suc (length ?out) = 9" "Suc (length (format_text demo_items)) = 8" by (simp_all add: ft)
  have "ld32 ?m 0x2000 = - 7" by (simp add: demo_mem_def)
  then have a: "args_at ?m (region 0x3000 (Suc (length ?out))) 0x2000 [Num (- 7)]"
    unfolding l by (auto simp: region_iff)
  have d: "region 0x1000 (Suc (length (format_text demo_items))) \<inter>
      region (0x3000 :: addr) (Suc (length ?out)) = {}"
    unfolding l by (auto simp: region_iff)
  have "length ?out + 1 < 4294967296" by simp
  from vsnprintf_renders [OF c wf r a d this, of 100] show ?thesis by auto
qed

theorem pr_digits_fit_witness:
  "length (pr_digits False 10 4294967295 []) \<le> 11 \<and>
   value_of 10 0 (pr_digits False 10 4294967295 []) = 4294967295"
  using pr_digits_fit [of 10 False 4294967295] by simp

theorem vsnprintf_atoi_witness:
  "\<exists>n m'. vsnprintf 0x3000 100 0x1000 0x2000 (demo_mem ''0x%x'' 48879) = Some (n, m') \<and>
     atoi 0 m' 0x3000 = Some 48879"
proof -
  let ?m = "demo_mem ''0x%x'' 48879"
  have "cstr ?m 0x1000 (str ''0x%x'')" by (simp add: demo_mem_def st32_def)
  moreover have "region 0x2000 4 \<inter> region (0x3000 :: addr) 13 = {}"
    "region 0x1000 5 \<inter> region (0x3000 :: addr) 13 = {}"
    by (auto simp: region_iff)
  moreover have "ld32 ?m 0x2000 = 48879" by (simp add: demo_mem_def)
  ultimately show ?thesis
    using vsnprintf_atoi [of ?m "0x1000" "str ''0x%x''" "0x2000" "0x3000" 100 0] by auto
qed

end
