(* ===== verification/Storage.thy ===== *)
theory Storage
  imports Janus_Prelude
begin

text \<open>
  What the rest of the kernel expects of its storage allocator, as an interface:
  \<open>owns s L\<close> says that in state \<open>s\<close> the pointers \<open>L\<close> are handed out and the allocator's own
  data is intact, \<open>usable s a\<close> are the bytes the client of \<open>a\<close> may touch. The allocator of
  \<open>src/mm/kmalloc.c\<close> is shown to provide it in \<open>Kmalloc\<close>, for the requests its two defects
  spare (\<open>alloc_safe\<close>, \<open>free_safe\<close>); the clients' lemmas are proved here once.
\<close>

locale storage =
  fixes owns :: "'s \<Rightarrow> addr set \<Rightarrow> bool"
    and alloc :: "uint \<Rightarrow> 's \<Rightarrow> (addr \<times> 's) option"
    and free :: "addr \<Rightarrow> 's \<Rightarrow> 's option"
    and alloc_safe :: "uint \<Rightarrow> 's \<Rightarrow> bool"
    and free_safe :: "addr \<Rightarrow> 's \<Rightarrow> bool"
    and usable :: "'s \<Rightarrow> addr \<Rightarrow> addr set"
    and get :: "'s \<Rightarrow> memory"
    and put :: "memory \<Rightarrow> 's \<Rightarrow> 's"
  assumes alloc_total: "owns s L \<Longrightarrow> alloc_safe n s \<Longrightarrow> \<exists>a s'. alloc n s = Some (a, s')"
    and alloc_null: "owns s L \<Longrightarrow> alloc_safe n s \<Longrightarrow> alloc n s = Some (NULL, s') \<Longrightarrow> s' = s"
    and alloc_owns: "owns s L \<Longrightarrow> alloc_safe n s \<Longrightarrow> alloc n s = Some (a, s') \<Longrightarrow> a \<noteq> NULL \<Longrightarrow>
      a \<notin> L \<and> owns s' (insert a L)"
    and alloc_size: "owns s L \<Longrightarrow> alloc_safe n s \<Longrightarrow> alloc n s = Some (a, s') \<Longrightarrow> a \<noteq> NULL \<Longrightarrow>
      unat n + 7 < 4294967296 \<Longrightarrow> region a (unat n) \<subseteq> usable s' a"
    and alloc_keeps: "owns s L \<Longrightarrow> alloc_safe n s \<Longrightarrow> alloc n s = Some (a, s') \<Longrightarrow> b \<in> L \<Longrightarrow>
      usable s' b = usable s b \<and> (\<forall>x \<in> usable s b. get s' x = get s x)"
    and free_total: "owns s L \<Longrightarrow> a \<in> L \<Longrightarrow> free_safe a s \<Longrightarrow>
      \<exists>s'. free a s = Some s' \<and> owns s' (L - {a})"
    and free_keeps: "owns s L \<Longrightarrow> a \<in> L \<Longrightarrow> free_safe a s \<Longrightarrow> free a s = Some s' \<Longrightarrow>
      b \<in> L - {a} \<Longrightarrow> usable s' b = usable s b \<and> (\<forall>x \<in> usable s b. get s' x = get s x)"
    and usable_disjoint: "owns s L \<Longrightarrow> a \<in> L \<Longrightarrow> b \<in> L \<Longrightarrow> a \<noteq> b \<Longrightarrow> usable s a \<inter> usable s b = {}"
    and put_owns: "owns s L \<Longrightarrow> a \<in> L \<Longrightarrow> (\<And>x. x \<notin> usable s a \<Longrightarrow> m x = get s x) \<Longrightarrow>
      owns (put m s) L \<and> (\<forall>b \<in> L. usable (put m s) b = usable s b)"
    and get_put: "get (put m s) = m"
begin

text \<open>Storing bytes in one's own block.\<close>

lemma store_own:
  assumes "owns s L" "a \<in> L" "region c (length bs) \<subseteq> usable s a"
  shows "owns (put (st_bytes c bs (get s)) s) L"
    and "b \<in> L \<Longrightarrow> usable (put (st_bytes c bs (get s)) s) b = usable s b"
    and "b \<in> L \<Longrightarrow> b \<noteq> a \<Longrightarrow> x \<in> usable s b \<Longrightarrow> get (put (st_bytes c bs (get s)) s) x = get s x"
proof -
  have "st_bytes c bs (get s) x = get s x" if "x \<notin> usable s a" for x
    using that assms(3) by (intro st_bytes_outside) blast
  with put_owns [OF assms(1,2)] show "owns (put (st_bytes c bs (get s)) s) L"
    and "b \<in> L \<Longrightarrow> usable (put (st_bytes c bs (get s)) s) b = usable s b"
    by blast+
  show "get (put (st_bytes c bs (get s)) s) x = get s x"
    if "b \<in> L" "b \<noteq> a" "x \<in> usable s b"
    using that assms(3) usable_disjoint [OF assms(1,2), of b]
    by (auto simp: get_put intro!: st_bytes_outside)
qed

text \<open>A client that allocates a block and fills it disturbs no other client.\<close>

lemma alloc_fill:
  assumes own: "owns s L" and safe: "alloc_safe n s" and al: "alloc n s = Some (a, s1)" "a \<noteq> NULL"
    and fits: "length bs \<le> unat n" "unat n + 7 < 4294967296"
  defines "s2 \<equiv> put (st_bytes a bs (get s1)) s1"
  shows "owns s2 (insert a L)" "a \<notin> L" "bytes_at (get s2) a bs"
    and "b \<in> L \<Longrightarrow> x \<in> usable s b \<Longrightarrow> get s2 x = get s x"
    and "b \<in> L \<Longrightarrow> usable s2 b = usable s b"
proof -
  note new = alloc_owns [OF own safe al]
  have "region a (length bs) \<subseteq> usable s1 a"
    using alloc_size [OF own safe al fits(2)] region_mono [OF fits(1), of a] by blast
  note st = store_own [OF conjunct2 [OF new] insertI1 this]
  show "owns s2 (insert a L)" "a \<notin> L" using st(1) new by (simp_all add: s2_def)
  show "bytes_at (get s2) a bs"
    using fits unfolding s2_def get_put by (intro bytes_at_st_bytes) simp
  show "get s2 x = get s x" if "b \<in> L" "x \<in> usable s b"
    using that st(3) [of b x] alloc_keeps [OF own safe al(1), of b] new by (auto simp: s2_def)
  show "usable s2 b = usable s b" if "b \<in> L"
    using that st(2) [of b] alloc_keeps [OF own safe al(1), of b] by (simp add: s2_def)
qed

text \<open>A block that is allocated, filled and freed leaves the other clients as they were.\<close>

lemma scratch_block:
  assumes own: "owns s L" and safe: "alloc_safe n s" and al: "alloc n s = Some (a, s1)" "a \<noteq> NULL"
    and fits: "length bs \<le> unat n" "unat n + 7 < 4294967296"
    and fs: "free_safe a (put (st_bytes a bs (get s1)) s1)"
  shows "\<exists>s3. free a (put (st_bytes a bs (get s1)) s1) = Some s3 \<and> owns s3 L \<and>
    (\<forall>b \<in> L. usable s3 b = usable s b \<and> (\<forall>x \<in> usable s b. get s3 x = get s x))"
proof -
  note f = alloc_fill [OF own safe al fits]
  obtain s3 where s3: "free a (put (st_bytes a bs (get s1)) s1) = Some s3" "owns s3 (insert a L - {a})"
    using free_total [OF f(1) insertI1 fs] by blast
  have "usable s3 b = usable s b \<and> (\<forall>x \<in> usable s b. get s3 x = get s x)" if "b \<in> L" for b
    using free_keeps [OF f(1) insertI1 fs s3(1), of b] f(2,4,5) that by auto
  with s3 f(2) show ?thesis by auto
qed

end

end
