(* ===== verification/Kmalloc.thy ===== *)
theory Kmalloc
  imports Storage
begin

text \<open>
  The kernel's storage allocator, \<open>src/mm/kmalloc.c\<close>: a circular free list, in address order,
  threaded through 8-byte headers (\<open>union header\<close>: the word at offset 0 is \<open>s.ptr\<close>, the word at
  offset 4 is \<open>s.size\<close>) that live in the managed memory itself. Sizes are in units of one header.
  The allocator works on the byte memory, so a client that writes past its block
  would corrupt the list here as it does on the machine.
\<close>

section \<open>Constants and headers\<close>

abbreviation KERNEL_MEM_START :: addr where
  "KERNEL_MEM_START \<equiv> 0x200000"

abbreviation KERNEL_MEM_SIZE :: uint where
  "KERNEL_MEM_SIZE \<equiv> 0xE00000"

record heap = machine +
  heap_base :: addr
  freep :: addr

definition hdr_ptr :: "memory \<Rightarrow> addr \<Rightarrow> addr" where
  "hdr_ptr m p = ld32 m p"

definition hdr_size :: "memory \<Rightarrow> addr \<Rightarrow> uint" where
  "hdr_size m p = ld32 m (p + 4)"

definition set_ptr :: "addr \<Rightarrow> addr \<Rightarrow> memory \<Rightarrow> memory" where
  "set_ptr p v m = st32 p v m"

definition set_size :: "addr \<Rightarrow> uint \<Rightarrow> memory \<Rightarrow> memory" where
  "set_size p v m = st32 (p + 4) v m"

section \<open>kmalloc\<close>

definition nunits_of :: "uint \<Rightarrow> uint" where
  "nunits_of nbytes = (nbytes + 8 - 1) div 8 + 1"

definition morecore :: "uint \<Rightarrow> addr" where
  "morecore nu = NULL"

definition kmalloc_init :: "'a heap_scheme \<Rightarrow> 'a heap_scheme" where
  "kmalloc_init s =
     (if freep s = NULL
      then s\<lparr>heap_base := KERNEL_MEM_START, freep := KERNEL_MEM_START,
         mem := set_size KERNEL_MEM_START (KERNEL_MEM_SIZE div 8)
           (set_ptr KERNEL_MEM_START KERNEL_MEM_START (mem s))\<rparr>
      else s)"

text \<open>The search loop: \<open>Some None\<close> when the loop returns \<open>NULL\<close>.\<close>

partial_function (option) kmalloc_search ::
    "memory \<Rightarrow> addr \<Rightarrow> uint \<Rightarrow> addr \<Rightarrow> addr \<Rightarrow> (addr \<times> addr) option option" where
  "kmalloc_search m fp nunits prevp p =
     (if hdr_size m p \<ge> nunits then Some (Some (prevp, p))
      else if p = fp then
        (if morecore nunits = NULL then Some None
         else kmalloc_search m fp nunits (morecore nunits) (hdr_ptr m (morecore nunits)))
      else kmalloc_search m fp nunits p (hdr_ptr m p))"

definition kmalloc :: "uint \<Rightarrow> 'a heap_scheme \<Rightarrow> (addr \<times> 'a heap_scheme) option" where
  "kmalloc nbytes s0 = (let nunits = nunits_of nbytes; s = kmalloc_init s0; m = mem s in do {
     found \<leftarrow> kmalloc_search m (freep s) nunits (freep s) (hdr_ptr m (freep s));
     (case found of
        None \<Rightarrow> Some (NULL, s)
      | Some (prevp, p) \<Rightarrow>
          if hdr_size m p = nunits
          then Some (p + 8, s\<lparr>mem := set_ptr prevp (hdr_ptr m p) m, freep := prevp\<rparr>)
          else (let m1 = set_size p (hdr_size m p - nunits) m;
                    q = p + 8 * hdr_size m1 p
                in Some (q + 8, s\<lparr>mem := set_size q nunits m1, freep := prevp\<rparr>))) })"

section \<open>kfree\<close>

partial_function (option) kfree_search :: "memory \<Rightarrow> addr \<Rightarrow> addr \<Rightarrow> addr option" where
  "kfree_search m bp p =
     (if bp > p \<and> bp < hdr_ptr m p then Some p
      else if p \<ge> hdr_ptr m p \<and> (bp > p \<or> bp < hdr_ptr m p) then Some p
      else kfree_search m bp (hdr_ptr m p))"

definition kfree_join_upper :: "addr \<Rightarrow> addr \<Rightarrow> memory \<Rightarrow> memory" where
  "kfree_join_upper bp p m =
     (if bp + 8 * hdr_size m bp = hdr_ptr m p
      then (let m1 = set_size bp (hdr_size m bp + hdr_size m (hdr_ptr m p)) m
            in set_ptr bp (hdr_ptr m1 (hdr_ptr m1 p)) m1)
      else set_ptr bp (hdr_ptr m p) m)"

definition kfree_join_lower :: "addr \<Rightarrow> addr \<Rightarrow> memory \<Rightarrow> memory" where
  "kfree_join_lower bp p m =
     (if p + 8 * hdr_size m p = bp
      then (let m1 = set_size p (hdr_size m p + hdr_size m bp) m in set_ptr p (hdr_ptr m1 bp) m1)
      else set_ptr p bp m)"

definition kfree :: "addr \<Rightarrow> 'a heap_scheme \<Rightarrow> 'a heap_scheme option" where
  "kfree ap s = (let bp = ap - 8 in do {
     p \<leftarrow> kfree_search (mem s) bp (freep s);
     Some (s\<lparr>mem := kfree_join_lower bp p (kfree_join_upper bp p (mem s)), freep := p\<rparr>) })"

section \<open>Headers in memory\<close>

abbreviation aligned8 :: "addr \<Rightarrow> bool" where
  "aligned8 p \<equiv> 8 dvd unat p"

lemma aligned8_room: "aligned8 p \<Longrightarrow> unat p + 8 \<le> 4294967296"
  using unat_uint_less [of p] by (auto elim!: dvdE)

lemma aligned8_4: "aligned8 p \<Longrightarrow> aligned4 p \<and> aligned4 (p + 4)"
  using aligned8_room [of p] unat_add_small [of p 4] by (auto intro: dvd_trans [of 4 8] dvd_add)

lemma aligned8_ne: "aligned8 p \<Longrightarrow> aligned8 q \<Longrightarrow> p + 4 \<noteq> q"
proof
  assume a: "8 dvd unat p" "8 dvd unat q" "p + 4 = q"
  then have "8 dvd unat p + 4" using aligned8_room [of p] unat_add_small [of p 4] by auto
  then have "8 dvd (4::nat)" using a(1) by (simp add: dvd_add_right_iff del: dvd_add_left_iff)
  then show False by simp
qed

lemma hdr_simps [simp]:
  assumes "aligned8 p" "aligned8 q"
  shows "hdr_ptr (set_ptr p v m) q = (if p = q then v else hdr_ptr m q)"
    and "hdr_size (set_size p v m) q = (if p = q then v else hdr_size m q)"
    and "hdr_ptr (set_size p v m) q = hdr_ptr m q"
    and "hdr_size (set_ptr p v m) q = hdr_size m q"
  using aligned8_4 [OF assms(1)] aligned8_4 [OF assms(2)]
    aligned8_ne [OF assms] aligned8_ne [OF assms(2,1)]
  by (auto simp: hdr_ptr_def hdr_size_def set_ptr_def set_size_def ld32_st32_aligned)

lemma hdr_same [simp]:
  "hdr_ptr (set_ptr p v m) p = v"
  "hdr_size (set_size p v m) p = v"
  by (simp_all add: hdr_ptr_def hdr_size_def set_ptr_def set_size_def)

lemma set_hdr_outside [frame_simps]:
  "x \<notin> region p 8 \<Longrightarrow> set_ptr p v m x = m x"
  "x \<notin> region p 8 \<Longrightarrow> set_size p v m x = m x"
proof -
  have "region p 4 \<subseteq> region p 8" by (rule region_mono) simp
  moreover have "region (p + 4) 4 \<subseteq> region p 8"
    using region_offset [of p 4 4] by simp
  ultimately show "x \<notin> region p 8 \<Longrightarrow> set_ptr p v m x = m x"
    and "x \<notin> region p 8 \<Longrightarrow> set_size p v m x = m x"
    by (auto simp: set_ptr_def set_size_def intro!: st32_outside)
qed

section \<open>The free list as a list\<close>

text \<open>\<open>linked m ps q\<close>: the \<open>ptr\<close> fields lead along \<open>ps\<close> and from its last header to \<open>q\<close>.\<close>

fun linked :: "memory \<Rightarrow> addr list \<Rightarrow> addr \<Rightarrow> bool" where
  "linked m [] q = True"
| "linked m (p # ps) q = (hdr_ptr m p = hd (ps @ [q]) \<and> linked m ps q)"

definition ring :: "memory \<Rightarrow> addr list \<Rightarrow> bool" where
  "ring m ps \<longleftrightarrow> ps \<noteq> [] \<and> linked m ps (hd ps)"

lemma linked_append:
  "linked m (xs @ ys) q \<longleftrightarrow> linked m xs (hd (ys @ [q])) \<and> linked m ys q"
  by (induction xs) (auto simp: hd_append)

lemma ring_rotate: "ring m (xs @ ys) \<longleftrightarrow> ring m (ys @ xs)"
  by (cases xs; cases ys) (auto simp: ring_def linked_append hd_append)

lemma linked_cong:
  "(\<And>p. p \<in> set ps \<Longrightarrow> hdr_ptr m p = hdr_ptr m' p) \<Longrightarrow> linked m ps q = linked m' ps q"
  by (induction ps) auto

lemma ring_cong:
  "(\<And>p. p \<in> set ps \<Longrightarrow> hdr_ptr m p = hdr_ptr m' p) \<Longrightarrow> ring m ps = ring m' ps"
  using linked_cong [of ps m m'] by (simp add: ring_def)

lemma ring_last: "ring m ps \<Longrightarrow> hdr_ptr m (last ps) = hd ps"
proof -
  assume r: "ring m ps"
  then have "ps = butlast ps @ [last ps]" by (simp add: ring_def)
  with r have "linked m (butlast ps @ [last ps]) (hd ps)" by (metis ring_def)
  then show ?thesis by (simp add: linked_append)
qed

lemma ring_set_last:
  assumes "linked m (us @ [l]) q" "l \<notin> set us" "\<forall>p \<in> set (us @ [l]). aligned8 p"
  shows "ring (set_ptr l (hd (us @ [l])) m) (us @ [l])"
proof -
  have "linked (set_ptr l (hd (us @ [l])) m) us l = linked m us l"
    using assms(2,3) by (intro linked_cong) auto
  with assms(1) show ?thesis by (simp add: ring_def linked_append)
qed

lemma ring_set_last_ex:
  assumes "linked m (us @ [l]) q" "distinct (us @ [l])" "\<forall>p \<in> set (us @ [l]). aligned8 p"
    and "v = hd (us @ [l])"
  shows "ring (set_ptr l v m) (us @ [l])"
  using ring_set_last [of m us l q] assms by simp

section \<open>The invariant\<close>

definition blk_end :: "memory \<Rightarrow> addr \<Rightarrow> nat" where
  "blk_end m p = unat p + 8 * unat (hdr_size m p)"

definition ok_block :: "memory \<Rightarrow> addr \<Rightarrow> bool" where
  "ok_block m p \<longleftrightarrow> aligned8 p \<and> 0x200000 \<le> unat p \<and> 0 < hdr_size m p \<and> blk_end m p \<le> 0x1000000"

definition apart :: "memory \<Rightarrow> addr \<Rightarrow> addr \<Rightarrow> bool" where
  "apart m p q \<longleftrightarrow> blk_end m p \<le> unat q \<or> blk_end m q \<le> unat p"

text \<open>
  \<open>free_list m bs\<close>: the free headers \<open>bs\<close>, in address order, with no two adjacent blocks (they
  would have been coalesced), form the circular list. \<open>heap_ok s bs ls\<close> adds the blocks
  \<open>ls\<close> handed out and not yet freed: no two blocks overlap.
\<close>

definition free_list :: "memory \<Rightarrow> addr list \<Rightarrow> bool" where
  "free_list m bs \<longleftrightarrow> ring m bs \<and> (\<forall>p \<in> set bs. ok_block m p) \<and>
     sorted_wrt (\<lambda>p q. blk_end m p < unat q) bs"

definition heap_ok :: "'a heap_scheme \<Rightarrow> addr list \<Rightarrow> addr set \<Rightarrow> bool" where
  "heap_ok s bs ls \<longleftrightarrow> free_list (mem s) bs \<and> freep s \<in> set bs \<and>
     (\<forall>p \<in> ls. ok_block (mem s) p) \<and>
     (\<forall>p \<in> ls. \<forall>q \<in> set bs \<union> (ls - {p}). apart (mem s) p q)"

definition free_units :: "memory \<Rightarrow> addr list \<Rightarrow> nat" where
  "free_units m bs = (\<Sum>p \<leftarrow> bs. unat (hdr_size m p))"

definition block :: "memory \<Rightarrow> addr \<Rightarrow> addr set" where
  "block m p = {x. unat p \<le> unat x \<and> unat x < blk_end m p}"

lemma ok_blockD:
  assumes "ok_block m p"
  shows "aligned8 p" "0x200000 \<le> unat p" "blk_end m p \<le> 0x1000000" "0 < unat (hdr_size m p)"
    "unat p + 8 \<le> blk_end m p" "p \<noteq> NULL"
  using assms by (auto simp: ok_block_def blk_end_def word_less_nat_alt)

lemma apart_sym: "apart m p q \<longleftrightarrow> apart m q p"
  by (auto simp: apart_def)

lemma apart_ne: "apart m p q \<Longrightarrow> ok_block m p \<Longrightarrow> p \<noteq> q"
  by (auto simp: apart_def dest: ok_blockD)

lemma unat_8_mult: "8 * unat w < 4294967296 \<Longrightarrow> unat (8 * w :: uint) = 8 * unat w"
  by (simp add: unat_word_ariths)

lemma unat_block_end:
  "unat p + 8 * unat w < 4294967296 \<Longrightarrow> unat (p + 8 * w :: uint) = unat p + 8 * unat w"
  by (subst unat_add_small) (simp_all add: unat_8_mult)

lemma blk_end_word: "ok_block m p \<Longrightarrow> unat (p + 8 * hdr_size m p) = blk_end m p"
  by (subst unat_block_end) (auto simp: blk_end_def ok_block_def)

lemma sorted_blocks_distinct:
  "sorted_wrt (\<lambda>p q. blk_end m p < unat q) bs \<Longrightarrow> distinct bs"
  by (induction bs) (auto simp: blk_end_def)

lemma sorted_blocks_apart:
  "sorted_wrt (\<lambda>p q. blk_end m p < unat q) bs \<Longrightarrow> p \<in> set bs \<Longrightarrow> q \<in> set bs \<Longrightarrow> p \<noteq> q \<Longrightarrow>
     apart m p q"
  by (induction bs) (auto simp: apart_def)

lemma size_cong:
  assumes "hdr_size m' p = hdr_size m p"
  shows "blk_end m' p = blk_end m p" "ok_block m' p = ok_block m p"
  using assms by (auto simp: blk_end_def ok_block_def)

lemma sorted_blocks_cong:
  assumes "sorted_wrt (\<lambda>p q. blk_end m p < unat q) bs"
    and "\<And>p. p \<in> set bs \<Longrightarrow> blk_end m' p \<le> blk_end m p"
  shows "sorted_wrt (\<lambda>p q. blk_end m' p < unat q) bs"
  by (rule sorted_wrt_mono_rel [OF _ assms(1)]) (meson assms(2) le_less_trans)

lemma ring_rotate_k: "ring m (rotate k ps) \<longleftrightarrow> ring m ps"
  by (metis append_take_drop_id ring_rotate rotate_drop_take)

section \<open>The search for a block that is big enough\<close>

lemma kmalloc_search_linked:
  "linked m (prev # qs) q \<Longrightarrow> qs \<noteq> [] \<Longrightarrow> last qs = fp \<Longrightarrow> fp \<notin> set (butlast qs) \<Longrightarrow>
   (\<exists>us p vs. qs = us @ p # vs \<and> n \<le> hdr_size m p \<and>
      kmalloc_search m fp n prev (hd qs) = Some (Some (last (prev # us), p))) \<or>
   (\<forall>u \<in> set qs. hdr_size m u < n) \<and> kmalloc_search m fp n prev (hd qs) = Some None"
proof (induction qs arbitrary: prev)
  case (Cons p ps)
  consider "n \<le> hdr_size m p" | "\<not> n \<le> hdr_size m p" "ps = []" | "\<not> n \<le> hdr_size m p" "ps \<noteq> []"
    by blast
  then show ?case
  proof cases
    case 1
    then have "p # ps = [] @ p # ps \<and> n \<le> hdr_size m p \<and>
        kmalloc_search m fp n prev (hd (p # ps)) = Some (Some (last (prev # []), p))"
      by (subst kmalloc_search.simps) simp
    then show ?thesis by blast
  next
    case 2
    with Cons.prems have "kmalloc_search m fp n prev (hd (p # ps)) = Some None"
      by (subst kmalloc_search.simps) (simp add: morecore_def)
    with 2 show ?thesis by (simp add: not_le)
  next
    case 3
    let ?rest = "kmalloc_search m fp n p (hd ps)"
    from 3 Cons.prems have "p \<noteq> fp" "hdr_ptr m p = hd ps" by auto
    with 3 have step: "kmalloc_search m fp n prev (hd (p # ps)) = ?rest"
      by (subst kmalloc_search.simps) simp
    have "(\<exists>us p' vs. ps = us @ p' # vs \<and> n \<le> hdr_size m p' \<and> ?rest = Some (Some (last (p # us), p')))
        \<or> (\<forall>u \<in> set ps. hdr_size m u < n) \<and> ?rest = Some None"
      using 3 Cons.prems by (intro Cons.IH) auto
    then show ?thesis
    proof
      assume "\<exists>us p' vs. ps = us @ p' # vs \<and> n \<le> hdr_size m p' \<and> ?rest = Some (Some (last (p # us), p'))"
      then obtain us p' vs where "ps = us @ p' # vs" "n \<le> hdr_size m p'"
        "?rest = Some (Some (last (p # us), p'))" by blast
      then have "p # ps = (p # us) @ p' # vs \<and> n \<le> hdr_size m p' \<and>
          kmalloc_search m fp n prev (hd (p # ps)) = Some (Some (last (prev # p # us), p'))"
        using step by simp
      then show ?thesis by blast
    next
      assume "(\<forall>u \<in> set ps. hdr_size m u < n) \<and> ?rest = Some None"
      with 3 step show ?thesis by simp
    qed
  qed
qed simp

lemma free_listD:
  assumes "free_list m bs"
  shows "ring m bs" "distinct bs" "bs \<noteq> []" "p \<in> set bs \<Longrightarrow> ok_block m p"
  using assms by (auto simp: free_list_def ring_def dest: sorted_blocks_distinct)

text \<open>
  First fit from \<open>freep\<close>: the block found splits the free list, and the \<open>prevp\<close> of the loop
  is the block's predecessor on the ring.
\<close>

lemma kmalloc_search_free_list:
  assumes fl: "free_list m bs" and fp: "fp \<in> set bs"
  shows "(\<exists>C p D. bs = C @ p # D \<and> n \<le> hdr_size m p \<and>
      kmalloc_search m fp n fp (hdr_ptr m fp) = Some (Some (last (p # D @ C), p))) \<or>
    (\<forall>u \<in> set bs. hdr_size m u < n) \<and> kmalloc_search m fp n fp (hdr_ptr m fp) = Some None"
proof -
  obtain xs ys where bs: "bs = xs @ fp # ys" using fp by (meson split_list)
  let ?qs = "ys @ xs @ [fp]"
  let ?S = "kmalloc_search m fp n fp (hdr_ptr m fp)"
  have rot: "?qs = rotate (length (xs @ [fp])) bs"
    using rotate_append [of "xs @ [fp]" ys] by (simp add: bs)
  then have ring: "ring m ?qs" using free_listD(1) [OF fl] by (simp only: ring_rotate_k)
  then have hd: "hdr_ptr m fp = hd ?qs" using ring_last [OF ring] by simp
  have "linked m (fp # ?qs) (hd ?qs)" using ring hd by (auto simp: ring_def hd_append)
  moreover have "fp \<notin> set (butlast ?qs)"
    using free_listD(2) [OF fl] by (auto simp: bs butlast_append)
  ultimately have "(\<exists>us p vs. ?qs = us @ p # vs \<and> n \<le> hdr_size m p \<and>
      kmalloc_search m fp n fp (hd ?qs) = Some (Some (last (fp # us), p))) \<or>
      (\<forall>u \<in> set ?qs. hdr_size m u < n) \<and> kmalloc_search m fp n fp (hd ?qs) = Some None"
    by (intro kmalloc_search_linked) auto
  then show ?thesis
  proof
    assume "\<exists>us p vs. ?qs = us @ p # vs \<and> n \<le> hdr_size m p \<and>
      kmalloc_search m fp n fp (hd ?qs) = Some (Some (last (fp # us), p))"
    then obtain us p vs where qs: "?qs = us @ p # vs" and n: "n \<le> hdr_size m p"
      and S: "?S = Some (Some (last (fp # us), p))" using hd by auto
    define k where "k = (length us + length (xs @ [fp])) mod length bs"
    have "p # vs @ us = rotate (length us) ?qs" using rotate_append [of us "p # vs"] qs by simp
    also have "\<dots> = rotate (length us + length (xs @ [fp])) bs" by (simp only: rot rotate_rotate)
    finally have pvs: "p # vs @ us = drop k bs @ take k bs" by (simp only: rotate_drop_take k_def)
    have "k < length bs" unfolding k_def by (rule mod_less_divisor) (simp add: bs)
    then have "drop k bs = p # tl (drop k bs)" using pvs by (cases "drop k bs") auto
    then have split: "bs = take k bs @ p # tl (drop k bs)" by (metis append_take_drop_id)
    have "last (fp # us) = last (p # vs @ us)"
      using qs by (cases "us = []") (auto, metis last.simps last_appendR last_snoc list.distinct(1) append_is_Nil_conv)
    also have "p # vs @ us = p # tl (drop k bs) @ take k bs"
      using pvs \<open>drop k bs = p # tl (drop k bs)\<close> by (metis append_Cons)
    finally show ?thesis using split n S by metis
  next
    assume "(\<forall>u \<in> set ?qs. hdr_size m u < n) \<and> kmalloc_search m fp n fp (hd ?qs) = Some None"
    then show ?thesis using hd bs by auto
  qed
qed

section \<open>Taking a block off the list\<close>

lemma heap_okD:
  assumes "heap_ok s bs ls"
  shows "free_list (mem s) bs" "freep s \<in> set bs"
    "p \<in> set bs \<union> ls \<Longrightarrow> ok_block (mem s) p"
    "p \<in> set bs \<union> ls \<Longrightarrow> q \<in> set bs \<union> ls \<Longrightarrow> p \<noteq> q \<Longrightarrow> apart (mem s) p q"
    "p \<in> set bs \<Longrightarrow> p \<notin> ls"
proof -
  show "free_list (mem s) bs" "freep s \<in> set bs" using assms by (auto simp: heap_ok_def)
  show "p \<in> set bs \<union> ls \<Longrightarrow> ok_block (mem s) p"
    using assms by (auto simp: heap_ok_def free_list_def)
  show "p \<in> set bs \<union> ls \<Longrightarrow> q \<in> set bs \<union> ls \<Longrightarrow> p \<noteq> q \<Longrightarrow> apart (mem s) p q"
    using assms sorted_blocks_apart [of "mem s" bs p q] apart_sym [of "mem s" p q]
    by (auto simp: heap_ok_def free_list_def)
  show "p \<in> set bs \<Longrightarrow> p \<notin> ls"
    using assms apart_ne [of "mem s" p p] by (auto simp: heap_ok_def)
qed

lemma heap_okI:
  assumes "free_list (mem s) bs" "freep s \<in> set bs" "\<And>p. p \<in> ls \<Longrightarrow> ok_block (mem s) p"
    and "\<And>p q. p \<in> ls \<Longrightarrow> q \<in> set bs \<union> ls \<Longrightarrow> p \<noteq> q \<Longrightarrow> apart (mem s) p q"
    and "\<And>p. p \<in> ls \<Longrightarrow> p \<notin> set bs"
  shows "heap_ok s bs ls"
  using assms by (auto simp: heap_ok_def)

lemma apart_cong:
  "hdr_size m' p = hdr_size m p \<Longrightarrow> hdr_size m' q = hdr_size m q \<Longrightarrow> apart m' p q = apart m p q"
  by (simp add: apart_def blk_end_def)

lemma heap_ok_take:
  assumes ok: "heap_ok s (C @ p # D) ls" and ne: "D @ C \<noteq> []"
  defines "pred \<equiv> last (D @ C)"
  shows "heap_ok (s\<lparr>mem := set_ptr pred (hdr_ptr (mem s) p) (mem s), freep := pred\<rparr>)
     (C @ D) (insert p ls)"
proof -
  let ?m = "mem s" and ?m' = "set_ptr pred (hdr_ptr (mem s) p) (mem s)"
  let ?bs = "C @ p # D"
  have pred: "pred \<in> set (D @ C)" using ne unfolding pred_def by (rule last_in_set)
  then have predb: "pred \<in> set ?bs" by auto
  note fl = heap_okD(1) [OF ok]
  have al: "aligned8 q" if "q \<in> set ?bs \<union> ls" for q
    using heap_okD(3) [OF ok that] by (rule ok_blockD)
  have sz: "hdr_size ?m' q = hdr_size ?m q" if "q \<in> set ?bs \<union> ls" for q
    using al [OF that] al [OF UnI1 [OF predb]] by simp
  have "ring ?m (p # D @ C)" using free_listD(1) [OF fl] ring_rotate [of ?m C "p # D"] by simp
  then have ptr: "hdr_ptr ?m p = hd (D @ C)" and lk: "linked ?m (D @ C) p"
    using ne by (auto simp: ring_def hd_append)
  obtain us where us: "D @ C = us @ [pred]" using ne unfolding pred_def by (metis append_butlast_last_id)
  have "distinct (D @ C)" using free_listD(2) [OF fl] by auto
  with us have "pred \<notin> set us" by simp
  moreover have "\<forall>q \<in> set (us @ [pred]). aligned8 q" unfolding us [symmetric] using al by auto
  ultimately have "ring (set_ptr pred (hd (D @ C)) ?m) (D @ C)"
    using lk unfolding us by (intro ring_set_last)
  then have "ring ?m' (C @ D)" using ptr ring_rotate [of ?m' C D] by simp
  moreover have "sorted_wrt (\<lambda>p q. blk_end ?m' p < unat q) (C @ D)"
  proof (rule sorted_blocks_cong)
    show "sorted_wrt (\<lambda>p q. blk_end ?m p < unat q) (C @ D)"
      using fl by (simp add: free_list_def sorted_wrt_append)
    show "blk_end ?m' q \<le> blk_end ?m q" if "q \<in> set (C @ D)" for q
      using that by (intro eq_imp_le size_cong(1) sz) auto
  qed
  moreover have "ok_block ?m' q" if "q \<in> set (C @ D)" for q
    using that by (intro size_cong(2) [OF sz, THEN iffD2] heap_okD(3) [OF ok]) auto
  ultimately have "free_list ?m' (C @ D)" by (auto simp: free_list_def)
  moreover have "ok_block ?m' q" if "q \<in> insert p ls" for q
    using that by (intro size_cong(2) [OF sz, THEN iffD2] heap_okD(3) [OF ok]) auto
  moreover have "apart ?m' q r" if "q \<in> insert p ls" "r \<in> set (C @ D) \<union> insert p ls" "q \<noteq> r" for q r
    using that by (intro apart_cong [OF sz sz, THEN iffD2] heap_okD(4) [OF ok]) auto
  moreover have "q \<notin> set (C @ D)" if "q \<in> insert p ls" for q
    using that free_listD(2) [OF fl] heap_okD(5) [OF ok, of q] by auto
  ultimately show ?thesis using pred by (intro heap_okI) auto
qed

text \<open>Cutting \<open>n\<close> units off the tail of a block that is larger.\<close>

lemma split_block:
  assumes "ok_block m p" "n < hdr_size m p" "0 < n"
  defines "q \<equiv> p + 8 * (hdr_size m p - n)"
  defines "m' \<equiv> set_size q n (set_size p (hdr_size m p - n) m)"
  shows "ok_block m' p" "ok_block m' q" "blk_end m' p = unat q" "blk_end m' q = blk_end m p"
    "unat p < unat q" "aligned8 q" "hdr_size m' p = hdr_size m p - n" "hdr_size m' q = n"
proof -
  let ?r = "hdr_size m p - n"
  note p = ok_blockD [OF assms(1)]
  have r: "unat ?r = unat (hdr_size m p) - unat n" "0 < unat ?r" "0 < unat n" "unat n < unat (hdr_size m p)"
    using assms(2,3) by (auto simp: unat_sub word_less_nat_alt word_le_nat_alt)
  have q: "unat q = unat p + 8 * unat ?r"
    unfolding q_def using p(3) r by (intro unat_block_end) (auto simp: blk_end_def)
  show lt: "unat p < unat q" using q r by simp
  show al: "aligned8 q" using p(1) q by simp
  from lt have ne: "q \<noteq> p" by auto
  show sp: "hdr_size m' p = ?r" using p(1) al ne by (simp add: m'_def)
  show sq: "hdr_size m' q = n" by (simp add: m'_def)
  show "blk_end m' p = unat q" using q sp by (simp add: blk_end_def)
  show bq: "blk_end m' q = blk_end m p" using q sq r by (simp add: blk_end_def)
  show "ok_block m' p" "ok_block m' q"
    using p al lt sp sq bq q r by (auto simp: ok_block_def blk_end_def word_less_nat_alt)
qed

lemma heap_ok_split:
  assumes ok: "heap_ok s bs ls" and p: "p \<in> set bs" and n: "n < hdr_size (mem s) p" "0 < n"
    and pred: "pred \<in> set bs"
  defines "q \<equiv> p + 8 * (hdr_size (mem s) p - n)"
  defines "m' \<equiv> set_size q n (set_size p (hdr_size (mem s) p - n) (mem s))"
  shows "heap_ok (s\<lparr>mem := m', freep := pred\<rparr>) bs (insert q ls)" and "q \<notin> set bs \<union> ls"
    and "\<And>r. r \<in> set bs \<union> ls \<Longrightarrow> r \<noteq> p \<Longrightarrow> hdr_size m' r = hdr_size (mem s) r"
proof -
  let ?m = "mem s"
  note fl = heap_okD(1) [OF ok]
  have okp: "ok_block ?m p" using p heap_okD(3) [OF ok] by blast
  note sp = split_block [OF okp n, folded q_def, folded m'_def]
  have al: "aligned8 r" if "r \<in> set bs \<union> ls" for r
    using heap_okD(3) [OF ok that] by (rule ok_blockD)
  have end_q: "unat q < blk_end ?m p" using sp(4) ok_blockD(5) [OF sp(2)] by simp
  have r_cases: "blk_end ?m p \<le> unat r \<or> blk_end ?m r \<le> unat p" if "r \<in> set bs \<union> ls" "r \<noteq> p" for r
    using heap_okD(4) [OF ok _ that(1), of p] that p by (auto simp: apart_def)
  have r_ne: "r \<noteq> q" if "r \<in> set bs \<union> ls" for r
    using that r_cases [of r] end_q sp(5) ok_blockD(5) [OF heap_okD(3) [OF ok that]] by fastforce
  then show qnew: "q \<notin> set bs \<union> ls" by blast
  show sz: "hdr_size m' r = hdr_size ?m r" if "r \<in> set bs \<union> ls" "r \<noteq> p" for r
    using al [OF that(1)] sp(6) al [OF UnI1 [OF p]] r_ne [OF that(1)] that(2) by (simp add: m'_def)
  have ptr: "hdr_ptr m' r = hdr_ptr ?m r" if "r \<in> set bs" for r
    using al that p sp(6) by (auto simp: m'_def)
  have be: "blk_end m' r \<le> blk_end ?m r" if "r \<in> set bs \<union> ls" for r
    using size_cong(1) [OF sz [OF that]] sp(3) end_q by (cases "r = p") auto
  have okr: "ok_block m' r" if "r \<in> set bs \<union> ls" for r
    using size_cong(2) [OF sz [OF that]] heap_okD(3) [OF ok that] sp(1) by (cases "r = p") auto
  have "ring m' bs" using free_listD(1) [OF fl] ptr by (subst ring_cong [of _ _ ?m]) auto
  moreover have "sorted_wrt (\<lambda>p q. blk_end m' p < unat q) bs"
  proof (rule sorted_blocks_cong)
    show "sorted_wrt (\<lambda>p q. blk_end ?m p < unat q) bs" using fl by (simp add: free_list_def)
    show "blk_end m' r \<le> blk_end ?m r" if "r \<in> set bs" for r using that by (intro be) simp
  qed
  ultimately have "free_list m' bs" using okr by (auto simp: free_list_def)
  moreover have "ok_block m' r" if "r \<in> insert q ls" for r using that okr sp(2) by auto
  moreover have "apart m' x y" if "x \<in> insert q ls" "y \<in> set bs \<union> insert q ls" "x \<noteq> y" for x y
  proof -
    have qr: "apart m' q r" if "r \<in> set bs \<union> ls" for r
      using r_cases [OF that] be [OF that] sp(3,4,5) by (cases "r = p") (auto simp: apart_def)
    have "apart m' x y" if "x \<in> ls" "y \<in> set bs \<union> ls"
      using heap_okD(4) [OF ok, of x y] be [of x] be [of y] that \<open>x \<noteq> y\<close> by (auto simp: apart_def)
    with qr [of x] qr [of y] that show ?thesis by (auto simp: apart_sym [of m' x q])
  qed
  ultimately show "heap_ok (s\<lparr>mem := m', freep := pred\<rparr>) bs (insert q ls)"
    using pred qnew heap_okD(5) [OF ok] by (intro heap_okI) auto
qed

definition free_area :: "memory \<Rightarrow> addr list \<Rightarrow> addr set" where
  "free_area m bs = (\<Union>p \<in> set bs. block m p)"

lemma region_block: "ok_block m p \<Longrightarrow> region p 8 \<subseteq> block m p"
  using ok_blockD(3,5) [of m p] by (auto simp: block_def region_iff)

lemma free_units_split:
  "free_units m (C @ p # D) = free_units m C + unat (hdr_size m p) + free_units m D"
  by (simp add: free_units_def)

lemma free_units_cong:
  "(\<And>p. p \<in> set bs \<Longrightarrow> hdr_size m' p = hdr_size m p) \<Longrightarrow> free_units m' bs = free_units m bs"
  unfolding free_units_def by (metis (mono_tags, lifting) map_cong)

lemma nunits_pos: "0 < nunits_of nbytes"
proof -
  have "unat ((nbytes + 8 - 1) div 8) < 4294967295"
    using unat_uint_less [of "nbytes + 8 - 1"] by (simp add: unat_div)
  then have "unat (nunits_of nbytes) = unat ((nbytes + 8 - 1) div 8) + 1"
    unfolding nunits_of_def by (subst unat_add_small) auto
  then show ?thesis by (simp add: word_less_nat_alt)
qed

definition grants :: "'a heap_scheme \<Rightarrow> addr list \<Rightarrow> addr set \<Rightarrow> uint \<Rightarrow> addr \<Rightarrow> 'a heap_scheme \<Rightarrow> bool" where
  "grants s bs ls n p s' \<longleftrightarrow> p \<notin> ls \<and> hdr_size (mem s') p = n \<and>
     block (mem s') p \<subseteq> free_area (mem s) bs \<and>
     (\<forall>x. x \<in> free_area (mem s) bs \<or> mem s' x = mem s x) \<and>
     (\<exists>bs'. heap_ok s' bs' (insert p ls) \<and>
        free_units (mem s') bs' + unat n = free_units (mem s) bs)"

lemma kmalloc_init_ok: "heap_ok s bs ls \<Longrightarrow> kmalloc_init s = s"
  using heap_okD(2,3) [of s bs ls] ok_blockD(6) [of "mem s" "freep s"]
  by (auto simp: kmalloc_init_def)

lemma grants_exact:
  assumes ok: "heap_ok s (C @ p # D) ls" and ne: "D @ C \<noteq> []" and n: "hdr_size (mem s) p = n"
  defines "pred \<equiv> last (p # D @ C)"
  shows "grants s (C @ p # D) ls n p
     (s\<lparr>mem := set_ptr pred (hdr_ptr (mem s) p) (mem s), freep := pred\<rparr>)"
proof -
  let ?m = "mem s" and ?m' = "set_ptr pred (hdr_ptr (mem s) p) (mem s)"
  have pred: "pred = last (D @ C)" "pred \<in> set (C @ p # D)"
    using ne last_in_set [OF ne] by (auto simp: pred_def)
  have okb: "ok_block ?m q" if "q \<in> set (C @ p # D)" for q using that heap_okD(3) [OF ok] by blast
  have sz: "hdr_size ?m' q = hdr_size ?m q" if "q \<in> set (C @ p # D)" for q
    using ok_blockD(1) [OF okb [OF that]] ok_blockD(1) [OF okb [OF pred(2)]] by simp
  have "free_units ?m' (C @ D) = free_units ?m (C @ D)" by (rule free_units_cong) (simp add: sz)
  then have fu: "free_units ?m' (C @ D) + unat n = free_units ?m (C @ p # D)"
    using n by (simp add: free_units_def)
  have frame: "x \<in> free_area ?m (C @ p # D) \<or> ?m' x = ?m x" for x
    using region_block [OF okb [OF pred(2)]] pred(2) set_hdr_outside(1) [of x pred]
    unfolding free_area_def by blast
  have "block ?m' p = block ?m p" using size_cong(1) [OF sz, of p] by (simp add: block_def)
  then have "block ?m' p \<subseteq> free_area ?m (C @ p # D)" by (auto simp: free_area_def)
  moreover have "heap_ok (s\<lparr>mem := ?m', freep := pred\<rparr>) (C @ D) (insert p ls)"
    using heap_ok_take [OF ok ne] pred(1) by simp
  ultimately show ?thesis
    using fu frame sz [of p] n heap_okD(5) [OF ok, of p] by (auto simp: grants_def)
qed

lemma grants_split:
  assumes ok: "heap_ok s bs ls" and bs: "bs = C @ p # D"
    and n: "n < hdr_size (mem s) p" "0 < n" and pred: "pred \<in> set bs"
  defines "q \<equiv> p + 8 * (hdr_size (mem s) p - n)"
  shows "grants s bs ls n q
     (s\<lparr>mem := set_size q n (set_size p (hdr_size (mem s) p - n) (mem s)), freep := pred\<rparr>)"
proof -
  let ?m = "mem s" and ?m' = "set_size q n (set_size p (hdr_size (mem s) p - n) (mem s))"
  have p: "p \<in> set bs" using bs by simp
  have okp: "ok_block ?m p" using p heap_okD(3) [OF ok] by blast
  note sp = split_block [OF okp n, folded q_def]
  note hs = heap_ok_split [OF ok p n pred, folded q_def]
  have "region q 8 \<subseteq> block ?m p"
    using region_block [OF sp(2)] sp(4,5) by (auto simp: block_def)
  moreover have "region p 8 \<subseteq> block ?m p" by (rule region_block [OF okp])
  ultimately have "x \<notin> region q 8 \<and> x \<notin> region p 8" if "x \<notin> free_area ?m bs" for x
    using that p unfolding free_area_def by blast
  then have frame: "x \<in> free_area ?m bs \<or> ?m' x = ?m x" for x
    by (cases "x \<in> free_area ?m bs") (simp_all add: set_hdr_outside)
  have "block ?m' q \<subseteq> free_area ?m bs"
    using sp(4,5) p by (auto simp: block_def free_area_def)
  moreover have "free_units ?m' bs + unat n = free_units ?m bs"
  proof -
    have d: "distinct bs" using heap_okD(1) [OF ok] by (rule free_listD)
    then have "free_units ?m' C = free_units ?m C" "free_units ?m' D = free_units ?m D"
      using bs by (auto intro!: free_units_cong hs(3))
    moreover have "unat (hdr_size ?m p - n) + unat n = unat (hdr_size ?m p)"
      using n(1) by (simp add: unat_sub word_less_nat_alt word_le_nat_alt)
    ultimately show ?thesis using sp(7) by (simp add: bs free_units_split)
  qed
  ultimately show ?thesis using frame hs(1,2) sp(8) by (auto simp: grants_def)
qed

text \<open>
  The two situations in which the code corrupts its list: the only free block is asked for
  as a whole, and a block is freed that ends where the only free block begins.
\<close>

definition takes_last :: "uint \<Rightarrow> 'a heap_scheme \<Rightarrow> bool" where
  "takes_last nbytes s \<longleftrightarrow> hdr_ptr (mem s) (freep s) = freep s \<and>
     hdr_size (mem s) (freep s) = nunits_of nbytes"

definition meets_last :: "addr \<Rightarrow> 'a heap_scheme \<Rightarrow> bool" where
  "meets_last bp s \<longleftrightarrow> hdr_ptr (mem s) (freep s) = freep s \<and>
     blk_end (mem s) bp = unat (freep s)"

lemma single_ring: "heap_ok s [h] ls \<Longrightarrow> freep s = h \<and> hdr_ptr (mem s) h = h"
  by (auto simp: heap_ok_def free_list_def ring_def)

lemma kmalloc_heap_ok:
  assumes ok: "heap_ok s bs ls" and room: "\<not> takes_last nbytes s"
  shows "(kmalloc nbytes s = Some (NULL, s) \<and> (\<forall>u \<in> set bs. hdr_size (mem s) u < nunits_of nbytes)) \<or>
    (\<exists>p s'. kmalloc nbytes s = Some (p + 8, s') \<and> grants s bs ls (nunits_of nbytes) p s' \<and>
      (\<exists>u \<in> set bs. nunits_of nbytes \<le> hdr_size (mem s) u))"
proof -
  let ?m = "mem s" and ?n = "nunits_of nbytes"
  let ?S = "kmalloc_search ?m (freep s) ?n (freep s) (hdr_ptr ?m (freep s))"
  note fl = heap_okD(1) [OF ok]
  consider (none) "\<forall>u \<in> set bs. hdr_size ?m u < ?n" "?S = Some None"
    | (found) C p D where "bs = C @ p # D" "?n \<le> hdr_size ?m p" "?S = Some (Some (last (p # D @ C), p))"
    using kmalloc_search_free_list [OF fl heap_okD(2) [OF ok], of ?n] by blast
  then show ?thesis
  proof cases
    case none
    then show ?thesis by (simp add: kmalloc_def kmalloc_init_ok [OF ok])
  next
    case found
    let ?pred = "last (p # D @ C)"
    have pred: "?pred \<in> set bs" using found(1) last_in_set [of "p # D @ C"] by auto
    show ?thesis
    proof (cases "hdr_size ?m p = ?n")
      case True
      have "D @ C \<noteq> []" using room True found(1) single_ring [of s p ls] ok by (auto simp: takes_last_def)
      from grants_exact [OF ok [unfolded found(1)] this True]
      have "grants s bs ls ?n p (s\<lparr>mem := set_ptr ?pred (hdr_ptr ?m p) ?m, freep := ?pred\<rparr>)"
        by (simp only: found(1))
      moreover have "kmalloc nbytes s =
          Some (p + 8, s\<lparr>mem := set_ptr ?pred (hdr_ptr ?m p) ?m, freep := ?pred\<rparr>)"
        using True found(3) by (simp add: kmalloc_def kmalloc_init_ok [OF ok] Let_def)
      ultimately show ?thesis using found(1,2) by auto
    next
      case False
      with found(2) have lt: "?n < hdr_size ?m p" by simp
      from grants_split [OF ok found(1) lt nunits_pos pred] show ?thesis
        using False found by (auto simp: kmalloc_def kmalloc_init_ok [OF ok] Let_def)
    qed
  qed
qed

section \<open>Finding the place of a freed block\<close>

definition stops :: "addr \<Rightarrow> addr \<Rightarrow> addr \<Rightarrow> bool" where
  "stops bp p nx \<longleftrightarrow> bp > p \<and> bp < nx \<or> p \<ge> nx \<and> (bp > p \<or> bp < nx)"

lemma kfree_search_unfold:
  "kfree_search m bp p = (if stops bp p (hdr_ptr m p) then Some p else kfree_search m bp (hdr_ptr m p))"
  by (subst kfree_search.simps) (auto simp: stops_def)

lemma kfree_search_linked:
  "linked m (p # ps) q \<Longrightarrow> successively (\<lambda>x y. \<not> stops bp x y) (p # ps) \<Longrightarrow>
     stops bp (last (p # ps)) q \<Longrightarrow> kfree_search m bp p = Some (last (p # ps))"
proof (induction ps arbitrary: p)
  case Nil
  then show ?case by (subst kfree_search_unfold) simp
next
  case (Cons v vs)
  from Cons.prems have "hdr_ptr m p = v" "\<not> stops bp p v" by auto
  then have "kfree_search m bp p = kfree_search m bp v" by (subst kfree_search_unfold) simp
  with Cons show ?case by simp
qed

text \<open>The blocks below and above the freed one.\<close>

definition below_above :: "memory \<Rightarrow> addr \<Rightarrow> addr list \<Rightarrow> addr list \<Rightarrow> bool" where
  "below_above m bp A B \<longleftrightarrow> ok_block m bp \<and>
     (\<forall>a \<in> set A. blk_end m a \<le> unat bp) \<and> (\<forall>b \<in> set B. blk_end m bp \<le> unat b)"

lemma sorted_partition:
  "sorted_wrt (\<lambda>p q. blk_end m p < unat q) bs \<Longrightarrow>
     \<exists>A B. bs = A @ B \<and> (\<forall>a \<in> set A. unat a < x) \<and> (\<forall>b \<in> set B. x \<le> unat b)"
proof (induction bs)
  case (Cons p bs)
  then obtain A B where AB: "bs = A @ B" "\<forall>a \<in> set A. unat a < x" "\<forall>b \<in> set B. x \<le> unat b" by auto
  show ?case
  proof (cases "unat p < x")
    case True
    with AB show ?thesis by (intro exI [of _ "p # A"] exI [of _ B]) auto
  next
    case False
    moreover have "unat p < unat q" if "q \<in> set bs" for q
      using Cons.prems that by (auto simp: blk_end_def)
    ultimately show ?thesis by (intro exI [of _ "[]"] exI [of _ "p # bs"]) force
  qed
qed simp

lemma heap_below_above:
  assumes ok: "heap_ok s bs ls" and bp: "bp \<in> ls"
  shows "\<exists>A B. bs = A @ B \<and> below_above (mem s) bp A B"
proof -
  have okb: "ok_block (mem s) bp" using heap_okD(3) [OF ok] bp by blast
  obtain A B where AB: "bs = A @ B" "\<forall>a \<in> set A. unat a < unat bp" "\<forall>b \<in> set B. unat bp \<le> unat b"
    using sorted_partition [of "mem s" bs "unat bp"] heap_okD(1) [OF ok] by (auto simp: free_list_def)
  have ap: "apart (mem s) bp q" if "q \<in> set bs" for q
    using ok bp that by (auto simp: heap_ok_def)
  have "blk_end (mem s) a \<le> unat bp" if "a \<in> set A" for a
    using ap [of a] AB that ok_blockD(5) [OF okb] by (force simp: apart_def)
  moreover have "blk_end (mem s) bp \<le> unat b" if "b \<in> set B" for b
    using ap [of b] AB that ok_blockD(5) [OF heap_okD(3) [OF ok, of b]] by (force simp: apart_def)
  ultimately show ?thesis using AB(1) okb by (auto simp: below_above_def)
qed

lemma below_above_less:
  assumes "below_above m bp A B" "\<forall>p \<in> set (A @ B). ok_block m p"
  shows "a \<in> set A \<Longrightarrow> a < bp" "b \<in> set B \<Longrightarrow> bp < b"
proof -
  show "a < bp" if "a \<in> set A"
    using assms ok_blockD(5) [of m a] that by (force simp: below_above_def word_less_nat_alt)
  show "bp < b" if "b \<in> set B"
    using assms ok_blockD(5) [of m bp] that by (force simp: below_above_def word_less_nat_alt)
qed

lemma hd_le_last: "sorted_wrt (<) xs \<Longrightarrow> xs \<noteq> [] \<Longrightarrow> hd xs \<le> (last xs :: addr)"
  by (cases xs) (auto simp: less_imp_le)

lemma kfree_search_free_list:
  assumes fl: "free_list m (A @ B)" and ba: "below_above m bp A B" and fp: "fp \<in> set (A @ B)"
  shows "kfree_search m bp fp = Some (last (B @ A))"
proof -
  let ?ns = "\<lambda>x y. \<not> stops bp x y"
  note less = below_above_less [OF ba]
  have okb: "\<forall>p \<in> set (A @ B). ok_block m p" using fl by (simp add: free_list_def)
  have ring: "ring m (B @ A)" using free_listD(1) [OF fl] ring_rotate [of m A B] by simp
  have sorted: "sorted_wrt (<) A" "sorted_wrt (<) B"
    using fl by (auto simp: free_list_def sorted_wrt_append blk_end_def word_less_nat_alt
        elim!: sorted_wrt_mono_rel [rotated])
  have "successively ?ns A"
    by (rule successively_mono [OF successively_if_sorted_wrt [OF sorted(1)]])
      (meson less(1) [OF okb] less_asym not_less stops_def)
  moreover have "successively ?ns B"
    by (rule successively_mono [OF successively_if_sorted_wrt [OF sorted(2)]])
      (meson less(2) [OF okb] less_asym not_less stops_def)
  ultimately have ns: "successively ?ns (B @ A)"
    using less(1) [OF okb, of "hd A"] less(2) [OF okb, of "last B"]
    by (auto simp: successively_append_iff stops_def)
  have "A @ B \<noteq> []" using fp by auto
  then have stop: "stops bp (last (B @ A)) (hd (B @ A))"
    using less(1) [OF okb, of "last A"] less(2) [OF okb, of "hd B"] hd_le_last sorted
    by (cases "A = []"; cases "B = []") (auto simp: stops_def)
  obtain us vs where uv: "B @ A = us @ fp # vs" using fp by (metis Un_commute set_append split_list)
  have "linked m (fp # vs) (hd (B @ A))" using ring uv by (simp add: ring_def linked_append)
  moreover have "successively ?ns (fp # vs)" using ns uv by (simp add: successively_append_iff)
  moreover have "last (fp # vs) = last (B @ A)" using uv by simp
  ultimately show ?thesis using kfree_search_linked [of m fp vs "hd (B @ A)" bp] stop by simp
qed

section \<open>Coalescing\<close>

lemma apart_merge:
  assumes "apart m r p" "apart m r q" "blk_end m p = unat q" "ok_block m r"
    and "blk_end m' p = blk_end m q" "hdr_size m' r = hdr_size m r"
  shows "apart m' r p"
  using assms(1-3,5) ok_blockD(5) [OF assms(4)] size_cong(1) [OF assms(6)]
  by (auto simp: apart_def)

text \<open>
  What joining the block above leaves: \<open>bp\<close> points past everything it absorbed to the rest of the
  ring \<open>B1 @ A\<close>, and no header but its own has changed.
\<close>

definition joined_upper :: "memory \<Rightarrow> memory \<Rightarrow> addr \<Rightarrow> addr list \<Rightarrow> addr list \<Rightarrow> addr list \<Rightarrow> bool" where
  "joined_upper m U bp A B B1 \<longleftrightarrow> (B1 = B \<or> (\<exists>h. B = h # B1)) \<and> B1 @ A \<noteq> [] \<and>
     hdr_ptr U bp = hd (B1 @ A) \<and> ok_block U bp \<and> (\<forall>b \<in> set B1. blk_end U bp < unat b) \<and>
     unat (hdr_size U bp) + free_units m B1 = unat (hdr_size m bp) + free_units m B \<and>
     (\<forall>r. aligned8 r \<longrightarrow> r \<noteq> bp \<longrightarrow> hdr_size U r = hdr_size m r \<and> hdr_ptr U r = hdr_ptr m r) \<and>
     (\<forall>r. ok_block m r \<longrightarrow> apart m r bp \<longrightarrow> (\<forall>b \<in> set B. apart m r b) \<longrightarrow> apart U r bp)"

lemma join_upper_plain:
  assumes fl: "free_list m (A @ B)" and ba: "below_above m bp A B"
    and no: "\<forall>h. B \<noteq> [] \<longrightarrow> blk_end m bp \<noteq> unat (hd B)"
  shows "kfree_join_upper bp (last (B @ A)) m = set_ptr bp (hd (B @ A)) m"
    and "joined_upper m (set_ptr bp (hd (B @ A)) m) bp A B B"
proof -
  let ?U = "set_ptr bp (hd (B @ A)) m"
  have okb: "\<forall>p \<in> set (A @ B). ok_block m p" using fl by (simp add: free_list_def)
  have bp: "ok_block m bp" using ba by (simp add: below_above_def)
  have ring: "ring m (B @ A)" using free_listD(1) [OF fl] ring_rotate [of m A B] by simp
  have "bp + 8 * hdr_size m bp \<noteq> hd (B @ A)"
  proof (cases "B = []")
    case True
    then have "unat (hd (B @ A)) < unat bp"
      using below_above_less(1) [OF ba okb, of "hd A"] ring by (auto simp: ring_def word_less_nat_alt)
    with blk_end_word [OF bp] ok_blockD(5) [OF bp] show ?thesis by auto
  qed (use no blk_end_word [OF bp] in auto)
  then show "kfree_join_upper bp (last (B @ A)) m = ?U"
    by (simp add: kfree_join_upper_def ring_last [OF ring])
  have szbp: "hdr_size ?U bp = hdr_size m bp" using ok_blockD(1) [OF bp] by simp
  have "blk_end m bp < unat b" if "b \<in> set B" for b
  proof (cases B)
    case (Cons h B')
    then have "blk_end m bp < unat h" using no ba by (auto simp: below_above_def)
    moreover have "b = h \<or> unat h < unat b"
      using fl Cons that by (auto simp: free_list_def sorted_wrt_append blk_end_def)
    ultimately show ?thesis by auto
  qed (use that in simp)
  moreover have "apart ?U r bp" if "ok_block m r" "apart m r bp" for r
    using that szbp ok_blockD(1) [OF bp] ok_blockD(1) [OF that(1)]
    by (subst apart_cong [of _ _ m]) auto
  ultimately show "joined_upper m ?U bp A B B"
    using ring szbp bp ok_blockD(1) [OF bp] size_cong [OF szbp]
    by (auto simp: joined_upper_def ring_def)
qed

lemma join_upper_merge:
  assumes fl: "free_list m (A @ h # B1)" and ba: "below_above m bp A (h # B1)"
    and adj: "blk_end m bp = unat h" and ne: "B1 @ A \<noteq> []"
  defines "U \<equiv> kfree_join_upper bp (last (h # B1 @ A)) m"
  shows "joined_upper m U bp A (h # B1) B1"
proof -
  let ?t = "last (h # B1 @ A)" and ?sz = "hdr_size m bp + hdr_size m h"
  have okb: "\<forall>p \<in> set (A @ h # B1). ok_block m p" using fl by (simp add: free_list_def)
  have bp: "ok_block m bp" using ba by (simp add: below_above_def)
  have h: "ok_block m h" using okb by simp
  have ring: "ring m (h # B1 @ A)" using free_listD(1) [OF fl] ring_rotate [of m A "h # B1"] by simp
  have tin: "?t \<in> set (A @ h # B1)" using last_in_set [of "h # B1 @ A"] by auto
  have al: "aligned8 bp" "aligned8 h" "aligned8 ?t" using bp h okb tin ok_blockD(1) by blast+
  have nbp: "h \<noteq> bp" "?t \<noteq> bp"
    using below_above_less(1) [OF ba okb, of bp] below_above_less(2) [OF ba okb, of bp] tin by force+
  have "hdr_ptr m ?t = h" using ring_last [OF ring] by simp
  moreover have "hdr_ptr m h = hd (B1 @ A)" using ring ne by (auto simp: ring_def hd_append)
  moreover have "bp + 8 * hdr_size m bp = h"
    using adj blk_end_word [OF bp] by (metis word_of_nat_unat32)
  ultimately have U: "U = set_ptr bp (hd (B1 @ A)) (set_size bp ?sz m)"
    unfolding U_def using al nbp by (simp add: kfree_join_upper_def Let_def)
  have sz: "unat ?sz = unat (hdr_size m bp) + unat (hdr_size m h)"
    using ok_blockD(3) [OF h] ok_blockD(3) [OF bp] by (intro unat_add_small) (simp add: blk_end_def)
  have szU: "hdr_size U bp = ?sz" using al by (simp add: U)
  have endU: "blk_end U bp = blk_end m h" using adj sz by (simp add: blk_end_def szU)
  have "ok_block U bp"
    using bp ok_blockD(3,4) [OF h] endU szU sz by (auto simp: ok_block_def word_less_nat_alt)
  moreover have "blk_end U bp < unat b" if "b \<in> set B1" for b
    using fl that endU by (auto simp: free_list_def sorted_wrt_append)
  moreover have other: "hdr_size U r = hdr_size m r \<and> hdr_ptr U r = hdr_ptr m r"
    if "aligned8 r" "r \<noteq> bp" for r using that al by (simp add: U)
  moreover have "apart U r bp" if r: "ok_block m r" "apart m r bp" "apart m r h" for r
    using other [OF ok_blockD(1) [OF r(1)]] apart_ne [OF r(2,1)]
    by (intro apart_merge [OF r(2,3) adj r(1) endU]) simp
  moreover have "hdr_ptr U bp = hd (B1 @ A)" using al by (simp add: U)
  ultimately show ?thesis using ne sz szU by (simp add: joined_upper_def free_units_def)
qed

text \<open>Linking the block in, or joining it to the block below: the free list is whole again.\<close>

definition relisted :: "memory \<Rightarrow> memory \<Rightarrow> addr \<Rightarrow> addr list \<Rightarrow> addr list \<Rightarrow> bool" where
  "relisted U L bp xs bs' \<longleftrightarrow> free_list L bs' \<and> set xs \<subseteq> set bs' \<and> set bs' \<subseteq> insert bp (set xs) \<and>
     free_units L bs' = free_units U xs + unat (hdr_size U bp) \<and>
     (\<forall>r. ok_block U r \<longrightarrow> apart U r bp \<longrightarrow> (\<forall>b \<in> set xs. apart U r b) \<longrightarrow>
        hdr_size L r = hdr_size U r \<and> (\<forall>b \<in> set bs'. apart L r b))"

lemma join_lower_link:
  assumes fl: "linked U (B @ A) q" "sorted_wrt (\<lambda>p q. blk_end U p < unat q) (A @ B)"
      "\<forall>p \<in> set (A @ B). ok_block U p" "B @ A \<noteq> []"
    and bp: "ok_block U bp" "hdr_ptr U bp = hd (B @ A)" "\<forall>b \<in> set B. blk_end U bp < unat b"
      "\<forall>a \<in> set A. blk_end U a < unat bp"
  shows "relisted U (set_ptr (last (B @ A)) bp U) bp (A @ B) (A @ bp # B)"
proof -
  let ?t = "last (B @ A)" and ?L = "set_ptr (last (B @ A)) bp U"
  have tin: "?t \<in> set (B @ A)" using fl(4) by (rule last_in_set)
  have al: "aligned8 p" if "p \<in> insert bp (set (A @ B))" for p
    using that fl(3) bp(1) ok_blockD(1) by blast
  have alt: "aligned8 ?t" using al tin by (metis insertI2 set_append Un_commute)
  have sz: "hdr_size ?L p = hdr_size U p" if "aligned8 p" for p using that alt by simp
  have srt: "sorted_wrt (\<lambda>p q. blk_end U p < unat q) (A @ bp # B)"
    using fl(2) bp(3,4) by (auto simp: sorted_wrt_append)
  then have dist: "distinct (A @ bp # B)" by (rule sorted_blocks_distinct)
  obtain us where us: "B @ A = us @ [?t]" using fl(4) by (metis append_butlast_last_id)
  have "distinct (B @ A)" using dist by auto
  then have "distinct (us @ [?t])" by (simp only: us [symmetric])
  then have tus: "?t \<notin> set us" "bp \<noteq> ?t" using dist tin by auto
  have "set us \<subseteq> set (B @ A)" by (subst us) auto
  then have usal: "aligned8 p" if "p \<in> set us" for p using that al by auto
  have "linked U us ?t" using fl(1) us linked_append [of U us "[?t]" q] by simp
  moreover have "linked ?L us ?t = linked U us ?t"
    using usal alt tus(1) by (intro linked_cong) auto
  ultimately have "linked ?L (us @ [?t]) bp" by (simp add: linked_append)
  then have "ring ?L (bp # B @ A)"
    using bp(2) al [of bp] alt tus(2) fl(4) us by (simp add: ring_def hd_append)
  then have "ring ?L (A @ bp # B)" using ring_rotate [of ?L A "bp # B"] by simp
  moreover have "\<forall>p \<in> set (A @ bp # B). ok_block ?L p"
    using fl(3) bp(1) al sz by (auto simp: size_cong(2) [OF sz])
  moreover have "sorted_wrt (\<lambda>p q. blk_end ?L p < unat q) (A @ bp # B)"
    using al by (intro sorted_blocks_cong [OF srt]) (auto simp: size_cong(1) [OF sz])
  moreover have "free_units ?L (A @ bp # B) = free_units U (A @ bp # B)"
    using al by (intro free_units_cong sz) auto
  moreover have "apart ?L r b" if "ok_block U r" "apart U r b" "b \<in> set (A @ bp # B)" for r b
    using that al ok_blockD(1) by (subst apart_cong [of _ _ U]) (auto intro!: sz)
  ultimately show ?thesis using sz ok_blockD(1)
    by (auto simp: relisted_def free_list_def free_units_def)
qed

lemma join_lower_merge:
  assumes fl: "linked U (B @ A @ [t]) q" "sorted_wrt (\<lambda>p q. blk_end U p < unat q) (A @ t # B)"
      "\<forall>p \<in> set (A @ t # B). ok_block U p"
    and bp: "ok_block U bp" "hdr_ptr U bp = hd (B @ A @ [t])" "\<forall>b \<in> set B. blk_end U bp < unat b"
      "bp \<notin> set (A @ t # B)" and adj: "blk_end U t = unat bp"
  defines "L \<equiv> set_ptr t (hd (B @ A @ [t])) (set_size t (hdr_size U t + hdr_size U bp) U)"
  shows "relisted U L bp (A @ t # B) (A @ t # B)"
proof -
  let ?sz = "hdr_size U t + hdr_size U bp"
  let ?U1 = "set_size t (hdr_size U t + hdr_size U bp) U"
  have al: "aligned8 p" if "p \<in> set (A @ t # B)" for p using that fl(3) ok_blockD(1) by blast
  have alt: "aligned8 t" using al by simp
  have t: "ok_block U t" using fl(3) by simp
  have sz: "unat ?sz = unat (hdr_size U t) + unat (hdr_size U bp)"
    using ok_blockD(3) [OF bp(1)] ok_blockD(3) [OF t] by (intro unat_add_small) (simp add: blk_end_def)
  have szt: "hdr_size L t = ?sz" using alt by (simp add: L_def)
  have szo: "hdr_size L p = hdr_size U p" if "aligned8 p" "p \<noteq> t" for p using that alt by (simp add: L_def)
  have endL: "blk_end L t = blk_end U bp" using adj sz by (simp add: blk_end_def szt)
  have dist: "distinct (A @ t # B)" using fl(2) by (rule sorted_blocks_distinct)
  have "linked ?U1 (B @ A @ [t]) q = linked U (B @ A @ [t]) q"
    using al alt by (intro linked_cong) auto
  then have "ring L ((B @ A) @ [t])"
    unfolding L_def using fl(1) dist al by (intro ring_set_last_ex [of _ _ _ q]) auto
  then have "ring L (A @ t # B)" using ring_rotate [of L B "A @ [t]"] by simp
  moreover have "\<forall>p \<in> set (A @ t # B). ok_block L p"
  proof
    fix p assume p: "p \<in> set (A @ t # B)"
    show "ok_block L p"
    proof (cases "p = t")
      case True
      with t endL ok_blockD(3,4) [OF bp(1)] szt sz show ?thesis
        by (auto simp: ok_block_def word_less_nat_alt)
    next
      case False
      with p fl(3) al show ?thesis using size_cong(2) [OF szo] by blast
    qed
  qed
  moreover have "sorted_wrt (\<lambda>p q. blk_end L p < unat q) (A @ t # B)"
  proof -
    have "blk_end L p = blk_end U p" if "p \<in> set (A @ B)" for p
      using that al dist by (intro size_cong(1) szo) auto
    then have "sorted_wrt (\<lambda>p q. blk_end L p < unat q) A" "sorted_wrt (\<lambda>p q. blk_end L p < unat q) B"
      using fl(2) by (auto intro!: sorted_blocks_cong [of U] simp: sorted_wrt_append)
    with \<open>\<And>p. p \<in> set (A @ B) \<Longrightarrow> blk_end L p = blk_end U p\<close> show ?thesis
      using fl(2) bp(3) endL by (auto simp: sorted_wrt_append)
  qed
  moreover have "free_units L (A @ t # B) = free_units U (A @ t # B) + unat (hdr_size U bp)"
  proof -
    have "free_units L A = free_units U A" "free_units L B = free_units U B"
      using dist al by (auto intro!: free_units_cong szo)
    then show ?thesis using sz szt by (simp add: free_units_split)
  qed
  moreover have "hdr_size L r = hdr_size U r \<and> (\<forall>b \<in> set (A @ t # B). apart L r b)"
    if r: "ok_block U r" "apart U r bp" "\<forall>b \<in> set (A @ t # B). apart U r b" for r
  proof -
    have rs: "hdr_size L r = hdr_size U r"
      using r apart_ne [of U r t] ok_blockD(1) [OF r(1)] by (intro szo) auto
    have "apart L r t" using r by (intro apart_merge [OF _ r(2) adj r(1) endL rs]) simp
    moreover have "apart L r b" if "b \<in> set (A @ B)" for b
      using that r(3) dist al by (subst apart_cong [OF rs szo]) auto
    ultimately show ?thesis using rs by auto
  qed
  ultimately show ?thesis by (auto simp: relisted_def free_list_def)
qed

lemma join_upper:
  assumes fl: "free_list m (A @ B)" and ba: "below_above m bp A B"
    and no: "\<not> (length (A @ B) = 1 \<and> B \<noteq> [] \<and> blk_end m bp = unat (hd B))"
  shows "\<exists>B1. joined_upper m (kfree_join_upper bp (last (B @ A)) m) bp A B B1"
proof (cases "B \<noteq> [] \<and> blk_end m bp = unat (hd B)")
  case False
  with join_upper_plain [OF fl ba] show ?thesis by auto
next
  case True
  then obtain h B1 where B: "B = h # B1" by (cases B) auto
  with no True have "B1 @ A \<noteq> []" by auto
  with join_upper_merge [of m A h B1 bp] fl ba True B show ?thesis by auto
qed

lemma join_lower:
  assumes fl: "linked U (B @ A) q" "sorted_wrt (\<lambda>p q. blk_end U p < unat q) (A @ B)"
      "\<forall>p \<in> set (A @ B). ok_block U p" "B @ A \<noteq> []"
    and bp: "ok_block U bp" "hdr_ptr U bp = hd (B @ A)" "\<forall>b \<in> set B. blk_end U bp < unat b"
      "\<forall>a \<in> set A. blk_end U a \<le> unat bp"
  shows "\<exists>bs'. relisted U (kfree_join_lower bp (last (B @ A)) U) bp (A @ B) bs'"
proof -
  let ?t = "last (B @ A)"
  have tin: "?t \<in> set (A @ B)" using last_in_set [OF fl(4)] by auto
  then have okt: "ok_block U ?t" using fl(3) by blast
  have gt: "unat bp < unat b" if "b \<in> set B" for b
    using bp(3) that ok_blockD(5) [OF bp(1)] by force
  have lt: "unat a < unat bp" if "a \<in> set A" for a
    using bp(4) that ok_blockD(5) [of U a] fl(3) by force
  have bpn: "bp \<notin> set (A @ B)" using gt lt by auto
  show ?thesis
  proof (cases "?t + 8 * hdr_size U ?t = bp")
    case True
    then have adj: "blk_end U ?t = unat bp" using blk_end_word [OF okt] by simp
    have "A \<noteq> []"
      using gt [of ?t] adj ok_blockD(5) [OF okt] fl(4) by (cases "A = []") auto
    then obtain A' where A: "A = A' @ [?t]" by (metis append_butlast_last_id last_appendR)
    have "hdr_ptr (set_size ?t v U) bp = hd (B @ A)" for v
      using ok_blockD(1) [OF okt] ok_blockD(1) [OF bp(1)] bp(2) by simp
    with True have eq: "kfree_join_lower bp ?t U =
        set_ptr ?t (hd (B @ A)) (set_size ?t (hdr_size U ?t + hdr_size U bp) U)"
      by (simp add: kfree_join_lower_def Let_def)
    have "relisted U (set_ptr t (hd (B @ A)) (set_size t (hdr_size U t + hdr_size U bp) U))
        bp (A @ B) (A @ B)" if "A = A' @ [t]" "blk_end U t = unat bp" for t
      using join_lower_merge [of U B A' t q bp] fl bp bpn that by simp
    from this [OF A adj] eq show ?thesis by auto
  next
    case False
    have "blk_end U a < unat bp" if a: "a \<in> set A" for a
    proof -
      have "A \<noteq> []" using a by auto
      then have tA: "?t = last A" "?t \<in> set A" by auto
      have "blk_end U ?t \<noteq> unat bp"
        using False blk_end_word [OF okt] by (metis word_of_nat_unat32)
      then have "blk_end U ?t < unat bp" using bp(4) tA(2) by force
      moreover have "a = ?t \<or> blk_end U a < unat ?t"
      proof -
        obtain A' where A': "A = A' @ [?t]" using tA a by (metis append_butlast_last_id empty_iff empty_set)
        have "sorted_wrt (\<lambda>p q. blk_end U p < unat q) (A' @ [?t])"
          using fl(2) A' by (metis sorted_wrt_append)
        moreover have "a \<in> insert ?t (set A')" using a A' by (metis Un_insert_right empty_set list.simps(15) set_append sup_bot_right)
        ultimately show ?thesis by (auto simp: sorted_wrt_append)
      qed
      ultimately show ?thesis using ok_blockD(5) [OF okt] by auto
    qed
    with False join_lower_link [OF fl bp(1-3)] show ?thesis by (auto simp: kfree_join_lower_def)
  qed
qed

section \<open>kfree\<close>

lemma kfree_join_frame:
  "x \<notin> region bp 8 \<Longrightarrow> x \<notin> region p 8 \<Longrightarrow>
     kfree_join_lower bp p (kfree_join_upper bp p m) x = m x"
  by (simp add: kfree_join_lower_def kfree_join_upper_def Let_def set_hdr_outside)

lemma heap_ok_relisted:
  assumes ok: "heap_ok s bs ls" and bp: "bp \<in> ls" and rl: "relisted U L bp xs bs'"
    and xs: "set xs \<subseteq> set bs" and t: "t \<in> set xs"
    and same: "\<And>r. ok_block (mem s) r \<Longrightarrow> r \<noteq> bp \<Longrightarrow> hdr_size U r = hdr_size (mem s) r"
    and up: "\<And>r. ok_block (mem s) r \<Longrightarrow> apart (mem s) r bp \<Longrightarrow> \<forall>b \<in> set bs. apart (mem s) r b \<Longrightarrow>
      apart U r bp"
  shows "heap_ok (s\<lparr>mem := L, freep := t\<rparr>) bs' (ls - {bp})"
proof -
  let ?m = "mem s"
  have live: "ok_block L r" "hdr_size L r = hdr_size ?m r" "\<forall>b \<in> set bs'. apart L r b"
    if "r \<in> ls - {bp}" for r
  proof -
    have r: "ok_block ?m r" "apart ?m r bp" "\<forall>b \<in> set bs. apart ?m r b"
      using ok bp that by (auto simp: heap_ok_def)
    have bpb: "b \<noteq> bp" if "b \<in> set xs" for b using that xs bp heap_okD(5) [OF ok] by blast
    have sU: "hdr_size U r = hdr_size ?m r" using same r(1) that by blast
    have "apart U r b" if "b \<in> set xs" for b
      using apart_cong [OF sU same [OF heap_okD(3) [OF ok] bpb]] r(3) xs that by auto
    then have L: "hdr_size L r = hdr_size U r \<and> (\<forall>b \<in> set bs'. apart L r b)"
      using rl up [OF r] size_cong(2) [OF sU] r(1) by (auto simp: relisted_def)
    then show "hdr_size L r = hdr_size ?m r" "\<forall>b \<in> set bs'. apart L r b" using sU by auto
    then show "ok_block L r" using size_cong(2) r(1) by blast
  qed
  have "apart L p q" if "p \<in> ls - {bp}" "q \<in> ls - {bp}" "p \<noteq> q" for p q
    using apart_cong [OF live(2) live(2)] heap_okD(4) [OF ok, of p q] that by auto
  moreover have "p \<notin> set bs'" if "p \<in> ls - {bp}" for p
    using live [OF that] apart_ne [of L p p] by auto
  ultimately show ?thesis
    using live rl t by (intro heap_okI) (auto simp: relisted_def)
qed

lemma below_above_notin:
  "below_above m bp A B \<Longrightarrow> \<forall>p \<in> set (A @ B). ok_block m p \<Longrightarrow> bp \<notin> set (A @ B)"
  using below_above_less [of m bp A B] by auto

lemma joined_upper_same:
  assumes "joined_upper m U bp A B B1" "ok_block m r" "r \<noteq> bp"
  shows "hdr_size U r = hdr_size m r" "hdr_ptr U r = hdr_ptr m r"
  using assms ok_blockD(1) by (auto simp: joined_upper_def)

lemma joined_upper_last:
  "joined_upper m U bp A B B1 \<Longrightarrow> set (A @ B1) \<subseteq> set (A @ B) \<and> last (B1 @ A) = last (B @ A)"
  by (auto simp: joined_upper_def)

lemma joined_upper_relists:
  assumes fl: "free_list m (A @ B)" and ba: "below_above m bp A B"
    and ju: "joined_upper m U bp A B B1"
  shows "\<exists>bs'. relisted U (kfree_join_lower bp (last (B @ A)) U) bp (A @ B1) bs'"
proof -
  have okb: "\<forall>p \<in> set (A @ B). ok_block m p" using fl by (simp add: free_list_def)
  note sub = joined_upper_last [OF ju] and bpn = below_above_notin [OF ba okb]
  have same: "hdr_size U r = hdr_size m r" "hdr_ptr U r = hdr_ptr m r" "ok_block m r"
    if "r \<in> set (A @ B1)" for r
    using that sub okb bpn joined_upper_same [OF ju, of r] by auto
  have be: "blk_end U r = blk_end m r" if "r \<in> set (A @ B1)" for r
    using same(1) [OF that] by (rule size_cong)
  have "ring m (B @ A)" using free_listD(1) [OF fl] ring_rotate [of m A B] by simp
  then have "linked m (B1 @ A) (hd (B @ A))" using ju by (auto simp: ring_def joined_upper_def)
  then have lk: "linked U (B1 @ A) (hd (B @ A))"
    using same(2) by (subst linked_cong [of _ _ m]) auto
  have "sorted_wrt (\<lambda>p q. blk_end m p < unat q) (A @ B1)"
    using fl ju by (auto simp: free_list_def joined_upper_def sorted_wrt_append)
  then have srt: "sorted_wrt (\<lambda>p q. blk_end U p < unat q) (A @ B1)"
    by (rule sorted_blocks_cong) (rule eq_imp_le [OF be])
  have okU: "\<forall>p \<in> set (A @ B1). ok_block U p" using same size_cong(2) by blast
  have "\<exists>bs'. relisted U (kfree_join_lower bp (last (B1 @ A)) U) bp (A @ B1) bs'"
  proof (rule join_lower [OF lk srt okU])
    show "\<forall>a \<in> set A. blk_end U a \<le> unat bp" using ba be by (simp add: below_above_def)
  qed (use ju in \<open>simp_all add: joined_upper_def\<close>)
  with sub show ?thesis by simp
qed

lemma kfree_heap_ok:
  assumes ok: "heap_ok s bs ls" and bp: "bp \<in> ls"
    and no: "\<not> meets_last bp s"
  shows "\<exists>s' bs'. kfree (bp + 8) s = Some s' \<and> heap_ok s' bs' (ls - {bp}) \<and>
    free_units (mem s') bs' = free_units (mem s) bs + unat (hdr_size (mem s) bp) \<and>
    (\<forall>x. x \<in> free_area (mem s) bs \<union> block (mem s) bp \<or> mem s' x = mem s x)"
proof -
  let ?m = "mem s"
  obtain A B where bs: "bs = A @ B" and ba: "below_above ?m bp A B"
    using heap_below_above [OF ok bp] by blast
  note fl = heap_okD(1) [OF ok, unfolded bs]
  let ?t = "last (B @ A)"
  let ?U = "kfree_join_upper bp ?t ?m"
  let ?L = "kfree_join_lower bp ?t ?U"
  have okb: "\<forall>p \<in> set (A @ B). ok_block ?m p" using fl by (simp add: free_list_def)
  have "\<not> (length (A @ B) = 1 \<and> B \<noteq> [] \<and> blk_end ?m bp = unat (hd B))"
    using no bs ok single_ring [of s _ ls] by (cases A; cases B) (auto simp: meets_last_def)
  then obtain B1 where ju: "joined_upper ?m ?U bp A B B1" using join_upper [OF fl ba] by blast
  obtain bs' where rl: "relisted ?U ?L bp (A @ B1) bs'"
    using joined_upper_relists [OF fl ba ju] by blast
  note sub = joined_upper_last [OF ju] and bpn = below_above_notin [OF ba okb]
  have tin: "?t \<in> set (A @ B1)"
    using sub last_in_set [of "B1 @ A"] ju by (auto simp: joined_upper_def)
  have "kfree (bp + 8) s = Some (s\<lparr>mem := ?L, freep := ?t\<rparr>)"
    using kfree_search_free_list [OF fl ba] heap_okD(2) [OF ok] bs by (simp add: kfree_def Let_def)
  moreover have "free_units ?L bs' = free_units ?m bs + unat (hdr_size ?m bp)"
  proof -
    have "free_units ?U (A @ B1) = free_units ?m (A @ B1)"
      using okb sub bpn by (intro free_units_cong joined_upper_same [OF ju]) auto
    with rl ju bs show ?thesis by (auto simp: relisted_def joined_upper_def free_units_def)
  qed
  moreover have "x \<in> free_area ?m bs \<union> block ?m bp \<or> ?L x = ?m x" for x
  proof -
    have tb: "?t \<in> set bs" using tin sub bs by blast
    then have "ok_block ?m ?t" using okb bs by blast
    then have "region ?t 8 \<subseteq> free_area ?m bs"
      using region_block [of ?m ?t] tb by (auto simp: free_area_def)
    then show ?thesis
      using region_block [of ?m bp] ba kfree_join_frame [of x bp ?t ?m] by (auto simp: below_above_def)
  qed
  moreover have "heap_ok (s\<lparr>mem := ?L, freep := ?t\<rparr>) bs' (ls - {bp})"
    using sub bs tin joined_upper_same [OF ju] ju
    by (intro heap_ok_relisted [OF ok bp rl]) (auto simp: joined_upper_def)
  ultimately show ?thesis by force
qed

section \<open>The allocator as the storage of the kernel\<close>

definition payload :: "memory \<Rightarrow> addr \<Rightarrow> addr set" where
  "payload m a = {x. unat a \<le> unat x \<and> unat x < blk_end m (a - 8)}"

definition kowns :: "'a heap_scheme \<Rightarrow> addr set \<Rightarrow> bool" where
  "kowns s L \<longleftrightarrow> (\<exists>bs. heap_ok s bs ((\<lambda>a. a - 8) ` L))"

lemma payload_block: "ok_block m p \<Longrightarrow> payload m (p + 8) = {x \<in> block m p. unat p + 8 \<le> unat x}"
  using ok_blockD(3,5) [of m p] by (auto simp: payload_def block_def unat_add_small)

lemma unat_nunits: "unat (nunits_of nbytes) = unat (nbytes + 7) div 8 + 1"
proof -
  have n: "nunits_of nbytes = (nbytes + 7) div 8 + 1" by (simp add: nunits_of_def add.commute)
  have d: "unat ((nbytes + 7) div 8) = unat (nbytes + 7) div 8" by (simp add: unat_div)
  have "unat (nbytes + 7) div 8 < 4294967295" using unat_uint_less [of "nbytes + 7"] by simp
  with d show ?thesis unfolding n by (subst unat_add_small) simp_all
qed

lemma nunits_cover:
  "unat nbytes + 7 < 4294967296 \<Longrightarrow> unat nbytes + 8 \<le> 8 * unat (nunits_of nbytes)"
  unfolding unat_nunits by (subst unat_add_small) auto

lemma block_apart: "apart m p q \<Longrightarrow> block m p \<inter> block m q = {}"
  by (auto simp: apart_def block_def)

lemma block_cong: "hdr_size m' p = hdr_size m p \<Longrightarrow> block m' p = block m p"
  by (simp add: block_def blk_end_def)

lemma payload_cong: "hdr_size m' (a - 8) = hdr_size m (a - 8) \<Longrightarrow> payload m' a = payload m a"
  by (simp add: payload_def blk_end_def)

lemma hdr_cong:
  assumes "\<And>x. x \<in> region p 8 \<Longrightarrow> m' x = m x"
  shows "hdr_ptr m' p = hdr_ptr m p" "hdr_size m' p = hdr_size m p"
  using assms region_mono [of 4 8 p] region_offset [of p 4 4]
  by (auto simp: hdr_ptr_def hdr_size_def intro!: ld32_cong)

text \<open>The allocator's data depends on the headers alone.\<close>

lemma heap_ok_headers:
  assumes ok: "heap_ok s bs ls"
    and hd: "\<And>r x. r \<in> set bs \<union> ls \<Longrightarrow> x \<in> region r 8 \<Longrightarrow> m x = mem s x"
  shows "heap_ok (s\<lparr>mem := m\<rparr>) bs ls"
proof -
  have h: "hdr_ptr m r = hdr_ptr (mem s) r" "hdr_size m r = hdr_size (mem s) r"
    if "r \<in> set bs \<union> ls" for r
    using hd [OF that] by (auto intro: hdr_cong)
  have "ring m bs" using heap_okD(1) [OF ok] h(1) free_listD(1) by (subst ring_cong [of _ _ "mem s"]) auto
  moreover have "sorted_wrt (\<lambda>p q. blk_end (mem s) p < unat q) bs"
    using heap_okD(1) [OF ok] by (simp add: free_list_def)
  then have "sorted_wrt (\<lambda>p q. blk_end m p < unat q) bs"
    by (rule sorted_blocks_cong) (simp add: size_cong(1) [OF h(2)])
  moreover have okr: "ok_block m r" if "r \<in> set bs \<union> ls" for r
    using size_cong(2) [OF h(2) [OF that]] heap_okD(3) [OF ok that] by simp
  ultimately have "free_list m bs" by (auto simp: free_list_def)
  moreover have "apart m p q" if "p \<in> ls" "q \<in> set bs \<union> ls" "p \<noteq> q" for p q
    using that heap_okD(4) [OF ok, of p q] apart_cong [OF h(2) h(2), of p q] by blast
  ultimately show ?thesis
    using okr heap_okD(2,5) [OF ok] by (intro heap_okI) auto
qed

lemma payload_no_header:
  assumes ok: "heap_ok s bs ls" and p: "p \<in> ls" and r: "r \<in> set bs \<union> ls" and x: "x \<in> region r 8"
  shows "x \<notin> payload (mem s) (p + 8)"
proof (cases "r = p")
  case True
  note okp = heap_okD(3) [OF ok, of p]
  have "unat x < unat p + 8"
    using x True p ok_blockD(3,5) [OF okp] by (auto simp: region_iff)
  with okp p show ?thesis by (auto simp: payload_block)
next
  case False
  then have "block (mem s) r \<inter> block (mem s) p = {}"
    using p r by (intro block_apart heap_okD(4) [OF ok]) auto
  with region_block [OF heap_okD(3) [OF ok r]] x heap_okD(3) [OF ok, of p] p show ?thesis
    by (auto simp: payload_block)
qed

lemma heap_ok_payload:
  assumes "heap_ok s bs ls" "p \<in> ls" "\<And>x. x \<notin> payload (mem s) (p + 8) \<Longrightarrow> m x = mem s x"
  shows "heap_ok (s\<lparr>mem := m\<rparr>) bs ls"
  using assms payload_no_header [OF assms(1,2)] by (intro heap_ok_headers) blast+

lemma payload_live:
  "heap_ok s bs ls \<Longrightarrow> p \<in> ls \<Longrightarrow> payload (mem s) (p + 8) \<inter> free_area (mem s) bs = {}"
proof -
  assume ok: "heap_ok s bs ls" and p: "p \<in> ls"
  have "block (mem s) p \<inter> block (mem s) q = {}" if "q \<in> set bs" for q
    using p that heap_okD(5) [OF ok that] by (intro block_apart heap_okD(4) [OF ok]) auto
  then show ?thesis using payload_block [OF heap_okD(3) [OF ok, of p]] p by (auto simp: free_area_def)
qed

lemma block_live:
  "heap_ok s bs ls \<Longrightarrow> p \<in> ls \<Longrightarrow> block (mem s) p \<inter> free_area (mem s) bs = {}"
  using block_apart [of "mem s" p] heap_okD(4,5) [of s bs ls] by (fastforce simp: free_area_def)

lemma kept_block:
  assumes ok: "heap_ok s bs ls" and b: "b \<in> ls" and fr: "\<And>x. x \<in> block (mem s) b \<Longrightarrow> mem s' x = mem s x"
  shows "payload (mem s') (b + 8) = payload (mem s) (b + 8)"
    and "x \<in> payload (mem s) (b + 8) \<Longrightarrow> mem s' x = mem s x"
proof -
  have okb: "ok_block (mem s) b" using b heap_okD(3) [OF ok] by blast
  then have "hdr_size (mem s') b = hdr_size (mem s) b"
    using fr region_block [of "mem s" b] by (intro hdr_cong) auto
  then show "payload (mem s') (b + 8) = payload (mem s) (b + 8)" by (intro payload_cong) simp
  show "x \<in> payload (mem s) (b + 8) \<Longrightarrow> mem s' x = mem s x"
    using fr payload_block [OF okb] by auto
qed

lemma grants_block:
  assumes "grants s bs ls n p s'"
  shows "ok_block (mem s') p" "p + 8 \<noteq> NULL"
proof -
  show okp: "ok_block (mem s') p" using assms heap_okD(3) by (fastforce simp: grants_def)
  have "unat (p + 8) = unat p + 8" using ok_blockD(3,5) [OF okp] by (subst unat_add_small) auto
  then show "p + 8 \<noteq> NULL" by (metis add_is_0 unat_0 zero_neq_numeral)
qed

lemma kmalloc_cases:
  assumes ok: "heap_ok s bs ls" and safe: "\<not> takes_last n s" and k: "kmalloc n s = Some (a, s')"
  shows "a = NULL \<and> s' = s \<or>
    (a \<noteq> NULL \<and> grants s bs ls (nunits_of n) (a - 8) s' \<and> ok_block (mem s') (a - 8))"
  using kmalloc_heap_ok [OF ok safe] k grants_block [of s bs ls "nunits_of n"] by fastforce

lemma kownsE:
  assumes "kowns s L"
  obtains bs where "heap_ok s bs ((\<lambda>a. a - 8) ` L)"
  using assms by (auto simp: kowns_def)

lemma kmalloc_owns:
  assumes own: "kowns s L" and safe: "\<not> takes_last n s" and k: "kmalloc n s = Some (a, s')" "a \<noteq> NULL"
  shows "a \<notin> L \<and> kowns s' (insert a L)"
    and "unat n + 7 < 4294967296 \<Longrightarrow> region a (unat n) \<subseteq> payload (mem s') a"
proof -
  obtain bs where ok: "heap_ok s bs ((\<lambda>a. a - 8) ` L)" using own by (rule kownsE)
  have g: "grants s bs ((\<lambda>a. a - 8) ` L) (nunits_of n) (a - 8) s'" "ok_block (mem s') (a - 8)"
    using kmalloc_cases [OF ok safe k(1)] k(2) by auto
  have "heap_ok s' bs' ((\<lambda>a. a - 8) ` insert a L) \<Longrightarrow> kowns s' (insert a L)" for bs'
    by (auto simp: kowns_def)
  with g show "a \<notin> L \<and> kowns s' (insert a L)" by (auto simp: grants_def)
  assume "unat n + 7 < 4294967296"
  from nunits_cover [OF this] have "unat (a - 8) + 8 + unat n \<le> blk_end (mem s') (a - 8)"
    using g(1) by (simp add: grants_def blk_end_def)
  moreover have "unat a = unat (a - 8) + 8"
    using ok_blockD(3,5) [OF g(2)] unat_add_small [of "a - 8" 8] by simp
  ultimately show "region a (unat n) \<subseteq> payload (mem s') a"
    using ok_blockD(3) [OF g(2)] by (auto simp: region_iff payload_def)
qed

lemma kmalloc_keeps:
  assumes own: "kowns s L" and safe: "\<not> takes_last n s" and k: "kmalloc n s = Some (a, s')" and b: "b \<in> L"
  shows "payload (mem s') b = payload (mem s) b \<and> (\<forall>x \<in> payload (mem s) b. mem s' x = mem s x)"
proof -
  obtain bs where ok: "heap_ok s bs ((\<lambda>a. a - 8) ` L)" using own by (rule kownsE)
  have "x \<in> block (mem s) (b - 8) \<Longrightarrow> mem s' x = mem s x" for x
    using kmalloc_cases [OF ok safe k] block_live [OF ok, of "b - 8"] b by (auto simp: grants_def)
  then show ?thesis using kept_block [OF ok, of "b - 8" s'] b by simp
qed

lemma kfree_owns:
  assumes own: "kowns s L" and a: "a \<in> L" and safe: "\<not> meets_last (a - 8) s"
  shows "\<exists>s'. kfree a s = Some s' \<and> kowns s' (L - {a}) \<and> (\<forall>b \<in> L - {a}.
    payload (mem s') b = payload (mem s) b \<and> (\<forall>x \<in> payload (mem s) b. mem s' x = mem s x))"
proof -
  obtain bs where ok: "heap_ok s bs ((\<lambda>a. a - 8) ` L)" using own by (rule kownsE)
  let ?ls = "(\<lambda>a. a - 8) ` L"
  have "a - 8 \<in> ?ls" using a by simp
  from kfree_heap_ok [OF ok this safe]
  obtain s' bs' where f: "kfree a s = Some s'" "heap_ok s' bs' (?ls - {a - 8})"
    "\<And>x. x \<in> free_area (mem s) bs \<union> block (mem s) (a - 8) \<or> mem s' x = mem s x" by auto
  have kept: "payload (mem s') b = payload (mem s) b \<and> (\<forall>x \<in> payload (mem s) b. mem s' x = mem s x)"
    if b: "b \<in> L - {a}" for b
  proof -
    have "block (mem s) (a - 8) \<inter> block (mem s) (b - 8) = {}"
      using a b by (intro block_apart heap_okD(4) [OF ok]) auto
    then have "x \<in> block (mem s) (b - 8) \<Longrightarrow> mem s' x = mem s x" for x
      using f(3) [of x] block_live [OF ok, of "b - 8"] b by auto
    then show ?thesis using kept_block [OF ok, of "b - 8" s'] b by simp
  qed
  have "?ls - {a - 8} = (\<lambda>a. a - 8) ` (L - {a})" by auto
  with f kept show ?thesis by (auto simp: kowns_def)
qed

lemma kowns_put:
  assumes own: "kowns s L" and a: "a \<in> L" and m: "\<And>x. x \<notin> payload (mem s) a \<Longrightarrow> m x = mem s x"
  shows "kowns (s\<lparr>mem := m\<rparr>) L \<and> (\<forall>b \<in> L. payload m b = payload (mem s) b)"
proof -
  obtain bs where ok: "heap_ok s bs ((\<lambda>a. a - 8) ` L)" using own by (rule kownsE)
  have m8: "m x = mem s x" if "x \<notin> payload (mem s) (a - 8 + 8)" for x using that m by simp
  then have "heap_ok (s\<lparr>mem := m\<rparr>) bs ((\<lambda>a. a - 8) ` L)"
    using a by (intro heap_ok_payload [OF ok]) auto
  moreover have "payload m b = payload (mem s) b" if "b \<in> L" for b
    using that a payload_no_header [OF ok, of "a - 8" "b - 8"] m8
    by (intro payload_cong hdr_cong) auto
  ultimately show ?thesis by (auto simp: kowns_def)
qed

lemma kowns_disjoint:
  assumes own: "kowns s L" and ab: "a \<in> L" "b \<in> L" "a \<noteq> b"
  shows "payload (mem s) a \<inter> payload (mem s) b = {}"
proof -
  obtain bs where ok: "heap_ok s bs ((\<lambda>a. a - 8) ` L)" using own by (rule kownsE)
  have "block (mem s) (a - 8) \<inter> block (mem s) (b - 8) = {}"
    using ab by (intro block_apart heap_okD(4) [OF ok]) auto
  moreover have "payload (mem s) c \<subseteq> block (mem s) (c - 8)" if "c \<in> L" for c
    using payload_block [OF heap_okD(3) [OF ok], of "c - 8"] that by auto
  ultimately show ?thesis using ab by blast
qed

lemma kowns_kmalloc: "kowns s L \<Longrightarrow> \<not> takes_last n s \<Longrightarrow>
    \<exists>a s'. kmalloc n s = Some (a, s') \<and> (a = NULL \<longrightarrow> s' = s)"
  using kmalloc_heap_ok kmalloc_cases by (fastforce simp: kowns_def)

interpretation kheap: storage kowns kmalloc kfree
  "\<lambda>n s. \<not> takes_last n s" "\<lambda>a s. \<not> meets_last (a - 8) s"
  "\<lambda>s a. payload (mem s) a" mem "\<lambda>m s. s\<lparr>mem := m\<rparr>"
proof unfold_locales
  fix s s' :: "'a heap_scheme" and L n a b m
  assume own: "kowns s L"
  show "\<not> takes_last n s \<Longrightarrow> \<exists>a s'. kmalloc n s = Some (a, s')"
    and "\<not> takes_last n s \<Longrightarrow> kmalloc n s = Some (NULL, s') \<Longrightarrow> s' = s"
    using kowns_kmalloc [OF own, of n] by auto
  show "a \<in> L \<Longrightarrow> \<not> meets_last (a - 8) s \<Longrightarrow> \<exists>s'. kfree a s = Some s' \<and> kowns s' (L - {a})"
    using kfree_owns [OF own] by blast
  show "a \<in> L \<Longrightarrow> \<not> meets_last (a - 8) s \<Longrightarrow> kfree a s = Some s' \<Longrightarrow> b \<in> L - {a} \<Longrightarrow>
    payload (mem s') b = payload (mem s) b \<and> (\<forall>x \<in> payload (mem s) b. mem s' x = mem s x)"
    using kfree_owns [OF own, of a] by auto
  assume a: "a \<in> L" and m: "\<And>x. x \<notin> payload (mem s) a \<Longrightarrow> m x = mem s x"
  show "kowns (s\<lparr>mem := m\<rparr>) L \<and> (\<forall>b \<in> L. payload (mem (s\<lparr>mem := m\<rparr>)) b = payload (mem s) b)"
    using kowns_put [OF own a m] by simp
qed (use kmalloc_owns kmalloc_keeps kowns_disjoint in \<open>simp_all\<close>)

section \<open>Runs of the allocator\<close>

lemma heap_ok_boot:
  assumes "freep s = NULL"
  shows "heap_ok (kmalloc_init s) [KERNEL_MEM_START] {}"
    and "free_units (mem (kmalloc_init s)) [KERNEL_MEM_START] = 0x1C0000"
  using assms
  by (auto simp: kmalloc_init_def heap_ok_def free_list_def ring_def ok_block_def blk_end_def
      free_units_def)

lemma kmalloc_init_idem: "kmalloc_init (kmalloc_init s) = kmalloc_init s"
  by (simp add: kmalloc_init_def)

text \<open>
  The states the kernel can reach by allocating, freeing pointers it was handed out and writing to its own blocks. \<open>L\<close>
  are the pointers handed out and not yet freed; \<open>d\<close> records whether some call was one of the two that the allocator gets wrong.
\<close>

inductive kernel_run :: "'a heap_scheme \<Rightarrow> addr set \<Rightarrow> bool \<Rightarrow> bool" where
  boot: "freep s = NULL \<Longrightarrow> kernel_run (kmalloc_init s) {} False"
| alloc: "kernel_run s L d \<Longrightarrow> kmalloc n s = Some (a, s') \<Longrightarrow>
    kernel_run s' (if a = NULL then L else insert a L) (d \<or> takes_last n s)"
| free: "kernel_run s L d \<Longrightarrow> a \<in> L \<Longrightarrow> kfree a s = Some s' \<Longrightarrow> kernel_run s' (L - {a}) (d \<or> meets_last (a - 8) s)"
| store: "kernel_run s L d \<Longrightarrow> a \<in> L \<Longrightarrow> region c (length bs) \<subseteq> payload (mem s) a \<Longrightarrow>
    kernel_run (s\<lparr>mem := st_bytes c bs (mem s)\<rparr>) L d"

lemma kernel_run_owns: "kernel_run s L d \<Longrightarrow> \<not> d \<Longrightarrow> kowns s L"
proof (induction rule: kernel_run.induct)
  case (boot s)
  then show ?case using heap_ok_boot(1) [of s] by (auto simp: kowns_def)
next
  case (alloc s L d n a s')
  then show ?case using kheap.alloc_owns [of s L n a s'] kheap.alloc_null [of s L n s'] by auto
next
  case (free s L d a s')
  then show ?case using kheap.free_total [of s L a] by auto
next
  case (store s L d a c bs)
  then show ?case using kheap.store_own(1) [of s L a c bs] by simp
qed

section \<open>Properties\<close>

text \<open>
  The first request sets the heap up: one free block over the whole kernel area,
  14 MB in 0x1C0000 units from 2 MB on, and nothing handed out; the request is then served from it.
\<close>

theorem kmalloc_boots:
  assumes "freep s = NULL"
  shows "heap_ok (kmalloc_init s) [KERNEL_MEM_START] {} \<and>
    free_units (mem (kmalloc_init s)) [KERNEL_MEM_START] = 0x1C0000 \<and>
    kmalloc n s = kmalloc n (kmalloc_init s)"
  using heap_ok_boot [OF assms] by (simp_all add: kmalloc_def kmalloc_init_idem)

text \<open>
  C1 (functional). On an intact heap \<open>kmalloc\<close> returns. The answer is \<open>NULL\<close>, and the state is
  unchanged, exactly when no free block is large enough. Otherwise it is a pointer not handed out
  yet with at least the bytes asked for, apart from all the bytes of the live blocks; those
  keep their contents, and the allocator stays intact with the new pointer live. The
  request must not take the only free block as a whole, and must not exceed
  \<open>2\<^sup>3\<^sup>2 - 8\<close> bytes.
\<close>

theorem kmalloc_allocates:
  assumes "heap_ok s bs ((\<lambda>b. b - 8) ` L)" "\<not> takes_last n s" "unat n + 7 < 4294967296"
  shows "\<exists>a s'. kmalloc n s = Some (a, s') \<and>
    (a = NULL \<longleftrightarrow> (\<forall>u \<in> set bs. 8 * unat (hdr_size (mem s) u) < unat n + 8)) \<and>
    (a = NULL \<longrightarrow> s' = s) \<and>
    (a \<noteq> NULL \<longrightarrow> a \<notin> L \<and> kowns s' (insert a L) \<and> region a (unat n) \<subseteq> payload (mem s') a \<and>
      (\<forall>b \<in> L. payload (mem s') b = payload (mem s) b \<and> payload (mem s') a \<inter> payload (mem s) b = {} \<and>
        (\<forall>x \<in> payload (mem s) b. mem s' x = mem s x)))"
proof -
  have own: "kowns s L" using assms(1) by (auto simp: kowns_def)
  obtain a s' where k: "kmalloc n s = Some (a, s')" using kheap.alloc_total [OF own assms(2)] by blast
  have u: "hdr_size (mem s) u < nunits_of n \<longleftrightarrow> 8 * unat (hdr_size (mem s) u) < unat n + 8" for u
    using assms(3) unfolding word_less_nat_alt unat_nunits
    by (subst unat_add_small) (simp_all, linarith)
  have "a = NULL \<longleftrightarrow> (\<forall>u \<in> set bs. hdr_size (mem s) u < nunits_of n)"
    using kmalloc_heap_ok [OF assms(1,2)] k grants_block(2) by (fastforce simp: not_less [symmetric])
  with k show ?thesis unfolding u
    using kheap.alloc_owns [OF own assms(2) k] kheap.alloc_size [OF own assms(2) k _ assms(3)]
      kheap.alloc_null [OF own assms(2)] kheap.alloc_keeps [OF own assms(2) k]
      kheap.usable_disjoint [of s' "insert a L" a]
    by fastforce
qed

text \<open>
  C2 (functional). On an intact heap \<open>kfree\<close> of a live pointer returns: the pointer is no longer live,
  the free units grow by exactly the units of its block, and the other live blocks keep their
  place and contents. The block must not end where the only free block begins.
\<close>

theorem kfree_releases:
  assumes "heap_ok s bs ((\<lambda>b. b - 8) ` L)" "a \<in> L" "\<not> meets_last (a - 8) s"
  shows "\<exists>s' bs'. kfree a s = Some s' \<and> heap_ok s' bs' ((\<lambda>b. b - 8) ` (L - {a})) \<and>
    free_units (mem s') bs' = free_units (mem s) bs + unat (hdr_size (mem s) (a - 8)) \<and>
    (\<forall>b \<in> L - {a}. payload (mem s') b = payload (mem s) b \<and>
      (\<forall>x \<in> payload (mem s) b. mem s' x = mem s x))"
proof -
  have own: "kowns s L" using assms(1) by (auto simp: kowns_def)
  have "a - 8 \<in> (\<lambda>b. b - 8) ` L" using assms(2) by simp
  from kfree_heap_ok [OF assms(1) this assms(3)] obtain s' bs' where
    f: "kfree a s = Some s'" "heap_ok s' bs' ((\<lambda>b. b - 8) ` L - {a - 8})"
    "free_units (mem s') bs' = free_units (mem s) bs + unat (hdr_size (mem s) (a - 8))" by auto
  moreover have "(\<lambda>b. b - 8) ` L - {a - 8} = (\<lambda>b. b - 8) ` (L - {a})" by auto
  ultimately show ?thesis
    using kheap.free_keeps [OF own assms(2,3) f(1)] by auto
qed

text \<open>
  C3 (invariant). In every state the kernel reaches from boot by allocating, freeing pointers handed out and storing in its own
  blocks, without a request that takes the only free block as a whole (\<open>takes_last\<close>) and without freeing a block
  that ends where the only free block begins (\<open>meets_last\<close>), the live blocks are pairwise disjoint and lie between 2 MB and 16 MB.
  Each of the two calls breaks this.
\<close>

theorem kernel_run_disjoint:
  assumes "kernel_run s L False" "a \<in> L"
  shows "(\<forall>b \<in> L - {a}. payload (mem s) a \<inter> payload (mem s) b = {}) \<and>
    (\<forall>x \<in> payload (mem s) a. 0x200008 \<le> unat x \<and> unat x < 0x1000000)"
proof -
  have own: "kowns s L" using kernel_run_owns [OF assms(1)] by simp
  obtain bs where ok: "heap_ok s bs ((\<lambda>b. b - 8) ` L)" using own by (rule kownsE)
  have "ok_block (mem s) (a - 8)" using assms(2) heap_okD(3) [OF ok] by blast
  from payload_block [OF this] ok_blockD(2,3) [OF this]
  have "\<forall>x \<in> payload (mem s) a. 0x200008 \<le> unat x \<and> unat x < 0x1000000"
    by (auto simp: block_def)
  with kheap.usable_disjoint [OF own assms(2)] show ?thesis by blast
qed

text \<open>
  A request that takes the only free block as a whole does not take it off the list:
  the same request succeeds again and returns the same pointer.
\<close>

theorem kmalloc_last_block_twice:
  assumes "heap_ok s bs ls" "takes_last n s"
  shows "\<exists>s'. kmalloc n s = Some (freep s + 8, s') \<and> kmalloc n s' = Some (freep s + 8, s')"
proof -
  let ?h = "freep s"
  have "set_ptr ?h ?h (mem s) = mem s"
    using assms(2) st32_ld32 [of ?h "mem s"] by (simp add: takes_last_def set_ptr_def hdr_ptr_def)
  moreover have "kmalloc_search (mem s) ?h (nunits_of n) ?h ?h = Some (Some (?h, ?h))"
    using assms(2) by (subst kmalloc_search.simps) (simp add: takes_last_def)
  ultimately have "kmalloc n s = Some (?h + 8, s)"
    using assms by (simp add: kmalloc_def kmalloc_init_ok takes_last_def Let_def)
  then show ?thesis by blast
qed

text \<open>
  Freeing a block that ends where the only free block \<open>h\<close> begins leaves \<open>h\<close> on the ring
  although the freed block has absorbed it: two free blocks that overlap.
\<close>

theorem kfree_below_last_overlaps:
  assumes "heap_ok s bs ls" "bp \<in> ls" "meets_last bp s"
  shows "\<exists>s'. kfree (bp + 8) s = Some s' \<and> ring (mem s') [bp, freep s] \<and>
    block (mem s) (freep s) \<noteq> {} \<and>
    block (mem s') (freep s) = block (mem s) (freep s) \<and>
    block (mem s) (freep s) \<subseteq> block (mem s') bp"
proof -
  let ?m = "mem s" and ?h = "freep s"
  have h: "hdr_ptr ?m ?h = ?h" "blk_end ?m bp = unat ?h" using assms(3) by (auto simp: meets_last_def)
  have okb: "ok_block ?m bp" "ok_block ?m ?h"
    using heap_okD(2,3) [OF assms(1)] assms(2) by auto
  have al: "aligned8 bp" "aligned8 ?h" using okb ok_blockD(1) by auto
  have lt: "unat bp < unat ?h" using h(2) ok_blockD(5) [OF okb(1)] by simp
  then have ne: "bp \<noteq> ?h" "?h \<noteq> bp" by auto
  have adj: "bp + 8 * hdr_size ?m bp = ?h" using blk_end_word [OF okb(1)] h(2) by (metis word_of_nat_unat32)
  have nadj: "?h + 8 * hdr_size ?m ?h \<noteq> bp"
    using blk_end_word [OF okb(2)] ok_blockD(5) [OF okb(2)] lt by auto
  have "kfree_search ?m bp ?h = Some ?h"
    using lt h(1) by (subst kfree_search.simps) (simp add: word_less_nat_alt)
  moreover let ?U = "set_ptr bp ?h (set_size bp (hdr_size ?m bp + hdr_size ?m ?h) ?m)"
  have "kfree_join_upper bp ?h ?m = ?U"
    using adj h(1) al ne by (simp add: kfree_join_upper_def Let_def)
  moreover have "kfree_join_lower bp ?h ?U = set_ptr ?h bp ?U"
    using nadj al ne by (simp add: kfree_join_lower_def)
  ultimately have k: "kfree (bp + 8) s = Some (s\<lparr>mem := set_ptr ?h bp ?U, freep := ?h\<rparr>)"
    by (simp add: kfree_def)
  have sz: "unat (hdr_size ?m bp + hdr_size ?m ?h) = unat (hdr_size ?m bp) + unat (hdr_size ?m ?h)"
    using ok_blockD(3) [OF okb(1)] ok_blockD(3) [OF okb(2)]
    by (intro unat_add_small) (simp add: blk_end_def)
  have "block ?m ?h \<noteq> {}" using ok_blockD(5) [OF okb(2)] by (auto simp: block_def)
  moreover have "block ?m ?h \<subseteq> block (set_ptr ?h bp ?U) bp"
    using al ne sz h(2) lt by (auto simp: block_def blk_end_def)
  moreover have "block (set_ptr ?h bp ?U) ?h = block ?m ?h" using al ne by (intro block_cong) simp
  ultimately show ?thesis using k al ne by (simp add: ring_def)
qed

text \<open>
  The number of units computed for a request covers it and its header, wasting
  less than a unit, up to \<open>2\<^sup>3\<^sup>2 - 8\<close> bytes; for the seven larger requests the sum
  wraps and a single unit, the header alone, is asked for.
\<close>

theorem nunits_bounds:
  "if unat nbytes < 4294967289
   then unat nbytes + 8 \<le> 8 * unat (nunits_of nbytes) \<and> 8 * unat (nunits_of nbytes) < unat nbytes + 16
   else nunits_of nbytes = 1"
proof (cases "unat nbytes < 4294967289")
  case True
  then have "unat (nbytes + 7) = unat nbytes + 7" by (subst unat_add_small) auto
  with True show ?thesis unfolding unat_nunits by simp linarith
next
  case False
  have "unat (nbytes + 7) = (unat nbytes + 7) mod 4294967296" by (simp add: unat_word_ariths)
  also have "\<dots> = unat nbytes + 7 - 4294967296"
    using False unat_uint_less [of nbytes] by (simp add: mod_if)
  finally have "unat (nunits_of nbytes) = unat (1 :: uint)"
    unfolding unat_nunits using False unat_uint_less [of nbytes] by simp
  with False show ?thesis by (simp only: word_unat_eq_iff if_False)
qed

section \<open>Witnesses\<close>

text \<open>The heap before the first request, and two small heaps of a live and a free block.\<close>

definition zero_heap :: heap where
  "zero_heap = \<lparr>mem = (\<lambda>_. 0), io = [], heap_base = NULL, freep = NULL\<rparr>"

definition heap_of :: "addr \<Rightarrow> addr \<Rightarrow> heap" where
  "heap_of f l = \<lparr>mem = set_size l 3 (set_size f 2 (set_ptr f f (\<lambda>_. 0))),
     io = [], heap_base = KERNEL_MEM_START, freep = f\<rparr>"

lemma heap_of_ok:
  "heap_ok (heap_of 0x200000 0x200010) [0x200000] {0x200010}"
  "heap_ok (heap_of 0x200018 0x200000) [0x200018] {0x200000}"
  by (auto simp: heap_of_def heap_ok_def free_list_def ring_def ok_block_def blk_end_def apart_def)

theorem kmalloc_boots_witness:
  "freep zero_heap = NULL \<and> heap_ok (kmalloc_init zero_heap) [0x200000] {} \<and>
   free_units (mem (kmalloc_init zero_heap)) [0x200000] = 1835008 \<and>
   kmalloc 5 zero_heap = kmalloc 5 (kmalloc_init zero_heap)"
proof -
  have z: "freep zero_heap = NULL" by (simp add: zero_heap_def)
  show ?thesis using z kmalloc_boots [OF z, of 5] by simp
qed

theorem kmalloc_allocates_witness:
  "\<exists>a s'. kmalloc 100 (kmalloc_init zero_heap) = Some (a, s') \<and> a \<noteq> NULL \<and> kowns s' {a} \<and>
     region a 100 \<subseteq> payload (mem s') a"
proof -
  have z: "freep zero_heap = NULL" by (simp add: zero_heap_def)
  have "heap_ok (kmalloc_init zero_heap) [0x200000] ((\<lambda>b. b - 8) ` {})" using heap_ok_boot [OF z] by simp
  moreover have "\<not> takes_last 100 (kmalloc_init zero_heap)"
    by (simp add: takes_last_def kmalloc_init_def zero_heap_def nunits_of_def)
  moreover have "hdr_size (mem (kmalloc_init zero_heap)) 0x200000 = 0x1C0000"
    by (simp add: kmalloc_init_def zero_heap_def)
  ultimately show ?thesis
    using kmalloc_allocates [of "kmalloc_init zero_heap" "[0x200000]" "{}" 100] by auto
qed

theorem kfree_releases_witness:
  "\<exists>s' bs'. kfree 0x200018 (heap_of 0x200000 0x200010) = Some s' \<and> heap_ok s' bs' {} \<and>
     free_units (mem s') bs' = 5"
proof -
  let ?s = "heap_of 0x200000 0x200010"
  have "\<not> meets_last (0x200018 - 8) ?s" by (simp add: meets_last_def heap_of_def blk_end_def)
  moreover have "free_units (mem ?s) [0x200000] + unat (hdr_size (mem ?s) (0x200018 - 8)) = 5"
    by (simp add: heap_of_def free_units_def)
  ultimately show ?thesis
    using kfree_releases [of ?s "[0x200000]" "{0x200018}" "0x200018"] heap_of_ok(1) by force
qed

theorem kmalloc_last_block_twice_witness:
  "\<exists>s'. kmalloc 8 (heap_of 0x200000 0x200010) = Some (0x200008, s') \<and> kmalloc 8 s' = Some (0x200008, s')"
proof -
  let ?s = "heap_of 0x200000 0x200010"
  have "takes_last 8 ?s" "freep ?s = 0x200000" by (simp_all add: takes_last_def heap_of_def nunits_of_def)
  then show ?thesis using kmalloc_last_block_twice [OF heap_of_ok(1), of 8] by simp
qed

theorem kfree_below_last_overlaps_witness:
  "\<exists>s'. kfree 0x200008 (heap_of 0x200018 0x200000) = Some s' \<and> ring (mem s') [0x200000, 0x200018] \<and>
     block (mem s') 0x200018 \<subseteq> block (mem s') 0x200000"
proof -
  let ?s = "heap_of 0x200018 0x200000"
  have "meets_last 0x200000 ?s" "freep ?s = 0x200018"
    by (simp_all add: meets_last_def heap_of_def blk_end_def)
  then show ?thesis
    using kfree_below_last_overlaps [OF heap_of_ok(2), of "0x200000"] by auto
qed

lemma kmalloc_two:
  obtains s1 s2 where "kmalloc 8 (kmalloc_init zero_heap) = Some (0xFFFFF8, s1)"
    "kmalloc 8 s1 = Some (0xFFFFE8, s2)" "\<not> takes_last 8 s1" 
proof -
  let ?m = "set_size 0x200000 0x1C0000 (set_ptr 0x200000 0x200000 (\<lambda>_. 0))"
  let ?m1 = "set_size 0xFFFFF0 2 (set_size 0x200000 0x1BFFFE ?m)"
  let ?s1 = "zero_heap\<lparr>heap_base := 0x200000, freep := 0x200000, mem := ?m1\<rparr>"
  let ?s2 = "zero_heap\<lparr>heap_base := 0x200000, freep := 0x200000,
    mem := set_size 0xFFFFE0 2 (set_size 0x200000 0x1BFFFC ?m1)\<rparr>"
  have "kmalloc 8 (kmalloc_init zero_heap) = Some (0xFFFFF8, ?s1)"
    by (simp add: kmalloc_def kmalloc_init_def zero_heap_def nunits_of_def kmalloc_search.simps Let_def)
  moreover have "kmalloc 8 ?s1 = Some (0xFFFFE8, ?s2)"
    by (simp add: kmalloc_def kmalloc_init_def zero_heap_def nunits_of_def kmalloc_search.simps Let_def)
  moreover have "\<not> takes_last 8 ?s1" by (simp add: takes_last_def nunits_of_def zero_heap_def)
  ultimately show thesis using that by blast
qed

theorem kernel_run_disjoint_witness:
  "\<exists>s :: heap. kernel_run s {0xFFFFE8, 0xFFFFF8} False \<and>
     payload (mem s) 0xFFFFE8 \<inter> payload (mem s) 0xFFFFF8 = {}"
proof -
  obtain s1 s2 where k: "kmalloc 8 (kmalloc_init zero_heap) = Some (0xFFFFF8, s1)"
    "kmalloc 8 s1 = Some (0xFFFFE8, s2)" "\<not> takes_last 8 s1" by (rule kmalloc_two)
  have "kernel_run (kmalloc_init zero_heap) {} False" by (rule kernel_run.boot) (simp add: zero_heap_def)
  moreover have "\<not> takes_last 8 (kmalloc_init zero_heap)"
    by (simp add: takes_last_def kmalloc_init_def zero_heap_def nunits_of_def)
  ultimately have "kernel_run s1 {0xFFFFF8} False" using kernel_run.alloc [OF _ k(1)] by fastforce
  then have "kernel_run s2 {0xFFFFE8, 0xFFFFF8} False" using kernel_run.alloc [OF _ k(2)] k(3) by fastforce
  with kernel_run_disjoint [OF this, of "0xFFFFE8"] show ?thesis by auto
qed

end
