(* ===== verification/Console.thy ===== *)
theory Console
  imports Kprintf Kmalloc
begin

text \<open>
  The text console: \<open>drivers/video.c\<close> and \<open>kprintf\<close> of \<open>src/kernel/kprintf.c\<close>. The screen
  is the 80 by 25 cells of the video memory at \<open>0xB8000\<close>, a character and an attribute byte each;
  the state keeps the cursor, \<open>cursor_x\<close> and \<open>cursor_y\<close>, which row 25 below the screen
  is a legal position of. The hardware cursor is programmed through the ports.
\<close>

section \<open>video.c\<close>

abbreviation VIDEO_MEM :: addr where "VIDEO_MEM \<equiv> 0xB8000"
abbreviation TEXTMODE_COL :: int where "TEXTMODE_COL \<equiv> 80"
abbreviation TEXTMODE_ROW :: int where "TEXTMODE_ROW \<equiv> 25"
abbreviation BLACK :: byte where "BLACK \<equiv> 0x00"
abbreviation WHITE :: byte where "WHITE \<equiv> 0x0F"
abbreviation VID_INDEX_PORT :: uint where "VID_INDEX_PORT \<equiv> 0x3D4"
abbreviation VID_DATA_PORT :: uint where "VID_DATA_PORT \<equiv> 0x3D5"

record console = heap +
  cursor_x :: int
  cursor_y :: int

definition set_cursor_position :: "int \<Rightarrow> int \<Rightarrow> 'a console_scheme \<Rightarrow> 'a console_scheme" where
  "set_cursor_position x y s =
     (let cx = (if x = TEXTMODE_COL then 0 else if x < 0 then 0 else x);
          y1 = (if x = TEXTMODE_COL then y + 1 else y);
          cy = (if y1 < 0 \<or> y1 > TEXTMODE_ROW then 0 else y1);
          cursor_pos = (word_of_int (cy * TEXTMODE_COL + cx) :: uint);
          s1 = s\<lparr>cursor_x := cx, cursor_y := cy\<rparr>;
          s2 = outportb VID_INDEX_PORT 14 s1;
          s3 = outportb VID_DATA_PORT (drop_bit 8 cursor_pos AND 0xFF) s2;
          s4 = outportb VID_INDEX_PORT 15 s3;
          s5 = outportb VID_DATA_PORT (cursor_pos AND 0xFF) s4
      in s5\<lparr>mem := (mem s5)(VIDEO_MEM + 2 * cursor_pos + 1 := WHITE)\<rparr>)"

definition vid :: "nat \<Rightarrow> addr" where
  "vid k = VIDEO_MEM + of_nat k"

text \<open>The loops of \<open>kscroll_display\<close> and \<open>kclear_screen\<close>; the first copies byte 4000 too, one past
  the screen.\<close>

definition scroll_copy :: "memory \<Rightarrow> memory" where
  "scroll_copy m = fold (\<lambda>i m. m(vid i := m (vid (i + 160)))) [0..<3841] m"

definition blank_cells :: "nat \<Rightarrow> nat \<Rightarrow> memory \<Rightarrow> memory" where
  "blank_cells k n m =
     fold (\<lambda>i m. m(vid (k + 2 * i) := ch CHR '' '', vid (k + 2 * i + 1) := BLACK)) [0..<n] m"

definition kscroll_display :: "'a console_scheme \<Rightarrow> 'a console_scheme" where
  "kscroll_display s =
     set_cursor_position 0 (cursor_y s - 1) (s\<lparr>mem := blank_cells 3840 80 (scroll_copy (mem s))\<rparr>)"

definition kclear_screen :: "'a console_scheme \<Rightarrow> 'a console_scheme" where
  "kclear_screen s = s\<lparr>mem := blank_cells 0 2000 (mem s), cursor_x := 10, cursor_y := 0\<rparr>"

section \<open>kprintf\<close>

definition newline :: "'a console_scheme \<Rightarrow> uint \<times> 'a console_scheme" where
  "newline s =
     (let s1 = (if cursor_y s = TEXTMODE_ROW then kscroll_display s
                else set_cursor_position 0 (cursor_y s + 1) s)
      in (word_of_int (cursor_y s1 * TEXTMODE_COL * 2), s1))"

definition put_cell :: "byte \<Rightarrow> uint \<Rightarrow> 'a console_scheme \<Rightarrow> uint \<times> 'a console_scheme" where
  "put_cell c i s =
     (let (i1, s1) = (if i = 4000 then (3840, kscroll_display s) else (i, s));
          s2 = s1\<lparr>mem := (mem s1)(VIDEO_MEM + i1 := c, VIDEO_MEM + i1 + 1 := WHITE)\<rparr>
      in (i1 + 2, set_cursor_position (cursor_x s2 + 1) (cursor_y s2) s2))"

text \<open>
  The output loop. Its inner loop on newlines returns at the end of the buffer and
  otherwise goes on with the next character, so it is one case of the loop on characters.
\<close>

partial_function (option) kprintf_loop :: "addr \<Rightarrow> uint \<Rightarrow> 'a console_scheme \<Rightarrow> 'a console_scheme option" where
  "kprintf_loop p i s =
     (let c = mem s p in
      if c = 0 then Some s
      else if c = 10 then (case newline s of (i', s') \<Rightarrow> kprintf_loop (p + 1) i' s')
      else (case put_cell c i s of (i', s') \<Rightarrow> kprintf_loop (p + 1) i' s'))"

text \<open>\<open>buffer\<close> is the address of the local array, \<open>args\<close> that of the stacked arguments.\<close>

definition kprintf :: "addr \<Rightarrow> addr \<Rightarrow> addr \<Rightarrow> 'a console_scheme \<Rightarrow> (uint \<times> 'a console_scheme) option" where
  "kprintf buffer fmt args s =
     (let i = word_of_int ((cursor_y s * TEXTMODE_COL + cursor_x s) * 2) in do {
        (ret, m) \<leftarrow> vsnprintf buffer 100 fmt args (mem s);
        s' \<leftarrow> kprintf_loop buffer i (s\<lparr>mem := m\<rparr>);
        Some (ret, s') })"

section \<open>Addresses of cells\<close>

lemma vid_inj: "j < 65536 \<Longrightarrow> k < 65536 \<Longrightarrow> vid j = vid k \<longleftrightarrow> j = k"
  by (simp add: vid_def of_nat_inj_small)

lemma vid_add: "vid k + of_nat n = vid (k + n)"
  by (simp add: vid_def add.assoc)

definition copy_upto :: "nat \<Rightarrow> memory \<Rightarrow> memory" where
  "copy_upto n m = fold (\<lambda>i m. m(vid i := m (vid (i + 160)))) [0..<n] m"

lemma copy_upto_simps:
  "copy_upto 0 m = m"
  "copy_upto (Suc n) m = (copy_upto n m)(vid n := copy_upto n m (vid (n + 160)))"
  by (simp_all add: copy_upto_def del: fun_upd_apply)

lemma copy_upto_at:
  "n \<le> 3841 \<Longrightarrow> copy_upto n m a = (if \<exists>i < n. a = vid i then m (a + 160) else m a)"
proof (induction n arbitrary: a)
  case (Suc n)
  have ih: "copy_upto n m a = (if \<exists>i < n. a = vid i then m (a + 160) else m a)" for a
    using Suc by simp
  have "vid (n + 160) \<noteq> vid i" if "i < n" for i using that Suc.prems by (subst vid_inj) auto
  then have "copy_upto n m (vid (n + 160)) = m (vid (n + 160))"
    using ih [of "vid (n + 160)"] by auto
  moreover have "vid n + 160 = vid (n + 160)" using vid_add [of n 160] by simp
  ultimately show ?case using ih [of a] by (auto simp: copy_upto_simps less_Suc_eq)
qed (simp add: copy_upto_simps)

lemma scroll_copy_at:
  "k < 3841 \<Longrightarrow> scroll_copy m (vid k) = m (vid (k + 160))"
  "(\<And>k. k < 3841 \<Longrightarrow> a \<noteq> vid k) \<Longrightarrow> scroll_copy m a = m a"
  unfolding scroll_copy_def copy_upto_def [symmetric] using vid_add [of k 160]
  by (subst copy_upto_at; auto)+

lemma blank_cells_at:
  assumes "k + 2 * n \<le> 65536"
  shows "blank_cells k n m a =
    (if \<exists>i < n. a = vid (k + 2 * i) then ch CHR '' ''
     else if \<exists>i < n. a = vid (k + 2 * i + 1) then BLACK else m a)"
  using assms
proof (induction n arbitrary: a)
  case 0
  then show ?case by (simp add: blank_cells_def)
next
  case (Suc n)
  let ?f = "blank_cells k n m"
  have step: "blank_cells k (Suc n) m =
      ?f(vid (k + 2 * n) := ch CHR '' '', vid (k + 2 * n + 1) := BLACK)"
    by (simp add: blank_cells_def)
  have d: "vid (k + 2 * i) \<noteq> vid (k + 2 * j + 1)" if "i \<le> n" "j \<le> n" for i j
  proof -
    have "k + 2 * i \<noteq> k + 2 * j + 1" by arith
    then show ?thesis using that Suc.prems by (subst vid_inj) auto
  qed
  have "?f a = (if \<exists>i < n. a = vid (k + 2 * i) then ch CHR '' ''
     else if \<exists>i < n. a = vid (k + 2 * i + 1) then BLACK else m a)" using Suc by simp
  with step show ?case using d [of n] d [of _ n] by (auto simp: less_Suc_eq)
qed

section \<open>The cursor\<close>

text \<open>
  \<open>cursor_ok\<close>: the cursor is on the screen, or at the start of the line below it. \<open>cell s\<close> is the
  offset of its cell in the video memory, which is what \<open>kprintf\<close> keeps in \<open>i\<close>.
\<close>

definition cursor_ok :: "'a console_scheme \<Rightarrow> bool" where
  "cursor_ok s \<longleftrightarrow> 0 \<le> cursor_x s \<and> cursor_x s < 80 \<and> 0 \<le> cursor_y s \<and>
     (cursor_y s < 25 \<or> cursor_y s = 25 \<and> cursor_x s = 0)"

definition cell :: "'a console_scheme \<Rightarrow> nat" where
  "cell s = 2 * (80 * nat (cursor_y s) + nat (cursor_x s))"

lemma cell_word: "cursor_ok s \<Longrightarrow> word_of_int ((cursor_y s * 80 + cursor_x s) * 2) = (of_nat (cell s) :: uint)"
proof -
  assume "cursor_ok s"
  then have "(cursor_y s * 80 + cursor_x s) * 2 = int (cell s)" by (auto simp: cursor_ok_def cell_def)
  then show ?thesis by (simp only: of_int_of_nat_eq)
qed

lemma cell_bound: "cursor_ok s \<Longrightarrow> cell s \<le> 4000 \<and> even (cell s) \<and> (cell s = 4000 \<longleftrightarrow> cursor_y s = 25)"
  by (auto simp: cursor_ok_def cell_def)

lemma set_cursor_at:
  assumes "0 \<le> x" "x \<le> 80" "0 \<le> y" "y \<le> 25" "y = 25 \<longrightarrow> x = 0"
  shows "cursor_ok (set_cursor_position x y s)"
    and "cell (set_cursor_position x y s) = 2 * (80 * nat y + nat x)"
    and "mem (set_cursor_position x y s) = (mem s)(vid (2 * (80 * nat y + nat x) + 1) := WHITE)"
proof -
  show "cursor_ok (set_cursor_position x y s)"
    and "cell (set_cursor_position x y s) = 2 * (80 * nat y + nat x)"
    using assms by (auto simp: set_cursor_position_def Let_def cursor_ok_def cell_def outportb_def)
  have "(if y + of_bool (x = 80) < 0 \<or> y + of_bool (x = 80) > 25 then 0 else y + of_bool (x = 80)) * 80
      + (if x = 80 then 0 else if x < 0 then 0 else x) = int (80 * nat y + nat x)"
    using assms by auto
  then have "mem (set_cursor_position x y s) =
      (mem s)(VIDEO_MEM + 2 * word_of_int (int (80 * nat y + nat x)) + 1 := WHITE)"
    by (simp add: set_cursor_position_def Let_def outportb_def of_bool_def split: if_splits)
  then show "mem (set_cursor_position x y s) = (mem s)(vid (2 * (80 * nat y + nat x) + 1) := WHITE)"
    by (simp add: vid_def add.assoc)
qed

text \<open>The bytes the console writes: the cells, and the cell of the position below the screen.\<close>

definition screen :: "addr set" where
  "screen = vid ` {..<4002}"

lemma screenI: "k < 4002 \<Longrightarrow> vid k \<in> screen"
  by (simp add: screen_def)

lemma set_cursor_frame:
  assumes "0 \<le> x" "x \<le> 80" "0 \<le> y" "y \<le> 25" "y = 25 \<longrightarrow> x = 0" "a \<notin> screen"
  shows "mem (set_cursor_position x y s) a = mem s a"
proof -
  have "2 * (80 * nat y + nat x) + 1 < 4002" using assms(1-5) by (cases "y = 25") auto
  from screenI [OF this] assms(6) show ?thesis by (auto simp: set_cursor_at(3) [OF assms(1-5)])
qed

lemma scroll_mem_at:
  fixes m :: memory
  defines "m' \<equiv> blank_cells 3840 80 (scroll_copy m)"
  shows "k < 3840 \<Longrightarrow> m' (vid k) = m (vid (k + 160))"
    and "3840 \<le> k \<Longrightarrow> k < 4000 \<Longrightarrow> m' (vid k) = (if even k then ch CHR '' '' else BLACK)"
    and "a \<notin> screen \<Longrightarrow> m' a = m a"
proof -
  have b: "m' a = (if \<exists>i < 80. a = vid (3840 + 2 * i) then ch CHR '' ''
      else if \<exists>i < 80. a = vid (3840 + 2 * i + 1) then BLACK else scroll_copy m a)" for a
    unfolding m'_def by (rule blank_cells_at) simp
  show "m' (vid k) = m (vid (k + 160))" if "k < 3840"
    using that scroll_copy_at(1) [of k m] by (auto simp: b vid_inj)
  show "m' (vid k) = (if even k then ch CHR '' '' else BLACK)" if "3840 \<le> k" "k < 4000"
  proof (cases "even k")
    case True
    then have "k = 3840 + 2 * ((k - 3840) div 2)" "(k - 3840) div 2 < 80" using that True by auto
    with True show ?thesis by (auto simp: b)
  next
    case False
    define i where "i = (k - 3840) div 2"
    have i: "k = 3840 + 2 * i + 1" "i < 80" using False that unfolding i_def by (auto elim!: oddE)
    moreover have "vid k \<noteq> vid (3840 + 2 * j)" if "j < 80" for j
    proof -
      have "k \<noteq> 3840 + 2 * j" using False by auto
      then show ?thesis using that \<open>k < 4000\<close> by (subst vid_inj) auto
    qed
    ultimately show ?thesis using False i by (auto simp: b)
  qed
  show "m' a = m a" if "a \<notin> screen"
  proof -
    have n: "a \<noteq> vid k" if "k < 4002" for k using that \<open>a \<notin> screen\<close> screenI by blast
    then have "scroll_copy m a = m a" by (intro scroll_copy_at(2)) simp
    moreover have "\<not> (\<exists>i < 80. a = vid (3840 + 2 * i))" "\<not> (\<exists>i < 80. a = vid (3840 + 2 * i + 1))"
      using n [of "3840 + 2 * i" for i] n [of "3840 + 2 * i + 1" for i] by auto
    ultimately show ?thesis by (simp only: b if_False)
  qed
qed

section \<open>Scrolling and writing\<close>

lemma kscroll_at:
  assumes "cursor_y s = 25"
  shows "cursor_ok (kscroll_display s)" "cell (kscroll_display s) = 3840"
    "a \<notin> screen \<Longrightarrow> mem (kscroll_display s) a = mem s a"
    "mem (kscroll_display s) = (blank_cells 3840 80 (scroll_copy (mem s)))(vid 3841 := WHITE)"
proof -
  let ?s = "s\<lparr>mem := blank_cells 3840 80 (scroll_copy (mem s))\<rparr>"
  have k: "kscroll_display s = set_cursor_position 0 24 ?s"
    using assms by (simp add: kscroll_display_def)
  show "cursor_ok (kscroll_display s)" "cell (kscroll_display s) = 3840"
    "mem (kscroll_display s) = (blank_cells 3840 80 (scroll_copy (mem s)))(vid 3841 := WHITE)"
    unfolding k by (simp_all add: set_cursor_at)
  show "mem (kscroll_display s) a = mem s a" if "a \<notin> screen"
    unfolding k using that scroll_mem_at(3) [of a "mem s"] by (simp add: set_cursor_frame)
qed

lemma newline_ok:
  assumes "cursor_ok s"
  shows "cursor_ok (snd (newline s))" "fst (newline s) = of_nat (cell (snd (newline s)))"
    "a \<notin> screen \<Longrightarrow> mem (snd (newline s)) a = mem s a"
    "cell (snd (newline s)) = (if cursor_y s = 25 then 3840 else 160 * (nat (cursor_y s) + 1))"
proof -
  let ?s1 = "snd (newline s)"
  have y: "0 \<le> cursor_y s" "cursor_y s \<le> 25" using assms by (auto simp: cursor_ok_def)
  have s1: "?s1 = (if cursor_y s = 25 then kscroll_display s else set_cursor_position 0 (cursor_y s + 1) s)"
    by (simp add: newline_def Let_def)
  show ok: "cursor_ok ?s1" and "a \<notin> screen \<Longrightarrow> mem ?s1 a = mem s a"
    and cl: "cell ?s1 = (if cursor_y s = 25 then 3840 else 160 * (nat (cursor_y s) + 1))"
    using y unfolding s1
    by (cases "cursor_y s = 25",
        simp_all add: kscroll_at(1,2,3) set_cursor_at(1,2) set_cursor_frame nat_add_distrib)+
  have "cell ?s1 = 160 * nat (cursor_y ?s1) + 2 * nat (cursor_x ?s1)" by (simp add: cell_def)
  moreover have "cursor_x ?s1 = 0"
    unfolding s1 by (simp add: kscroll_display_def set_cursor_position_def Let_def outportb_def)
  ultimately have "cursor_y ?s1 * 80 * 2 = int (cell ?s1)" using ok by (simp add: cursor_ok_def)
  moreover have "fst (newline s) = word_of_int (cursor_y ?s1 * 80 * 2)"
    by (simp only: newline_def Let_def fst_conv snd_conv)
  ultimately show "fst (newline s) = of_nat (cell ?s1)" by (simp only: of_int_of_nat_eq)
qed

text \<open>Writing a character where the cursor is, after scrolling when that is below the screen.\<close>

lemma put_cell_ok:
  fixes s :: "'a console_scheme" and c :: byte
  assumes ok: "cursor_ok s"
  defines "s1 \<equiv> (if cursor_y s = 25 then kscroll_display s else s)"
  defines "r \<equiv> put_cell c (of_nat (cell s)) s"
  shows "cursor_ok (snd r)" "fst r = of_nat (cell (snd r))" "cell (snd r) = cell s1 + 2"
    "mem (snd r) = (mem s1)(vid (cell s1) := c, vid (cell s1 + 1) := WHITE, vid (cell s1 + 3) := WHITE)"
    "cursor_ok s1" "cell s1 < 4000" "a \<notin> screen \<Longrightarrow> mem (snd r) a = mem s a"
proof -
  have b: "cell s \<le> 4000" "cell s = 4000 \<longleftrightarrow> cursor_y s = 25" using cell_bound [OF ok] by auto
  show ok1: "cursor_ok s1" using ok kscroll_at by (auto simp: s1_def)
  have c4: "(of_nat (cell s) :: uint) = 4000 \<longleftrightarrow> cursor_y s = 25"
    using of_nat_inj_small [of "cell s" 4000] b by simp
  have y1: "cursor_y s1 < 25"
    using ok kscroll_at(1,2) [of s] cell_bound [of "kscroll_display s"]
    by (auto simp: s1_def cursor_ok_def)
  then show lt: "cell s1 < 4000" using cell_bound [OF ok1] by auto
  have i1: "(if (of_nat (cell s) :: uint) = 4000 then (3840, kscroll_display s) else (of_nat (cell s), s)) =
      (of_nat (cell s1), s1)"
    using c4 kscroll_at(2) [of s] by (auto simp: s1_def)
  let ?s2 = "s1\<lparr>mem := (mem s1)(VIDEO_MEM + of_nat (cell s1) := c, VIDEO_MEM + of_nat (cell s1) + 1 := WHITE)\<rparr>"
  have r: "r = (of_nat (cell s1) + 2, set_cursor_position (cursor_x s1 + 1) (cursor_y s1) ?s2)"
    unfolding r_def put_cell_def i1 by (simp add: Let_def)
  have x: "0 \<le> cursor_x s1 + 1" "cursor_x s1 + 1 \<le> 80" "0 \<le> cursor_y s1" "cursor_y s1 \<le> 25"
    "cursor_y s1 = 25 \<longrightarrow> cursor_x s1 + 1 = 0"
    using ok1 y1 by (auto simp: cursor_ok_def)
  note sc = set_cursor_at [OF x, of ?s2]
  show "cursor_ok (snd r)" using sc(1) r by simp
  have pos: "2 * (80 * nat (cursor_y s1) + nat (cursor_x s1 + 1)) = cell s1 + 2"
    using ok1 by (auto simp: cell_def cursor_ok_def)
  then show cl: "cell (snd r) = cell s1 + 2" using sc(2) r by simp
  then show "fst r = of_nat (cell (snd r))" using r by simp
  have "vid (cell s1 + 1) = VIDEO_MEM + of_nat (cell s1) + 1" by (simp add: vid_def add.assoc)
  then show m: "mem (snd r) = (mem s1)(vid (cell s1) := c, vid (cell s1 + 1) := WHITE, vid (cell s1 + 3) := WHITE)"
    using sc(3) r unfolding pos by (simp add: vid_def add.assoc)
  show "mem (snd r) a = mem s a" if "a \<notin> screen"
  proof -
    have "cell s1 + 3 < 4002" using lt cell_bound [OF ok1] by (auto elim!: evenE)
    then have "a \<noteq> vid (cell s1)" "a \<noteq> vid (cell s1 + 1)" "a \<noteq> vid (cell s1 + 3)"
      using that screenI by auto
    moreover have "mem s1 a = mem s a" using that kscroll_at(3) [of s a] by (auto simp: s1_def)
    ultimately show ?thesis by (simp add: m)
  qed
qed

section \<open>Printing a text\<close>

primrec kputs :: "byte list \<Rightarrow> 'a console_scheme \<Rightarrow> 'a console_scheme" where
  "kputs [] s = s"
| "kputs (c # cs) s =
     kputs cs (if c = 10 then snd (newline s) else snd (put_cell c (of_nat (cell s)) s))"

definition kput1 :: "byte \<Rightarrow> 'a console_scheme \<Rightarrow> 'a console_scheme" where
  "kput1 c s = (if c = 10 then snd (newline s) else snd (put_cell c (of_nat (cell s)) s))"

lemma kput1_ok:
  "cursor_ok s \<Longrightarrow> cursor_ok (kput1 c s)"
  "cursor_ok s \<Longrightarrow> a \<notin> screen \<Longrightarrow> mem (kput1 c s) a = mem s a"
  by (simp_all add: kput1_def newline_ok(1,3) put_cell_ok(1,7))

lemma kputs_ok:
  "cursor_ok s \<Longrightarrow> cursor_ok (kputs cs s)"
  "cursor_ok s \<Longrightarrow> a \<notin> screen \<Longrightarrow> mem (kputs cs s) a = mem s a"
  by (induction cs arbitrary: s) (simp_all add: kput1_def [symmetric] kput1_ok)

lemma kprintf_loop_kputs:
  "cursor_ok s \<Longrightarrow> cstr (mem s) p cs \<Longrightarrow> region p (Suc (length cs)) \<inter> screen = {} \<Longrightarrow>
   kprintf_loop p (of_nat (cell s)) s = Some (kputs cs s)"
proof (induction cs arbitrary: p s)
  case Nil
  then show ?case by (subst kprintf_loop.simps) simp
next
  case (Cons c cs)
  let ?s = "kput1 c s"
  have c: "mem s p = c" "c \<noteq> 0" using Cons.prems(2) by auto
  have ok: "cursor_ok ?s" using Cons.prems(1) by (rule kput1_ok)
  have d: "region (p + 1) (Suc (length cs)) \<inter> screen = {}" using Cons.prems(3) by auto
  have "cstr (mem ?s) (p + 1) cs = cstr (mem s) (p + 1) cs"
    using d kput1_ok(2) [OF Cons.prems(1)] by (intro cstr_cong) blast
  then have "cstr (mem ?s) (p + 1) cs" using Cons.prems(2) by simp
  from Cons.IH [OF ok this d] have "kprintf_loop (p + 1) (of_nat (cell ?s)) ?s = Some (kputs (c # cs) s)"
    by (simp add: kput1_def)
  moreover have "kprintf_loop p (of_nat (cell s)) s = kprintf_loop (p + 1) (of_nat (cell ?s)) ?s"
    using c newline_ok(2) [OF Cons.prems(1)] put_cell_ok(2) [OF Cons.prems(1), of c]
    by (subst kprintf_loop.simps) (auto simp: kput1_def split: prod.splits)
  ultimately show ?case by simp
qed

text \<open>A text without newlines that fits below the cursor is written cell by cell, wrapping at line ends.\<close>

lemma kputs_cells:
  "cursor_ok s \<Longrightarrow> 10 \<notin> set cs \<Longrightarrow> cell s + 2 * length cs \<le> 4000 \<Longrightarrow>
   cell (kputs cs s) = cell s + 2 * length cs \<and>
   (\<forall>k < length cs. mem (kputs cs s) (vid (cell s + 2 * k)) = cs ! k) \<and>
   (\<forall>j < 2000. 2 * j < cell s \<or> cell s + 2 * length cs \<le> 2 * j \<longrightarrow>
      mem (kputs cs s) (vid (2 * j)) = mem s (vid (2 * j)))"
proof (induction cs arbitrary: s)
  case (Cons c cs)
  let ?s = "snd (put_cell c (of_nat (cell s)) s)"
  have lt: "cell s < 4000" and y: "cursor_y s \<noteq> 25" and ev: "even (cell s)"
    using Cons.prems cell_bound [of s] by auto
  have cl: "cell ?s = cell s + 2" and ok: "cursor_ok ?s"
    and m: "mem ?s = (mem s)(vid (cell s) := c, vid (cell s + 1) := WHITE, vid (cell s + 3) := WHITE)"
    using put_cell_ok(1,3,4) [OF Cons.prems(1), of c] y by simp_all
  have even_at: "mem ?s (vid (2 * j)) = (if 2 * j = cell s then c else mem s (vid (2 * j)))" if "j < 2000" for j
  proof -
    have "2 * j \<noteq> cell s + 1" "2 * j \<noteq> cell s + 3" using ev dvd_triv_left [of 2 j]
      by (auto simp del: dvd_triv_left dest!: arg_cong [of "2 * j" _ even])
    then show ?thesis using that lt by (simp add: m vid_inj)
  qed
  have ih: "cell (kputs cs ?s) = cell ?s + 2 * length cs"
    "\<And>k. k < length cs \<Longrightarrow> mem (kputs cs ?s) (vid (cell ?s + 2 * k)) = cs ! k"
    "\<And>j. j < 2000 \<Longrightarrow> 2 * j < cell ?s \<or> cell ?s + 2 * length cs \<le> 2 * j \<Longrightarrow>
      mem (kputs cs ?s) (vid (2 * j)) = mem ?s (vid (2 * j))"
    using Cons.IH [OF ok] Cons.prems cl by auto
  have run: "kputs (c # cs) s = kputs cs ?s" using Cons.prems(2) by simp
  have "mem (kputs cs ?s) (vid (cell s)) = c"
    using ih(3) [of "cell s div 2"] even_at [of "cell s div 2"] ev lt cl by simp
  then have "mem (kputs cs ?s) (vid (cell s + 2 * k)) = (c # cs) ! k" if "k < length (c # cs)" for k
    using that ih(2) [of "k - 1"] cl by (cases k) (auto simp: add.assoc)
  moreover have "mem (kputs cs ?s) (vid (2 * j)) = mem s (vid (2 * j))"
    if "j < 2000" "2 * j < cell s \<or> cell s + 2 * length (c # cs) \<le> 2 * j" for j
    using that ih(3) [of j] even_at [of j] cl by auto
  ultimately show ?case using ih(1) cl unfolding run by simp
qed simp

section \<open>What is printed contains no NUL\<close>

lemma field_no_zero: "0 \<notin> set body \<Longrightarrow> 0 \<notin> set (field l z wd neg body)"
  by (auto simp: field_def Let_def)

lemma render_no_zero:
  assumes "render i v = Some out" "\<And>t. v = Str t \<Longrightarrow> 0 \<notin> set t"
  shows "0 \<notin> set out"
proof (cases i)
  case (Dir l z w ms c)
  have r: "2 \<le> conv_radix c" "conv_radix c \<le> 16" by (auto simp: conv_radix_def)
  show ?thesis
  proof (cases v)
    case (Num n)
    with assms(1) Dir show ?thesis
      using numeral_of_value [OF r] by (auto simp: Let_def intro!: field_no_zero split: if_splits)
  next
    case (Str t)
    with assms Dir show ?thesis by (auto intro!: field_no_zero split: if_splits)
  qed
qed (use assms in auto)

lemma renders_no_zero:
  "renders its vs = Some out \<Longrightarrow> list_all wf_item its \<Longrightarrow> args_at m R a vs \<Longrightarrow> 0 \<notin> set out"
proof (induction its vs arbitrary: out a rule: renders.induct)
  case (5 l z w ms c its v vs)
  then obtain xs ys where o: "render (Dir l z w ms c) v = Some xs" "renders its vs = Some ys" "out = xs @ ys"
    by (auto split: bind_splits)
  have "0 \<notin> set xs" using 5(4) by (intro render_no_zero [OF o(1)]) (auto simp: cstr_bytes_at)
  with 5 o show ?case by auto
qed auto

section \<open>Properties\<close>

text \<open>
  C17 (functional). \<open>kprintf\<close> of a well-formed format prints what the format renders to: it returns
  the number of characters, the screen is what printing them one by one makes of it, the cursor stays
  legal, and outside the screen only the local buffer has changed. The buffer must hold the
  whole output; \<open>kprintf\<close> reserves 100 bytes for it and does not check.
\<close>

theorem kprintf_prints:
  assumes "cursor_ok s"
    and "cstr (mem s) fmt (format_text its)" "list_all wf_item its" "renders its vs = Some out"
    and "args_at (mem s) (region buffer (Suc (length out))) args vs"
    and "region fmt (Suc (length (format_text its))) \<inter> region buffer (Suc (length out)) = {}"
    and "region buffer (Suc (length out)) \<inter> screen = {}" "length out < 100"
  shows "\<exists>s'. kprintf buffer fmt args s = Some (of_nat (length out), s') \<and>
    s' = kputs out (s\<lparr>mem := st_bytes buffer (out @ [0]) (mem s)\<rparr>) \<and> cursor_ok s' \<and>
    (\<forall>a. a \<in> screen \<or> a \<in> region buffer (Suc (length out)) \<or> mem s' a = mem s a)"
proof -
  let ?m = "st_bytes buffer (out @ [0]) (mem s)"
  let ?s = "s\<lparr>mem := ?m\<rparr>"
  have "length out + 1 < 4294967296" using assms(8) by simp
  from vsnprintf_format [OF assms(2-6) this, of 100] obtain m' where
    v: "vsnprintf buffer 100 fmt args (mem s) = Some (of_nat (length out), m')"
    "bytes_at m' buffer (out @ [0])" "\<And>x. x \<in> region buffer (Suc (length out)) \<or> m' x = mem s x"
    by blast
  have at: "bytes_at ?m buffer (out @ [0])" using assms(8) by (intro bytes_at_st_bytes) simp
  have "m' x = ?m x" for x
  proof (cases "x \<in> region buffer (Suc (length out))")
    case True
    then obtain k where "k < length (out @ [0])" "x = buffer + of_nat k" by (auto simp: region_def)
    then show ?thesis using bytes_at_nth [OF v(2)] bytes_at_nth [OF at] by metis
  next
    case False
    then show ?thesis using v(3) [of x] st_bytes_outside [of x buffer "out @ [0]" "mem s"] by auto
  qed
  then have m': "m' = ?m" by blast
  have ok: "cursor_ok ?s" using assms(1) by (simp add: cursor_ok_def)
  have "cstr (mem ?s) buffer out"
    using at renders_no_zero [OF assms(4,3,5)] by (simp add: cstr_bytes_at)
  from kprintf_loop_kputs [OF ok this assms(7)]
  have "kprintf buffer fmt args s = Some (of_nat (length out), kputs out ?s)"
    using v(1) m' cell_word [OF ok] by (simp add: kprintf_def Let_def cell_def)
  moreover have "a \<in> screen \<or> a \<in> region buffer (Suc (length out)) \<or> mem (kputs out ?s) a = mem s a" for a
    using kputs_ok(2) [OF ok, of a out] st_bytes_outside [of a buffer "out @ [0]" "mem s"] by force
  ultimately show ?thesis using kputs_ok(1) [OF ok] by blast
qed

text \<open>
  Scrolling from the line below the screen moves every row up by one, blanks the
  last row but for the attribute of the cursor cell, puts the cursor at its start and
  changes nothing outside the screen.
\<close>

theorem kscroll_display_shifts:
  assumes "cursor_y s = 25"
  shows "(\<forall>k < 3840. mem (kscroll_display s) (vid k) = mem s (vid (k + 160))) \<and>
    (\<forall>j < 80. mem (kscroll_display s) (vid (3840 + 2 * j)) = ch CHR '' '' \<and>
       mem (kscroll_display s) (vid (3840 + 2 * j + 1)) = (if j = 0 then WHITE else BLACK)) \<and>
    cursor_x (kscroll_display s) = 0 \<and> cursor_y (kscroll_display s) = 24 \<and>
    (\<forall>a. a \<in> screen \<or> mem (kscroll_display s) a = mem s a)"
proof -
  let ?m = "blank_cells 3840 80 (scroll_copy (mem s))"
  have m: "mem (kscroll_display s) = ?m(vid 3841 := WHITE)" using assms by (rule kscroll_at)
  have "\<forall>k < 3840. mem (kscroll_display s) (vid k) = mem s (vid (k + 160))"
    by (simp add: m scroll_mem_at(1) vid_inj)
  moreover have "mem (kscroll_display s) (vid (3840 + 2 * j)) = ch CHR '' '' \<and>
      mem (kscroll_display s) (vid (3840 + 2 * j + 1)) = (if j = 0 then WHITE else BLACK)" if "j < 80" for j
  proof -
    have "3840 + 2 * j \<noteq> 3841" by simp
    then have "vid (3840 + 2 * j) \<noteq> vid 3841" using that by (subst vid_inj) auto
    moreover have "vid (3840 + 2 * j + 1) = vid 3841 \<longleftrightarrow> j = 0" using that by (subst vid_inj) auto
    ultimately show ?thesis
      using that scroll_mem_at(2) [of "3840 + 2 * j" "mem s"] scroll_mem_at(2) [of "3840 + 2 * j + 1" "mem s"]
      by (simp add: m)
  qed
  moreover have "cursor_x (kscroll_display s) = 0" "cursor_y (kscroll_display s) = 24"
    using assms by (simp_all add: kscroll_display_def set_cursor_position_def Let_def outportb_def)
  ultimately show ?thesis using kscroll_at(3) [OF assms] by blast
qed

text \<open>
  C18 (functional). A text without newlines that fits on the screen from the cursor on appears
  there character by character, over the line ends, every other character of the screen stays,
  and the cursor ends behind it.
\<close>

theorem kputs_shows_text:
  assumes "cursor_ok s" "10 \<notin> set cs" "cell s + 2 * length cs \<le> 4000"
  shows "cursor_ok (kputs cs s) \<and> cell (kputs cs s) = cell s + 2 * length cs \<and>
    (\<forall>j < 2000. mem (kputs cs s) (vid (2 * j)) =
       (if cell s \<le> 2 * j \<and> 2 * j < cell s + 2 * length cs then cs ! (j - cell s div 2)
        else mem s (vid (2 * j))))"
proof -
  note k = kputs_cells [OF assms]
  have ev: "cell s = 2 * (cell s div 2)" using cell_bound [OF assms(1)] by simp
  have "mem (kputs cs s) (vid (2 * j)) = cs ! (j - cell s div 2)"
    if "cell s \<le> 2 * j" "2 * j < cell s + 2 * length cs" for j
  proof -
    have "2 * j = cell s + 2 * (j - cell s div 2)" "j - cell s div 2 < length cs" using that ev by auto
    then show ?thesis using k by metis
  qed
  with k kputs_ok(1) [OF assms(1)] show ?thesis by (auto simp: not_le not_less)
qed

text \<open>The operations of the console, and the positions its callers ask for.\<close>

datatype console_op = Print "byte list" | Newline | Scroll | Clear | Move int int

fun console_step :: "console_op \<Rightarrow> 'a console_scheme \<Rightarrow> 'a console_scheme" where
  "console_step (Print bs) s = kputs bs s"
| "console_step Newline s = snd (newline s)"
| "console_step Scroll s = kscroll_display s"
| "console_step Clear s = kclear_screen s"
| "console_step (Move x y) s = set_cursor_position x y s"

fun on_screen :: "console_op \<Rightarrow> bool" where
  "on_screen (Move x y) \<longleftrightarrow> x \<le> 80 \<and> (y = 25 \<longrightarrow> x \<le> 0 \<or> x = 80)"
| "on_screen _ \<longleftrightarrow> True"

lemma set_cursor_legal:
  "cursor_ok (set_cursor_position x y s) \<longleftrightarrow> on_screen (Move x y)"
  "on_screen (Move x y) \<Longrightarrow> a \<notin> screen \<Longrightarrow> mem (set_cursor_position x y s) a = mem s a"
proof -
  define x' y' where "x' = (if x = 80 then 0 else max x 0)"
    and "y' = (let y1 = (if x = 80 then y + 1 else y) in if y1 < 0 \<or> y1 > 25 then 0 else y1)"
  have c: "cursor_x (set_cursor_position x y s) = x'" "cursor_y (set_cursor_position x y s) = y'"
    "mem (set_cursor_position x y s) = (mem s)(VIDEO_MEM + 2 * word_of_int (y' * 80 + x') + 1 := WHITE)"
    by (auto simp: set_cursor_position_def Let_def x'_def y'_def outportb_def)
  have y': "0 \<le> y'" "y' \<le> 25" by (auto simp: y'_def Let_def)
  show ok: "cursor_ok (set_cursor_position x y s) \<longleftrightarrow> on_screen (Move x y)"
    using y' unfolding cursor_ok_def c by (auto simp: x'_def y'_def Let_def split: if_splits)
  show "mem (set_cursor_position x y s) a = mem s a" if "on_screen (Move x y)" "a \<notin> screen"
  proof -
    have b: "0 \<le> x'" "x' < 80" "y' < 25 \<or> y' = 25 \<and> x' = 0" using ok that(1) unfolding cursor_ok_def c by auto
    define k where "k = 80 * nat y' + nat x'"
    have k: "y' * 80 + x' = int k" "2 * k + 1 < 4002" using b y' by (auto simp: k_def)
    have "VIDEO_MEM + 2 * word_of_int (y' * 80 + x') + 1 = vid (2 * k + 1)" unfolding k(1) by (simp add: vid_def add.assoc)
    then show ?thesis using screenI [OF k(2)] that(2) by (auto simp: c)
  qed
qed

lemma console_step_legal:
  assumes "cursor_ok s" "on_screen c"
  shows "cursor_ok (console_step c s) \<and> (\<forall>a. a \<notin> screen \<longrightarrow> mem (console_step c s) a = mem s a)"
proof (cases c)
  case Scroll
  let ?s = "s\<lparr>mem := blank_cells 3840 80 (scroll_copy (mem s))\<rparr>"
  have k: "kscroll_display s = set_cursor_position 0 (cursor_y s - 1) ?s" by (simp add: kscroll_display_def)
  have "on_screen (Move 0 (cursor_y s - 1))" by simp
  then show ?thesis using Scroll set_cursor_legal [where x = 0 and y = "cursor_y s - 1" and s = ?s] scroll_mem_at(3) by (simp add: k)
next
  case Clear
  have "blank_cells 0 2000 (mem s) a = mem s a" if "a \<notin> screen" for a
    using that screenI by (subst blank_cells_at) auto
  then show ?thesis using Clear by (simp add: kclear_screen_def cursor_ok_def)
next
  case (Move x y)
  then have "on_screen (Move x y)" using assms(2) by simp
  then show ?thesis using set_cursor_legal(1) [of x y s] set_cursor_legal(2) [of x y _ s] by (simp add: Move del: on_screen.simps)
qed (use kputs_ok [OF assms(1)] newline_ok(1,3) [OF assms(1)] in auto)

text \<open>
  C40: the state of the console is well-formed as long as the cursor is moved to legal places. After any sequence of texts printed, new
  lines, scrolls, clearings and moves of the cursor that \<open>on_screen\<close> allows, the cursor is on the screen or at the start of the row
  below it, and no byte of memory has changed outside the 4000 bytes of the screen and the two behind it, which the code
  also writes to. The moves allowed are exactly those after which the cursor is legal: not to a column above 80, and in the row
  below the screen only to its start.
\<close>

theorem console_wellformed:
  assumes "cursor_ok s" "list_all on_screen cs"
  shows "cursor_ok (fold console_step cs s) \<and> (\<forall>a. a \<notin> screen \<longrightarrow> mem (fold console_step cs s) a = mem s a) \<and>
    (\<forall>x y. cursor_ok (console_step (Move x y) s) \<longleftrightarrow> on_screen (Move x y))"
proof -
  have "cursor_ok (fold console_step cs s) \<and> (\<forall>a. a \<notin> screen \<longrightarrow> mem (fold console_step cs s) a = mem s a)"
    using assms
  proof (induction cs arbitrary: s)
    case (Cons c cs)
    then show ?case using console_step_legal [of s c] by (simp add: Cons.IH)
  qed simp
  then show ?thesis using set_cursor_legal(1) [of _ _ s] by simp
qed

text \<open>
  The output loop of \<open>kprintf\<close> returns on every NUL-terminated buffer outside the
  video memory, whatever newlines and however many scrolls it holds; it keeps the cursor legal and
  writes only to the screen.
\<close>

theorem kprintf_loop_returns:
  assumes "cursor_ok s" "cstr (mem s) p cs" "region p (Suc (length cs)) \<inter> screen = {}"
  shows "\<exists>s'. kprintf_loop p (of_nat (cell s)) s = Some s' \<and> cursor_ok s' \<and>
    (\<forall>a. a \<in> screen \<or> mem s' a = mem s a)"
  using kprintf_loop_kputs [OF assms] kputs_ok [OF assms(1)] by blast

section \<open>Witnesses\<close>

definition demo_console :: "memory \<Rightarrow> int \<Rightarrow> int \<Rightarrow> console" where
  "demo_console m x y = \<lparr>mem = m, io = [], heap_base = NULL, freep = NULL, cursor_x = x, cursor_y = y\<rparr>"

lemma screen_low: "(\<And>a. a \<in> A \<Longrightarrow> unat a < 0xB8000) \<Longrightarrow> A \<inter> screen = {}"
proof -
  assume A: "\<And>a. a \<in> A \<Longrightarrow> unat a < 0xB8000"
  have "0xB8000 \<le> unat a" if "a \<in> screen" for a
    using that unat_add_of_nat [of VIDEO_MEM] by (auto simp: screen_def vid_def)
  with A show ?thesis by fastforce
qed

theorem kscroll_display_shifts_witness:
  "mem (kscroll_display (demo_console (\<lambda>a. if a = vid 160 then 65 else 0) 0 25)) (vid 0) = 65"
  using kscroll_display_shifts [of "demo_console (\<lambda>a. if a = vid 160 then 65 else 0) 0 25"]
  by (simp add: demo_console_def)

theorem kputs_shows_text_witness:
  "mem (kputs (str ''ok'') (demo_console (\<lambda>_. 0) 79 3)) (vid (2 * 320)) = ch CHR ''k''"
proof -
  let ?s = "demo_console (\<lambda>_. 0) 79 3"
  have ok: "cursor_ok ?s" by (simp add: demo_console_def cursor_ok_def)
  have cl: "cell ?s = 638" by (simp add: demo_console_def cell_def)
  have "10 \<notin> set (str ''ok'')" "cell ?s + 2 * length (str ''ok'') \<le> 4000" by (simp_all add: cl)
  from kputs_shows_text [OF ok this]
  have "\<forall>j < 2000. mem (kputs (str ''ok'') ?s) (vid (2 * j)) =
      (if cell ?s \<le> 2 * j \<and> 2 * j < cell ?s + 2 * length (str ''ok'')
       then str ''ok'' ! (j - cell ?s div 2) else mem ?s (vid (2 * j)))" by blast
  from this [rule_format, of 320] have "mem (kputs (str ''ok'') ?s) (vid (2 * 320)) =
      (if cell ?s \<le> 2 * 320 \<and> 2 * 320 < cell ?s + 2 * length (str ''ok'')
       then str ''ok'' ! (320 - cell ?s div 2) else mem ?s (vid (2 * 320)))"
    by (simp del: kputs.simps str_simps)
  also have "\<dots> = ch CHR ''k''" by (simp add: cl)
  finally show ?thesis .
qed

theorem console_wellformed_witness:
  "cursor_ok (fold console_step [Clear, Print (str ''ab''), Move 80 24, Print (str ''c''), Move (- 1) 3] (demo_console (\<lambda>_. 0) 0 0))"
  using console_wellformed [of "demo_console (\<lambda>_. 0) 0 0" "[Clear, Print (str ''ab''), Move 80 24, Print (str ''c''), Move (- 1) 3]"]
  by (simp add: demo_console_def cursor_ok_def del: str_simps console_step.simps)

theorem kprintf_loop_returns_witness:
  "\<exists>s'. kprintf_loop 0x1000 4000 (demo_console (st_bytes 0x1000 (str ''ab'' @ [10, 0]) (\<lambda>_. 0)) 0 25) = Some s' \<and>
     cursor_ok s'"
proof -
  let ?s = "demo_console (st_bytes 0x1000 (str ''ab'' @ [10, 0]) (\<lambda>_. 0)) 0 25"
  have "cursor_ok ?s" "cell ?s = 4000" by (simp_all add: demo_console_def cursor_ok_def cell_def)
  moreover have "cstr (mem ?s) 0x1000 (str ''ab'' @ [10])" by (simp add: demo_console_def)
  moreover have "region 0x1000 (Suc (length (str ''ab'' @ [10]))) \<inter> screen = {}"
    by (rule screen_low) auto
  ultimately show ?thesis using kprintf_loop_returns [of ?s "0x1000" "str ''ab'' @ [10]"] by auto
qed

theorem kprintf_prints_witness:
  "\<exists>s'. kprintf 0x3000 0x1000 0x2000 (demo_console (demo_mem ''hi%%'' 0) 0 0) = Some (3, s') \<and>
     s' = kputs (str ''hi%'') (demo_console (st_bytes 0x3000 (str ''hi%'' @ [0]) (demo_mem ''hi%%'' 0)) 0 0)"
proof -
  let ?its = "[Lit (ch CHR ''h''), Lit (ch CHR ''i''), Percent]"
  let ?s = "demo_console (demo_mem ''hi%%'' 0) 0 0" and ?out = "str ''hi%''"
  have ok: "cursor_ok ?s" by (simp add: demo_console_def cursor_ok_def)
  have ft: "format_text ?its = str ''hi%%''" by (simp add: format_text_def)
  have c: "cstr (mem ?s) 0x1000 (format_text ?its)" 
    unfolding ft by (simp add: demo_console_def demo_mem_def st32_def)
  have wf: "list_all wf_item ?its" by simp
  have r: "renders ?its [] = Some ?out" by simp
  have a: "args_at (mem ?s) (region 0x3000 (Suc (length ?out))) 0x2000 []" by simp
  have d: "region 0x1000 (Suc (length (format_text ?its))) \<inter> region 0x3000 (Suc (length ?out)) = {}"
    unfolding ft by auto
  have sc: "region 0x3000 (Suc (length ?out)) \<inter> screen = {}" by (rule screen_low) auto
  have "length ?out < 100" by simp
  from kprintf_prints [OF ok c wf r a d sc this] show ?thesis by (auto simp: demo_console_def)
qed

end
