(* ===== verification/Sched.thy ===== *)
theory Sched
  imports Console
begin

text \<open>
  The scheduler, \<open>src/kernel/sched.c\<close>: the ring \<open>rrq\<close> of 128 task records between the indices
  \<open>front\<close> and \<open>end\<close> (here \<open>rrq_end\<close>), the clock, task creation on a stack from \<open>kmalloc\<close>, and the timer
  interrupt that moves the task at the front to the end. An access to \<open>rrq\<close>
  out of its bounds is undefined in C and \<open>None\<close> here. \<open>kprintf\<close> of a constant
  text is \<open>kputs\<close>, what it amounts to by \<open>kprintf_loop_kputs\<close>.
\<close>

section \<open>Data\<close>

record task_data =
  tname :: "byte list"
  tstack :: addr
  tss :: uint
  tkstack :: uint
  tustack :: uint
  ttime :: uint
  tpriority :: uint

abbreviation QUE_SIZE :: int where "QUE_SIZE \<equiv> 128"
abbreviation STACK_SIZE :: uint where "STACK_SIZE \<equiv> 256"
abbreviation KERNEL_CODE_SEG :: uint where "KERNEL_CODE_SEG \<equiv> 0x0008"
abbreviation KERNEL_STACK_SEG :: uint where "KERNEL_STACK_SEG \<equiv> 0x0010"
abbreviation DATA_SEG :: uint where "DATA_SEG \<equiv> 0x0010"

record sched = console +
  ticks :: uint
  sys_time :: uint
  total_ticks :: uint
  front :: int
  rrq_end :: int
  rrq :: "task_data list"

section \<open>The operations\<close>

definition clock :: "'a sched_scheme \<Rightarrow> 'a sched_scheme" where
  "clock s =
     (let s1 = s\<lparr>ticks := ticks s + 1, total_ticks := total_ticks s + 1\<rparr>
      in if ticks s1 \<ge> 100 then s1\<lparr>sys_time := sys_time s1 + 1, ticks := 0\<rparr> else s1)"

definition is_empty :: "'a sched_scheme \<Rightarrow> bool" where
  "is_empty s \<longleftrightarrow> rrq_end s = front s"

definition rrq_at :: "int \<Rightarrow> 'a sched_scheme \<Rightarrow> task_data option" where
  "rrq_at i s = (if 0 \<le> i \<and> i < QUE_SIZE then Some (rrq s ! nat i) else None)"

definition rrq_set :: "int \<Rightarrow> task_data \<Rightarrow> 'a sched_scheme \<Rightarrow> 'a sched_scheme option" where
  "rrq_set i t s = (if 0 \<le> i \<and> i < QUE_SIZE then Some (s\<lparr>rrq := (rrq s)[nat i := t]\<rparr>) else None)"

definition cur_task_time :: "'a sched_scheme \<Rightarrow> uint option" where
  "cur_task_time s = (if is_empty s then Some 0 else map_option ttime (rrq_at (front s) s))"

definition cur_task_pri :: "'a sched_scheme \<Rightarrow> uint option" where
  "cur_task_pri s = (if is_empty s then Some 0 else map_option tpriority (rrq_at (front s) s))"

definition wrap :: "int \<Rightarrow> int" where
  "wrap i = (if i \<ge> QUE_SIZE then 0 else i)"

definition front_to_end :: "'a sched_scheme \<Rightarrow> 'a sched_scheme option" where
  "front_to_end s =
     (if is_empty s then Some s
      else do {
        t \<leftarrow> rrq_at (front s) s;
        s1 \<leftarrow> rrq_set (rrq_end s) t s;
        let s2 = s1\<lparr>rrq_end := wrap (rrq_end s1 + 1)\<rparr>;
        Some (s2\<lparr>front := wrap (front s2 + 1)\<rparr>) })"

definition dec_cur_task_time :: "'a sched_scheme \<Rightarrow> 'a sched_scheme option" where
  "dec_cur_task_time s =
     (if is_empty s then Some s
      else do { t \<leftarrow> rrq_at (front s) s; rrq_set (front s) (t\<lparr>ttime := ttime t - 1\<rparr>) s })"

definition cur_task_time_equ :: "uint \<Rightarrow> 'a sched_scheme \<Rightarrow> 'a sched_scheme option" where
  "cur_task_time_equ time s =
     (if is_empty s then Some s
      else do { t \<leftarrow> rrq_at (front s) s; rrq_set (front s) (t\<lparr>ttime := time\<rparr>) s })"

definition get_pri_time :: "uint \<Rightarrow> uint" where
  "get_pri_time pri = (if pri = 0 then 100 else if pri = 1 then 10 else if pri = 2 then 5
     else if pri = 3 then 2 else if pri = 4 then 1 else 0)"

definition schedule :: "addr \<Rightarrow> 'a sched_scheme \<Rightarrow> (addr \<times> 'a sched_scheme) option" where
  "schedule regs s = do {
     let s1 = kputs (str ''schedule'') s;
     pri \<leftarrow> cur_task_pri s1;
     s2 \<leftarrow> cur_task_time_equ (get_pri_time pri) s1;
     s3 \<leftarrow> front_to_end s2;
     t \<leftarrow> rrq_at (front s3) s3;
     Some (tstack t, s3) }"

definition task_timer_c :: "addr \<Rightarrow> 'a sched_scheme \<Rightarrow> (addr \<times> 'a sched_scheme) option" where
  "task_timer_c regs s = schedule regs (outportb 0x20 0x20 (clock s))"

section \<open>Task creation\<close>

text \<open>The initial \<open>stack_data\<close> of a task, in the order of its fields from the lowest address.\<close>

definition stack_data :: "addr \<Rightarrow> addr \<Rightarrow> uint list" where
  "stack_data stack entry =
     [DATA_SEG, DATA_SEG, DATA_SEG, DATA_SEG,
      0, 0, stack, stack, 0, 0, 0, 0,
      entry, KERNEL_CODE_SEG, 0x00000202]"

text \<open>\<open>strncpy\<close> into the \<open>name\<close> array of a record.\<close>

fun name_bytes :: "nat \<Rightarrow> memory \<Rightarrow> addr \<Rightarrow> byte list" where
  "name_bytes 0 m a = []"
| "name_bytes (Suc n) m a = (if m a = 0 then [] else m a # name_bytes n m (a + 1))"

definition name_copy :: "nat \<Rightarrow> memory \<Rightarrow> addr \<Rightarrow> byte list \<Rightarrow> byte list" where
  "name_copy n m a old =
     (let bs = name_bytes n m a; new = bs @ (if length bs < n then [0] else [])
      in new @ drop (length new) old)"

definition make_task :: "uint \<Rightarrow> addr \<Rightarrow> addr \<Rightarrow> 'a sched_scheme \<Rightarrow> 'a sched_scheme option" where
  "make_task pri name entry s = do {
     (stack_mem, s1) \<leftarrow> kmalloc STACK_SIZE s;
     let stack = stack_mem + (STACK_SIZE - 60);
     let s2 = s1\<lparr>mem := st_words stack (stack_data stack entry) (mem s1)\<rparr>;
     old \<leftarrow> rrq_at (rrq_end s2) s2;
     s3 \<leftarrow> rrq_set (rrq_end s2)
       (old\<lparr>tname := name_copy 32 (mem s2) name (tname old), tstack := stack, tss := KERNEL_STACK_SEG,
          tpriority := pri, ttime := get_pri_time pri\<rparr>) s2;
     Some (s3\<lparr>rrq_end := rrq_end s3 + 1\<rparr>) }"

text \<open>\<open>start_sys\<close> up to its \<open>int $33\<close>, which does not come back.\<close>

definition start_sys :: "addr \<Rightarrow> addr \<Rightarrow> addr \<Rightarrow> addr \<Rightarrow> 'a sched_scheme \<Rightarrow> 'a sched_scheme option" where
  "start_sys name0 task0 name1 task1 s = do {
     let s0 = s\<lparr>front := 0, rrq_end := 0\<rparr>;
     s1 \<leftarrow> make_task 3 name0 task0 s0;
     make_task 3 name1 task1 s1 }"

section \<open>switch.asm\<close>

text \<open>The registers after the second half of \<open>task_timer\<close>, from \<open>mov esp, eax\<close> on: four segment registers are popped, then
  the general ones with \<open>popad\<close>, which drops the stored \<open>esp\<close>, and then \<open>ret\<close> takes the address to go on at. The interrupt flag that \<open>sti\<close> sets between is not part of this.\<close>

record task_regs =
  r_gs :: half
  r_fs :: half
  r_es :: half
  r_ds :: half
  r_edi :: uint
  r_esi :: uint
  r_ebp :: uint
  r_ebx :: uint
  r_edx :: uint
  r_ecx :: uint
  r_eax :: uint
  r_eip :: addr
  r_esp :: addr

definition resume :: "memory \<Rightarrow> addr \<Rightarrow> task_regs" where
  "resume m sp =
     \<lparr>r_gs = ucast (ld32 m sp), r_fs = ucast (ld32 m (sp + 4)), r_es = ucast (ld32 m (sp + 8)), r_ds = ucast (ld32 m (sp + 12)),
      r_edi = ld32 m (sp + 16), r_esi = ld32 m (sp + 20), r_ebp = ld32 m (sp + 24),
      r_ebx = ld32 m (sp + 32), r_edx = ld32 m (sp + 36), r_ecx = ld32 m (sp + 40), r_eax = ld32 m (sp + 44),
      r_eip = ld32 m (sp + 48), r_esp = sp + 52\<rparr>"

section \<open>The ring as a queue\<close>

definition sched_ok :: "'a sched_scheme \<Rightarrow> bool" where
  "sched_ok s \<longleftrightarrow> length (rrq s) = 128 \<and> 0 \<le> front s \<and> front s < 128 \<and> 0 \<le> rrq_end s \<and> rrq_end s < 128"

definition queue_len :: "'a sched_scheme \<Rightarrow> nat" where
  "queue_len s = nat ((rrq_end s - front s) mod 128)"

definition queue :: "'a sched_scheme \<Rightarrow> task_data list" where
  "queue s = map (\<lambda>k. rrq s ! ((nat (front s) + k) mod 128)) [0..<queue_len s]"

lemma queue_len_less: "queue_len s < 128"
  by (simp add: queue_len_def nat_less_iff)

lemma length_queue [simp]: "length (queue s) = queue_len s"
  by (simp add: queue_def)

lemma is_empty_queue: "sched_ok s \<Longrightarrow> is_empty s \<longleftrightarrow> queue s = []"
proof -
  assume ok: "sched_ok s"
  then have "(rrq_end s - front s) mod 128 = 0 \<longleftrightarrow> rrq_end s = front s"
    using dvd_imp_le_int [of "rrq_end s - front s" 128]
    by (cases "rrq_end s = front s") (auto simp: sched_ok_def mod_0_imp_dvd)
  moreover have "queue s = [] \<longleftrightarrow> queue_len s = 0" by (simp add: queue_def)
  moreover have "0 \<le> (rrq_end s - front s) mod 128" by simp
  ultimately show ?thesis by (auto simp: is_empty_def queue_len_def)
qed

lemma queue_cong:
  "rrq s' = rrq s \<Longrightarrow> front s' = front s \<Longrightarrow> rrq_end s' = rrq_end s \<Longrightarrow> queue s' = queue s"
  by (simp add: queue_def queue_len_def)

lemma ring_end:
  assumes "sched_ok s"
  shows "nat (rrq_end s) = (nat (front s) + queue_len s) mod 128"
proof -
  have "int ((nat (front s) + queue_len s) mod 128) = (front s + (rrq_end s - front s) mod 128) mod 128"
    using assms by (simp add: zmod_int queue_len_def sched_ok_def)
  also have "\<dots> = rrq_end s" using assms by (simp add: mod_simps sched_ok_def)
  finally show ?thesis by simp
qed

lemma mod_128_eq: "a < 128 \<Longrightarrow> b < 128 \<Longrightarrow> (f + a) mod 128 = (f + b) mod 128 \<Longrightarrow> a = (b :: nat)"
proof -
  assume a: "a < 128" "b < 128" and "(f + a) mod 128 = (f + b) mod 128"
  then have "(int (f + a)) mod 128 = int (f + b) mod 128" by (metis of_nat_numeral zmod_int)
  then have "128 dvd int a - int b" by (simp add: mod_eq_dvd_iff)
  with a dvd_imp_le_int [of "int a - int b" 128] show "a = b" by (cases "a = b") auto
qed

lemma wrap_mod: "0 \<le> i \<Longrightarrow> i \<le> 128 \<Longrightarrow> wrap i = i mod 128"
  by (auto simp: wrap_def)

lemma front_to_end_step:
  assumes ok: "sched_ok s" and ne: "queue s \<noteq> []"
  shows "front_to_end s = Some (s\<lparr>rrq := (rrq s)[nat (rrq_end s) := rrq s ! nat (front s)],
    rrq_end := (rrq_end s + 1) mod 128, front := (front s + 1) mod 128\<rparr>)"
  using assms is_empty_queue [OF ok]
  by (simp add: front_to_end_def rrq_at_def rrq_set_def sched_ok_def wrap_mod)

lemma front_to_end_rotates:
  assumes ok: "sched_ok s"
  shows "\<exists>s'. front_to_end s = Some s' \<and> sched_ok s' \<and> queue s' = rotate1 (queue s)"
proof (cases "queue s = []")
  case True
  then show ?thesis using ok is_empty_queue [OF ok] by (simp add: front_to_end_def)
next
  case False
  let ?F = "nat (front s)" and ?n = "queue_len s" and ?E = "nat (rrq_end s)"
  let ?s = "s\<lparr>rrq := (rrq s)[?E := rrq s ! ?F],
    rrq_end := (rrq_end s + 1) mod 128, front := (front s + 1) mod 128\<rparr>"
  have n: "?n < 128" "0 < ?n" using queue_len_less False by (auto simp: queue_def)
  have F: "?F < 128" "nat (front ?s) = (?F + 1) mod 128"
    using ok by (auto simp: sched_ok_def nat_mod_distrib nat_add_distrib)
  have ql: "queue_len ?s = ?n" by (simp add: queue_len_def mod_diff_eq)
  have E: "?E = (?F + ?n) mod 128" "?E < length (rrq s)" using ring_end [OF ok] ok by (auto simp: sched_ok_def)
  have "queue ?s ! k = rotate1 (queue s) ! k" if k: "k < ?n" for k
  proof -
    have idx: "(nat (front ?s) + k) mod 128 = (?F + (k + 1)) mod 128" using F(2) by (simp add: mod_simps)
    have l: "queue ?s ! k = (rrq s)[?E := rrq s ! ?F] ! ((?F + (k + 1)) mod 128)"
      using k ql idx by (simp add: queue_def)
    have r: "rotate1 (queue s) ! k = rrq s ! ((?F + (Suc k mod ?n)) mod 128)"
      using k n by (simp add: nth_rotate1 queue_def)
    show ?thesis
    proof (cases "k + 1 = ?n")
      case True
      then show ?thesis using l r E F(1) by simp
    next
      case False
      then have "k + 1 < ?n" using k by simp
      then have "(?F + (k + 1)) mod 128 \<noteq> ?E" using E(1) n mod_128_eq [of "k + 1" ?n ?F] by auto
      with l r \<open>k + 1 < ?n\<close> show ?thesis by simp
    qed
  qed
  then have "queue ?s = rotate1 (queue s)" using ql by (intro nth_equalityI) simp_all
  moreover have "sched_ok ?s" using ok by (simp add: sched_ok_def)
  ultimately show ?thesis using front_to_end_step [OF ok False] by blast
qed

section \<open>Round robin\<close>

text \<open>
  What a scheduler in turn is expected to do, as an interface: a state with a list of runnable
  tasks and an operation that rotates it and hands out its new head.
\<close>

primrec nth_run :: "('s \<Rightarrow> ('t \<times> 's) option) \<Rightarrow> nat \<Rightarrow> 's \<Rightarrow> ('t \<times> 's) option" where
  "nth_run next 0 s = next s"
| "nth_run next (Suc k) s = do { (t, s') \<leftarrow> next s; nth_run next k s' }"

locale round_robin =
  fixes ok :: "'s \<Rightarrow> bool"
    and tasks :: "'s \<Rightarrow> 't list"
    and turn :: "'s \<Rightarrow> ('t \<times> 's) option"
  assumes turn_rotates: "ok s \<Longrightarrow> tasks s \<noteq> [] \<Longrightarrow>
    \<exists>s'. turn s = Some (hd (tasks s'), s') \<and> ok s' \<and> tasks s' = rotate1 (tasks s)"
begin

lemma nth_turn:
  assumes "ok s" "tasks s \<noteq> []"
  shows "\<exists>s'. nth_run turn k s = Some (tasks s ! (Suc k mod length (tasks s)), s') \<and> ok s' \<and>
    tasks s' = rotate (Suc k) (tasks s)"
  using assms
proof (induction k arbitrary: s)
  case 0
  then obtain s' where s': "turn s = Some (hd (tasks s'), s')" "ok s'" "tasks s' = rotate1 (tasks s)"
    using turn_rotates by blast
  have "hd (rotate1 (tasks s)) = tasks s ! (1 mod length (tasks s))"
    using 0 hd_rotate_conv_nth [of "tasks s" 1] by simp
  with s' show ?case by simp
next
  case (Suc k)
  then obtain s1 where s1: "turn s = Some (hd (tasks s1), s1)" "ok s1" "tasks s1 = rotate1 (tasks s)"
    using turn_rotates by blast
  then have "tasks s1 \<noteq> []" using Suc.prems by simp
  with Suc.IH [OF s1(2)] obtain s' where
    s': "nth_run turn k s1 = Some (tasks s1 ! (Suc k mod length (tasks s1)), s')" "ok s'"
      "tasks s' = rotate (Suc k) (tasks s1)" by blast
  let ?n = "length (tasks s)"
  have "Suc k mod ?n < ?n" using Suc.prems by simp
  then have "rotate1 (tasks s) ! (Suc k mod ?n) = tasks s ! (Suc (Suc k mod ?n) mod ?n)"
    by (rule nth_rotate1)
  then have "tasks s1 ! (Suc k mod length (tasks s1)) = tasks s ! (Suc (Suc k) mod ?n)"
    using s1(3) by (simp add: mod_Suc_eq)
  moreover have "tasks s' = rotate (Suc (Suc k)) (tasks s)"
    using s'(3) s1(3) by (simp only: rotate_Suc rotate1_rotate_swap)
  ultimately show ?case using s1(1) s'(1,2) by simp
qed

text \<open>No task waits longer than one round.\<close>

lemma fair:
  assumes "ok s" "i < length (tasks s)"
  shows "\<exists>k s'. k < length (tasks s) \<and> nth_run turn k s = Some (tasks s ! i, s')"
proof -
  let ?n = "length (tasks s)"
  define k where "k = (if i = 0 then ?n - 1 else i - 1)"
  have "Suc k mod ?n = i" "k < ?n" using assms(2) by (auto simp: k_def)
  moreover have "tasks s \<noteq> []" using assms(2) by auto
  ultimately show ?thesis using nth_turn [OF assms(1), of k] by auto
qed

end

text \<open>The console output of \<open>schedule\<close> and the clock do not touch the ring.\<close>

lemma kputs_rrq [frame_simps]:
  "rrq (kputs cs s) = rrq s" "front (kputs cs s) = front s" "rrq_end (kputs cs s) = rrq_end s"
proof -
  have c: "rrq (set_cursor_position x y s) = rrq s" "front (set_cursor_position x y s) = front s"
    "rrq_end (set_cursor_position x y s) = rrq_end s" for x y and s :: "'a sched_scheme"
    by (simp_all add: set_cursor_position_def Let_def outportb_def)
  have n: "rrq (snd (newline s)) = rrq s" "front (snd (newline s)) = front s"
    "rrq_end (snd (newline s)) = rrq_end s" for s :: "'a sched_scheme"
    by (simp_all add: newline_def kscroll_display_def Let_def c)
  have p: "rrq (snd (put_cell d i s)) = rrq s" "front (snd (put_cell d i s)) = front s"
    "rrq_end (snd (put_cell d i s)) = rrq_end s" for d i and s :: "'a sched_scheme"
    by (simp_all add: put_cell_def kscroll_display_def Let_def split_def c)
  show "rrq (kputs cs s) = rrq s" "front (kputs cs s) = front s" "rrq_end (kputs cs s) = rrq_end s"
    by (induction cs arbitrary: s) (simp_all add: n p)
qed

lemma clock_rrq [frame_simps]:
  "rrq (clock s) = rrq s" "front (clock s) = front s" "rrq_end (clock s) = rrq_end s"
  "rrq (outportb p v s) = rrq s" "front (outportb p v s) = front s" "rrq_end (outportb p v s) = rrq_end s"
  by (simp_all add: clock_def outportb_def Let_def)

lemma cur_task_time_equ_stacks:
  assumes ok: "sched_ok s"
  shows "\<exists>s'. cur_task_time_equ time s = Some s' \<and> sched_ok s' \<and> map tstack (queue s') = map tstack (queue s)"
proof (cases "is_empty s")
  case False
  let ?F = "nat (front s)"
  let ?s = "s\<lparr>rrq := (rrq s)[?F := (rrq s ! ?F)\<lparr>ttime := time\<rparr>]\<rparr>"
  have "cur_task_time_equ time s = Some ?s"
    using ok False by (simp add: cur_task_time_equ_def rrq_at_def rrq_set_def sched_ok_def)
  moreover have "tstack ((rrq s)[?F := (rrq s ! ?F)\<lparr>ttime := time\<rparr>] ! j) = tstack (rrq s ! j)" for j
    by (cases "j = ?F"; cases "?F < length (rrq s)") (auto simp: list_update_beyond)
  then have "map tstack (queue ?s) = map tstack (queue s)" by (simp add: queue_def queue_len_def)
  ultimately show ?thesis using ok by (simp add: sched_ok_def)
qed (use ok in \<open>simp add: cur_task_time_equ_def\<close>)

lemma queue_hd:
  "sched_ok s \<Longrightarrow> queue s \<noteq> [] \<Longrightarrow> rrq_at (front s) s = Some (hd (queue s))"
  by (auto simp: rrq_at_def sched_ok_def queue_def hd_map upt_conv_Cons nat_mod_distrib)

lemma schedule_rotates:
  assumes ok: "sched_ok s" and ne: "queue s \<noteq> []"
  shows "\<exists>s'. schedule regs s = Some (hd (map tstack (queue s')), s') \<and> sched_ok s' \<and>
    map tstack (queue s') = rotate1 (map tstack (queue s))"
proof -
  let ?s1 = "kputs (str ''schedule'') s"
  have ok1: "sched_ok ?s1" and q1: "queue ?s1 = queue s"
    using ok by (simp_all only: sched_ok_def frame_simps queue_def queue_len_def)
  have pri: "cur_task_pri ?s1 = Some (tpriority (hd (queue s)))"
    using ne q1 is_empty_queue [OF ok1] queue_hd [OF ok1] by (simp only: cur_task_pri_def) simp
  obtain s2 where s2: "cur_task_time_equ (get_pri_time (tpriority (hd (queue s)))) ?s1 = Some s2"
    "sched_ok s2" "map tstack (queue s2) = map tstack (queue s)"
    using cur_task_time_equ_stacks [OF ok1] q1 by metis
  obtain s3 where s3: "front_to_end s2 = Some s3" "sched_ok s3" "queue s3 = rotate1 (queue s2)"
    using front_to_end_rotates [OF s2(2)] by blast
  have "queue s2 \<noteq> []" using s2(3) ne by (metis map_is_Nil_conv)
  then have ne3: "queue s3 \<noteq> []" using s3(3) by simp
  have "schedule regs s = Some (tstack (hd (queue s3)), s3)"
    unfolding schedule_def Let_def pri using s2(1) s3(1) queue_hd [OF s3(2) ne3] by simp
  moreover have "map tstack (queue s3) = rotate1 (map tstack (queue s))"
    using s2(3) s3(3) by (metis rotate1_map)
  moreover have "hd (map tstack (queue s3)) = tstack (hd (queue s3))" using ne3 by (simp add: hd_map)
  ultimately show ?thesis using s3(2) by auto
qed

interpretation timer: round_robin sched_ok "\<lambda>s. map tstack (queue s)" "task_timer_c regs" for regs
proof unfold_locales
  fix s :: "'a sched_scheme" assume ok: "sched_ok s" and ne: "map tstack (queue s) \<noteq> []"
  let ?s = "outportb 0x20 0x20 (clock s)"
  have "sched_ok ?s" "queue ?s = queue s" using ok by (simp_all add: sched_ok_def queue_def queue_len_def frame_simps)
  with schedule_rotates [of ?s regs] ne show "\<exists>s'. task_timer_c regs s = Some (hd (map tstack (queue s')), s') \<and>
      sched_ok s' \<and> map tstack (queue s') = rotate1 (map tstack (queue s))"
    by (simp add: task_timer_c_def)
qed

section \<open>Creating a task\<close>

lemma rrq_append:
  fixes s :: "'a sched_scheme" and t :: task_data
  assumes ok: "sched_ok s" and room: "rrq_end s < 127" "queue_len s < 127"
  defines "s' \<equiv> s\<lparr>rrq := (rrq s)[nat (rrq_end s) := t], rrq_end := rrq_end s + 1\<rparr>"
  shows "sched_ok s'" "queue s' = queue s @ [t]"
proof -
  let ?F = "nat (front s)" and ?n = "queue_len s" and ?E = "nat (rrq_end s)"
  show "sched_ok s'" using ok room by (simp add: s'_def sched_ok_def)
  have E: "?E = (?F + ?n) mod 128" "?E < length (rrq s)" using ring_end [OF ok] ok by (auto simp: sched_ok_def)
  have ql: "queue_len s' = Suc ?n"
  proof -
    have q: "int ?n = (rrq_end s - front s) mod 128" by (simp add: queue_len_def)
    have "(rrq_end s + 1 - front s) mod 128 = ((rrq_end s - front s) mod 128 + 1) mod 128"
      by (simp add: mod_simps algebra_simps)
    also have "\<dots> = int (Suc ?n)" unfolding q [symmetric] using room(2) by simp
    finally show ?thesis by (simp add: queue_len_def s'_def)
  qed
  have "(rrq s)[?E := t] ! ((?F + k) mod 128) = rrq s ! ((?F + k) mod 128)" if "k < ?n" for k
  proof -
    have "(?F + k) mod 128 \<noteq> ?E" using E(1) that room(2) mod_128_eq [of k ?n ?F] by auto
    then show ?thesis by simp
  qed
  then have "map (\<lambda>k. (rrq s)[?E := t] ! ((?F + k) mod 128)) [0..<?n] = queue s" by (simp add: queue_def)
  moreover have "(rrq s)[?E := t] ! ((?F + ?n) mod 128) = t" using E by simp
  moreover have "front s' = front s" "rrq s' = (rrq s)[?E := t]" by (simp_all add: s'_def)
  ultimately show "queue s' = queue s @ [t]" unfolding queue_def ql by simp
qed

lemma kmalloc_rrq:
  "kmalloc n s = Some (a, s') \<Longrightarrow> rrq s' = rrq s \<and> front s' = front s \<and> rrq_end s' = rrq_end s"
  by (auto simp: kmalloc_def kmalloc_init_def Let_def split: bind_splits option.splits if_splits)

lemma resume_frame:
  assumes "\<And>i. i < 15 \<Longrightarrow> ld32 m (st + of_nat (4 * i)) = stack_data st entry ! i"
  shows "resume m st = \<lparr>r_gs = 0x10, r_fs = 0x10, r_es = 0x10, r_ds = 0x10, r_edi = 0, r_esi = 0, r_ebp = st,
      r_ebx = 0, r_edx = 0, r_ecx = 0, r_eax = 0, r_eip = entry, r_esp = st + 52\<rparr>"
    "ld32 m (st + 52) = 0x08" "ld32 m (st + 56) = 0x202"
  using assms [of 0] assms [of 1] assms [of 2] assms [of 3] assms [of 4] assms [of 5] assms [of 6] assms [of 8] assms [of 9]
    assms [of 10] assms [of 11] assms [of 12] assms [of 13] assms [of 14]
  by (simp_all add: resume_def stack_data_def)

lemma make_task_frame:
  assumes own: "kowns s L" and safe: "\<not> takes_last 256 s" and k: "kmalloc 256 s = Some (a, s1)" "a \<noteq> NULL"
    and ok: "sched_ok s" and room: "rrq_end s < 127" "queue_len s < 127"
  shows "\<exists>s' t. make_task pri name entry s = Some s' \<and> sched_ok s' \<and> queue s' = queue s @ [t] \<and>
    tstack t = a + 196 \<and> tss t = 0x10 \<and> tpriority t = pri \<and> ttime t = get_pri_time pri \<and>
    kowns s' (insert a L) \<and> a \<notin> L \<and> region (a + 196) 60 \<subseteq> payload (mem s') a \<and>
    resume (mem s') (a + 196) = \<lparr>r_gs = 0x10, r_fs = 0x10, r_es = 0x10, r_ds = 0x10, r_edi = 0, r_esi = 0, r_ebp = a + 196,
      r_ebx = 0, r_edx = 0, r_ecx = 0, r_eax = 0, r_eip = entry, r_esp = a + 248\<rparr> \<and>
    ld32 (mem s') (a + 248) = 0x08 \<and> ld32 (mem s') (a + 252) = 0x202 \<and>
    (\<forall>b \<in> L. payload (mem s') b = payload (mem s) b \<and> (\<forall>x \<in> payload (mem s) b. mem s' x = mem s x))"
proof -
  let ?st = "a + 196" and ?ws = "stack_data (a + 196) entry"
  let ?s2 = "s1\<lparr>mem := st_words ?st ?ws (mem s1)\<rparr>"
  have len: "length ?ws = 15" by (simp add: stack_data_def)
  note new = kheap.alloc_owns [OF own safe k]
  have sz: "region a 256 \<subseteq> payload (mem s1) a" using kheap.alloc_size [OF own safe k] by simp
  then have fr: "region ?st 60 \<subseteq> payload (mem s1) a" using region_offset [of a 196 60] by simp
  have out: "st_words ?st ?ws (mem s1) x = mem s1 x" if "x \<notin> payload (mem s1) a" for x
    using that fr len by (intro st_words_outside) auto
  have put: "kowns ?s2 (insert a L)"
    "\<And>b. b \<in> insert a L \<Longrightarrow> payload (mem ?s2) b = payload (mem s1) b"
    using kheap.put_owns [OF conjunct2 [OF new] insertI1 out] by auto
  have same: "payload (mem ?s2) b = payload (mem s) b \<and> (\<forall>x \<in> payload (mem s) b. mem ?s2 x = mem s x)"
    if "b \<in> L" for b
  proof -
    have d: "payload (mem s1) a \<inter> payload (mem s1) b = {}"
      using that new kheap.usable_disjoint [OF conjunct2 [OF new], of a b] by auto
    have kp: "payload (mem s1) b = payload (mem s) b" "\<And>x. x \<in> payload (mem s) b \<Longrightarrow> mem s1 x = mem s x"
      using kheap.alloc_keeps [OF own safe k(1) that] by auto
    have "mem ?s2 x = mem s x" if "x \<in> payload (mem s) b" for x
      using out [of x] kp(2) [OF that] d that unfolding kp(1) by auto
    with kp(1) put(2) [of b] that show ?thesis by auto
  qed
  note r = kmalloc_rrq [OF k(1)]
  have ok2: "sched_ok ?s2" "queue_len ?s2 = queue_len s" "queue ?s2 = queue s" "rrq_end ?s2 < 127"
    using ok room r by (simp_all add: sched_ok_def queue_len_def queue_def)
  define t where "t = (rrq s ! nat (rrq_end s))\<lparr>
    tname := name_copy 32 (mem ?s2) name (tname (rrq s ! nat (rrq_end s))), tstack := ?st,
    tss := KERNEL_STACK_SEG, tpriority := pri, ttime := get_pri_time pri\<rparr>"
  let ?s' = "?s2\<lparr>rrq := (rrq ?s2)[nat (rrq_end ?s2) := t], rrq_end := rrq_end ?s2 + 1\<rparr>"
  have "make_task pri name entry s = Some ?s'"
    using k(1) ok r by (simp add: make_task_def rrq_at_def rrq_set_def sched_ok_def t_def Let_def)
  moreover have "sched_ok ?s'" "queue ?s' = queue s @ [t]"
    using rrq_append [OF ok2(1,4), of t] ok2(2,3) room(2) by simp_all
  moreover have fields: "ld32 (mem ?s2) (?st + of_nat (4 * i)) = ?ws ! i" if "i < 15" for i
    using ld32_st_words [of ?ws i ?st "mem s1"] len that by simp
  have "resume (mem ?s2) ?st = \<lparr>r_gs = 0x10, r_fs = 0x10, r_es = 0x10, r_ds = 0x10, r_edi = 0, r_esi = 0, r_ebp = a + 196,
      r_ebx = 0, r_edx = 0, r_ecx = 0, r_eax = 0, r_eip = entry, r_esp = a + 248\<rparr> \<and>
      ld32 (mem ?s2) (a + 248) = 0x08 \<and> ld32 (mem ?s2) (a + 252) = 0x202"
    using resume_frame [OF fields] by (simp add: add.assoc del: st_words.simps)
  moreover have "kowns ?s' (insert a L)" using put(1) by (simp add: kowns_def heap_ok_def)
  moreover have "tstack t = ?st" "tss t = 0x10" "tpriority t = pri" "ttime t = get_pri_time pri" by (simp_all add: t_def)
  ultimately show ?thesis using same new fr put(2) [of a] by (intro exI [of _ ?s'] exI [of _ t]) simp
qed

section \<open>The clock\<close>

lemma clock_ticks:
  assumes "unat (ticks s) = n mod 100" "unat (sys_time s) = n div 100" "unat (total_ticks s) = n"
    "n + 1 < 4294967296"
  shows "unat (ticks (clock s)) = (n + 1) mod 100" "unat (sys_time (clock s)) = (n + 1) div 100"
    "unat (total_ticks (clock s)) = n + 1"
proof -
  have n: "n mod 100 < 100" "n div 100 < 42949673" using assms(4) by auto
  have t: "unat (ticks s + 1) = n mod 100 + 1" "unat (sys_time s + 1) = n div 100 + 1"
    "unat (total_ticks s + 1) = n + 1"
    using assms n by (subst unat_add_small; simp)+
  have ge: "ticks s + 1 \<ge> 100 \<longleftrightarrow> n mod 100 = 99" using t(1) n by (auto simp: word_le_nat_alt)
  show "unat (total_ticks (clock s)) = n + 1" using t(3) by (simp add: clock_def Let_def)
  show "unat (ticks (clock s)) = (n + 1) mod 100" using t(1) ge by (auto simp: clock_def Let_def mod_Suc)
  show "unat (sys_time (clock s)) = (n + 1) div 100" using t(2) ge assms(2) by (auto simp: clock_def Let_def div_Suc mod_Suc)
qed

section \<open>Properties\<close>

text \<open>
  C20 (refinement). The ring buffer refines a queue: while the index of its end is below 127 and it holds fewer than 127 tasks, and
  \<open>kmalloc\<close> has a block, other than the only free one as a whole, \<open>make_task\<close> appends the new task at the end of the queue. The task's stack
  frame lies inside the block just allocated for it; resumed from there, as \<open>switch.asm\<close> does it, the task starts at its entry
  with the data segments loaded, the general registers cleared and \<open>ebp\<close> at the frame; the code segment and the flags are still on its stack,
  because \<open>task_timer\<close> ends with \<open>ret\<close>. The heap stays intact and no other live block changes.
\<close>

theorem make_task_enqueues:
  assumes "kowns s L" "\<not> takes_last 256 s" "kmalloc 256 s = Some (a, s1)" "a \<noteq> NULL"
    and "sched_ok s" "rrq_end s < 127" "queue_len s < 127"
  shows "\<exists>s' t. make_task pri name entry s = Some s' \<and> sched_ok s' \<and> queue s' = queue s @ [t] \<and>
    tstack t = a + 196 \<and> tss t = 0x10 \<and> tpriority t = pri \<and> ttime t = get_pri_time pri \<and>
    kowns s' (insert a L) \<and> a \<notin> L \<and> region (a + 196) 60 \<subseteq> payload (mem s') a \<and>
    resume (mem s') (a + 196) = \<lparr>r_gs = 0x10, r_fs = 0x10, r_es = 0x10, r_ds = 0x10, r_edi = 0, r_esi = 0, r_ebp = a + 196,
      r_ebx = 0, r_edx = 0, r_ecx = 0, r_eax = 0, r_eip = entry, r_esp = a + 248\<rparr> \<and>
    ld32 (mem s') (a + 248) = 0x08 \<and> ld32 (mem s') (a + 252) = 0x202 \<and>
    (\<forall>b \<in> L. payload (mem s') b = payload (mem s) b \<and> (\<forall>x \<in> payload (mem s) b. mem s' x = mem s x))"
  using assms by (rule make_task_frame)

text \<open>
  C21 (liveness). Round robin: with a task in the ring, any number of timer interrupts in a row
  return; the \<open>k\<close>-th hands out the stack of the task \<open>k\<close> places behind the front of the queue, so
  every task runs again within one round, whatever its priority. The stack pointers handed out are
  the ones the tasks were created with.
\<close>

theorem timer_round_robin:
  assumes "sched_ok s" "queue s \<noteq> []"
  shows "\<exists>s'. nth_run (task_timer_c regs) k s =
      Some (tstack (queue s ! (Suc k mod queue_len s)), s') \<and> sched_ok s' \<and>
    map tstack (queue s') = rotate (Suc k) (map tstack (queue s))"
proof -
  have "Suc k mod queue_len s < queue_len s" using assms(2) by (simp add: queue_def)
  then show ?thesis
    using timer.nth_turn [OF assms(1), of regs k] assms(2) by simp
qed

text \<open>
  No task starves: within as many timer interrupts as there are tasks, each task
  gets its stack back.
\<close>

theorem timer_fair:
  assumes "sched_ok s" "i < queue_len s"
  shows "\<exists>k s'. k < queue_len s \<and> nth_run (task_timer_c regs) k s = Some (tstack (queue s ! i), s')"
  using timer.fair [OF assms(1), of i regs] assms(2) by simp

text \<open>
  C22 (safety). \<open>schedule\<close> does not look at the registers of the interrupted task: the frame
  \<open>switch.asm\<close> passes is dropped, and the ring keeps the stack pointer of the task's creation.
\<close>

theorem schedule_drops_registers:
  assumes "sched_ok s" "queue s \<noteq> []"
  shows "\<exists>sp s'. schedule regs s = Some (sp, s') \<and> schedule regs' s = Some (sp, s') \<and>
    tstack (last (queue s')) = tstack (hd (queue s))"
proof -
  obtain s' where s': "schedule regs s = Some (hd (map tstack (queue s')), s')"
    "map tstack (queue s') = rotate1 (map tstack (queue s))"
    using schedule_rotates [OF assms] by blast
  have "last (map tstack (queue s')) = hd (map tstack (queue s))"
    unfolding s'(2) using assms(2) by (cases "queue s") simp_all
  moreover have "queue s' \<noteq> []" using s'(2) assms(2) by (metis map_is_Nil_conv rotate1_is_Nil_conv)
  ultimately have "tstack (last (queue s')) = tstack (hd (queue s))"
    using assms(2) by (simp add: last_map hd_map)
  with s'(1) show ?thesis by (auto simp: schedule_def)
qed

text \<open>
  The end of the ring does not wrap in \<open>make_task\<close>: at index 127 the task is stored, \<open>end\<close>
  becomes 128, and the next \<open>make_task\<close> or timer interrupt writes behind \<open>rrq\<close>.
\<close>

theorem make_task_overruns:
  assumes "rrq_end s = 127" "kmalloc 256 s = Some (a, s1)" "0 \<le> front s" "front s < 128"
  shows "\<exists>s'. make_task pri name entry s = Some s' \<and> rrq_end s' = 128 \<and>
    task_timer_c regs s' = None \<and> make_task pri' name' entry' s' = None"
proof -
  note r = kmalloc_rrq [OF assms(2)]
  obtain s' where s': "make_task pri name entry s = Some s'" "rrq_end s' = 128" "front s' = front s"
    using assms r by (auto simp: make_task_def rrq_at_def rrq_set_def Let_def)
  define c where "c = kputs (str ''schedule'') (outportb 0x20 0x20 (clock s'))"
  have c: "rrq_end c = 128" "front c = front s" unfolding c_def using s' by (simp_all only: frame_simps)
  then have "cur_task_time_equ tm c = Some s2 \<Longrightarrow> front_to_end s2 = None" for tm s2
    using assms(3,4) by (auto simp: cur_task_time_equ_def rrq_at_def rrq_set_def is_empty_def front_to_end_def)
  then have "task_timer_c regs s' = None"
    unfolding task_timer_c_def schedule_def Let_def c_def [symmetric]
    by (cases "cur_task_pri c") (auto split: bind_splits)
  moreover have "make_task pri' name' entry' s' = None"
    using kmalloc_rrq [of 256 s'] s'(2) by (auto simp: make_task_def rrq_at_def split: bind_splits)
  ultimately show ?thesis using s' by blast
qed

text \<open>
  The clock counts: after \<open>n\<close> ticks from zero \<open>sys_time\<close> is the number of full
  hundreds and \<open>ticks\<close> the rest, as long as the tick counter does not wrap.
\<close>

theorem clock_counts:
  assumes "ticks s = 0" "sys_time s = 0" "total_ticks s = 0" "n < 4294967296"
  shows "unat (ticks ((clock ^^ n) s)) = n mod 100 \<and> unat (sys_time ((clock ^^ n) s)) = n div 100 \<and>
    unat (total_ticks ((clock ^^ n) s)) = n"
  using assms(4)
proof (induction n)
  case (Suc n)
  then show ?case using clock_ticks [of "(clock ^^ n) s" n] by simp
qed (use assms in simp)

section \<open>Witnesses\<close>

definition demo_task :: "addr \<Rightarrow> task_data" where
  "demo_task sp = \<lparr>tname = replicate 33 0, tstack = sp, tss = 0, tkstack = 0, tustack = 0, ttime = 0,
     tpriority = 3\<rparr>"

definition demo_sched :: "int \<Rightarrow> int \<Rightarrow> sched" where
  "demo_sched f e = \<lparr>mem = (\<lambda>_. 0), io = [], heap_base = NULL, freep = NULL, cursor_x = 0, cursor_y = 0,
     ticks = 0, sys_time = 0, total_ticks = 0, front = f, rrq_end = e,
     rrq = demo_task 100 # demo_task 200 # replicate 126 (demo_task 0)\<rparr>"

lemma demo_sched_two:
  "sched_ok (demo_sched 0 2)" "queue_len (demo_sched 0 2) = 2" "queue (demo_sched 0 2) = [demo_task 100, demo_task 200]"
  by (simp_all add: demo_sched_def sched_ok_def queue_len_def queue_def upt_rec)

definition demo_mem256 :: memory where
  "demo_mem256 = set_size 0xFFFEF8 33 (set_size 0x200000 0x1BFFDF
     (set_size 0x200000 0x1C0000 (set_ptr 0x200000 0x200000 (\<lambda>_. 0))))"

lemma demo_kmalloc:
  "kmalloc 256 (kmalloc_init (demo_sched 0 e)) = Some (0xFFFF00,
     demo_sched 0 e\<lparr>heap_base := 0x200000, freep := 0x200000, mem := demo_mem256\<rparr>)"
  by (simp add: kmalloc_def kmalloc_init_def demo_sched_def nunits_of_def kmalloc_search.simps Let_def demo_mem256_def)

theorem make_task_enqueues_witness:
  "\<exists>s' t. make_task 3 0 0x1234 (kmalloc_init (demo_sched 0 2)) = Some s' \<and>
     queue s' = [demo_task 100, demo_task 200, t] \<and> tstack t = 0xFFFFC4 \<and> ttime t = 2"
proof -
  let ?s = "kmalloc_init (demo_sched 0 2)"
  have own: "kowns ?s {}" using heap_ok_boot(1) [of "demo_sched 0 2"] by (auto simp: kowns_def demo_sched_def)
  have safe: "\<not> takes_last 256 ?s"
    by (simp add: takes_last_def kmalloc_init_def demo_sched_def nunits_of_def)
  have i: "rrq ?s = rrq (demo_sched 0 2)" "front ?s = front (demo_sched 0 2)" "rrq_end ?s = rrq_end (demo_sched 0 2)"
    by (simp_all add: kmalloc_init_def)
  then have q: "sched_ok ?s" "queue_len ?s = 2" "queue ?s = [demo_task 100, demo_task 200]"
    using demo_sched_two by (simp_all only: sched_ok_def queue_len_def queue_def)
  have "rrq_end ?s < 127" "queue_len ?s < 127" using i(3) q(2) by (simp_all add: demo_sched_def)
  from make_task_enqueues [OF own safe demo_kmalloc _ q(1) this, of 3 0 "0x1234"] q(3)
  show ?thesis by (auto simp: get_pri_time_def)
qed

theorem timer_round_robin_witness:
  "\<exists>s'. nth_run (task_timer_c 0) 2 (demo_sched 0 2) = Some (200, s') \<and> sched_ok s'"
  using timer_round_robin [OF demo_sched_two(1), of 0 2] demo_sched_two(2,3)
  by (auto simp: demo_task_def)

theorem timer_fair_witness:
  "\<exists>k s'. k < 2 \<and> nth_run (task_timer_c 0) k (demo_sched 0 2) = Some (100, s')"
  using timer_fair [OF demo_sched_two(1), of 0 0] demo_sched_two(2,3) by (simp add: demo_task_def)

theorem schedule_drops_registers_witness:
  "\<exists>sp s'. schedule 1 (demo_sched 0 2) = Some (sp, s') \<and> schedule 2 (demo_sched 0 2) = Some (sp, s') \<and>
     tstack (last (queue s')) = 100"
  using schedule_drops_registers [OF demo_sched_two(1), of 1 2] demo_sched_two(3) by (simp add: demo_task_def)

theorem make_task_overruns_witness:
  "\<exists>s'. make_task 3 0 0 (kmalloc_init (demo_sched 0 127)) = Some s' \<and> rrq_end s' = 128 \<and>
     task_timer_c 0 s' = None"
proof -
  have "rrq_end (kmalloc_init (demo_sched 0 127)) = 127" "front (kmalloc_init (demo_sched 0 127)) = 0"
    by (simp_all add: kmalloc_init_def demo_sched_def)
  then show ?thesis using make_task_overruns [OF _ demo_kmalloc, of 127 3 0 0 0 3 0 0] by auto
qed

theorem clock_counts_witness:
  "unat (sys_time ((clock ^^ 250) (demo_sched 0 2))) = 2 \<and> unat (ticks ((clock ^^ 250) (demo_sched 0 2))) = 50"
  using clock_counts [of "demo_sched 0 2" 250] by (simp add: demo_sched_def)

end
