(* ===== verification/Paging.thy ===== *)
theory Paging
  imports Sched
begin

text \<open>
  Paging, \<open>src/mm/pageinit.c\<close>: \<open>page_init\<close> writes a page directory at 16 MB and page tables behind
  it, \<open>mem_init\<close> loads \<open>CR3\<close> and sets the paging bit of \<open>CR0\<close>. The two registers are added to the
  state. What the tables mean is the two-level translation of the processor, \<open>translate\<close>.
\<close>

section \<open>pageinit.c\<close>

abbreviation MEM_SIZE :: uint where "MEM_SIZE \<equiv> 134217728"
abbreviation PAGE_TABLE_ADDR :: uint where "PAGE_TABLE_ADDR \<equiv> 0x01000000"
abbreviation PAGE_PRESENT :: uint where "PAGE_PRESENT \<equiv> 0x0001"
abbreviation PAGE_READ_WRITE :: uint where "PAGE_READ_WRITE \<equiv> 0x0002"

record vm = sched +
  cr0 :: uint
  cr3 :: uint

primrec fill_entries :: "nat \<Rightarrow> addr \<Rightarrow> uint \<Rightarrow> uint \<Rightarrow> memory \<Rightarrow> addr \<times> memory" where
  "fill_entries 0 kptr e step m = (kptr, m)"
| "fill_entries (Suc i) kptr e step m = fill_entries i (kptr + 4) (e + step) step (st32 kptr e m)"

partial_function (option) pad_page :: "addr \<Rightarrow> memory \<Rightarrow> (addr \<times> memory) option" where
  "pad_page kptr m =
     (if kptr AND 0xfff \<noteq> 0 then pad_page (kptr + 4) (st32 kptr 0 m) else Some (kptr, m))"

text \<open>In C \<open>pg_frames >> 10 + 1\<close> is a shift by 11.\<close>

definition page_init :: "memory \<Rightarrow> memory option" where
  "page_init m =
     (let pg_frames = drop_bit 12 MEM_SIZE;
          pg_tables = drop_bit (10 + 1) pg_frames;
          pg_offset = (0x00001000 :: uint);
          pg_dir_entry = pg_offset OR PAGE_PRESENT OR PAGE_READ_WRITE OR PAGE_TABLE_ADDR;
          (k1, m1) = fill_entries (unat pg_tables) PAGE_TABLE_ADDR pg_dir_entry pg_offset m
      in do {
        (k2, m2) \<leftarrow> pad_page k1 m1;
        let (k3, m3) = fill_entries (unat pg_frames) k2 (PAGE_PRESENT OR PAGE_READ_WRITE) pg_offset m2;
        (k4, m4) \<leftarrow> pad_page k3 m3;
        Some m4 })"

definition mem_init :: "'a vm_scheme \<Rightarrow> 'a vm_scheme option" where
  "mem_init s = do {
     m \<leftarrow> page_init (mem s);
     Some (s\<lparr>mem := m, cr3 := PAGE_TABLE_ADDR, cr0 := cr0 s OR 0x80000000\<rparr>) }"

section \<open>What the processor makes of the tables\<close>

definition frame_of :: "uint \<Rightarrow> uint" where
  "frame_of e = push_bit 12 (drop_bit 12 e)"

definition translate :: "memory \<Rightarrow> uint \<Rightarrow> addr \<Rightarrow> addr option" where
  "translate m pd v =
     (let pde = ld32 m (frame_of pd + 4 * drop_bit 22 v) in
      if \<not> bit pde 0 then None
      else (let pte = ld32 m (frame_of pde + 4 * take_bit 10 (drop_bit 12 v)) in
            if \<not> bit pte 0 then None else Some (frame_of pte + take_bit 12 v)))"

section \<open>The loops\<close>

definition entries :: "uint \<Rightarrow> uint \<Rightarrow> nat \<Rightarrow> uint list" where
  "entries e step n = map (\<lambda>k. e + of_nat k * step) [0..<n]"

lemma entries_Suc: "entries e step (Suc n) = e # entries (e + step) step n"
  by (simp add: entries_def upt_conv_Cons map_Suc_upt [symmetric] algebra_simps del: upt_Suc)

lemma fill_entries_words:
  "fill_entries n kptr e step m = (kptr + of_nat (4 * n), st_words kptr (entries e step n) m)"
proof (induction n arbitrary: kptr e m)
  case 0
  then show ?case by (simp add: entries_def)
next
  case (Suc n)
  then show ?case by (simp add: entries_Suc algebra_simps)
qed

lemma pad_page_words:
  "k \<le> 1024 \<Longrightarrow> kptr + of_nat (4 * k) = a \<Longrightarrow> a AND 0xfff = 0 \<Longrightarrow>
   (\<And>i. i < k \<Longrightarrow> (kptr + of_nat (4 * i)) AND 0xfff \<noteq> 0) \<Longrightarrow>
   pad_page kptr m = Some (a, st_words kptr (replicate k 0) m)"
proof (induction k arbitrary: kptr m)
  case 0
  then show ?case by (subst pad_page.simps) simp
next
  case (Suc k)
  have "pad_page (kptr + 4) (st32 kptr 0 m) = Some (a, st_words (kptr + 4) (replicate k 0) (st32 kptr 0 m))"
    using Suc.prems Suc.prems(4) [of "Suc i" for i]
    by (intro Suc.IH) (auto simp: algebra_simps)
  moreover have "kptr AND 0xfff \<noteq> 0" using Suc.prems(4) [of 0] by simp
  ultimately show ?case by (subst pad_page.simps) simp
qed

lemma unat_bits:
  "unat (drop_bit n (w :: uint)) = unat w div 2 ^ n" "unat (take_bit n (w :: uint)) = unat w mod 2 ^ n"
proof -
  have "take_bit LENGTH(32) (unat w) = unat w"
    using unat_uint_less [of w] by (simp add: take_bit_nat_eq_self)
  then show "unat (drop_bit n w) = unat w div 2 ^ n"
    unfolding unsigned_drop_bit_eq by (simp only: drop_bit_eq_div)
  show "unat (take_bit n w) = unat w mod 2 ^ n"
    unfolding unsigned_take_bit_eq by (simp only: take_bit_eq_mod)
qed

lemma and_fff: "(w :: uint) AND 0xfff = 0 \<longleftrightarrow> unat w mod 4096 = 0"
proof -
  have "w AND 0xfff = take_bit 12 w" by (simp add: take_bit_eq_mask mask_eq_exp_minus_1)
  moreover have "unat (take_bit 12 w) = unat w mod 4096" by (simp add: unat_bits)
  ultimately show ?thesis by (metis unat_eq_zero)
qed

definition tables :: "memory \<Rightarrow> memory" where
  "tables m = st_words 0x1001000 (entries 3 0x1000 32768)
     (st_words 0x1000040 (replicate 1008 0) (st_words 0x1000000 (entries 0x1001003 0x1000 16) m))"

lemma pad_directory:
  "pad_page 0x1000040 m = Some (0x1001000, st_words 0x1000040 (replicate 1008 0) m)"
proof (rule pad_page_words)
  fix i :: nat assume i: "i < 1008"
  then have "unat (0x1000040 + of_nat (4 * i) :: addr) = 0x1000040 + 4 * i" by (subst unat_add_of_nat) auto
  also have "\<dots> mod 4096 = 64 + 4 * i" using i by (simp add: mod_eq_nat2E mod_if)
  finally show "(0x1000040 + of_nat (4 * i)) AND 0xfff \<noteq> (0 :: addr)" unfolding and_fff by simp
qed simp_all

lemma page_init_tables: "page_init m = Some (tables m)"
proof -
  have "(134217728 :: uint) = push_bit 12 32768" by simp
  have f: "drop_bit 12 MEM_SIZE = 32768" "drop_bit (10 + 1) (32768 :: uint) = 16" by simp_all
  have "pad_page 0x1021000 m = Some (0x1021000, m)" for m
    by (subst pad_page.simps) simp
  then show ?thesis
    unfolding page_init_def f Let_def
    by (simp add: fill_entries_words pad_directory tables_def split_def)
qed

lemma page_table_entry: "i < 32768 \<Longrightarrow> ld32 (tables m) (0x1001000 + of_nat (4 * i)) = of_nat (4096 * i + 3)"
  unfolding tables_def by (subst ld32_st_words) (auto simp: entries_def algebra_simps)

lemma page_directory_entry:
  assumes "d < 1024"
  shows "ld32 (tables m) (0x1000000 + of_nat (4 * d)) = (if d < 16 then of_nat (0x1001003 + 4096 * d) else 0)"
proof -
  let ?m1 = "st_words 0x1000000 (entries 0x1001003 0x1000 16) m"
  let ?m2 = "st_words 0x1000040 (replicate 1008 0) ?m1"
  have "region (0x1000000 + of_nat (4 * d)) 4 \<inter> region (0x1000000 + of_nat 0x1000) 131072 = {}"
    using assms by (intro region_offsets_disjoint) auto
  then have e: "ld32 (tables m) (0x1000000 + of_nat (4 * d)) = ld32 ?m2 (0x1000000 + of_nat (4 * d))"
    unfolding tables_def by (intro ld32_cong st_words_outside) (auto simp: entries_def)
  show ?thesis
  proof (cases "d < 16")
    case True
    have "region (0x1000000 + of_nat (4 * d)) 4 \<inter> region (0x1000000 + of_nat 0x40) 4032 = {}"
      using True by (intro region_offsets_disjoint) auto
    then have "ld32 ?m2 (0x1000000 + of_nat (4 * d)) = ld32 ?m1 (0x1000000 + of_nat (4 * d))"
      by (intro ld32_cong st_words_outside) auto
    also have "\<dots> = of_nat (0x1001003 + 4096 * d)"
      using True by (subst ld32_st_words) (auto simp: entries_def algebra_simps)
    finally show ?thesis using True e by simp
  next
    case False
    have a: "(0x1000000 + of_nat (4 * d) :: addr) = 0x1000040 + of_nat (4 * (d - 16))"
      using False by (simp add: of_nat_diff algebra_simps)
    have "ld32 ?m2 (0x1000000 + of_nat (4 * d)) = 0"
      unfolding a using False assms by (subst ld32_st_words) auto
    then show ?thesis using False e by simp
  qed
qed

lemma frame_of_nat:
  assumes "4096 * k + r < 4294967296" "r < 4096"
  shows "frame_of (of_nat (4096 * k + r)) = of_nat (4096 * k)"
proof -
  have "unat (of_nat (4096 * k + r) :: uint) = 4096 * k + r" using assms(1) by (rule unat_of_nat_small)
  then have "unat (drop_bit 12 (of_nat (4096 * k + r) :: uint)) = k" using assms(2) by (simp add: unat_bits)
  then have "drop_bit 12 (of_nat (4096 * k + r) :: uint) = of_nat k" by (metis word_of_nat_unat32)
  then show ?thesis by (simp add: frame_of_def push_bit_eq_mult mult.commute)
qed

section \<open>Properties\<close>

text \<open>
  C23: With the tables of \<open>page_init\<close> the processor maps every address of the first 64 MB,
  the kernel, its heap and the tables themselves included, to itself. Addresses from 64 MB on are not
  mapped, although the machine is taken to have 128 MB and page tables for all of it are
  written: the directory has half the entries it needs.
\<close>

theorem page_init_identity:
  "\<exists>m'. page_init m = Some m' \<and>
     translate m' PAGE_TABLE_ADDR v = (if unat v < 64 * 1024 * 1024 then Some v else None)"
proof -
  let ?m = "tables m"
  define d where "d = unat v div 4194304"
  define p where "p = unat v div 4096"
  have d: "drop_bit 22 v = of_nat d" "d < 1024"
    using unat_uint_less [of v] by (simp_all add: word_unat_eq_iff unat_bits d_def unat_of_nat_small)
  have "frame_of PAGE_TABLE_ADDR = 0x1000000" using frame_of_nat [of 4096 0] by simp
  then have pde: "ld32 ?m (frame_of PAGE_TABLE_ADDR + 4 * drop_bit 22 v) =
      (if d < 16 then of_nat (0x1001003 + 4096 * d) else 0)"
    using page_directory_entry [OF d(2), of m] d(1) by simp
  have "translate ?m PAGE_TABLE_ADDR v = (if d < 16 then Some v else None)"
  proof (cases "d < 16")
    case True
    have b: "bit (of_nat (4096 * k + 3) :: uint) 0" for k by (simp add: bit_0)
    have "d = p div 1024" by (simp add: d_def p_def div_mult2_eq [symmetric])
    then have p: "p < 32768" "p = 1024 * d + p mod 1024" using True by auto
    have "unat (take_bit 10 (drop_bit 12 v)) = p mod 1024" by (simp add: unat_bits p_def)
    then have t: "take_bit 10 (drop_bit 12 v) = of_nat (p mod 1024)" by (metis word_of_nat_unat32)
    have pd: "of_nat (0x1001003 + 4096 * d) = (of_nat (4096 * (0x1001 + d) + 3) :: uint)" by simp
    have "frame_of (of_nat (0x1001003 + 4096 * d)) = of_nat (4096 * (0x1001 + d))"
      unfolding pd using True by (intro frame_of_nat) auto
    then have a: "frame_of (of_nat (0x1001003 + 4096 * d)) + 4 * take_bit 10 (drop_bit 12 v) =
        0x1001000 + of_nat (4 * p)"
      unfolding t by (subst p(2)) (simp add: algebra_simps)
    have pte: "ld32 ?m (frame_of (of_nat (0x1001003 + 4096 * d)) + 4 * take_bit 10 (drop_bit 12 v)) =
        of_nat (4096 * p + 3)"
      unfolding a by (rule page_table_entry [OF p(1)])
    have "frame_of (of_nat (4096 * p + 3)) = of_nat (4096 * p)" using p(1) by (intro frame_of_nat) auto
    moreover have "take_bit 12 v = of_nat (unat v mod 4096)" by (simp add: word_unat_eq_iff unat_bits unat_of_nat_small)
    moreover have "(of_nat (4096 * p) + of_nat (unat v mod 4096) :: uint) = of_nat (unat v)"
      unfolding of_nat_add [symmetric] by (simp add: p_def)
    ultimately have fr: "frame_of (of_nat (4096 * p + 3)) + take_bit 12 v = v" by simp
    have "bit (of_nat (0x1001003 + 4096 * d) :: uint) 0" unfolding pd by (rule b)
    then show ?thesis
      unfolding translate_def Let_def pde using True pte fr b [of p] by (simp only: if_True if_False not_True_eq_False)
  next
    case False
    then show ?thesis unfolding translate_def Let_def pde by simp
  qed
  moreover have "d < 16 \<longleftrightarrow> unat v < 64 * 1024 * 1024" unfolding d_def by auto
  ultimately show ?thesis using page_init_tables by auto
qed

text \<open>
  \<open>mem_init\<close> returns with paging on and the directory installed, and does not touch memory
  outside the tables, in particular neither the kernel heap nor the screen.
\<close>

theorem mem_init_frame:
  "\<exists>s'. mem_init s = Some s' \<and> cr3 s' = PAGE_TABLE_ADDR \<and> bit (cr0 s') 31 \<and>
     (\<forall>a. mem s' a = mem s a \<or> 0x1000000 \<le> unat a \<and> unat a < 0x1021000)"
proof -
  have out: "tables (mem s) a = mem s a" if "\<not> (0x1000000 \<le> unat a \<and> unat a < 0x1021000)" for a
  proof -
    have "a \<notin> region 0x1001000 (4 * length (entries 3 0x1000 32768))"
      "a \<notin> region 0x1000040 (4 * length (replicate 1008 (0 :: uint)))"
      "a \<notin> region 0x1000000 (4 * length (entries 0x1001003 0x1000 16))"
      using that by (auto simp: region_iff entries_def)
    then show ?thesis unfolding tables_def by (simp only: st_words_outside not_False_eq_True)
  qed
  have "bit (cr0 s OR 0x80000000) 31" by (simp add: bit_or_iff)
  moreover have "\<forall>a. tables (mem s) a = mem s a \<or> 0x1000000 \<le> unat a \<and> unat a < 0x1021000"
    using out by blast
  ultimately show ?thesis by (simp add: mem_init_def page_init_tables)
qed

end
