(* ===== verification/Keyboard.thy ===== *)
theory Keyboard
  imports Paging
begin

text \<open>
  The keyboard, \<open>drivers/keyboard.c\<close> with the tables of \<open>include/keydefs.h\<close>, the rest of
  \<open>kernel/x86.c\<close> (\<open>reboot\<close>, \<open>sti\<close>, \<open>cli\<close>) and the serial line, \<open>drivers/serial.c\<close>. All of them wait for
  the hardware, so they are partial functions of a device. The abstract view of the keyboard is a
  stream of key events; \<open>GetRawKey\<close> and \<open>getch\<close> are shown to read it.
\<close>

section \<open>keyboard.c\<close>

abbreviation KEYPRESS :: uint where "KEYPRESS \<equiv> 0x80"
abbreviation KEYPORT :: uint where "KEYPORT \<equiv> 0x60"
abbreviation KRLEFT_SHIFT :: uint where "KRLEFT_SHIFT \<equiv> 0x2A"
abbreviation KRRIGHT_SHIFT :: uint where "KRRIGHT_SHIFT \<equiv> 0x36"
abbreviation BACKSPACE :: byte where "BACKSPACE \<equiv> 8"

record kbd = vm +
  shift :: int
  checkints :: int
  iflag :: bool

definition asciiNonSh :: "byte list" where
  "asciiNonSh =
     [32, 27, 49, 50, 51, 52, 53, 54, 55, 56, 57, 48, 45, 61, 8, 9,
      113, 119, 101, 114, 116, 121, 117, 105, 111, 112, 91, 93, 10, 0, 97, 115,
      100, 102, 103, 104, 106, 107, 108, 59, 39, 96, 0, 92, 122, 120, 99, 118,
      98, 110, 109, 44, 46, 47, 0, 0, 0, 32, 0, 128, 129, 130, 131, 132,
      133, 134, 135, 136, 137, 0, 0, 146, 151, 148, 45, 150, 53, 153, 43, 147,
      152, 149, 144, 145, 0, 0, 0, 138, 139]"

definition asciiShift :: "byte list" where
  "asciiShift =
     [32, 27, 33, 64, 35, 36, 37, 94, 38, 42, 40, 41, 95, 43, 8, 9,
      81, 87, 69, 82, 84, 89, 85, 73, 79, 80, 123, 125, 10, 0, 65, 83,
      68, 70, 71, 72, 74, 75, 76, 58, 34, 126, 0, 124, 90, 88, 67, 86,
      66, 78, 77, 60, 62, 63, 0, 0, 0, 32, 0, 128, 129, 130, 131, 132,
      133, 134, 135, 136, 137, 0, 0, 146, 151, 148, 45, 150, 53, 153, 43, 147,
      152, 149, 144, 145, 0, 0, 0, 138, 139]"

definition GetRawKeyNow :: "device \<Rightarrow> 'a machine_scheme \<Rightarrow> uint \<times> 'a machine_scheme" where
  "GetRawKeyNow dev s = inportb dev KEYPORT s"

partial_function (option) GetRawKey :: "device \<Rightarrow> 'a kbd_scheme \<Rightarrow> (uint \<times> 'a kbd_scheme) option" where
  "GetRawKey dev s = do {
     s1 \<leftarrow> poll dev 0x64 (\<lambda>v. v AND 1 = 0) s;
     case GetRawKeyNow dev s1 of (scancode, s2) \<Rightarrow>
       if scancode AND KEYPRESS \<noteq> 0 then
         GetRawKey dev
           (if scancode AND 0x7F = KRLEFT_SHIFT \<or> scancode AND 0x7F = KRRIGHT_SHIFT
            then s2\<lparr>shift := 0\<rparr> else s2)
       else if scancode = KRLEFT_SHIFT \<or> scancode = KRRIGHT_SHIFT then
         GetRawKey dev (s2\<lparr>shift := 1\<rparr>)
       else Some (scancode, s2) }"

text \<open>A scan code behind the end of the table is an access out of bounds.\<close>

definition key_char :: "int \<Rightarrow> uint \<Rightarrow> byte option" where
  "key_char sh scan =
     (let t = (if sh \<noteq> 0 then asciiShift else asciiNonSh)
      in if unat scan < length t then Some (t ! unat scan) else None)"

definition getch :: "device \<Rightarrow> 'a kbd_scheme \<Rightarrow> (byte \<times> 'a kbd_scheme) option" where
  "getch dev s = do {
     (scan, s1) \<leftarrow> GetRawKey dev s;
     retchar \<leftarrow> key_char (shift s1) scan;
     Some (retchar, s1) }"

section \<open>x86.c\<close>

partial_function (option) reboot_flush :: "device \<Rightarrow> 'a machine_scheme \<Rightarrow> 'a machine_scheme option" where
  "reboot_flush dev s =
     (case inportb dev 0x64 s of (temp, s1) \<Rightarrow>
        let s2 = (if temp AND 1 \<noteq> 0 then snd (inportb dev 0x60 s1) else s1)
        in if temp AND 2 \<noteq> 0 then reboot_flush dev s2 else Some s2)"

definition reboot :: "device \<Rightarrow> 'a machine_scheme \<Rightarrow> 'a machine_scheme option" where
  "reboot dev s = map_option (outportb 0x64 0xFE) (reboot_flush dev s)"

definition sti :: "'a kbd_scheme \<Rightarrow> 'a kbd_scheme" where
  "sti s = s\<lparr>iflag := True, checkints := 1\<rparr>"

definition cli :: "'a kbd_scheme \<Rightarrow> 'a kbd_scheme" where
  "cli s = s\<lparr>iflag := False, checkints := 0\<rparr>"

section \<open>serial.c\<close>

abbreviation PORT1 :: uint where "PORT1 \<equiv> 0x3F8"

definition init_serial :: "'a machine_scheme \<Rightarrow> 'a machine_scheme" where
  "init_serial s =
     (let s1 = outportb (PORT1 + 1) 0 s;
          s2 = outportb (PORT1 + 3) 0x80 s1;
          s3 = outportb (PORT1 + 0) 0x03 s2;
          s4 = outportb (PORT1 + 1) 0x00 s3;
          s5 = outportb (PORT1 + 3) 0x03 s4;
          s6 = outportb (PORT1 + 2) 0xC7 s5
      in outportb (PORT1 + 4) 0x0B s6)"

text \<open>\<open>kprintf("%c", c)\<close>, which prints nothing for a NUL.\<close>

definition kputc :: "byte \<Rightarrow> 'a console_scheme \<Rightarrow> 'a console_scheme" where
  "kputc c s = (if c = 0 then s else kputs [c] s)"

text \<open>One poll of the line: a character that is there is printed. \<open>c\<close> is the variable \<open>ch\<close>, which
  \<open>send\<close> and \<open>receive\<close> do not initialise.\<close>

definition line_in :: "device \<Rightarrow> byte \<Rightarrow> 'a console_scheme \<Rightarrow> byte \<times> 'a console_scheme" where
  "line_in dev c s =
     (let (st, s1) = inportb dev (PORT1 + 5) s
      in if st AND 1 \<noteq> 0 then
           (let (v, s2) = inportb dev PORT1 s1 in (ucast v, kputc (ucast v) s2))
         else (c, s1))"

partial_function (option) send_loop :: "device \<Rightarrow> byte \<Rightarrow> 'a kbd_scheme \<Rightarrow> 'a kbd_scheme option" where
  "send_loop dev c s =
     (case line_in dev c s of (c', s1) \<Rightarrow> do {
        (b, s2) \<leftarrow> getch dev s1;
        let s3 = outportb PORT1 (scast b) s2;
        if c' \<noteq> 27 then send_loop dev c' s3 else Some s3 })"

definition send :: "device \<Rightarrow> byte \<Rightarrow> 'a kbd_scheme \<Rightarrow> 'a kbd_scheme option" where
  "send dev c0 s = send_loop dev c0 (init_serial s)"

partial_function (option) receive_loop :: "device \<Rightarrow> byte \<Rightarrow> 'a console_scheme \<Rightarrow> 'a console_scheme option" where
  "receive_loop dev c s =
     (case line_in dev c s of (c', s1) \<Rightarrow> if c' \<noteq> 10 then receive_loop dev c' s1 else Some s1)"

definition receive :: "device \<Rightarrow> byte \<Rightarrow> 'a console_scheme \<Rightarrow> 'a console_scheme option" where
  "receive dev c0 s = receive_loop dev c0 (init_serial s)"

section \<open>What input and output leave alone\<close>

text \<open>What output on the console may change of a state.\<close>

definition outputs :: "'a console_scheme \<Rightarrow> 'a console_scheme \<Rightarrow> bool" where
  "outputs s t \<longleftrightarrow> (\<exists>m h x y. t = s\<lparr>mem := m, io := h, cursor_x := x, cursor_y := y\<rparr>)"

lemma outputs_refl: "outputs s s"
  by (cases s) (auto simp: outputs_def)

lemma outputs_trans: "outputs s t \<Longrightarrow> outputs t u \<Longrightarrow> outputs s u"
  by (cases s) (auto simp: outputs_def)

lemma outputs_mem: "outputs s t \<Longrightarrow> outputs s (t\<lparr>mem := m\<rparr>)"
  by (cases s) (auto simp: outputs_def)

lemma outputs_cursor: "outputs s t \<Longrightarrow> outputs s (set_cursor_position x y t)"
  by (cases s) (auto simp: outputs_def set_cursor_position_def Let_def outportb_def)

lemma outputs_scroll: "outputs s t \<Longrightarrow> outputs s (kscroll_display t)"
  by (simp add: kscroll_display_def outputs_cursor outputs_mem)

lemma outputs_kput1: "outputs s (kput1 c s)"
  by (auto simp: kput1_def newline_def put_cell_def Let_def
    intro!: outputs_cursor outputs_mem outputs_scroll outputs_refl)

lemma outputs_kputs: "outputs s (kputs cs s)"
proof (induction cs arbitrary: s)
  case (Cons c cs)
  then show ?case using outputs_trans [OF outputs_kput1 [of s c] Cons.IH] by (simp add: kput1_def)
qed (simp add: outputs_refl)

lemma poll_upd: 
  assumes "poll dev port again s = Some s'" shows "\<exists>h. s' = s\<lparr>io := h\<rparr>"
  using assms
proof (rule poll.raw_induct [rotated])
  fix f dev port again and s s' :: "'a machine_scheme"
  assume "\<And>dev port again s s'. f dev port again s = Some s' \<Longrightarrow> \<exists>h. s' = s\<lparr>io := h\<rparr>"
    and "(case inportb dev port s of (v, s1) \<Rightarrow> if again v then f dev port again s1 else Some s1) = Some s'"
  then show "\<exists>h. s' = s\<lparr>io := h\<rparr>" 
    by (fastforce simp: inportb_def Let_def split: if_splits)
qed

text \<open>What reading the keyboard may change.\<close>

definition reads :: "'a kbd_scheme \<Rightarrow> 'a kbd_scheme \<Rightarrow> bool" where
  "reads s t \<longleftrightarrow> (\<exists>h sh. t = s\<lparr>io := h, shift := sh\<rparr>)"

lemma reads_trans: "reads s t \<Longrightarrow> reads t u \<Longrightarrow> reads s u"
  by (cases s) (auto simp: reads_def)

lemma reads_upd: "reads s (s\<lparr>io := h\<rparr>)" "reads s (s\<lparr>io := h, shift := sh\<rparr>)"
  by (cases s, auto simp: reads_def)+

lemma GetRawKey_reads: "GetRawKey dev s = Some r \<Longrightarrow> reads s (snd r)"
proof (rule GetRawKey.raw_induct [rotated], assumption)
  fix f dev and s :: "'a kbd_scheme" and r
  assume IH: "\<And>dev s r. f dev s = Some r \<Longrightarrow> reads s (snd r)"
    and b: "(do {
     s1 \<leftarrow> poll dev 0x64 (\<lambda>v. v AND 1 = 0) s;
     case GetRawKeyNow dev s1 of (scancode, s2) \<Rightarrow>
       if scancode AND KEYPRESS \<noteq> 0 then
         f dev
           (if scancode AND 0x7F = KRLEFT_SHIFT \<or> scancode AND 0x7F = KRRIGHT_SHIFT
            then s2\<lparr>shift := 0\<rparr> else s2)
       else if scancode = KRLEFT_SHIFT \<or> scancode = KRRIGHT_SHIFT then
         f dev (s2\<lparr>shift := 1\<rparr>)
       else Some (scancode, s2) }) = Some r"
  obtain h where p: "poll dev 0x64 (\<lambda>v. v AND 1 = 0) s = Some (s\<lparr>io := h\<rparr>)"
    using b poll_upd [of dev "0x64" _ s] by (cases "poll dev 0x64 (\<lambda>v. v AND 1 = 0) s") auto
  obtain c h' where now: "GetRawKeyNow dev (s\<lparr>io := h\<rparr>) = (c, s\<lparr>io := h'\<rparr>)"
    by (simp add: GetRawKeyNow_def inportb_def Let_def)
  show "reads s (snd r)"
    using b reads_trans [OF reads_upd(1) [where s = s and h = h'] IH [of dev "s\<lparr>io := h'\<rparr>" r]]
      reads_trans [OF reads_upd(2) [where s = s and h = h'] IH [of dev _ r]] reads_upd(1) [where s = s and h = h']
    by (auto simp: p now split: if_splits)
qed

lemma getch_reads: "getch dev s = Some r \<Longrightarrow> reads s (snd r)"
  using GetRawKey_reads [of dev s] by (auto simp: getch_def split: bind_splits)

section \<open>The keyboard as a stream of key events\<close>

datatype key_event = Shift_down | Shift_up | Release | Press uint

definition key_event :: "uint \<Rightarrow> key_event" where
  "key_event c =
     (if c \<ge> 0x80 then (if c - 0x80 \<in> {KRLEFT_SHIFT, KRRIGHT_SHIFT} then Shift_up else Release)
      else if c \<in> {KRLEFT_SHIFT, KRRIGHT_SHIFT} then Shift_down else Press c)"

text \<open>The next key pressed, the state of the shift key then, and how many codes that took.\<close>

fun next_press :: "int \<Rightarrow> uint list \<Rightarrow> (uint \<times> int \<times> nat) option" where
  "next_press sh [] = None"
| "next_press sh (c # cs) =
     (case key_event c of
        Press k \<Rightarrow> Some (k, sh, 1)
      | Shift_down \<Rightarrow> map_option (\<lambda>(k, sh', n). (k, sh', Suc n)) (next_press 1 cs)
      | Shift_up \<Rightarrow> map_option (\<lambda>(k, sh', n). (k, sh', Suc n)) (next_press 0 cs)
      | Release \<Rightarrow> map_option (\<lambda>(k, sh', n). (k, sh', Suc n)) (next_press sh cs))"

text \<open>A code as the controller delivers it: status reads while there is none, the status that
  announces it, the code.\<close>

type_synonym key = "uint list \<times> uint \<times> uint"

fun key_trace :: "key \<Rightarrow> io_event list" where
  "key_trace (vs, w, c) = map (In8 0x64) (vs @ [w]) @ [In8 KEYPORT c]"

fun key_ok :: "key \<Rightarrow> bool" where
  "key_ok (vs, w, c) \<longleftrightarrow> list_all (\<lambda>v. v AND 1 = 0) vs \<and> w AND 1 \<noteq> 0 \<and> c < 256"

definition key_code :: "key \<Rightarrow> uint" where
  "key_code k = snd (snd k)"

definition keys_trace :: "key list \<Rightarrow> io_event list" where
  "keys_trace ks = concat (map key_trace ks)"

lemma keys_trace_simps [simp]: "keys_trace [] = []" "keys_trace (k # ks) = key_trace k @ keys_trace ks"
  by (simp_all add: keys_trace_def)

text \<open>The bit tests of the source, for every code of a byte.\<close>

lemma code_tests:
  assumes "(c :: uint) < 256"
  shows "c AND 0x80 \<noteq> 0 \<longleftrightarrow> 0x80 \<le> c" and "0x80 \<le> c \<Longrightarrow> c AND 0x7F = c - 0x80"
proof -
  have n: "unat c < 256" using assms by (simp add: word_less_nat_alt)
  have "c AND 0x80 \<noteq> 0 \<longleftrightarrow> bit c 7" using and_exp_eq_0_iff_not_bit [of c 7] by simp
  also have "\<dots> \<longleftrightarrow> odd (unat c div 128)" using bit_unsigned_iff [where ?'a = nat, of c 7] by (simp add: bit_iff_odd)
  also have "\<dots> \<longleftrightarrow> 128 \<le> unat c"
  proof (cases "128 \<le> unat c")
    case True
    then have "unat c div 128 = 1" using n by (simp add: div_nat_eqI)
    then show ?thesis using True by simp
  qed simp
  finally show "c AND 0x80 \<noteq> 0 \<longleftrightarrow> 0x80 \<le> c" by (simp add: word_le_nat_alt)
  assume "0x80 \<le> c"
  then have "128 \<le> unat c" by (simp add: word_le_nat_alt)
  then have "unat (take_bit 7 c) = unat (c - 0x80)"
    using n by (simp add: unat_bits unat_sub word_le_nat_alt mod_if)
  moreover have "c AND 0x7F = take_bit 7 c" by (simp add: take_bit_eq_mask mask_eq_exp_minus_1)
  ultimately show "c AND 0x7F = c - 0x80" by (metis word_of_nat_unat32)
qed

lemma GetRawKey_step:
  assumes "answers dev (io s) (key_trace k)" "key_ok k"
  defines "s2 \<equiv> s\<lparr>io := io s @ key_trace k\<rparr>"
  shows "GetRawKey dev s =
    (case key_event (key_code k) of
       Press c \<Rightarrow> Some (c, s2)
     | Shift_down \<Rightarrow> GetRawKey dev (s2\<lparr>shift := 1\<rparr>)
     | Shift_up \<Rightarrow> GetRawKey dev (s2\<lparr>shift := 0\<rparr>)
     | Release \<Rightarrow> GetRawKey dev s2)"
proof -
  obtain vs w c where k: "k = (vs, w, c)" by (cases k) auto
  define s1 where "s1 = s\<lparr>io := io s @ map (In8 0x64) (vs @ [w])\<rparr>"
  have p: "poll dev 0x64 (\<lambda>v. v AND 1 = 0) s = Some s1"
    using assms(1,2) unfolding k s1_def by (intro poll_trace) simp_all
  have now: "GetRawKeyNow dev s1 = (c, s2)"
    using assms(1) by (simp add: GetRawKeyNow_def inportb_def Let_def k s2_def s1_def)
  have c: "c < 256" using assms(2) by (simp add: k)
  show ?thesis
    using code_tests [OF c]
    by (subst GetRawKey.simps) (auto simp: p now k key_code_def key_event_def)
qed

lemma GetRawKey_keys:
  "answers dev (io s) (keys_trace ks) \<Longrightarrow> list_all key_ok ks \<Longrightarrow>
   next_press (shift s) (map key_code ks) = Some (c, sh, n) \<Longrightarrow>
   GetRawKey dev s = Some (c, s\<lparr>io := io s @ keys_trace (take n ks), shift := sh\<rparr>)"
proof (induction ks arbitrary: s n)
  case (Cons k ks)
  note step = GetRawKey_step [of dev s k]
  show ?case
  proof (cases "key_event (key_code k)")
    case (Press x4)
    then have "GetRawKey dev s = Some (c, s\<lparr>io := io s @ key_trace k\<rparr>)" "n = 1" "sh = shift s"
      using Cons.prems step by simp_all
    then show ?thesis by (cases s) simp
  next
    case Shift_down
    with Cons.prems obtain m where m: "n = Suc m" "next_press 1 (map key_code ks) = Some (c, sh, m)" by auto
    then show ?thesis
      using Cons.prems step Shift_down Cons.IH [of "s\<lparr>io := io s @ key_trace k, shift := 1\<rparr>" m] by simp
  next
    case Shift_up
    with Cons.prems obtain m where m: "n = Suc m" "next_press 0 (map key_code ks) = Some (c, sh, m)" by auto
    then show ?thesis
      using Cons.prems step Shift_up Cons.IH [of "s\<lparr>io := io s @ key_trace k, shift := 0\<rparr>" m] by simp
  next
    case Release
    with Cons.prems obtain m where m: "n = Suc m" "next_press (shift s) (map key_code ks) = Some (c, sh, m)" by auto
    then show ?thesis
      using Cons.prems step Release Cons.IH [of "s\<lparr>io := io s @ key_trace k\<rparr>" m] by simp
  qed
qed simp

lemma getch_keys:
  assumes "answers dev (io s) (keys_trace ks)" "list_all key_ok ks"
    and "next_press (shift s) (map key_code ks) = Some (c, sh, n)" "key_char sh c = Some b"
  shows "getch dev s = Some (b, s\<lparr>io := io s @ keys_trace (take n ks), shift := sh\<rparr>)"
  using GetRawKey_keys [OF assms(1-3)] assms(4) by (simp add: getch_def)

lemma table_length: "length asciiShift = 89" "length asciiNonSh = 89"
  by (simp_all add: asciiShift_def asciiNonSh_def)

text \<open>The shift state and the key for backspace, tab, newline, escape and the printable characters.\<close>

definition ascii_keys :: "(int \<times> uint) list" where
  "ascii_keys =
     [(0, 14), (0, 15), (0, 28), (0, 1), (0, 0), (1, 2), (1, 40), (1, 4), (1, 5), (1, 6),
      (1, 8), (0, 40), (1, 10), (1, 11), (1, 9), (0, 78), (0, 51), (0, 12), (0, 52), (0, 53),
      (0, 11), (0, 2), (0, 3), (0, 4), (0, 5), (0, 6), (0, 7), (0, 8), (0, 9), (0, 10),
      (1, 39), (0, 39), (1, 51), (0, 13), (1, 52), (1, 53), (1, 3), (1, 30), (1, 48), (1, 46),
      (1, 32), (1, 18), (1, 33), (1, 34), (1, 35), (1, 23), (1, 36), (1, 37), (1, 38), (1, 50),
      (1, 49), (1, 24), (1, 25), (1, 16), (1, 19), (1, 31), (1, 20), (1, 22), (1, 47), (1, 17),
      (1, 45), (1, 21), (1, 44), (0, 26), (0, 43), (0, 27), (1, 7), (1, 12), (0, 41), (0, 30),
      (0, 48), (0, 46), (0, 32), (0, 18), (0, 33), (0, 34), (0, 35), (0, 23), (0, 36), (0, 37),
      (0, 38), (0, 50), (0, 49), (0, 24), (0, 25), (0, 16), (0, 19), (0, 31), (0, 20), (0, 22),
      (0, 47), (0, 17), (0, 45), (0, 21), (0, 44), (1, 26), (1, 43), (1, 27), (1, 41)]"

lemma ascii_keys: "map (\<lambda>(sh, k). key_char sh k) ascii_keys = map Some ([8, 9, 10, 27] @ map of_nat [32..<127])"
  by (simp add: ascii_keys_def key_char_def table_length asciiShift_def asciiNonSh_def upt_rec)

section \<open>Properties\<close>

text \<open>
  C12: \<open>getch\<close> returns whenever the keyboard goes on delivering codes until a key is pressed. It
  skips releases, follows the shift keys, returns the character that the table for the state of
  the shift key has for the pressed key, and consumes exactly the codes up to that key.
\<close>

theorem getch_reads_key:
  assumes "answers dev (io s) (keys_trace ks)" "list_all key_ok ks"
    and "next_press (shift s) (map key_code ks) = Some (c, sh, n)" "key_char sh c = Some b"
  shows "getch dev s = Some (b, s\<lparr>io := io s @ keys_trace (take n ks), shift := sh\<rparr>)"
  using assms by (rule getch_keys)

text \<open>
  every printable ASCII character, and backspace, tab, newline and escape, can be typed with or without
  the shift key.
\<close>

theorem getch_ascii_complete:
  "\<forall>c \<in> set ([8, 9, 10, 27] @ map of_nat [32..<127]). \<exists>sh scan. key_char sh scan = Some c"
proof
  fix c :: byte
  assume "c \<in> set ([8, 9, 10, 27] @ map of_nat [32..<127])"
  then have "Some c \<in> set (map (\<lambda>(sh, k). key_char sh k) ascii_keys)" unfolding ascii_keys by (simp only: set_map imageI)
  then show "\<exists>sh scan. key_char sh scan = Some c" by force
qed

section \<open>Witnesses\<close>

definition demo_keys :: "key list" where
  "demo_keys = [([0], 1, 0x2A), ([], 1, 0x1E), ([0, 0], 1, 0x9E), ([], 1, 0xAA)]"

definition demo_kbd :: "memory \<Rightarrow> kbd" where
  "demo_kbd m = \<lparr>mem = m, io = [], heap_base = NULL, freep = NULL, cursor_x = 0, cursor_y = 0,
     ticks = 0, sys_time = 0, total_ticks = 0, front = 0, rrq_end = 0, rrq = [],
     cr0 = 0, cr3 = 0, shift = 0, checkints = 0, iflag = False\<rparr>"

theorem getch_ascii_complete_witness: "\<exists>sh scan. key_char sh scan = Some (of_nat 126)"
proof -
  have "(of_nat 126 :: byte) \<in> set ([8, 9, 10, 27] @ map of_nat [32..<127])"
    unfolding set_append set_map by (intro UnI2 imageI) simp
  then show ?thesis by (rule bspec [OF getch_ascii_complete])
qed

theorem getch_reads_key_witness:
  "getch (replay (keys_trace demo_keys)) (demo_kbd (\<lambda>_. 0)) =
     Some (ch CHR ''A'', demo_kbd (\<lambda>_. 0)\<lparr>io := keys_trace (take 2 demo_keys), shift := 1\<rparr>)"
proof -
  let ?s = "demo_kbd (\<lambda>_. 0)"
  have "answers (replay (keys_trace demo_keys)) (io ?s) (keys_trace demo_keys)"
    by (simp add: demo_kbd_def answers_replay)
  moreover have "list_all key_ok demo_keys" by (simp add: demo_keys_def)
  moreover have "next_press (shift ?s) (map key_code demo_keys) = Some (0x1E, 1, 2)"
    by (simp add: demo_kbd_def demo_keys_def key_code_def key_event_def)
  moreover have "key_char 1 0x1E = Some (ch CHR ''A'')"
    by (simp add: key_char_def asciiShift_def)
  ultimately show ?thesis
    by (subst getch_reads_key) (simp_all add: demo_kbd_def)
qed

end
