(* ===== verification/Interrupts.thy ===== *)
theory Interrupts
  imports Keyboard
begin

text \<open>
  The interrupt machinery: the interrupt controller (\<open>drivers/8259.c\<close>), the interrupt descriptor table
  (\<open>src/kernel/idt.c\<close>, \<open>include/gdt.h\<close>), the programmable timer (\<open>drivers/pit.c\<close>) and the calibration of
  the delay loop (\<open>src/kernel/delay.c\<close>). Addresses of handlers are link-time constants and
  parameters here. The speed of the machine is a parameter too: \<open>slow n\<close> says that a delay of \<open>n\<close> loops begun
  at a timer tick ends after the next one.
\<close>

section \<open>Data\<close>

record x86_gate =
  offset_low :: half
  selector :: half
  access :: half
  offset_high :: half

abbreviation D_INT :: half where "D_INT \<equiv> 0x0E00"
abbreviation D_DPL3 :: half where "D_DPL3 \<equiv> 0x6000"
abbreviation D_PRESENT :: half where "D_PRESENT \<equiv> 0x8000"

abbreviation M_PIC :: uint where "M_PIC \<equiv> 0x20"
abbreviation M_IMR :: uint where "M_IMR \<equiv> 0x21"
abbreviation S_PIC :: uint where "S_PIC \<equiv> 0xA0"
abbreviation S_IMR :: uint where "S_IMR \<equiv> 0xA1"
abbreviation ICW1 :: uint where "ICW1 \<equiv> 0x11"
abbreviation ICW4 :: uint where "ICW4 \<equiv> 0x01"
abbreviation M_VEC :: uint where "M_VEC \<equiv> 0x68"
abbreviation S_VEC :: uint where "S_VEC \<equiv> 0x70"

abbreviation TMR_CTRL :: uint where "TMR_CTRL \<equiv> 0x43"
abbreviation TMR_BOTH :: uint where "TMR_BOTH \<equiv> 0x30"
abbreviation TMR_MD3 :: uint where "TMR_MD3 \<equiv> 0x6"
abbreviation TMR_LATCH :: uint where "TMR_LATCH \<equiv> 0"

text \<open>\<open>idtr\<close> and \<open>cs\<close> are the registers, \<open>nt_flag\<close> the NT bit of the flags.\<close>

record intr = kbd +
  irq_mask :: uint
  IDT :: "x86_gate list"
  idtr :: "(half \<times> addr) option"
  cs :: half
  nt_flag :: bool
  delay_count :: uint

section \<open>8259.c\<close>

definition Init8259 :: "device \<Rightarrow> 'a intr_scheme \<Rightarrow> 'a intr_scheme option" where
  "Init8259 dev s =
     (let s1 = kputs (str ''8259 initialising'') s;
          s2 = outportb S_PIC ICW1 (outportb M_PIC ICW1 s1);
          s3 = outportb (S_PIC + 1) S_VEC (outportb (M_PIC + 1) M_VEC s2);
          s4 = outportb (S_PIC + 1) 2 (outportb (M_PIC + 1) (push_bit 2 1) s3);
          s5 = outportb (S_PIC + 1) ICW4 (outportb (M_PIC + 1) ICW4 s4);
          s6 = outportb S_IMR 0xff (outportb M_IMR 0xff s5);
          s7 = kputs (str ''8259 initialised'') s6
      in map_option snd (getch dev s7))"

definition write_masks :: "'a intr_scheme \<Rightarrow> 'a intr_scheme" where
  "write_masks s =
     outportb (S_PIC + 1) (drop_bit 8 (irq_mask s) AND 0xFF) (outportb (M_PIC + 1) (irq_mask s AND 0xFF) s)"

text \<open>A shift by 32 or more is undefined.\<close>

definition enable_irq :: "half \<Rightarrow> 'a intr_scheme \<Rightarrow> 'a intr_scheme option" where
  "enable_irq irq_no s =
     (if irq_no < 32 then
        (let m1 = irq_mask s AND NOT (push_bit (unat irq_no) 1);
             m2 = (if irq_no \<ge> 8 then m1 AND NOT (push_bit 2 1) else m1)
         in Some (write_masks (s\<lparr>irq_mask := m2\<rparr>)))
      else None)"

definition disable_irq :: "half \<Rightarrow> 'a intr_scheme \<Rightarrow> 'a intr_scheme option" where
  "disable_irq irq_no s =
     (if irq_no < 32 then
        (let m1 = irq_mask s OR push_bit (unat irq_no) 1;
             m2 = (if m1 AND 0xFF00 = 0xFF00 then m1 OR push_bit 2 1 else m1)
         in Some (write_masks (s\<lparr>irq_mask := m2\<rparr>)))
      else None)"

section \<open>idt.c\<close>

definition set_vector :: "addr \<Rightarrow> byte \<Rightarrow> half \<Rightarrow> 'a intr_scheme \<Rightarrow> 'a intr_scheme" where
  "set_vector handler interrupt control_major s =
     s\<lparr>IDT := (IDT s)[unat interrupt :=
       \<lparr>offset_low = ucast (handler AND 0xffff), selector = cs s, access = control_major,
        offset_high = ucast (drop_bit 16 handler)\<rparr>]\<rparr>"

text \<open>\<open>hs n\<close> is the address of \<open>_int\<close>\<open>n\<close>, \<open>idt_addr\<close> that of the table.\<close>

definition InitIDT :: "(nat \<Rightarrow> addr) \<Rightarrow> addr \<Rightarrow> addr \<Rightarrow> 'a intr_scheme \<Rightarrow> 'a intr_scheme" where
  "InitIDT hs int_null idt_addr s =
     (let ctl = D_PRESENT + D_INT + D_DPL3;
          s1 = fold (\<lambda>count. set_vector int_null (of_nat count) ctl) [16..<256] s;
          s2 = fold (\<lambda>n. set_vector (hs n) (of_nat n) ctl)
                 [0, 1, 2, 3, 4, 5, 6, 7, 8, 9, 10, 12, 13, 14, 15, 16] s1
      in s2\<lparr>idtr := Some (256 * 8 - 1, idt_addr), nt_flag := False, iflag := True\<rparr>)"

text \<open>The handlers print their text and stay in a loop: \<open>int_handler n s\<close> is the state they stay in.\<close>

definition int_text :: "nat \<Rightarrow> string" where
  "int_text n =
     [''int0: Divide Error'', ''int1: Debug exception'', ''int2: unknown error'', ''int3: Breakpoint'',
      ''int4: Overflow'', ''int 5: Bounds check'', ''int6: Invalid opcode'',
      ''int7: Coprocessor not available'', ''int8: Double fault'', ''int9: Coprocessor Segment overrun'',
      ''int10: Invalid TSS'', ''int11: Segment not present'', ''int12: Stack exception'',
      ''int13: General Protection'', ''int14: Page fault'', ''in15: Unknown error'',
      ''int16: Coprocessor error''] ! n"

definition int_handler :: "nat \<Rightarrow> 'a console_scheme \<Rightarrow> 'a console_scheme" where
  "int_handler n s = kputs (str (int_text n) @ [10]) s"

section \<open>pit.c\<close>

text \<open>\<open>temp\<close> is the quotient \<open>1193180 / h\<close>, which the source computes in floating point.\<close>

definition init_pit :: "device \<Rightarrow> uint \<Rightarrow> byte \<Rightarrow> 'a kbd_scheme \<Rightarrow> 'a kbd_scheme option" where
  "init_pit dev temp channel s = do {
     (_, s1) \<leftarrow> getch dev (kputs (str ''PIT initialising'') s);
     let s2 = outportb TMR_CTRL (ucast channel * 0x40 + TMR_BOTH + TMR_MD3) s1;
     let s3 = outportb (0x40 + ucast channel) (ucast (ucast temp :: byte)) s2;
     let s4 = outportb (0x40 + ucast channel) (ucast (ucast (drop_bit 8 temp) :: byte)) s3;
     (_, s5) \<leftarrow> getch dev (kputs (str ''PIT initialised'') s4);
     Some s5 }"

definition pit_getchannel :: "device \<Rightarrow> byte \<Rightarrow> 'a machine_scheme \<Rightarrow> uint \<times> 'a machine_scheme" where
  "pit_getchannel dev channel s =
     (let s1 = outportb TMR_CTRL (ucast channel * 0x40 + TMR_LATCH) s;
          (x, s2) = inportb dev (0x40 + ucast channel) s1;
          (y, s3) = inportb dev (0x40 + ucast channel) s2
      in (x + push_bit 8 y, s3))"

text \<open>The handler of the timer runs the software interrupt \<open>0x1C\<close>, a parameter, and acknowledges.\<close>

definition pit_handler :: "('a machine_scheme \<Rightarrow> 'a machine_scheme) \<Rightarrow> 'a machine_scheme \<Rightarrow> 'a machine_scheme" where
  "pit_handler int_1C s = outportb 0x20 0x20 (int_1C s)"

section \<open>delay.c\<close>

text \<open>Stage 1: \<open>delay_count\<close> is doubled until a delay is longer than a tick.\<close>

partial_function (option) calib_coarse :: "(uint \<Rightarrow> bool) \<Rightarrow> uint \<Rightarrow> uint option" where
  "calib_coarse slow dc =
     (let dc' = push_bit 1 dc in if slow dc' then Some dc' else calib_coarse slow dc')"

text \<open>Stage 2: the lower bits, at most \<open>PRECISION\<close> of them, from the highest.\<close>

primrec calib_fine :: "(uint \<Rightarrow> bool) \<Rightarrow> nat \<Rightarrow> uint \<Rightarrow> uint \<Rightarrow> uint" where
  "calib_fine slow 0 calib_bit dc = dc"
| "calib_fine slow (Suc i) calib_bit dc =
     (let b = drop_bit 1 calib_bit in
      if b = 0 then dc
      else (let dc1 = dc OR b in
            calib_fine slow i b (if slow dc1 then dc1 AND NOT b else dc1)))"

definition calibrateDelayLoop ::
    "device \<Rightarrow> addr \<Rightarrow> (uint \<Rightarrow> bool) \<Rightarrow> 'a intr_scheme \<Rightarrow> (uint \<times> 'a intr_scheme) option" where
  "calibrateDelayLoop dev pit_delay_ISR slow s = do {
     s1 \<leftarrow> init_pit dev 11931 0 s;
     let s2 = set_vector pit_delay_ISR (ucast M_VEC) (D_INT + D_PRESENT + D_DPL3) s1;
     s3 \<leftarrow> enable_irq 0 s2;
     dc \<leftarrow> calib_coarse slow (delay_count s3);
     let dc1 = drop_bit 1 dc;
     let dc2 = calib_fine slow 8 dc1 dc1;
     s4 \<leftarrow> disable_irq 0 (s3\<lparr>delay_count := dc2\<rparr>);
     let s5 = s4\<lparr>delay_count := delay_count s4 div 10\<rparr>;
     (_, s6) \<leftarrow> getch dev (kputs (str ''calibration'') s5);
     Some (delay_count s6, s6) }"

section \<open>The calibration\<close>

lemma pow2_word_less: "i < 32 \<Longrightarrow> unat (2 ^ i :: uint) = 2 ^ i"
proof -
  assume "i < 32"
  then have "(2::nat) ^ i < 2 ^ 32" by (rule power_strict_increasing) simp
  then show ?thesis using unat_of_nat_small [of "2 ^ i"] by simp
qed

lemma clear_bit_free:
  assumes "2 ^ Suc i dvd d" "i < 32"
  shows "(of_nat d :: uint) AND 2 ^ i = 0"
proof -
  obtain q where "d = 2 * (2 ^ i * q)" using assms(1) by (auto simp: mult.assoc elim: dvdE)
  then have "\<not> bit d i" by (simp add: bit_iff_odd)
  then have "\<not> bit (of_nat d :: uint) i" by (simp add: bit_of_nat_iff)
  then show ?thesis by (simp add: and_exp_eq_0_iff_not_bit)
qed

lemma or_plus:
  assumes "2 ^ Suc i dvd d" "i < 32"
  shows "(of_nat d :: uint) OR 2 ^ i = of_nat (d + 2 ^ i)" "((of_nat d :: uint) OR 2 ^ i) AND NOT (2 ^ i) = of_nat d"
proof -
  note z = clear_bit_free [OF assms]
  show "(of_nat d :: uint) OR 2 ^ i = of_nat (d + 2 ^ i)"
    using z by (simp add: disjunctive_add_eq_or)
  have "((of_nat d :: uint) OR 2 ^ i) AND NOT (2 ^ i) = of_nat d AND NOT (2 ^ i)"
    by (simp add: bit.conj_disj_distrib2)
  also have "\<dots> = of_nat d"
  proof (rule bit_word_eqI)
    fix n
    show "bit ((of_nat d :: uint) AND NOT (2 ^ i)) n = bit (of_nat d :: uint) n"
      using z and_exp_eq_0_iff_not_bit [of "of_nat d :: uint" i]
      by (auto simp: bit_and_iff bit_not_iff bit_exp_iff dest: bit_imp_le_length)
  qed
  finally show "((of_nat d :: uint) OR 2 ^ i) AND NOT (2 ^ i) = of_nat d" .
qed

text \<open>A machine on which delays from \<open>T\<close> loops on are longer than a tick.\<close>

definition ticks_at :: "nat \<Rightarrow> (uint \<Rightarrow> bool)" where
  "ticks_at T n \<longleftrightarrow> T \<le> unat n"

lemma calib_coarse_pow:
  assumes "2 ^ k < T" "T \<le> 2 ^ 31"
  shows "\<exists>j. k \<le> j \<and> j < 31 \<and> calib_coarse (ticks_at T) (2 ^ k) = Some (2 ^ Suc j) \<and> 2 ^ j < T \<and> T \<le> 2 ^ Suc j"
  using assms(1)
proof (induction "31 - k" arbitrary: k)
  case 0
  then have "(2::nat) ^ 31 \<le> 2 ^ k" by (intro power_increasing) simp_all
  with assms(2) 0 show ?case by simp
next
  case (Suc n)
  then have k: "k < 31" by simp
  then have u: "unat (2 ^ Suc k :: uint) = 2 ^ Suc k" by (intro pow2_word_less) simp
  have p: "push_bit 1 (2 ^ k) = (2 ^ Suc k :: uint)" by (simp add: push_bit_eq_mult)
  show ?case
  proof (cases "T \<le> 2 ^ Suc k")
    case True
    then have "calib_coarse (ticks_at T) (2 ^ k) = Some (2 ^ Suc k)"
      by (subst calib_coarse.simps) (simp only: Let_def p ticks_at_def u if_True)
    with True Suc.prems k show ?thesis by blast
  next
    case False
    then have step: "calib_coarse (ticks_at T) (2 ^ k) = calib_coarse (ticks_at T) (2 ^ Suc k)"
      by (subst calib_coarse.simps) (simp only: Let_def p ticks_at_def u if_False)
    have n: "n = 31 - Suc k" using Suc.hyps(2) by simp
    obtain j where "Suc k \<le> j" "j < 31" "calib_coarse (ticks_at T) (2 ^ Suc k) = Some (2 ^ Suc j)"
      "2 ^ j < T" "T \<le> 2 ^ Suc j"
      using Suc.hyps(1) [of "Suc k"] n False by auto
    with step show ?thesis by (auto intro!: exI [of _ j])
  qed
qed

lemma calib_fine_bounds:
  "2 ^ i dvd d \<Longrightarrow> d < T \<Longrightarrow> T \<le> d + 2 ^ i \<Longrightarrow> i < 32 \<Longrightarrow> T \<le> 2 ^ 31 \<Longrightarrow>
   unat (calib_fine (ticks_at T) n (2 ^ i) (of_nat d)) < T \<and>
   T \<le> unat (calib_fine (ticks_at T) n (2 ^ i) (of_nat d)) + 2 ^ (i - n)"
proof (induction n arbitrary: i d)
  case 0
  then show ?case by (simp add: unat_of_nat_small)
next
  case (Suc n)
  show ?case
  proof (cases i)
    case 0
    then show ?thesis using Suc.prems by (simp add: unat_of_nat_small drop_bit_eq_div)
  next
    case (Suc l)
    then have b: "drop_bit 1 (2 ^ i) = (2 ^ l :: uint)" "(2 ^ l :: uint) \<noteq> 0"
      using Suc.prems(4) by (simp_all add: drop_bit_exp_eq del: power_Suc)
    have dvd: "2 ^ l dvd d" "2 ^ l dvd d + 2 ^ l" using Suc.prems(1) Suc by (auto dest: dvd_mult_left)
    have sum: "(2::nat) ^ i = 2 ^ l + 2 ^ l" using Suc by simp
    have small: "d + 2 ^ l < 4294967296"
      using Suc.prems(2,4,5) Suc power_strict_increasing [of l 31 "2::nat"] by simp
    have or: "of_nat d OR 2 ^ l = (of_nat (d + 2 ^ l) :: uint)"
      "of_nat (d + 2 ^ l) AND NOT (2 ^ l) = (of_nat d :: uint)"
      using or_plus [of l d] Suc.prems(1,4) Suc by simp_all
    have step: "calib_fine (ticks_at T) (Suc n) (2 ^ i) (of_nat d) =
        (if T \<le> d + 2 ^ l then calib_fine (ticks_at T) n (2 ^ l) (of_nat d)
         else calib_fine (ticks_at T) n (2 ^ l) (of_nat (d + 2 ^ l)))"
      unfolding calib_fine.simps b(1) Let_def or
      using b(2) by (simp only: ticks_at_def unat_of_nat_small [OF small] if_False split: if_split) blast
    have l: "l < 32" "i - Suc n = l - n" using Suc.prems(4) Suc by simp_all
    show ?thesis
    proof (cases "T \<le> d + 2 ^ l")
      case True
      then show ?thesis using Suc.IH [of l d, OF dvd(1) Suc.prems(2) True l(1) Suc.prems(5)] step l(2) by simp
    next
      case False
      then show ?thesis
        using Suc.IH [of l "d + 2 ^ l", OF dvd(2) _ _ l(1) Suc.prems(5)] step l(2) Suc.prems(3) sum by simp
    qed
  qed
qed

section \<open>The interrupt mask\<close>

lemma slaves_masked: "(m :: uint) AND 0xFF00 = 0xFF00 \<longleftrightarrow> (\<forall>k \<in> {8..<16}. bit m k)"
proof -
  have c: "(0xFF00 :: uint) = push_bit 8 (mask 8)" by (simp add: mask_eq_exp_minus_1 push_bit_eq_mult)
  have "bit m k" if "m AND push_bit 8 (mask 8) = push_bit 8 (mask 8)" "k \<in> {8..<16}" for k
  proof -
    have "bit (m AND push_bit 8 (mask 8)) k" using that by (auto simp: bit_simps)
    then show ?thesis by (simp add: bit_and_iff)
  qed
  moreover have "m AND push_bit 8 (mask 8) = push_bit 8 (mask 8)" if "\<forall>k \<in> {8..<16}. bit m k"
    by (rule bit_word_eqI) (use that in \<open>auto simp: bit_simps\<close>)
  ultimately show ?thesis unfolding c by blast
qed

lemma bit_clear: "bit ((m :: uint) AND NOT (push_bit i 1)) k \<longleftrightarrow> bit m k \<and> k \<noteq> i"
  by (auto simp: bit_and_iff bit_not_iff bit_exp_iff dest: bit_imp_le_length)

lemma bit_put: "i < 32 \<Longrightarrow> bit ((m :: uint) OR push_bit i 1) k \<longleftrightarrow> bit m k \<or> k = i"
  by (auto simp: bit_or_iff bit_exp_iff)

lemma write_masks_simps [simp]:
  "irq_mask (write_masks s) = irq_mask s" "IDT (write_masks s) = IDT s" "cs (write_masks s) = cs s"
  "io (write_masks s) = io s @ [Out8 M_IMR (ucast (irq_mask s)), Out8 S_IMR (ucast (drop_bit 8 (irq_mask s)))]"
proof -
  have a: "(ucast (w AND 0xFF) :: byte) = ucast w" for w :: uint
  proof -
    have "w AND 0xFF = take_bit 8 w" by (simp add: take_bit_eq_mask mask_eq_exp_minus_1)
    then show ?thesis by (simp only:) (rule bit_word_eqI, auto simp: bit_simps)
  qed
  show "io (write_masks s) = io s @ [Out8 M_IMR (ucast (irq_mask s)), Out8 S_IMR (ucast (drop_bit 8 (irq_mask s)))]"
    by (simp add: write_masks_def a)
qed (simp_all add: write_masks_def outportb_def)

lemma enable_irq_bits:
  assumes "n < 16"
  shows "\<exists>s'. enable_irq n s = Some s' \<and>
    (\<forall>k. bit (irq_mask s') k \<longleftrightarrow> bit (irq_mask s) k \<and> k \<noteq> unat n \<and> \<not> (8 \<le> unat n \<and> k = 2)) \<and>
    io s' = io s @ [Out8 M_IMR (ucast (irq_mask s')), Out8 S_IMR (ucast (drop_bit 8 (irq_mask s')))]"
proof -
  define m where "m = (if 8 \<le> n then (irq_mask s AND NOT (push_bit (unat n) 1)) AND NOT (push_bit 2 1)
    else irq_mask s AND NOT (push_bit (unat n) 1))"
  have "n < 32" using assms by (rule order.strict_trans) simp
  then have "enable_irq n s = Some (write_masks (s\<lparr>irq_mask := m\<rparr>))"
    by (simp only: enable_irq_def Let_def m_def if_True)
  moreover have "bit m k \<longleftrightarrow> bit (irq_mask s) k \<and> k \<noteq> unat n \<and> \<not> (8 \<le> unat n \<and> k = 2)" for k
    unfolding m_def word_le_nat_alt by (cases "8 \<le> unat n") (auto simp: bit_clear simp del: push_bit_of_1)
  ultimately show ?thesis by simp
qed

lemma disable_irq_bits:
  assumes "n < 16"
  shows "\<exists>s'. disable_irq n s = Some s' \<and>
    (\<forall>k. bit (irq_mask s') k \<longleftrightarrow> bit (irq_mask s) k \<or> k = unat n \<or>
       k = 2 \<and> (\<forall>j \<in> {8..<16}. bit (irq_mask s) j \<or> j = unat n)) \<and>
    io s' = io s @ [Out8 M_IMR (ucast (irq_mask s')), Out8 S_IMR (ucast (drop_bit 8 (irq_mask s')))]"
proof -
  define m1 where "m1 = irq_mask s OR push_bit (unat n) 1"
  define m where "m = (if m1 AND 0xFF00 = 0xFF00 then m1 OR push_bit 2 1 else m1)"
  have "n < 32" using assms by (rule order.strict_trans) simp
  then have "disable_irq n s = Some (write_masks (s\<lparr>irq_mask := m\<rparr>))"
    by (simp only: disable_irq_def Let_def m_def m1_def if_True)
  moreover have n: "unat n < 32" using \<open>n < 32\<close> by (simp add: word_less_nat_alt)
  moreover have "bit m k \<longleftrightarrow> bit (irq_mask s) k \<or> k = unat n \<or>
      k = 2 \<and> (\<forall>j \<in> {8..<16}. bit (irq_mask s) j \<or> j = unat n)" for k
    unfolding m_def slaves_masked unfolding m1_def using n
    by (auto simp: bit_put simp del: push_bit_of_1)
  ultimately show ?thesis by simp
qed

datatype irq_op = Enable half | Disable half

primrec irq_do :: "irq_op \<Rightarrow> 'a intr_scheme \<Rightarrow> 'a intr_scheme option" where
  "irq_do (Enable n) = enable_irq n"
| "irq_do (Disable n) = disable_irq n"

primrec irq_run :: "irq_op list \<Rightarrow> 'a intr_scheme \<Rightarrow> 'a intr_scheme option" where
  "irq_run [] s = Some s"
| "irq_run (a # as) s = Option.bind (irq_do a s) (irq_run as)"

text \<open>The lines asked for; line 2 is the cascade and not a line of its own.\<close>

primrec irq_line :: "irq_op \<Rightarrow> half" where
  "irq_line (Enable n) = n"
| "irq_line (Disable n) = n"

primrec wanted1 :: "irq_op \<Rightarrow> nat set \<Rightarrow> nat set" where
  "wanted1 (Enable n) L = insert (unat n) L"
| "wanted1 (Disable n) L = L - {unat n}"

abbreviation wanted :: "irq_op list \<Rightarrow> nat set \<Rightarrow> nat set" where
  "wanted \<equiv> fold wanted1"

definition mask_shows :: "'a intr_scheme \<Rightarrow> nat set \<Rightarrow> bool" where
  "mask_shows s L \<longleftrightarrow> (\<forall>k < 16. k \<noteq> 2 \<longrightarrow> (\<not> bit (irq_mask s) k \<longleftrightarrow> k \<in> L)) \<and>
     (\<not> bit (irq_mask s) 2 \<longleftrightarrow> (\<exists>k \<in> L. 8 \<le> k \<and> k < 16))"

definition masks_written :: "'a intr_scheme \<Rightarrow> bool" where
  "masks_written s \<longleftrightarrow> (\<exists>h. io s = h @ [Out8 M_IMR (ucast (irq_mask s)), Out8 S_IMR (ucast (drop_bit 8 (irq_mask s)))])"

lemma irq_do_shows:
  assumes "mask_shows s L" "irq_line a < 16" "irq_line a \<noteq> 2"
  shows "\<exists>s'. irq_do a s = Some s' \<and> mask_shows s' (wanted1 a L) \<and> masks_written s'"
proof -
  have n: "unat (irq_line a) < 16" "unat (irq_line a) \<noteq> 2"
    using assms(2,3) by (auto simp: word_less_nat_alt word_unat_eq_iff)
  show ?thesis
  proof (cases a)
    case (Enable m)
    then show ?thesis
      using enable_irq_bits [of m s] assms n by (auto simp: mask_shows_def masks_written_def)
  next
    case (Disable m)
    note L = assms(1) [unfolded mask_shows_def]
    obtain s' where s': "disable_irq m s = Some s'" "masks_written s'"
      "\<And>k. bit (irq_mask s') k \<longleftrightarrow> bit (irq_mask s) k \<or> k = unat m \<or>
         k = 2 \<and> (\<forall>j \<in> {8..<16}. bit (irq_mask s) j \<or> j = unat m)"
      using disable_irq_bits [of m s] assms(2) Disable by (auto simp: masks_written_def)
    have "bit (irq_mask s) k \<longleftrightarrow> k \<notin> L" if "k \<in> {8..<16}" for k using conjunct1 [OF L] that by auto
    then have "(\<forall>j \<in> {8..<16}. bit (irq_mask s) j \<or> j = unat m) \<longleftrightarrow>
        \<not> (\<exists>k \<in> L - {unat m}. 8 \<le> k \<and> k < 16)"
      unfolding Bex_def Diff_iff atLeastLessThan_iff [symmetric] by blast
    then have "\<not> bit (irq_mask s') 2 \<longleftrightarrow> (\<exists>k \<in> L - {unat m}. 8 \<le> k \<and> k < 16)"
      using s'(3) [of 2] L n(2) Disable by auto
    moreover have "\<forall>k < 16. k \<noteq> 2 \<longrightarrow> (\<not> bit (irq_mask s') k \<longleftrightarrow> k \<in> L - {unat m})"
      using s'(3) L by auto
    ultimately show ?thesis using s'(1,2) Disable by (auto simp: mask_shows_def)
  qed
qed

section \<open>The descriptor table\<close>

definition gate_offset :: "x86_gate \<Rightarrow> addr" where
  "gate_offset g = ucast (offset_low g) OR push_bit 16 (ucast (offset_high g))"

lemma gate_offset_split:
  "(ucast (ucast (a AND 0xffff) :: half) :: addr) OR push_bit 16 (ucast (ucast (drop_bit 16 (a :: addr)) :: half)) = a"
proof -
  have "a AND 0xffff = take_bit 16 a" by (simp add: take_bit_eq_mask mask_eq_exp_minus_1)
  then show ?thesis by (simp only:) (rule bit_word_eqI, auto simp: bit_simps)
qed

lemma fold_set_vector:
  "list_all (\<lambda>n. n < 256) ns \<Longrightarrow> length (IDT s) = 256 \<Longrightarrow>
   (let s' = fold (\<lambda>n. set_vector (h n) (of_nat n) ctl) ns s in
    cs s' = cs s \<and> length (IDT s') = 256 \<and>
    (\<forall>v < 256. IDT s' ! v = (if v \<in> set ns then \<lparr>offset_low = ucast (h v AND 0xffff), selector = cs s,
       access = ctl, offset_high = ucast (drop_bit 16 (h v))\<rparr> else IDT s ! v)))"
proof (induction ns arbitrary: s)
  case (Cons n ns)
  have "unat (of_nat n :: byte) = n" using Cons.prems by (simp add: unat_of_nat)
  then show ?case
    using Cons.prems Cons.IH [of "set_vector (h n) (of_nat n) ctl s"]
    by (auto simp: Let_def set_vector_def nth_list_update)
qed simp

lemma irq_run_shows:
  "mask_shows s L \<Longrightarrow> list_all (\<lambda>a. irq_line a < 16 \<and> irq_line a \<noteq> 2) as \<Longrightarrow>
   \<exists>s'. irq_run as s = Some s' \<and> mask_shows s' (wanted as L) \<and> (as \<noteq> [] \<longrightarrow> masks_written s')"
proof (induction as arbitrary: s L)
  case (Cons a as)
  obtain s1 where "irq_do a s = Some s1" "mask_shows s1 (wanted1 a L)" "masks_written s1"
    using irq_do_shows [of s L a] Cons.prems by auto
  moreover from this Cons.IH [of s1 "wanted1 a L"] Cons.prems obtain s' where
    "irq_run as s1 = Some s'" "mask_shows s' (wanted as (wanted1 a L))" "as \<noteq> [] \<longrightarrow> masks_written s'" by auto
  ultimately show ?case by (cases as) auto
qed simp

lemma mask_shows_all_off: "irq_mask s = 0xFFFF \<Longrightarrow> mask_shows s {}"
proof -
  assume "irq_mask s = 0xFFFF"
  then have "irq_mask s = mask 16" by (simp add: mask_eq_exp_minus_1)
  then show ?thesis by (simp add: mask_shows_def bit_mask_iff)
qed

section \<open>The result of a calibration\<close>

lemma delay_count_frame:
  "delay_count (kputs t s) = delay_count s" "delay_count (outportb p v s) = delay_count s"
  "delay_count (write_masks s) = delay_count s" "delay_count (set_vector a b c s) = delay_count s"
  using outputs_kputs [of s t]
  by (auto simp: outputs_def outportb_def write_masks_def set_vector_def)

lemma delay_count_getch: "getch dev s = Some (c, s') \<Longrightarrow> delay_count s' = delay_count s"
  using getch_reads [of dev s "(c, s')"] by (auto simp: reads_def)

lemma delay_count_irq:
  "enable_irq n s = Some s' \<Longrightarrow> delay_count s' = delay_count s"
  "disable_irq n s = Some s' \<Longrightarrow> delay_count s' = delay_count s"
  by (auto simp: enable_irq_def disable_irq_def Let_def delay_count_frame split: if_splits)

lemma delay_count_pit: "init_pit dev t c s = Some s' \<Longrightarrow> delay_count s' = delay_count s"
  by (auto simp: init_pit_def delay_count_frame split: bind_splits dest!: delay_count_getch
    simp del: kputs.simps str_simps)

lemma calibrate_result:
  assumes "calibrateDelayLoop dev isr slow s = Some (r, s')"
  shows "\<exists>dc. calib_coarse slow (delay_count s) = Some dc \<and>
    r = calib_fine slow 8 (drop_bit 1 dc) (drop_bit 1 dc) div 10"
  using assms
  by (auto simp: calibrateDelayLoop_def delay_count_frame Let_def split: bind_splits
    dest!: delay_count_getch delay_count_pit delay_count_irq simp del: kputs.simps str_simps)

section \<open>Properties\<close>


text \<open>
  C24: \<open>InitIDT\<close> points every vector except 11 at its handler, with a present interrupt gate open to ring 3 in
  the kernel's code segment, and turns interrupts on. Vector 11, whose handler exists, keeps the
  descriptor it had.
\<close>

theorem InitIDT_sets_vectors:
  assumes "length (IDT s) = 256"
  shows "(\<forall>v < 256. v \<noteq> 11 \<longrightarrow> (let g = IDT (InitIDT hs int_null a s) ! v in
      gate_offset g = (if v \<le> 16 then hs v else int_null) \<and> access g = 0xEE00 \<and> selector g = cs s)) \<and>
    IDT (InitIDT hs int_null a s) ! 11 = IDT s ! 11 \<and> iflag (InitIDT hs int_null a s) \<and>
    idtr (InitIDT hs int_null a s) = Some (2047, a)"
proof -
  let ?ns = "[0, 1, 2, 3, 4, 5, 6, 7, 8, 9, 10, 12, 13, 14, 15, 16] :: nat list"
  define s1 where "s1 = fold (\<lambda>n. set_vector int_null (of_nat n) 0xEE00) [16..<256] s"
  define s2 where "s2 = fold (\<lambda>n. set_vector (hs n) (of_nat n) 0xEE00) ?ns s1"
  have init: "InitIDT hs int_null a s = s2\<lparr>idtr := Some (2047, a), nt_flag := False, iflag := True\<rparr>"
    by (simp add: InitIDT_def Let_def s1_def s2_def del: fold_simps upt_conv_Cons)
  have le: "list_all (\<lambda>n. n < 256) [16..<256]" unfolding list_all_iff set_upt by simp
  note f1 = fold_set_vector [OF le assms, where h = "\<lambda>_. int_null" and ctl = "0xEE00",
    folded s1_def, unfolded Let_def set_upt]
  then have s1: "cs s1 = cs s" "length (IDT s1) = 256" "IDT s1 ! 11 = IDT s ! 11"
    "\<And>v. 16 \<le> v \<Longrightarrow> v < 256 \<Longrightarrow> IDT s1 ! v = \<lparr>offset_low = ucast (int_null AND 0xffff), selector = cs s,
       access = 0xEE00, offset_high = ucast (drop_bit 16 int_null)\<rparr>"
    by simp_all
  have "?ns = filter (\<lambda>v. v \<noteq> 11) [0..<17]" by (simp add: upt_conv_Cons)
  then have mem: "v \<in> set ?ns \<longleftrightarrow> v \<le> 16 \<and> v \<noteq> 11" for v by (simp only: set_filter set_upt) auto
  have le2: "list_all (\<lambda>n. n < 256) ?ns" by simp
  note f2 = fold_set_vector [OF le2 s1(2), where h = hs and ctl = "0xEE00", folded s2_def, unfolded Let_def mem]
  then have s2: "v < 256 \<Longrightarrow> IDT s2 ! v = (if v \<le> 16 \<and> v \<noteq> 11 then \<lparr>offset_low = ucast (hs v AND 0xffff), selector = cs s,
       access = 0xEE00, offset_high = ucast (drop_bit 16 (hs v))\<rparr> else IDT s1 ! v)" for v
    unfolding s1(1) by blast
  show ?thesis
    using s2 s1(3,4) gate_offset_split by (auto simp add: init Let_def gate_offset_def)
qed

text \<open>
  C25: calibration terminates on every machine whose tick takes between 3 and \<open>2 ^ 31\<close> loops, and
  what stage 2 leaves in \<open>delay_count\<close> is the largest count below a tick up to 1 part in 256: one delay of it is
  shorter than a tick, one of \<open>max 1 (dc div 256)\<close> more is not, where \<open>dc\<close> is the power of
  two that stage 1 found. A run of \<open>calibrateDelayLoop\<close> that returns delivers a tenth of it.
\<close>

theorem calibration_precise:
  assumes "2 < T" "T \<le> 2 ^ 31"
  shows "\<exists>dc. calib_coarse (ticks_at T) 1 = Some (push_bit 1 dc) \<and>
    (let d = calib_fine (ticks_at T) 8 dc dc in
     unat d < T \<and> T \<le> unat d + max 1 (unat dc div 256) \<and>
     (delay_count s = 1 \<longrightarrow> calibrateDelayLoop dev isr (ticks_at T) s = Some (r, s') \<longrightarrow> r = d div 10))"
proof -
  obtain j where j: "j < 31" "calib_coarse (ticks_at T) 1 = Some (2 ^ Suc j)" "2 ^ j < T" "T \<le> 2 ^ Suc j"
    using calib_coarse_pow [of 0 T] assms by auto
  define dc :: uint where "dc = 2 ^ j"
  have dc: "push_bit 1 dc = 2 ^ Suc j" "drop_bit 1 (2 ^ Suc j) = dc" "unat dc = 2 ^ j" "dc = of_nat (2 ^ j)"
    using j(1) by (simp_all add: dc_def push_bit_eq_mult drop_bit_exp_eq pow2_word_less del: power_Suc) simp
  define d where "d = calib_fine (ticks_at T) 8 dc dc"
  have "(2::nat) ^ (j - 8) \<le> max 1 (unat dc div 256)"
    using power_diff [of "2::nat" 8 j] dc(3) by (cases "8 \<le> j") simp_all
  then have "unat d < T \<and> T \<le> unat d + max 1 (unat dc div 256)"
    using calib_fine_bounds [of j "2 ^ j" T 8] j assms(2) dc(4) by (simp add: d_def dc_def)
  moreover have "r = d div 10"
    if "delay_count s = 1" "calibrateDelayLoop dev isr (ticks_at T) s = Some (r, s')"
    using calibrate_result [OF that(2)] that(1) j(2) dc(2) by (auto simp: d_def)
  ultimately show ?thesis using j(2) dc(1) by (auto simp: d_def Let_def intro!: exI [of _ dc])
qed

section \<open>Witnesses\<close>

definition no_gate :: x86_gate where
  "no_gate = \<lparr>offset_low = 0, selector = 0, access = 0, offset_high = 0\<rparr>"

definition demo_intr :: intr where
  "demo_intr = kbd.extend (demo_kbd (\<lambda>_. 0))
     \<lparr>irq_mask = 0xFFFF, IDT = replicate 256 no_gate, idtr = None, cs = 8, nt_flag = True, delay_count = 1\<rparr>"

lemma demo_intr_simps [simp]:
  "irq_mask demo_intr = 0xFFFF" "IDT demo_intr = replicate 256 no_gate" "cs demo_intr = 8" "delay_count demo_intr = 1"
  by (simp_all add: demo_intr_def kbd.defs demo_kbd_def)


theorem InitIDT_sets_vectors_witness:
  "gate_offset (IDT (InitIDT (\<lambda>n. 0x100000 + of_nat n) 0x200000 0x300000 demo_intr) ! 14) = 0x10000E \<and>
   gate_offset (IDT (InitIDT (\<lambda>n. 0x100000 + of_nat n) 0x200000 0x300000 demo_intr) ! 200) = 0x200000 \<and>
   IDT (InitIDT (\<lambda>n. 0x100000 + of_nat n) 0x200000 0x300000 demo_intr) ! 11 = no_gate"
proof -
  note I = InitIDT_sets_vectors [of demo_intr "\<lambda>n. 0x100000 + of_nat n" "0x200000" "0x300000", unfolded Let_def]
  have "length (IDT demo_intr) = 256" by simp
  note J = I [OF this]
  from conjunct1 [OF J, rule_format, of 14] conjunct1 [OF J, rule_format, of 200] conjunct2 [OF J]
  show ?thesis by simp
qed

theorem calibration_precise_witness:
  "\<exists>dc. calib_coarse (ticks_at 1000) 1 = Some (push_bit 1 dc) \<and>
    (let d = calib_fine (ticks_at 1000) 8 dc dc in unat d < 1000 \<and> 1000 \<le> unat d + max 1 (unat dc div 256))"
  using calibration_precise [of 1000 demo_intr "\<lambda>_ _. 0" 0 0 demo_intr] unfolding Let_def by auto

end
