(* ===== verification/Disk.thy ===== *)
theory Disk
  imports Interrupts
begin

text \<open>
  The IDE driver, \<open>drivers/hd.c\<close> and \<open>include/hd.h\<close>. The drive is the device that answers
  on the ports; what the driver relies on is stated as \<open>ata_reads\<close>, the register-level contract of the
  READ SECTORS command. \<open>IDE_ERR_NOERROR\<close> is 1 and \<open>IDE_ERR_IO_ERROR\<close> is -1, as in the header.
\<close>

section \<open>hd.h\<close>

abbreviation IDE_DEVICE_CONTROL :: uint where "IDE_DEVICE_CONTROL \<equiv> 0x3F6"
abbreviation IDE_DATA_PORT :: uint where "IDE_DATA_PORT \<equiv> 0x1F0"
abbreviation IDE_ERROR_REG :: uint where "IDE_ERROR_REG \<equiv> 0x1F1"
abbreviation IDE_FEATURE_REG :: uint where "IDE_FEATURE_REG \<equiv> 0x1F1"
abbreviation IDE_SECTOR_COUNT :: uint where "IDE_SECTOR_COUNT \<equiv> 0x1F2"
abbreviation IDE_SECTOR_NUMBER :: uint where "IDE_SECTOR_NUMBER \<equiv> 0x1F3"
abbreviation IDE_CYLINDER_LOW :: uint where "IDE_CYLINDER_LOW \<equiv> 0x1F4"
abbreviation IDE_CYLINDER_HIGH :: uint where "IDE_CYLINDER_HIGH \<equiv> 0x1F5"
abbreviation IDE_DRIVE_HEAD :: uint where "IDE_DRIVE_HEAD \<equiv> 0x1F6"
abbreviation IDE_COMMAND :: uint where "IDE_COMMAND \<equiv> 0x1F7"
abbreviation IDE_STATUS :: uint where "IDE_STATUS \<equiv> 0x1F7"
abbreviation IDE_CMD_DIAGNOSTIC :: uint where "IDE_CMD_DIAGNOSTIC \<equiv> 0x90"
abbreviation IDE_CMD_IDENT_DRIVE :: uint where "IDE_CMD_IDENT_DRIVE \<equiv> 0xEC"
abbreviation IDE_CMD_READ_SECTORS_RETRY :: uint where "IDE_CMD_READ_SECTORS_RETRY \<equiv> 0x20"
abbreviation IDE_CMD_WRITE_SECTORS_RETRY :: uint where "IDE_CMD_WRITE_SECTORS_RETRY \<equiv> 0x30"
abbreviation IDE_CMD_ATAPI_IDENT_DRIVE :: uint where "IDE_CMD_ATAPI_IDENT_DRIVE \<equiv> 0xA1"
abbreviation IDE_DCR_NOINTERRUPT :: uint where "IDE_DCR_NOINTERRUPT \<equiv> 0x02"
abbreviation IDE_DCR_RESET :: uint where "IDE_DCR_RESET \<equiv> 0x04"
abbreviation IDE_STATUS_BUSY :: uint where "IDE_STATUS_BUSY \<equiv> 0x80"
abbreviation IDE_STATUS_DATA_REQUEST :: uint where "IDE_STATUS_DATA_REQUEST \<equiv> 0x08"
abbreviation IDE_STATUS_ERROR :: uint where "IDE_STATUS_ERROR \<equiv> 0x01"
abbreviation IDE_DRIVE0 :: uint where "IDE_DRIVE0 \<equiv> 0xE0"
abbreviation IDE_DRIVE1 :: uint where "IDE_DRIVE1 \<equiv> 0xF0"
abbreviation IDE_ERR_NOERROR :: int where "IDE_ERR_NOERROR \<equiv> 1"
abbreviation IDE_ERR_DRIVE_NOT_FOUND :: int where "IDE_ERR_DRIVE_NOT_FOUND \<equiv> -1"
abbreviation IDE_ERR_IO_ERROR :: int where "IDE_ERR_IO_ERROR \<equiv> -1"

definition LBA_LOW_BYTE :: "uint \<Rightarrow> uint" where "LBA_LOW_BYTE x = x AND 0xFF"
definition LBA_HIGH_BYTE :: "uint \<Rightarrow> uint" where "LBA_HIGH_BYTE x = drop_bit 8 x AND 0xFF"
definition LBA_EXTENDED_LOW_BYTE :: "uint \<Rightarrow> uint" where "LBA_EXTENDED_LOW_BYTE x = drop_bit 16 x AND 0xFF"
definition LBA_EXTENDED_HIGH_BYTE :: "uint \<Rightarrow> uint" where
  "LBA_EXTENDED_HIGH_BYTE x = (drop_bit 24 x AND 0xFF) AND 0x0F"

record ide_drive_info =
  num_cylinders :: half
  num_heads :: half
  num_sectors_per_track :: half
  num_bytes_per_sector :: half

record disk = intr +
  num_ide_drives :: int
  ide_drive :: "ide_drive_info list"

section \<open>hd.c\<close>

definition ide_wait :: "device \<Rightarrow> 'a machine_scheme \<Rightarrow> 'a machine_scheme option" where
  "ide_wait dev s = poll dev IDE_STATUS (\<lambda>v. v AND IDE_STATUS_BUSY \<noteq> 0) s"

definition ide_setup :: "int \<Rightarrow> uint \<Rightarrow> uint \<Rightarrow> 'a machine_scheme \<Rightarrow> 'a machine_scheme" where
  "ide_setup drive_num lba num_sectors s =
     (let s1 = outportb IDE_SECTOR_COUNT num_sectors s;
          s2 = outportb IDE_SECTOR_NUMBER (LBA_LOW_BYTE lba) s1;
          s3 = outportb IDE_CYLINDER_LOW (LBA_HIGH_BYTE lba) s2;
          s4 = outportb IDE_CYLINDER_HIGH (LBA_EXTENDED_LOW_BYTE lba) s3
      in if drive_num = 0 then outportb IDE_DRIVE_HEAD (IDE_DRIVE0 OR LBA_EXTENDED_HIGH_BYTE lba) s4
         else if drive_num = 1 then outportb IDE_DRIVE_HEAD (IDE_DRIVE1 OR LBA_EXTENDED_HIGH_BYTE lba) s4
         else s4)"

primrec rd_words :: "device \<Rightarrow> nat \<Rightarrow> addr \<Rightarrow> 'a machine_scheme \<Rightarrow> 'a machine_scheme" where
  "rd_words dev 0 p s = s"
| "rd_words dev (Suc n) p s =
     (let (v, s1) = inportw dev IDE_DATA_PORT s
      in rd_words dev n (p + 2) (s1\<lparr>mem := st16 p (ucast v) (mem s1)\<rparr>))"

definition read_sector ::
    "device \<Rightarrow> addr \<Rightarrow> int \<Rightarrow> uint \<Rightarrow> uint \<Rightarrow> 'a machine_scheme \<Rightarrow> (int \<times> 'a machine_scheme) option" where
  "read_sector dev buf drive_num lba num_sectors s = do {
     s1 \<leftarrow> ide_wait dev (outportb IDE_COMMAND IDE_CMD_READ_SECTORS_RETRY (ide_setup drive_num lba num_sectors s));
     let (st, s2) = inportb dev IDE_STATUS s1;
     if st AND IDE_STATUS_ERROR \<noteq> 0 then Some (IDE_ERR_IO_ERROR, s2)
     else Some (IDE_ERR_NOERROR, rd_words dev (unat (256 * num_sectors)) buf s2) }"

text \<open>
  \<open>write_sector\<close> calls \<open>outportw\<close> with the port alone and stores what the call returns: \<open>junk i\<close> is
  what the callee finds in place of its second argument in round \<open>i\<close>, \<open>ret i\<close> what the call
  leaves in \<open>eax\<close>.
\<close>

primrec wr_words ::
    "(nat \<Rightarrow> uint) \<Rightarrow> (nat \<Rightarrow> uint) \<Rightarrow> nat \<Rightarrow> nat \<Rightarrow> addr \<Rightarrow> 'a machine_scheme \<Rightarrow> 'a machine_scheme" where
  "wr_words junk ret 0 i p s = s"
| "wr_words junk ret (Suc n) i p s =
     (let s1 = outportw IDE_DATA_PORT (junk i) s
      in wr_words junk ret n (Suc i) (p + 2) (s1\<lparr>mem := st16 p (ucast (ret i)) (mem s1)\<rparr>))"

definition write_sector ::
    "(nat \<Rightarrow> uint) \<Rightarrow> (nat \<Rightarrow> uint) \<Rightarrow> device \<Rightarrow> addr \<Rightarrow> int \<Rightarrow> uint \<Rightarrow> uint \<Rightarrow> 'a machine_scheme \<Rightarrow>
     (int \<times> 'a machine_scheme) option" where
  "write_sector junk ret dev buf drive_num lba num_sectors s = do {
     s1 \<leftarrow> ide_wait dev (outportb IDE_COMMAND IDE_CMD_WRITE_SECTORS_RETRY (ide_setup drive_num lba num_sectors s));
     s2 \<leftarrow> ide_wait dev (wr_words junk ret (unat (256 * num_sectors)) 0 buf s1);
     let (st, s3) = inportb dev IDE_STATUS s2;
     Some (if st AND IDE_STATUS_ERROR \<noteq> 0 then IDE_ERR_IO_ERROR else IDE_ERR_NOERROR, s3) }"

primrec ident_words :: "device \<Rightarrow> nat \<Rightarrow> 'a machine_scheme \<Rightarrow> half list \<times> 'a machine_scheme" where
  "ident_words dev 0 s = ([], s)"
| "ident_words dev (Suc n) s =
     (let (v, s1) = inportw dev IDE_DATA_PORT s; (ws, s2) = ident_words dev n s1 in (ucast v # ws, s2))"

definition probe_drive :: "device \<Rightarrow> nat \<Rightarrow> 'a disk_scheme \<Rightarrow> 'a disk_scheme option" where
  "probe_drive dev drive s =
     (let head = (if drive = 0 then IDE_DRIVE0 else IDE_DRIVE1) in do {
        s1 \<leftarrow> ide_wait dev (outportb IDE_COMMAND IDE_CMD_IDENT_DRIVE (outportb IDE_DRIVE_HEAD head s));
        let (status, s2) = inportb dev IDE_STATUS s1;
        if status AND IDE_STATUS_DATA_REQUEST \<noteq> 0 then do {
          let (buffer, s3) = ident_words dev 256 s2;
          Some (s3\<lparr>ide_drive := (ide_drive s3)[drive :=
              \<lparr>num_cylinders = buffer ! 1, num_heads = buffer ! 3,
               num_sectors_per_track = buffer ! 6, num_bytes_per_sector = buffer ! 5\<rparr>],
            num_ide_drives := num_ide_drives s3 + 1\<rparr>) }
        else do {
          s3 \<leftarrow> ide_wait dev (outportb IDE_COMMAND IDE_CMD_ATAPI_IDENT_DRIVE
                 (outportb IDE_DRIVE_HEAD head (outportb IDE_FEATURE_REG 0 s2)));
          Some (snd (inportb dev IDE_STATUS s3)) } })"

definition probe_ide_drives :: "device \<Rightarrow> 'a disk_scheme \<Rightarrow> (int \<times> 'a disk_scheme) option" where
  "probe_ide_drives dev s = do {
     s1 \<leftarrow> probe_drive dev 0 (s\<lparr>num_ide_drives := 0\<rparr>);
     s2 \<leftarrow> probe_drive dev 1 s1;
     Some (if num_ide_drives s2 = 0 then IDE_ERR_DRIVE_NOT_FOUND else 0, s2) }"

definition init_ide :: "device \<Rightarrow> 'a machine_scheme \<Rightarrow> 'a machine_scheme option" where
  "init_ide dev s = do {
     s1 \<leftarrow> ide_wait dev (outportb IDE_DEVICE_CONTROL IDE_DCR_NOINTERRUPT
            (outportb IDE_DEVICE_CONTROL (IDE_DCR_NOINTERRUPT OR IDE_DCR_RESET) s));
     s2 \<leftarrow> ide_wait dev (outportb IDE_COMMAND IDE_CMD_DIAGNOSTIC s1);
     Some (snd (inportb dev IDE_ERROR_REG s2)) }"

section \<open>The loops\<close>

definition word_bytes :: "uint \<Rightarrow> byte list" where
  "word_bytes w = [ucast w, ucast (drop_bit 8 w)]"

lemma st16_bytes: "st16 p (ucast w) m = st_bytes p (word_bytes (w :: uint)) m"
proof -
  have "(ucast (drop_bit 8 (ucast w :: half)) :: byte) = ucast (drop_bit 8 w)"
    by (rule bit_word_eqI) (auto simp: bit_simps)
  moreover have "(ucast (ucast w :: half) :: byte) = ucast w"
    by (rule bit_word_eqI) (auto simp: bit_simps)
  ultimately show ?thesis by (simp add: st16_def word_bytes_def)
qed

lemma length_word_bytes: "length (concat (map word_bytes ws)) = 2 * length ws"
  by (induction ws) (simp_all add: word_bytes_def)

lemma rd_words_trace:
  "answers dev (io s) (map (In16 IDE_DATA_PORT) ws) \<Longrightarrow>
   rd_words dev (length ws) p s =
     s\<lparr>io := io s @ map (In16 IDE_DATA_PORT) ws, mem := st_bytes p (concat (map word_bytes ws)) (mem s)\<rparr>"
proof (induction ws arbitrary: p s)
  case Nil
  show ?case by (cases s) simp
next
  case (Cons w ws)
  let ?s1 = "s\<lparr>io := io s @ [In16 IDE_DATA_PORT w], mem := st_bytes p (word_bytes w) (mem s)\<rparr>"
  have "rd_words dev (length (w # ws)) p s = rd_words dev (length ws) (p + 2) ?s1"
    using Cons.prems by (simp add: inportw_def Let_def st16_bytes)
  also have "\<dots> = ?s1\<lparr>io := io ?s1 @ map (In16 IDE_DATA_PORT) ws,
      mem := st_bytes (p + 2) (concat (map word_bytes ws)) (mem ?s1)\<rparr>"
    using Cons.prems by (intro Cons.IH) simp
  also have "\<dots> = s\<lparr>io := io s @ map (In16 IDE_DATA_PORT) (w # ws),
      mem := st_bytes p (concat (map word_bytes (w # ws))) (mem s)\<rparr>"
    by (simp add: st_bytes_append word_bytes_def add.commute)
  finally show ?case .
qed

lemma wr_words_io:
  "io (wr_words junk ret n i p s) = io s @ map (\<lambda>k. Out16 IDE_DATA_PORT (ucast (junk k))) [i..<i + n]"
  by (induction n arbitrary: i p s) (simp_all add: upt_conv_Cons outportw_def del: upt_Suc)

section \<open>The drive\<close>

text \<open>What the registers of the command block address.\<close>

definition reg_lba :: "byte \<Rightarrow> byte \<Rightarrow> byte \<Rightarrow> byte \<Rightarrow> nat" where
  "reg_lba l m x d = unat l + 256 * unat m + 65536 * unat x + 16777216 * (unat d mod 16)"

definition reg_count :: "byte \<Rightarrow> nat" where
  "reg_count c = (if c = 0 then 256 else unat c)"

definition reg_drive :: "byte \<Rightarrow> int" where
  "reg_drive d = of_bool (bit d 4)"

definition command_block :: "byte \<Rightarrow> byte \<Rightarrow> byte \<Rightarrow> byte \<Rightarrow> byte \<Rightarrow> byte \<Rightarrow> io_event list" where
  "command_block c l m x d cmd = [Out8 0x1F2 c, Out8 0x1F3 l, Out8 0x1F4 m, Out8 0x1F5 x, Out8 0x1F6 d, Out8 0x1F7 cmd]"

text \<open>
  READ SECTORS in LBA mode, as the ATA documents have it. The drive is busy for a while and then reports no error, with
  \<open>DRQ\<close> set; and whenever its status shows \<open>BSY\<close> clear and \<open>DRQ\<close> set after \<open>i\<close> sectors have been read, it delivers
  the next sector, two bytes at a time. Between two sectors it may be busy for as long as it likes, and what the data
  register holds then is not specified.
\<close>

definition drq :: "device \<Rightarrow> io_event list \<Rightarrow> bool" where
  "drq dev h \<longleftrightarrow> dev h 0x1F7 AND 0x88 = 0x08"

abbreviation data_words :: "uint list \<Rightarrow> io_event list" where
  "data_words ws \<equiv> map (In16 0x1F0) ws"

definition ata_reads :: "device \<Rightarrow> (int \<Rightarrow> nat \<Rightarrow> byte list) \<Rightarrow> bool" where
  "ata_reads dev disk \<longleftrightarrow> (\<forall>h c l m x d. bit d 6 \<longrightarrow>
     (\<exists>vs w st wss. list_all (\<lambda>v. v AND 0x80 \<noteq> 0) vs \<and> w AND 0x80 = 0 \<and> st AND 1 = 0 \<and> length wss = reg_count c \<and>
        (\<forall>i < reg_count c. length (wss ! i) = 256 \<and>
           concat (map word_bytes (wss ! i)) = disk (reg_drive d) (reg_lba l m x d + i)) \<and>
        (let h0 = h @ command_block c l m x d 0x20; h1 = h0 @ map (In8 0x1F7) (vs @ [w]) @ [In8 0x1F7 st] in
         answers dev h0 (map (In8 0x1F7) (vs @ [w]) @ [In8 0x1F7 st]) \<and> drq dev h1 \<and>
         (\<forall>i < reg_count c. drq dev (h1 @ data_words (concat (take i wss))) \<longrightarrow>
            answers dev (h1 @ data_words (concat (take i wss))) (data_words (wss ! i))))))"

text \<open>
  A drive that is ready with the next sector as soon as the one before has been read, as one emulated by QEMU, on which
  \<open>doc/INSTALL\<close> runs the kernel. The documents do not promise it: they have the host read the status before each
  sector, and \<open>read_sector\<close> reads it before the first one only.
\<close>

definition ready_between :: "device \<Rightarrow> bool" where
  "ready_between dev \<longleftrightarrow> (\<forall>h c l m x d ps ws i.
     let h0 = h @ command_block c l m x d 0x20; t = map (In8 0x1F7) ps @ data_words ws in
     drq dev (h0 @ map (In8 0x1F7) ps) \<and> answers dev h0 t \<and> length ws = 256 * i \<and> 0 < i \<and> i < reg_count c \<longrightarrow> drq dev (h0 @ t))"

lemma ata_readsD:
  assumes "ata_reads dev disk" "bit d 6"
  obtains vs w st wss where "list_all (\<lambda>v. v AND 0x80 \<noteq> 0) vs" "w AND 0x80 = 0" "st AND 1 = 0" "length wss = reg_count c"
    "\<And>i. i < reg_count c \<Longrightarrow> length (wss ! i) = 256"
    "\<And>i. i < reg_count c \<Longrightarrow> concat (map word_bytes (wss ! i)) = disk (reg_drive d) (reg_lba l m x d + i)"
    "answers dev (h @ command_block c l m x d 0x20) (map (In8 0x1F7) (vs @ [w]) @ [In8 0x1F7 st])"
    "drq dev (h @ command_block c l m x d 0x20 @ map (In8 0x1F7) (vs @ [w]) @ [In8 0x1F7 st])"
    "\<And>i. i < reg_count c \<Longrightarrow>
       drq dev (h @ command_block c l m x d 0x20 @ map (In8 0x1F7) (vs @ [w]) @ In8 0x1F7 st # data_words (concat (take i wss))) \<Longrightarrow>
       answers dev (h @ command_block c l m x d 0x20 @ map (In8 0x1F7) (vs @ [w]) @ In8 0x1F7 st # data_words (concat (take i wss)))
         (data_words (wss ! i))"
proof -
  from assms(1) [unfolded ata_reads_def, THEN spec [of _ h], THEN spec [of _ c], THEN spec [of _ l], THEN spec [of _ m], THEN spec [of _ x],
    THEN spec [of _ d], THEN mp, OF assms(2)]
  obtain vs w st wss where "list_all (\<lambda>v. v AND 0x80 \<noteq> 0) vs" "w AND 0x80 = 0" "st AND 1 = 0" "length wss = reg_count c"
    "\<forall>i < reg_count c. length (wss ! i) = 256 \<and>
       concat (map word_bytes (wss ! i)) = disk (reg_drive d) (reg_lba l m x d + i)"
    "let h0 = h @ command_block c l m x d 0x20; h1 = h0 @ map (In8 0x1F7) (vs @ [w]) @ [In8 0x1F7 st] in
       answers dev h0 (map (In8 0x1F7) (vs @ [w]) @ [In8 0x1F7 st]) \<and> drq dev h1 \<and>
       (\<forall>i < reg_count c. drq dev (h1 @ data_words (concat (take i wss))) \<longrightarrow>
          answers dev (h1 @ data_words (concat (take i wss))) (data_words (wss ! i)))" by blast
  then show thesis by (intro that [of vs w st wss]) (simp_all add: Let_def)
qed

text \<open>Any words can be read on, whatever they are; a drive that is ready between the sectors delivers all of them.\<close>

lemma answers_go_on: "\<exists>ws. length ws = n \<and> answers dev h (data_words ws)"
proof (induction n arbitrary: h)
  case (Suc n)
  obtain ws where "length ws = n" "answers dev (h @ [In16 0x1F0 (dev h 0x1F0)]) (data_words ws)" using Suc by blast
  then show ?case by (intro exI [of _ "dev h 0x1F0 # ws"]) simp
qed simp

lemma sectors_in_a_row:
  fixes h :: "io_event list" and c l m x d :: byte
  assumes rb: "ready_between dev" and wss: "length wss = reg_count c" "\<And>i. i < reg_count c \<Longrightarrow> length (wss ! i) = 256"
  defines "h0 \<equiv> h @ command_block c l m x d 0x20"
  assumes t: "answers dev h0 (map (In8 0x1F7) ps)" "drq dev (h0 @ map (In8 0x1F7) ps)"
    and ws: "\<And>i. i < reg_count c \<Longrightarrow> drq dev (h0 @ map (In8 0x1F7) ps @ data_words (concat (take i wss))) \<Longrightarrow>
       answers dev (h0 @ map (In8 0x1F7) ps @ data_words (concat (take i wss))) (data_words (wss ! i))"
  shows "i \<le> reg_count c \<Longrightarrow> answers dev (h0 @ map (In8 0x1F7) ps) (data_words (concat (take i wss))) \<and>
    length (concat (take i wss)) = 256 * i"
proof (induction i)
  case (Suc i)
  then have ih: "answers dev (h0 @ map (In8 0x1F7) ps) (data_words (concat (take i wss)))" "length (concat (take i wss)) = 256 * i"
    by simp_all
  have r: "drq dev (h0 @ map (In8 0x1F7) ps @ data_words (concat (take i wss)))"
  proof (cases "i = 0")
    case False
    then have "drq dev (h0 @ map (In8 0x1F7) ps) \<and> answers dev h0 (map (In8 0x1F7) ps @ data_words (concat (take i wss))) \<and>
        length (concat (take i wss)) = 256 * i \<and> 0 < i \<and> i < reg_count c" using t ih Suc.prems by simp
    with rb show ?thesis unfolding ready_between_def Let_def h0_def by blast
  qed (use t in simp)
  have "take (Suc i) wss = take i wss @ [wss ! i]" using Suc.prems wss(1) by (simp add: take_Suc_conv_app_nth)
  then show ?case using ih wss(2) [of i] ws [OF _ r] Suc.prems by simp
qed simp

lemma ide_setup_block:
  assumes "drive = 0 \<or> drive = 1" "unat lba < 268435456"
  shows "\<exists>l m x d. outportb IDE_COMMAND cmd (ide_setup drive lba n s) =
      s\<lparr>io := io s @ command_block (ucast n) l m x d (ucast cmd)\<rparr> \<and>
    reg_lba l m x d = unat lba \<and> reg_drive d = drive \<and> bit d 6"
proof -
  define U where "U = unat lba"
  let ?h = "if drive = 0 then IDE_DRIVE0 else IDE_DRIVE1"
  have byte: "unat (ucast (w AND 0xFF) :: byte) = unat w mod 256" for w :: uint
  proof -
    have "w AND 0xFF = take_bit 8 w" by (simp add: take_bit_eq_mask mask_eq_exp_minus_1)
    then have "unat (ucast (w AND 0xFF) :: byte) = unat (take_bit 8 w) mod 256"
      by (simp add: unsigned_ucast_eq take_bit_eq_mod)
    then show ?thesis by (simp add: unat_bits)
  qed
  have "U div 16777216 \<in> set [0..<16]" using assms(2) by (simp add: U_def less_mult_imp_div_less)
  moreover have "list_all (\<lambda>q. unat (ucast (?h OR of_nat q) :: byte) mod 16 = q \<and>
      (bit (ucast (?h OR of_nat q) :: byte) 4 \<longleftrightarrow> drive \<noteq> 0) \<and> bit (ucast (?h OR of_nat q) :: byte) 6) [0..<16]"
    using assms(1) by (auto simp: upt_rec)
  ultimately have h: "unat (ucast (?h OR of_nat (U div 16777216)) :: byte) mod 16 = U div 16777216"
    "bit (ucast (?h OR of_nat (U div 16777216)) :: byte) 4 \<longleftrightarrow> drive \<noteq> 0"
    "bit (ucast (?h OR of_nat (U div 16777216)) :: byte) 6"
    unfolding list_all_iff by blast+
  have xh: "LBA_EXTENDED_HIGH_BYTE lba = of_nat (U div 16777216)"
  proof -
    have "LBA_EXTENDED_HIGH_BYTE lba = take_bit 4 (drop_bit 24 lba)"
      by (simp add: LBA_EXTENDED_HIGH_BYTE_def take_bit_eq_mask mask_eq_exp_minus_1 and.assoc)
    moreover have "unat (take_bit 4 (drop_bit 24 lba)) = U div 16777216"
      using assms(2) by (simp add: unat_bits U_def less_mult_imp_div_less)
    ultimately show ?thesis by (metis word_of_nat_unat32)
  qed
  have dec: "U mod 256 + 256 * (U div 256 mod 256) + 65536 * (U div 65536 mod 256) + 16777216 * (U div 16777216) = U"
  proof -
    have "U div 65536 = U div 256 div 256" "U div 16777216 = U div 65536 div 256"
      by (simp_all add: div_mult2_eq [symmetric])
    then show ?thesis
      using div_mult_mod_eq [of U 256] div_mult_mod_eq [of "U div 256" 256] div_mult_mod_eq [of "U div 65536" 256]
      by linarith
  qed
  define l m x d :: byte where "l = ucast (LBA_LOW_BYTE lba)" and "m = ucast (LBA_HIGH_BYTE lba)"
    and "x = ucast (LBA_EXTENDED_LOW_BYTE lba)" and "d = ucast (?h OR of_nat (U div 16777216))"
  have "outportb IDE_COMMAND cmd (ide_setup drive lba n s) =
      s\<lparr>io := io s @ command_block (ucast n) l m x d (ucast cmd)\<rparr>"
    using assms(1) unfolding l_def m_def x_def d_def
    by (cases "drive = 0") (simp_all add: ide_setup_def Let_def outportb_def command_block_def xh)
  moreover have "reg_lba l m x d = unat lba"
    unfolding reg_lba_def l_def m_def x_def d_def h(1)
    using dec by (simp add: byte LBA_LOW_BYTE_def LBA_HIGH_BYTE_def LBA_EXTENDED_LOW_BYTE_def unat_bits U_def)
  moreover have "reg_drive d = drive" unfolding reg_drive_def d_def h(2) using assms(1) by auto
  moreover have "bit d 6" unfolding d_def by (rule h(3))
  ultimately show ?thesis by blast
qed

lemma read_sector_trace:
  assumes "outportb IDE_COMMAND IDE_CMD_READ_SECTORS_RETRY (ide_setup drive lba n s) = s\<lparr>io := io s @ b\<rparr>"
    and "answers dev (io s @ b) (map (In8 0x1F7) (vs @ [w]) @ In8 0x1F7 st # map (In16 0x1F0) ws)"
    and "list_all (\<lambda>v. v AND 0x80 \<noteq> 0) vs" "w AND 0x80 = 0" "st AND 1 = 0" "length ws = unat (256 * n)"
  shows "read_sector dev buf drive lba n s = Some (IDE_ERR_NOERROR,
    s\<lparr>io := io s @ b @ map (In8 0x1F7) (vs @ [w]) @ In8 0x1F7 st # map (In16 0x1F0) ws,
      mem := st_bytes buf (concat (map word_bytes ws)) (mem s)\<rparr>)"
proof -
  let ?s0 = "s\<lparr>io := io s @ b\<rparr>" and ?s1 = "s\<lparr>io := io s @ b @ map (In8 0x1F7) (vs @ [w])\<rparr>"
  let ?s2 = "s\<lparr>io := io s @ b @ map (In8 0x1F7) (vs @ [w]) @ [In8 0x1F7 st]\<rparr>"
  have p: "ide_wait dev ?s0 = Some ?s1"
    unfolding ide_wait_def using poll_trace [of dev ?s0 "0x1F7" vs w "\<lambda>v. v AND 0x80 \<noteq> 0"] assms by simp
  have i: "inportb dev 0x1F7 ?s1 = (st, ?s2)" using assms(2) by (simp add: inportb_def Let_def)
  have "rd_words dev (unat (256 * n)) buf ?s2 =
      ?s2\<lparr>io := io ?s2 @ map (In16 0x1F0) ws, mem := st_bytes buf (concat (map word_bytes ws)) (mem ?s2)\<rparr>"
    unfolding assms(6) [symmetric] using assms(2) by (intro rd_words_trace) simp
  then show ?thesis
    using assms(5) by (simp add: read_sector_def assms(1) p i del: map_append)
qed

section \<open>A drive that meets the contract\<close>

text \<open>An executable drive: its registers and the words still to be delivered, from the history.\<close>

fun pack :: "byte list \<Rightarrow> uint list" where
  "pack (b # c # bs) = (ucast b OR push_bit 8 (ucast c)) # pack bs"
| "pack _ = []"

lemma pack_bytes: "even (length bs) \<Longrightarrow> concat (map word_bytes (pack bs)) = bs"
proof (induction bs rule: pack.induct)
  case (1 b c bs)
  have "(ucast (ucast b OR push_bit 8 (ucast c) :: uint) :: byte) = b"
    "(ucast (drop_bit 8 (ucast b OR push_bit 8 (ucast c) :: uint)) :: byte) = c"
    by (rule bit_word_eqI, auto simp: bit_simps dest: bit_imp_le_length)+
  with 1 show ?case by (simp add: word_bytes_def)
qed (simp_all)

lemma length_pack: "length (pack bs) = length bs div 2"
  by (induction bs rule: pack.induct) simp_all

type_synonym drive = "(uint \<Rightarrow> byte) \<times> uint list"

fun ata_step :: "(int \<Rightarrow> nat \<Rightarrow> byte list) \<Rightarrow> io_event \<Rightarrow> drive \<Rightarrow> drive" where
  "ata_step disk (Out8 p v) (r, q) =
     (let r' = r(p := v); a = reg_lba (r 0x1F3) (r 0x1F4) (r 0x1F5) (r 0x1F6)
      in if p = 0x1F7 \<and> v = 0x20
         then (r', pack (concat (map (disk (reg_drive (r 0x1F6))) [a..<a + reg_count (r 0x1F2)])))
         else (r', q))"
| "ata_step disk (In16 p v) (r, q) = (r, if p = 0x1F0 then tl q else q)"
| "ata_step disk e rq = rq"

definition ata_dev :: "(int \<Rightarrow> nat \<Rightarrow> byte list) \<Rightarrow> device" where
  "ata_dev disk h p =
     (if p = 0x1F0 then (case snd (fold (ata_step disk) h (\<lambda>_. 0, [])) of [] \<Rightarrow> 0 | w # _ \<Rightarrow> w) else 0x58)"

lemma ata_dev_words:
  "fold (ata_step disk) h (\<lambda>_. 0, []) = (r, ws) \<Longrightarrow> answers (ata_dev disk) h (map (In16 0x1F0) ws)"
proof (induction ws arbitrary: h)
  case (Cons w ws)
  then show ?case using Cons.IH [of "h @ [In16 0x1F0 w]"] by (simp add: ata_dev_def)
qed simp

lemma pack_append: "even (length xs) \<Longrightarrow> pack (xs @ ys) = pack xs @ pack ys"
  by (induction xs rule: pack.induct) auto

definition sector_words :: "(int \<Rightarrow> nat \<Rightarrow> byte list) \<Rightarrow> int \<Rightarrow> nat \<Rightarrow> nat \<Rightarrow> uint list list" where
  "sector_words disk drive a n = map (\<lambda>i. pack (disk drive (a + i))) [0..<n]"

lemma sector_words_simps:
  assumes "\<And>d k. length (disk d k) = 512"
  shows "length (sector_words disk drive a n) = n"
    "i < n \<Longrightarrow> length (sector_words disk drive a n ! i) = 256"
    "i < n \<Longrightarrow> concat (map word_bytes (sector_words disk drive a n ! i)) = disk drive (a + i)"
    "i \<le> n \<Longrightarrow> length (concat (drop i (sector_words disk drive a n))) = 256 * (n - i)"
    "pack (concat (map (disk drive) [a..<a + n])) = concat (sector_words disk drive a n)"
proof -
  show "length (concat (drop i (sector_words disk drive a n))) = 256 * (n - i)" if "i \<le> n"
    using that by (simp add: sector_words_def drop_map length_concat o_def assms length_pack sum_list_triv)
  show "pack (concat (map (disk drive) [a..<a + n])) = concat (sector_words disk drive a n)"
    by (induction n) (simp_all add: sector_words_def pack_append length_concat o_def assms sum_list_triv)
qed (simp_all add: sector_words_def assms pack_bytes length_pack)

text \<open>The drive after a command, and after some words of its data.\<close>

lemma ata_step_data: "fold (ata_step disk) (data_words ws) (r, q) = (r, drop (length ws) q)"
  by (induction ws arbitrary: q) (simp_all add: drop_Suc)

lemma ata_step_command:
  assumes "\<And>d k. length (disk d k) = 512"
  shows "\<exists>r. fold (ata_step disk) (h @ command_block c l m x d 0x20 @ map (In8 0x1F7) ps @ data_words ws) rq =
    (r, drop (length ws) (concat (sector_words disk (reg_drive d) (reg_lba l m x d) (reg_count c))))"
proof -
  obtain r q where rq: "fold (ata_step disk) h rq = (r, q)" by fastforce
  have p: "fold (ata_step disk) (map (In8 0x1F7) ps) t = t" for t by (induction ps arbitrary: t) auto
  show ?thesis by (simp add: command_block_def rq p Let_def sector_words_simps(5) [where disk = disk, OF assms] ata_step_data)
qed

text \<open>A drive that is never busy after a command meets the contract if it delivers the words of the sectors.\<close>

lemma ata_readsI:
  fixes disk :: "int \<Rightarrow> nat \<Rightarrow> byte list"
  assumes len: "\<And>d k. length (disk d k) = 512"
    and polls: "\<And>h c l m x d v. answers dev (h @ command_block c l m x d 0x20) [In8 0x1F7 0x58, In8 0x1F7 0x58] \<and>
      drq dev (h @ command_block c l m x d 0x20 @ [In8 0x1F7 0x58, In8 0x1F7 0x58])"
    and data: "\<And>h c l m x d i wss g r. i < reg_count c \<Longrightarrow>
      wss = sector_words disk (reg_drive d) (reg_lba l m x d) (reg_count c) \<Longrightarrow>
      g = h @ command_block c l m x d 0x20 @ [In8 0x1F7 0x58, In8 0x1F7 0x58] @ data_words (concat (take i wss)) \<Longrightarrow>
      fold (ata_step disk) g (\<lambda>_. 0, []) = (r, wss ! i @ concat (drop (Suc i) wss)) \<Longrightarrow> drq dev g \<Longrightarrow> answers dev g (data_words (wss ! i))"
  shows "ata_reads dev disk"
  unfolding ata_reads_def Let_def
proof (intro allI impI)
  fix h c l m x and d :: byte
  let ?wss = "sector_words disk (reg_drive d) (reg_lba l m x d) (reg_count c)" and ?h0 = "h @ command_block c l m x d 0x20"
  let ?h1 = "?h0 @ map (In8 0x1F7) ([] @ [0x58]) @ [In8 0x1F7 0x58]"
  note w = sector_words_simps [where disk = disk, OF len]
  have "answers dev (?h1 @ data_words (concat (take i ?wss))) (data_words (?wss ! i))"
    if i: "i < reg_count c" and r: "drq dev (?h1 @ data_words (concat (take i ?wss)))" for i
  proof -
    have "concat (drop i ?wss) = ?wss ! i @ concat (drop (Suc i) ?wss)"
      using i w(1) [of "reg_drive d" "reg_lba l m x d" "reg_count c"] by (simp flip: Cons_nth_drop_Suc)
    moreover have "concat ?wss = concat (take i ?wss) @ concat (drop i ?wss)" by (metis append_take_drop_id concat_append)
    ultimately have "drop (length (concat (take i ?wss))) (concat ?wss) = ?wss ! i @ concat (drop (Suc i) ?wss)" by simp
    then obtain r' where "fold (ata_step disk) (?h1 @ data_words (concat (take i ?wss))) (\<lambda>_. 0, []) = (r', ?wss ! i @ concat (drop (Suc i) ?wss))"
      using ata_step_command [where disk = disk, OF len, of h c l m x d "[0x58, 0x58]" "concat (take i ?wss)" "(\<lambda>_. 0, [])"] by auto
    with data [OF i refl refl, of h l m x d r'] r show ?thesis by simp
  qed
  moreover have "answers dev ?h0 (map (In8 0x1F7) ([] @ [0x58]) @ [In8 0x1F7 0x58])" "drq dev ?h1"
    using polls [of h c l m x d] by simp_all
  ultimately show "\<exists>vs w st wss. list_all (\<lambda>v. v AND 0x80 \<noteq> 0) vs \<and> w AND 0x80 = 0 \<and> st AND 1 = 0 \<and> length wss = reg_count c \<and>
     (\<forall>i < reg_count c. length (wss ! i) = 256 \<and> concat (map word_bytes (wss ! i)) = disk (reg_drive d) (reg_lba l m x d + i)) \<and>
     answers dev ?h0 (map (In8 0x1F7) (vs @ [w]) @ [In8 0x1F7 st]) \<and>
     drq dev (?h0 @ map (In8 0x1F7) (vs @ [w]) @ [In8 0x1F7 st]) \<and>
     (\<forall>i < reg_count c. drq dev ((?h0 @ map (In8 0x1F7) (vs @ [w]) @ [In8 0x1F7 st]) @ data_words (concat (take i wss))) \<longrightarrow>
        answers dev ((?h0 @ map (In8 0x1F7) (vs @ [w]) @ [In8 0x1F7 st]) @ data_words (concat (take i wss))) (data_words (wss ! i)))"
    by (intro exI [of _ "[]"] exI [of _ "0x58"] exI [of _ ?wss]) (simp add: w)
qed

lemma ata_dev_reads:
  assumes "\<And>d k. length (disk d k) = 512"
  shows "ata_reads (ata_dev disk) disk"
proof (rule ata_readsI [OF assms])
  fix g :: "io_event list" and r and wss :: "uint list list" and i :: nat
  assume "fold (ata_step disk) g (\<lambda>_. 0, []) = (r, wss ! i @ concat (drop (Suc i) wss))"
  from ata_dev_words [OF this] show "answers (ata_dev disk) g (data_words (wss ! i))" by simp
qed (simp_all add: ata_dev_def drq_def)

lemma ata_dev_ready: "ready_between (ata_dev disk)"
  by (simp add: ready_between_def drq_def ata_dev_def)

section \<open>Runs of the driver\<close>

text \<open>The first sector comes as the documents have it, the others when the drive is ready in time.\<close>

lemma read_sector_first:
  assumes "ata_reads dev disk" "drive = 0 \<or> drive = 1" "unat lba < 268435456" "0 < unat n" "unat n \<le> 256"
  shows "\<exists>h rest. read_sector dev buf drive lba n s = Some (IDE_ERR_NOERROR,
      s\<lparr>io := h, mem := st_bytes buf (disk drive (unat lba) @ rest) (mem s)\<rparr>) \<and> length rest = 512 * (unat n - 1) \<and>
    (ready_between dev \<longrightarrow> rest = concat (map (disk drive) [Suc (unat lba)..<unat lba + unat n]))"
proof -
  obtain l m x d where b: "outportb IDE_COMMAND IDE_CMD_READ_SECTORS_RETRY (ide_setup drive lba n s) =
      s\<lparr>io := io s @ command_block (ucast n) l m x d 0x20\<rparr>" "reg_lba l m x d = unat lba" "reg_drive d = drive" "bit d 6"
    using ide_setup_block [OF assms(2,3), of IDE_CMD_READ_SECTORS_RETRY n s] by auto
  have un: "unat (ucast n :: byte) = unat n mod 256" by (simp add: unsigned_ucast_eq take_bit_eq_mod)
  then have c: "reg_count (ucast n) = unat n"
    using assms(4,5) by (cases "unat n = 256") (auto simp: reg_count_def unat_eq_zero [symmetric])
  have w: "unat (256 * n) = 256 * unat n" using assms(5) by (simp add: unat_word_ariths)
  let ?b = "command_block (ucast n) l m x d 0x20" and ?rest = "concat (map (disk drive) [Suc (unat lba)..<unat lba + unat n])"
  obtain vs v st wss where t: "list_all (\<lambda>v. v AND 0x80 \<noteq> 0) vs" "v AND 0x80 = 0" "st AND 1 = 0" "length wss = unat n"
    "\<And>i. i < unat n \<Longrightarrow> length (wss ! i) = 256" "\<And>i. i < unat n \<Longrightarrow> concat (map word_bytes (wss ! i)) = disk drive (unat lba + i)"
    "answers dev (io s @ ?b) (map (In8 0x1F7) (vs @ [v]) @ [In8 0x1F7 st])"
    "drq dev (io s @ ?b @ map (In8 0x1F7) (vs @ [v]) @ [In8 0x1F7 st])"
    "\<And>i. i < unat n \<Longrightarrow> drq dev (io s @ ?b @ map (In8 0x1F7) (vs @ [v]) @ In8 0x1F7 st # data_words (concat (take i wss))) \<Longrightarrow>
       answers dev (io s @ ?b @ map (In8 0x1F7) (vs @ [v]) @ In8 0x1F7 st # data_words (concat (take i wss))) (data_words (wss ! i))"
    using ata_readsD [OF assms(1) b(4), where h = "io s" and c = "ucast n" and l = l and m = m and x = x] unfolding b(2,3) c by blast
  let ?h1 = "io s @ ?b @ map (In8 0x1F7) (vs @ [v]) @ [In8 0x1F7 st]"
  have run: "\<exists>h. read_sector dev buf drive lba n s = Some (IDE_ERR_NOERROR, s\<lparr>io := h, mem := st_bytes buf (concat (map word_bytes ws)) (mem s)\<rparr>)"
    if "answers dev ?h1 (data_words ws)" "length ws = 256 * unat n" for ws
    using read_sector_trace [where ws = ws, OF b(1) _ t(1-3)] that t(7) w by auto
  show ?thesis
  proof (cases "ready_between dev")
    case True
    have "answers dev (io s @ ?b) (map (In8 0x1F7) (vs @ [v, st]))" "drq dev ((io s @ ?b) @ map (In8 0x1F7) (vs @ [v, st]))"
      using t(7,8) by simp_all
    from sectors_in_a_row [OF True _ _ this, of wss "unat n"] t(4,5,9) c
    have a: "answers dev ?h1 (data_words (concat wss))" "length (concat wss) = 256 * unat n" by simp_all
    have "concat (map word_bytes (concat wss)) = concat (map (\<lambda>ws. concat (map word_bytes ws)) wss)" by (induction wss) simp_all
    also have "map (\<lambda>ws. concat (map word_bytes ws)) wss = map (disk drive) [unat lba..<unat lba + unat n]"
      using t(4,6) by (intro nth_equalityI) simp_all
    also have "[unat lba..<unat lba + unat n] = unat lba # [Suc (unat lba)..<unat lba + unat n]" using assms(4) by (simp add: upt_conv_Cons)
    finally have e: "concat (map word_bytes (concat wss)) = disk drive (unat lba) @ ?rest" by simp
    have "length (concat (map word_bytes (concat wss))) = 512 * unat n" using a(2) by (simp only: length_word_bytes)
    moreover have "length (disk drive (unat lba)) = 512" using t(5,6) [of 0] assms(4) length_word_bytes [of "wss ! 0"] by simp
    ultimately have "length ?rest = 512 * (unat n - 1)" using e by simp
    then show ?thesis using run [OF a] unfolding e by blast
  next
    case False
    have a0: "answers dev ?h1 (data_words (wss ! 0))" using t(9) [of 0] t(8) assms(4) by simp
    obtain ws where ws: "length ws = 256 * (unat n - 1)" "answers dev (?h1 @ data_words (wss ! 0)) (data_words ws)"
      using answers_go_on by blast
    have "length (wss ! 0 @ ws) = 256 * unat n" using ws(1) t(5) [of 0] assms(4) by (cases "unat n") simp_all
    then have "\<exists>h. read_sector dev buf drive lba n s = Some (IDE_ERR_NOERROR,
        s\<lparr>io := h, mem := st_bytes buf (disk drive (unat lba) @ concat (map word_bytes ws)) (mem s)\<rparr>)"
      using run [of "wss ! 0 @ ws"] a0 ws(2) t(6) [of 0] assms(4) by simp
    moreover have "length (concat (map word_bytes ws)) = 512 * (unat n - 1)" using ws(1) by (simp only: length_word_bytes)
    ultimately show ?thesis using False by blast
  qed
qed

lemma read_sector_ata:
  assumes "ata_reads dev disk" "drive = 0 \<or> drive = 1" "unat lba < 268435456"
  shows "\<exists>h. read_sector dev buf drive lba 1 s = Some (IDE_ERR_NOERROR, s\<lparr>io := h, mem := st_bytes buf (disk drive (unat lba)) (mem s)\<rparr>)"
  using read_sector_first [OF assms, of 1 buf s] by auto

lemma read_sectors_ready:
  assumes "ata_reads dev disk" "ready_between dev" "drive = 0 \<or> drive = 1" "unat lba < 268435456" "0 < unat n" "unat n \<le> 256"
  shows "\<exists>h. read_sector dev buf drive lba n s = Some (IDE_ERR_NOERROR,
    s\<lparr>io := h, mem := st_bytes buf (concat (map (disk drive) [unat lba..<unat lba + unat n])) (mem s)\<rparr>)"
proof -
  have "[unat lba..<unat lba + unat n] = unat lba # [Suc (unat lba)..<unat lba + unat n]" using assms(5) by (simp add: upt_conv_Cons)
  then have "concat (map (disk drive) [unat lba..<unat lba + unat n]) =
      disk drive (unat lba) @ concat (map (disk drive) [Suc (unat lba)..<unat lba + unat n])" by simp
  then show ?thesis using read_sector_first [OF assms(1,3-6), of buf s] assms(2) by auto
qed

lemma poll_io:
  assumes "poll dev port again s = Some s'"
  shows "\<forall>t. io t = io s \<longrightarrow> poll dev port again t = Some (t\<lparr>io := io s'\<rparr>)"
  using assms
proof (rule poll.raw_induct [rotated])
  fix f and dev :: device and port :: uint and again and s s' :: "'a machine_scheme"
  let ?v = "dev (io s) port"
  assume IH: "\<And>dev port again s s'. f dev port again s = Some s' \<Longrightarrow>
      \<forall>t :: 'b machine_scheme. io t = io s \<longrightarrow> poll dev port again t = Some (t\<lparr>io := io s'\<rparr>)"
    and b: "(case inportb dev port s of (v, s1) \<Rightarrow> if again v then f dev port again s1 else Some s1) = Some s'"
  have "poll dev port again t = Some (t\<lparr>io := io s'\<rparr>)" if t: "io t = io s" for t :: "'b machine_scheme"
  proof (cases "again ?v")
    case True
    with b have "f dev port again (s\<lparr>io := io s @ [In8 port ?v]\<rparr>) = Some s'"
      by (simp add: inportb_def Let_def)
    from IH [OF this, rule_format, of "t\<lparr>io := io s @ [In8 port ?v]\<rparr>"] show ?thesis
      using True t by (subst poll.simps) (simp add: inportb_def Let_def)
  next
    case False
    then show ?thesis using b t by (subst poll.simps) (auto simp: inportb_def Let_def)
  qed
  then show "\<forall>t :: 'b machine_scheme. io t = io s \<longrightarrow> poll dev port again t = Some (t\<lparr>io := io s'\<rparr>)" by blast
qed

lemma ide_wait_Some: "ide_wait dev s = Some s' \<Longrightarrow> io t = io s \<Longrightarrow> ide_wait dev t = Some (t\<lparr>io := io s'\<rparr>)"
  unfolding ide_wait_def using poll_io by blast

lemma ide_wait_io: "io t = io s \<Longrightarrow> ide_wait dev t = map_option (\<lambda>s'. t\<lparr>io := io s'\<rparr>) (ide_wait dev s)"
  using ide_wait_Some [where s = s and t = t and dev = dev] ide_wait_Some [where s = t and t = s and dev = dev]
  by (cases "ide_wait dev s"; cases "ide_wait dev t"; fastforce)

lemma ide_setup_io: "\<exists>b. \<forall>s. ide_setup drive lba n s = s\<lparr>io := io s @ b\<rparr>"
  by (auto simp: ide_setup_def Let_def outportb_def)

section \<open>Properties\<close>

text \<open>
  C5: on a drive that meets the register-level contract of READ SECTORS, \<open>read_sector\<close> of 1 to 256 sectors at a
  28-bit block address returns, reports success, stores the first of the sectors addressed and as many bytes as the others have
  behind it, and changes nothing else in memory. The other sectors are right if the drive is ready with each as soon as the one
  before has been read, which \<open>read_sector\<close> does not wait for.
\<close>

theorem read_sector_correct:
  assumes "ata_reads dev disk" "drive = 0 \<or> drive = 1" "unat lba < 268435456" "0 < unat n" "unat n \<le> 256"
  shows "\<exists>h rest. read_sector dev buf drive lba n s = Some (IDE_ERR_NOERROR,
      s\<lparr>io := h, mem := st_bytes buf (disk drive (unat lba) @ rest) (mem s)\<rparr>) \<and> length rest = 512 * (unat n - 1) \<and>
    (ready_between dev \<longrightarrow> rest = concat (map (disk drive) [Suc (unat lba)..<unat lba + unat n]))"
  using assms by (rule read_sector_first)

text \<open>
  A drive that is busy for a moment before each further sector meets the contract, and \<open>read_sector\<close> then stores
  what the data register happens to hold in place of the first word of the second sector.
\<close>

definition slow_dev :: "(int \<Rightarrow> nat \<Rightarrow> byte list) \<Rightarrow> device" where
  "slow_dev disk h p =
     (let q = snd (fold (ata_step disk) h (\<lambda>_. 0, [])) in
      if h \<noteq> [] \<and> (\<exists>v. last h = In16 0x1F0 v) \<and> q \<noteq> [] \<and> 256 dvd length q then (if p = 0x1F0 then 0xFFFF else 0xD0) else ata_dev disk h p)"

lemma slow_dev_words:
  assumes "fold (ata_step disk) h (\<lambda>_. 0, []) = (r, ws @ q)" "256 dvd length q" "length ws \<le> 256"
    and "length ws < 256 \<or> (\<forall>v. h = [] \<or> last h \<noteq> In16 0x1F0 v)"
  shows "answers (slow_dev disk) h (data_words ws)"
proof -
  have "answers (slow_dev disk) (h @ data_words us) (data_words vs)" if "ws = us @ vs" for us vs
    using that
  proof (induction vs arbitrary: us)
    case (Cons w vs)
    have f: "fold (ata_step disk) (h @ data_words us) (\<lambda>_. 0, []) = (r, w # vs @ q)" using Cons.prems assms(1) by (simp add: ata_step_data)
    have "us = [] \<and> length ws = 256 \<or> \<not> 256 dvd length (w # vs @ q)"
    proof (cases "us = [] \<and> length ws = 256")
      case False
      have "0 < Suc (length vs)" "Suc (length vs) < 256" using assms(3) False Cons.prems by (cases us; simp)+
      then have "\<not> 256 dvd Suc (length vs)" by (auto dest: dvd_imp_le)
      then show ?thesis using assms(2) dvd_add_left_iff [of 256 "length q" "Suc (length vs)"] by simp
    qed simp
    then have "slow_dev disk (h @ data_words us) 0x1F0 = w"
      using f assms(4) by (auto simp: slow_dev_def ata_dev_def Let_def)
    then show ?case using Cons.IH [of "us @ [w]"] Cons.prems by simp
  qed simp
  from this [of "[]" ws] show ?thesis by simp
qed

lemma slow_dev_reads:
  assumes "\<And>d k. length (disk d k) = 512"
  shows "ata_reads (slow_dev disk) disk"
proof (rule ata_readsI [OF assms])
  fix h g :: "io_event list" and c l m x d :: byte and i :: nat and wss r
  assume i: "i < reg_count c" and wss: "wss = sector_words disk (reg_drive d) (reg_lba l m x d) (reg_count c)"
    and g: "g = h @ command_block c l m x d 0x20 @ [In8 0x1F7 0x58, In8 0x1F7 0x58] @ data_words (concat (take i wss))"
    and f: "fold (ata_step disk) g (\<lambda>_. 0, []) = (r, wss ! i @ concat (drop (Suc i) wss))" and rdy: "drq (slow_dev disk) g"
  note w = sector_words_simps [where disk = disk, OF assms]
  have len: "length (wss ! i) = 256" "256 dvd length (concat (drop (Suc i) wss))" using i w(2,4) by (simp_all add: wss)
  have "last g \<noteq> In16 0x1F0 v" for v
  proof
    assume l: "last g = In16 0x1F0 v"
    have "256 dvd length (wss ! i @ concat (drop (Suc i) wss))" "wss ! i @ concat (drop (Suc i) wss) \<noteq> []" using len by auto
    then have "slow_dev disk g 0x1F7 = 0xD0" using f l by (simp add: slow_dev_def Let_def g del: length_append)
    with rdy show False by (simp add: drq_def)
  qed
  then show "answers (slow_dev disk) g (data_words (wss ! i))" using slow_dev_words [OF f len(2)] len(1) by simp
qed (simp_all add: slow_dev_def ata_dev_def drq_def Let_def command_block_def)

theorem read_sector_overtakes_drive:
  assumes "\<And>d k. length (disk d k) = 512" "drive = 0 \<or> drive = 1" "unat lba < 268435456"
  shows "ata_reads (slow_dev disk) disk"
    "\<exists>h. read_sector (slow_dev disk) buf drive lba 2 s = Some (IDE_ERR_NOERROR,
       s\<lparr>io := h, mem := st_bytes buf (disk drive (unat lba) @ [0xFF, 0xFF] @ drop 2 (disk drive (Suc (unat lba)))) (mem s)\<rparr>)"
proof -
  show "ata_reads (slow_dev disk) disk" by (rule slow_dev_reads [OF assms(1)])
  obtain l m x d where b: "outportb IDE_COMMAND IDE_CMD_READ_SECTORS_RETRY (ide_setup drive lba 2 s) =
      s\<lparr>io := io s @ command_block 2 l m x d 0x20\<rparr>" "reg_lba l m x d = unat lba" "reg_drive d = drive" "bit d 6"
    using ide_setup_block [OF assms(2,3), of IDE_CMD_READ_SECTORS_RETRY 2 s] by auto
  let ?h0 = "io s @ command_block 2 l m x d 0x20"
  let ?h1 = "?h0 @ [In8 0x1F7 0x58, In8 0x1F7 0x58]" and ?D = "disk drive (unat lba)" and ?E = "disk drive (Suc (unat lba))"
  have w: "concat (sector_words disk drive (unat lba) (reg_count 2)) = pack ?D @ pack ?E"
  proof -
    have "reg_count 2 = 2" "[0..<2] = [0, 1 :: nat]" by (simp_all add: reg_count_def upt_rec)
    then show ?thesis by (simp add: sector_words_def)
  qed
  have f: "\<exists>r. fold (ata_step disk) (?h1 @ data_words ws) (\<lambda>_. 0, []) = (r, drop (length ws) (pack ?D @ pack ?E))" for ws
    using ata_step_command [where disk = disk, OF assms(1), of "io s" 2 l m x d "[0x58, 0x58]" ws "(\<lambda>_. 0, [])"] b(2,3) by (simp add: w)
  have len: "length (pack ?D) = 256" "length (pack ?E) = 256" by (simp_all add: length_pack assms(1))
  obtain e es where E: "pack ?E = e # es" "length es = 255" using len(2) by (cases "pack ?E") simp_all
  have a1: "answers (slow_dev disk) ?h1 (data_words (pack ?D))"
    using f [of "[]"] len slow_dev_words [of disk ?h1 _ "pack ?D" "pack ?E"] by auto
  have a2: "slow_dev disk (?h1 @ data_words (pack ?D)) 0x1F0 = 0xFFFF"
  proof -
    have "\<exists>v. last (?h1 @ data_words (pack ?D)) = In16 0x1F0 v" using len(1) by (cases "pack ?D" rule: rev_cases) simp_all
    then show ?thesis using f [of "pack ?D"] len by (auto simp: slow_dev_def Let_def)
  qed
  have a3: "answers (slow_dev disk) (?h1 @ data_words (pack ?D @ [0xFFFF])) (data_words es)"
    using f [of "pack ?D @ [0xFFFF]"] len E slow_dev_words [of disk "?h1 @ data_words (pack ?D @ [0xFFFF])" _ es "[]"] by auto
  have a0: "answers (slow_dev disk) ?h0 (map (In8 0x1F7) ([] @ [0x58]) @ [In8 0x1F7 0x58])"
    by (simp add: slow_dev_def ata_dev_def Let_def command_block_def)
  let ?ws = "pack ?D @ 0xFFFF # es"
  have "answers (slow_dev disk) ?h0 (map (In8 0x1F7) ([] @ [0x58]) @ In8 0x1F7 0x58 # data_words ?ws)"
    using a0 a1 a2 a3 by simp
  from read_sector_trace [where ws = ?ws, OF _ this] b(1) len E(2)
  have run: "\<exists>h. read_sector (slow_dev disk) buf drive lba 2 s = Some (IDE_ERR_NOERROR,
      s\<lparr>io := h, mem := st_bytes buf (concat (map word_bytes ?ws)) (mem s)\<rparr>)" by fastforce
  have "?E = word_bytes e @ concat (map word_bytes es)" using pack_bytes [of ?E] E(1) assms(1) by simp
  then have "drop 2 ?E = concat (map word_bytes es)" by (simp add: word_bytes_def)
  moreover have "concat (map word_bytes (pack ?D)) = ?D" using assms(1) by (simp add: pack_bytes)
  moreover have "word_bytes 0xFFFF = [0xFF, 0xFF]" by (simp add: word_bytes_def)
  ultimately have "concat (map word_bytes ?ws) = ?D @ [0xFF, 0xFF] @ drop 2 ?E" by simp
  with run show "\<exists>h. read_sector (slow_dev disk) buf drive lba 2 s = Some (IDE_ERR_NOERROR,
       s\<lparr>io := h, mem := st_bytes buf (?D @ [0xFF, 0xFF] @ drop 2 ?E) (mem s)\<rparr>)" by simp
qed

text \<open>
  C26: when the drive reports an error after it has been busy, \<open>read_sector\<close> returns
  \<open>IDE_ERR_IO_ERROR\<close> and leaves the buffer, and all of memory, alone.
\<close>

theorem read_sector_fails:
  assumes "answers dev (io (ide_setup drive lba n s) @ [Out8 0x1F7 0x20]) (map (In8 0x1F7) (vs @ [w]) @ [In8 0x1F7 st])"
    and "list_all (\<lambda>v. v AND 0x80 \<noteq> 0) vs" "w AND 0x80 = 0" "st AND 1 \<noteq> 0"
  shows "\<exists>h. read_sector dev buf drive lba n s = Some (IDE_ERR_IO_ERROR, s\<lparr>io := h\<rparr>)"
proof -
  obtain b where b: "ide_setup drive lba n s = s\<lparr>io := io s @ b\<rparr>" using ide_setup_io [of drive lba n] by blast
  let ?s0 = "s\<lparr>io := io s @ b @ [Out8 0x1F7 0x20]\<rparr>"
  have "outportb IDE_COMMAND IDE_CMD_READ_SECTORS_RETRY (ide_setup drive lba n s) = ?s0"
    by (simp add: b outportb_def)
  moreover have "ide_wait dev ?s0 = Some (s\<lparr>io := io s @ b @ [Out8 0x1F7 0x20] @ map (In8 0x1F7) (vs @ [w])\<rparr>)"
    unfolding ide_wait_def using poll_trace [of dev ?s0 "0x1F7" vs w "\<lambda>v. v AND 0x80 \<noteq> 0"] assms by (simp add: b)
  ultimately show ?thesis
    using assms(1,4) by (simp add: read_sector_def inportb_def Let_def b del: map_append; blast)
qed

text \<open>
  \<open>write_sector\<close> does not write its buffer: whatever memory holds, the whole traffic on the ports, and so
  what reaches the disk, is the same, and so is the result.
\<close>

theorem write_sector_ignores_buffer:
  "map_option (\<lambda>(r, s'). (r, io s')) (write_sector junk ret dev buf drive lba n (s\<lparr>mem := m\<rparr>)) =
   map_option (\<lambda>(r, s'). (r, io s')) (write_sector junk ret dev buf drive lba n s)"
proof -
  obtain b where b: "ide_setup drive lba n s = s\<lparr>io := io s @ b\<rparr>"
    "ide_setup drive lba n (s\<lparr>mem := m\<rparr>) = s\<lparr>mem := m, io := io s @ b\<rparr>"
    using ide_setup_io [of drive lba n] by fastforce
  let ?c = "outportb IDE_COMMAND IDE_CMD_WRITE_SECTORS_RETRY"
  have w1: "ide_wait dev (?c (ide_setup drive lba n (s\<lparr>mem := m\<rparr>))) =
      map_option (\<lambda>s'. s\<lparr>mem := m, io := io s'\<rparr>) (ide_wait dev (?c (ide_setup drive lba n s)))"
    by (subst ide_wait_io [where s = "?c (ide_setup drive lba n s)"]) (simp_all add: b outportb_def)
  show ?thesis
  proof (cases "ide_wait dev (?c (ide_setup drive lba n s))")
    case None
    then show ?thesis using w1 by (simp add: write_sector_def)
  next
    case (Some s1)
    let ?k = "unat (256 * n)"
    have w2: "ide_wait dev (wr_words junk ret ?k 0 buf (s\<lparr>mem := m, io := io s1\<rparr>)) =
        map_option (\<lambda>s'. (wr_words junk ret ?k 0 buf (s\<lparr>mem := m, io := io s1\<rparr>))\<lparr>io := io s'\<rparr>)
          (ide_wait dev (wr_words junk ret ?k 0 buf s1))"
      by (rule ide_wait_io) (simp add: wr_words_io)
    show ?thesis
      by (cases "ide_wait dev (wr_words junk ret ?k 0 buf s1)")
        (simp_all add: write_sector_def w1 w2 Some inportb_def Let_def)
  qed
qed

section \<open>Witnesses\<close>

definition demo_sector :: "int \<Rightarrow> nat \<Rightarrow> byte list" where
  "demo_sector d k = replicate 512 (of_nat k)"

definition machine0 :: machine where
  "machine0 = \<lparr>mem = (\<lambda>_. 0), io = []\<rparr>"

theorem read_sector_correct_witness:
  "\<exists>h. read_sector (ata_dev demo_sector) 0x7C00 0 63 2 machine0 =
     Some (1, \<lparr>mem = st_bytes 0x7C00 (replicate 512 63 @ replicate 512 64) (\<lambda>_. 0), io = h\<rparr>)"
proof -
  have "ata_reads (ata_dev demo_sector) demo_sector" by (rule ata_dev_reads) (simp add: demo_sector_def)
  from read_sector_correct [OF this, of 0 63 2 "0x7C00" machine0] ata_dev_ready [of demo_sector]
  have "\<exists>h. read_sector (ata_dev demo_sector) 0x7C00 0 63 2 machine0 = Some (1, machine0\<lparr>io := h,
      mem := st_bytes 0x7C00 (demo_sector 0 63 @ concat (map (demo_sector 0) [64..<65])) (mem machine0)\<rparr>)" by auto
  then show ?thesis by (simp add: machine0_def demo_sector_def upt_conv_Cons)
qed

theorem read_sector_fails_witness:
  "\<exists>h. read_sector (\<lambda>_ _. 1) 0x7C00 0 63 1 machine0 = Some (-1, machine0\<lparr>io := h\<rparr>)"
  using read_sector_fails [of "\<lambda>_ _. 1" 0 63 1 machine0 "[]" 1 1 "0x7C00"] by simp

end
