(* ===== verification/Heap_Clients.thy ===== *)
theory Heap_Clients
  imports Kmalloc
begin

text \<open>
  What the drivers and file systems need of the storage allocator beyond \<open>storage\<close>: that it succeeds while
  there is a large enough free block (\<open>room\<close>), and that writes elsewhere do not disturb it. The
  interface extends \<open>storage\<close> and is interpreted on \<open>kmalloc\<close>. Singly linked
  lists of blocks, the data structure all its clients build, are list segments \<open>lseg\<close>.
\<close>

section \<open>The interface\<close>

locale ample_storage =
  storage owns alloc free alloc_safe free_safe usable get put
  for owns :: "'s \<Rightarrow> addr set \<Rightarrow> bool"
    and alloc :: "uint \<Rightarrow> 's \<Rightarrow> (addr \<times> 's) option"
    and free :: "addr \<Rightarrow> 's \<Rightarrow> 's option"
    and alloc_safe :: "uint \<Rightarrow> 's \<Rightarrow> bool"
    and free_safe :: "addr \<Rightarrow> 's \<Rightarrow> bool"
    and usable :: "'s \<Rightarrow> addr \<Rightarrow> addr set"
    and get :: "'s \<Rightarrow> memory"
    and put :: "memory \<Rightarrow> 's \<Rightarrow> 's" +
  fixes room :: "'s \<Rightarrow> addr set \<Rightarrow> nat \<Rightarrow> bool"
    and units :: "uint \<Rightarrow> nat"
    and area :: "addr set"
  assumes room_owns: "room s L k \<Longrightarrow> owns s L"
    and room_alloc: "room s L (units n + k) \<Longrightarrow> 0 < k \<Longrightarrow>
      alloc_safe n s \<and> (\<exists>a s'. alloc n s = Some (a, s') \<and> a \<noteq> NULL \<and> room s' (insert a L) k)"
    and room_put: "room s L k \<Longrightarrow> a \<in> L \<Longrightarrow> (\<And>x. x \<notin> usable s a \<Longrightarrow> m x = get s x) \<Longrightarrow> room (put m s) L k"
    and room_elsewhere: "room s L k \<Longrightarrow> (\<And>x. x \<in> area \<Longrightarrow> m x = get s x) \<Longrightarrow>
      room (put m s) L k \<and> (\<forall>a \<in> L. usable (put m s) a = usable s a)"
    and usable_area: "room s L k \<Longrightarrow> a \<in> L \<Longrightarrow> usable s a \<subseteq> area"
    and alloc_area: "room s L (units n + k) \<Longrightarrow> 0 < k \<Longrightarrow> alloc n s = Some (a, s') \<Longrightarrow> x \<notin> area \<Longrightarrow> get s' x = get s x"
begin

text \<open>While there is room a request is served, by a fresh block that disturbs no other.\<close>

lemma new_block:
  assumes "room s L (units n + k)" "0 < k" "unat n + 7 < 4294967296"
  shows "\<exists>a s'. alloc n s = Some (a, s') \<and> a \<noteq> NULL \<and> a \<notin> L \<and> room s' (insert a L) k \<and>
    region a (unat n) \<subseteq> usable s' a \<and>
    (\<forall>b \<in> L. usable s' b = usable s b \<and> (\<forall>x \<in> usable s b. get s' x = get s x))"
proof -
  note own = room_owns [OF assms(1)]
  obtain a s' where a: "alloc_safe n s" "alloc n s = Some (a, s')" "a \<noteq> NULL" "room s' (insert a L) k"
    using room_alloc [OF assms(1,2)] by blast
  then show ?thesis
    using alloc_owns [OF own a(1,2,3)] alloc_size [OF own a(1,2,3) assms(3)] alloc_keeps [OF own a(1,2)]
    by blast
qed

text \<open>Writing one's own block keeps the room, the extent of every block and the contents of the others.\<close>

lemma own_write:
  assumes "room s L k" "a \<in> L" "\<And>x. x \<notin> usable s a \<Longrightarrow> m x = get s x"
  shows "room (put m s) L k"
    and "b \<in> L \<Longrightarrow> usable (put m s) b = usable s b"
    and "b \<in> L \<Longrightarrow> b \<noteq> a \<Longrightarrow> x \<in> usable s b \<Longrightarrow> m x = get s x"
proof -
  show "room (put m s) L k" using assms by (rule room_put)
  show "b \<in> L \<Longrightarrow> usable (put m s) b = usable s b"
    using put_owns [OF room_owns [OF assms(1)] assms(2,3)] by blast
  show "b \<in> L \<Longrightarrow> b \<noteq> a \<Longrightarrow> x \<in> usable s b \<Longrightarrow> m x = get s x"
    using usable_disjoint [OF room_owns [OF assms(1)] assms(2), of b] assms(3) by blast
qed

end

section \<open>kmalloc provides it\<close>

definition kroom :: "'a heap_scheme \<Rightarrow> addr set \<Rightarrow> nat \<Rightarrow> bool" where
  "kroom s L k \<longleftrightarrow> (\<exists>bs. heap_ok s bs ((\<lambda>a. a - 8) ` L) \<and> (\<exists>u \<in> set bs. k \<le> unat (hdr_size (mem s) u)))"

definition kernel_area :: "addr set" where
  "kernel_area = {x. 0x200000 \<le> unat x \<and> unat x < 0x1000000}"

lemma kroom_exact:
  assumes ok: "heap_ok s (C @ p # D) ls" and u: "u \<in> set (C @ p # D)" "hdr_size (mem s) p < hdr_size (mem s) u"
    and "pr \<in> set (C @ p # D)" "v = hdr_ptr (mem s) p"
  shows "u \<in> set (C @ D)" "hdr_size (set_ptr pr v (mem s)) u = hdr_size (mem s) u"
proof -
  have "aligned8 u" "aligned8 pr" using heap_okD(3) [OF ok] u(1) assms(4) ok_blockD(1) by blast+
  then show "hdr_size (set_ptr pr v (mem s)) u = hdr_size (mem s) u" by simp
  show "u \<in> set (C @ D)" using u by auto
qed

lemma kmalloc_room_blocks:
  assumes ok: "heap_ok s bs ls" and u: "u \<in> set bs" "unat (nunits_of n) + k \<le> unat (hdr_size (mem s) u)" and k: "0 < k"
  shows "\<exists>p s' bs'. kmalloc n s = Some (p + 8, s') \<and> heap_ok s' bs' (insert p ls) \<and> p + 8 \<noteq> NULL \<and>
    (\<exists>u \<in> set bs'. k \<le> unat (hdr_size (mem s') u))"
proof -
  let ?m = "mem s" and ?n = "nunits_of n"
  let ?S = "kmalloc_search ?m (freep s) ?n (freep s) (hdr_ptr ?m (freep s))"
  have big: "?n < hdr_size ?m u" using u(2) k by (simp add: word_less_nat_alt)
  obtain C p D where f: "bs = C @ p # D" "?n \<le> hdr_size ?m p" "?S = Some (Some (last (p # D @ C), p))"
    using kmalloc_search_free_list [OF heap_okD(1,2) [OF ok], of ?n] u(1) big by fastforce
  let ?pr = "last (p # D @ C)"
  have pr: "?pr \<in> set bs" using f(1) last_in_set [of "p # D @ C"] by auto
  show ?thesis
  proof (cases "hdr_size ?m p = ?n")
    case True
    let ?s' = "s\<lparr>mem := set_ptr ?pr (hdr_ptr ?m p) ?m, freep := ?pr\<rparr>"
    have lt: "hdr_size ?m p < hdr_size ?m u" using True big by simp
    note x = kroom_exact [OF ok [unfolded f(1)] u(1) [unfolded f(1)] lt pr [unfolded f(1)] refl]
    have ne: "D @ C \<noteq> []" using x(1) by auto
    then have lpr: "?pr = last (D @ C)" by (rule last_ConsR)
    have "kmalloc n s = Some (p + 8, ?s')" using True f(3) by (simp add: kmalloc_def kmalloc_init_ok [OF ok] Let_def)
    moreover have "heap_ok ?s' (C @ D) (insert p ls)" using heap_ok_take [OF ok [unfolded f(1)] ne] unfolding lpr .
    moreover have "p + 8 \<noteq> NULL" using grants_block(2) [OF grants_exact [OF ok [unfolded f(1)] ne True]] .
    moreover have "k \<le> unat (hdr_size (mem ?s') u)" using x(2) u(2) by simp
    ultimately show ?thesis using x(1) by blast
  next
    case False
    with f(2) have lt: "?n < hdr_size ?m p" by simp
    let ?q = "p + 8 * (hdr_size ?m p - ?n)"
    let ?s' = "s\<lparr>mem := set_size ?q ?n (set_size p (hdr_size ?m p - ?n) ?m), freep := ?pr\<rparr>"
    have p: "p \<in> set bs" using f(1) by simp
    note sp = heap_ok_split [OF ok p lt nunits_pos pr]
    have "kmalloc n s = Some (?q + 8, ?s')"
      using False f(3) by (simp add: kmalloc_def kmalloc_init_ok [OF ok] Let_def)
    moreover have "?q + 8 \<noteq> NULL" using grants_block(2) [OF grants_split [OF ok f(1) lt nunits_pos pr]] .
    moreover have "k \<le> unat (hdr_size (mem ?s') u)"
    proof (cases "u = p")
      case True
      have "ok_block ?m p" using heap_okD(3) [OF ok] p by blast
      from split_block(7) [OF this lt nunits_pos] show ?thesis
        using True u(2) lt by (simp add: unat_sub word_less_nat_alt word_le_nat_alt)
    next
      case False
      then show ?thesis using sp(3) [of u] u by simp
    qed
    ultimately show ?thesis using sp(1) u(1) by blast
  qed
qed

lemma kroom_big: "kroom s L (unat (nunits_of n) + k) \<Longrightarrow> 0 < k \<Longrightarrow> \<not> takes_last n s"
proof
  assume r: "kroom s L (unat (nunits_of n) + k)" "0 < k" and t: "takes_last n s"
  obtain bs u where bs: "heap_ok s bs ((\<lambda>a. a - 8) ` L)" "u \<in> set bs"
    "unat (nunits_of n) + k \<le> unat (hdr_size (mem s) u)" using r(1) by (auto simp: kroom_def)
  obtain xs ys where x: "bs = xs @ freep s # ys" using heap_okD(2) [OF bs(1)] by (meson split_list)
  note fl = heap_okD(1) [OF bs(1)]
  have "ring (mem s) (freep s # ys @ xs)" "distinct (freep s # ys @ xs)"
    using free_listD [OF fl] ring_rotate [of "mem s" xs "freep s # ys"] x by auto
  then have "ys @ xs = []" using t by (cases "ys @ xs") (auto simp: ring_def takes_last_def)
  then show False using bs(2,3) x t r(2) by (simp add: takes_last_def)
qed

lemma kroom_headers:
  assumes "kroom s L k" "\<And>bs r x. heap_ok s bs ((\<lambda>a. a - 8) ` L) \<Longrightarrow> r \<in> set bs \<union> (\<lambda>a. a - 8) ` L \<Longrightarrow>
    x \<in> region r 8 \<Longrightarrow> m x = mem s x"
  shows "kroom (s\<lparr>mem := m\<rparr>) L k"
proof -
  obtain bs u where bs: "heap_ok s bs ((\<lambda>a. a - 8) ` L)" "u \<in> set bs" "k \<le> unat (hdr_size (mem s) u)"
    using assms(1) by (auto simp: kroom_def)
  have "heap_ok (s\<lparr>mem := m\<rparr>) bs ((\<lambda>a. a - 8) ` L)" by (rule heap_ok_headers [OF bs(1) assms(2) [OF bs(1)]])
  moreover have "hdr_size m u = hdr_size (mem s) u" using assms(2) [OF bs(1), of u] bs(2) by (intro hdr_cong) auto
  ultimately show ?thesis using bs(2,3) by (auto simp: kroom_def intro!: exI [of _ bs] bexI [of _ u])
qed

lemma kroom_own: "kroom s L k \<Longrightarrow> kowns s L"
  by (auto simp: kroom_def kowns_def)

lemma header_area: "heap_ok s bs ls \<Longrightarrow> r \<in> set bs \<union> ls \<Longrightarrow> x \<in> region r 8 \<Longrightarrow> x \<in> kernel_area"
proof -
  assume "heap_ok s bs ls" "r \<in> set bs \<union> ls" "x \<in> region r 8"
  then have "ok_block (mem s) r" "x \<in> region r 8" using heap_okD(3) by blast+
  then show ?thesis using ok_blockD(2,3,5) [of "mem s" r] by (auto simp: kernel_area_def region_iff)
qed

lemma free_area_kernel: "heap_ok s bs ls \<Longrightarrow> free_area (mem s) bs \<subseteq> kernel_area"
  using heap_okD(3) [of s bs ls] ok_blockD(2,3) [of "mem s"] by (fastforce simp: free_area_def block_def kernel_area_def)

lemma kmalloc_outside:
  assumes r: "kroom s L (unat (nunits_of n) + k)" "0 < k" and k: "kmalloc n s = Some (a, s')" and x: "x \<notin> kernel_area"
  shows "mem s' x = mem s x"
proof -
  obtain bs where bs: "heap_ok s bs ((\<lambda>a. a - 8) ` L)" using kroom_own [OF r(1)] by (rule kownsE)
  have "x \<notin> free_area (mem s) bs" using free_area_kernel [OF bs] x by blast
  then show ?thesis using kmalloc_cases [OF bs kroom_big [OF r] k] by (auto simp: grants_def)
qed

interpretation kroom: ample_storage kowns kmalloc kfree
  "\<lambda>n s. \<not> takes_last n s" "\<lambda>a s. \<not> meets_last (a - 8) s"
  "\<lambda>s a. payload (mem s) a" mem "\<lambda>m s. s\<lparr>mem := m\<rparr>" kroom "\<lambda>n. unat (nunits_of n)" kernel_area
proof unfold_locales
  fix s :: "'a heap_scheme" and L k n a m
  assume r: "kroom s L k"
  then show "kowns s L" by (rule kroom_own)
  show "kroom (s\<lparr>mem := m\<rparr>) L k" if "a \<in> L" "\<And>x. x \<notin> payload (mem s) a \<Longrightarrow> m x = mem s x"
    using kroom_headers [OF r] payload_no_header [of s _ "(\<lambda>a. a - 8) ` L" "a - 8"] that by fastforce
  show "kroom (s\<lparr>mem := m\<rparr>) L k \<and> (\<forall>a \<in> L. payload (mem (s\<lparr>mem := m\<rparr>)) a = payload (mem s) a)"
    if "\<And>x. x \<in> kernel_area \<Longrightarrow> m x = mem s x"
  proof (intro conjI ballI)
    show "kroom (s\<lparr>mem := m\<rparr>) L k" using kroom_headers [OF r] header_area that by blast
    fix a assume "a \<in> L"
    then show "payload (mem (s\<lparr>mem := m\<rparr>)) a = payload (mem s) a"
      using kroom_own [OF r] header_area [of s _ "(\<lambda>a. a - 8) ` L" "a - 8"] that
      by (auto simp: kowns_def intro!: payload_cong hdr_cong)
  qed
  show "payload (mem s) a \<subseteq> kernel_area" if "a \<in> L"
  proof -
    obtain bs where "heap_ok s bs ((\<lambda>a. a - 8) ` L)" using kroom_own [OF r] by (rule kownsE)
    then have "ok_block (mem s) (a - 8)" using heap_okD(3) that by blast
    then show ?thesis using payload_block [of "mem s" "a - 8"] ok_blockD(2,3) [of "mem s" "a - 8"]
      by (auto simp: kernel_area_def block_def)
  qed
next
  fix s :: "'a heap_scheme" and L k n
  assume r: "kroom s L (unat (nunits_of n) + k)" "0 < k"
  obtain bs u where bs: "heap_ok s bs ((\<lambda>a. a - 8) ` L)" "u \<in> set bs"
    "unat (nunits_of n) + k \<le> unat (hdr_size (mem s) u)" using r(1) by (auto simp: kroom_def)
  from kmalloc_room_blocks [OF this r(2)] obtain p s' bs' where "kmalloc n s = Some (p + 8, s')" "p + 8 \<noteq> NULL"
    "heap_ok s' bs' (insert p ((\<lambda>a. a - 8) ` L))" "\<exists>u \<in> set bs'. k \<le> unat (hdr_size (mem s') u)" by blast
  moreover from this have "kroom s' (insert (p + 8) L) k" by (auto simp: kroom_def)
  ultimately show "\<not> takes_last n s \<and> (\<exists>a s'. kmalloc n s = Some (a, s') \<and> a \<noteq> NULL \<and> kroom s' (insert a L) k)"
    using kroom_big [OF r] by blast
qed (rule kmalloc_outside)

lemma kroom_boot: "freep s = NULL \<Longrightarrow> kroom (kmalloc_init s) {} 0x1C0000"
  using heap_ok_boot [of s] by (auto simp: kroom_def free_units_def)

lemma kroom_mono: "kroom s L k \<Longrightarrow> j \<le> k \<Longrightarrow> kroom s L j"
  by (auto simp: kroom_def intro: order.trans)

lemma kroom_cong: "freep t = freep s \<Longrightarrow> mem t = mem s \<Longrightarrow> kroom t L k \<longleftrightarrow> kroom s L k"
  by (simp add: kroom_def heap_ok_def)

lemma kmalloc_upd: "kmalloc n s = Some (a, s') \<Longrightarrow> \<exists>m f b. s' = s\<lparr>mem := m, heap_base := b, freep := f\<rparr>"
  by (cases s) (auto simp: kmalloc_def kmalloc_init_def Let_def split: bind_splits option.splits if_splits)

section \<open>Linked lists of blocks\<close>

text \<open>\<open>lseg off m a ps b\<close>: from \<open>a\<close> the pointers at offset \<open>off\<close> lead through the blocks \<open>ps\<close> to \<open>b\<close>.\<close>

primrec lseg :: "addr \<Rightarrow> memory \<Rightarrow> addr \<Rightarrow> addr list \<Rightarrow> addr \<Rightarrow> bool" where
  "lseg off m a [] b \<longleftrightarrow> a = b"
| "lseg off m a (p # ps) b \<longleftrightarrow> a = p \<and> lseg off m (ld32 m (p + off)) ps b"

lemma lseg_append: "lseg off m a (ps @ qs) b \<longleftrightarrow> (\<exists>c. lseg off m a ps c \<and> lseg off m c qs b)"
  by (induction ps arbitrary: a) auto

lemma lseg_cong:
  "(\<And>p. p \<in> set ps \<Longrightarrow> ld32 m' (p + off) = ld32 m (p + off)) \<Longrightarrow> lseg off m' a ps b = lseg off m a ps b"
  by (induction ps arbitrary: a) auto

lemma lseg_snoc: "lseg off m a ps b \<Longrightarrow> lseg off m a (ps @ [b]) (ld32 m (b + off))"
  by (auto simp: lseg_append)

section \<open>Growing a list by a block\<close>

text \<open>
  The idiom of all clients: a list whose last block \<open>p\<close> is filled in, a new block from \<open>kmalloc\<close>, linked behind
  \<open>p\<close> with its own link set to \<open>NULL\<close>. \<open>s1\<close> is the state in which \<open>p\<close> has been filled in.
\<close>

definition grown :: "'a heap_scheme \<Rightarrow> addr set \<Rightarrow> memory \<Rightarrow> addr \<Rightarrow> addr \<Rightarrow> addr \<Rightarrow> memory \<Rightarrow> bool" where
  "grown s L m1 off p a m \<longleftrightarrow>
     (\<forall>c \<in> L. payload m c = payload (mem s) c) \<and>
     (\<forall>c \<in> L - {p}. \<forall>x \<in> payload (mem s) c. m x = mem s x) \<and>
     (\<forall>x \<in> payload (mem s) p. x \<in> region (p + off) 4 \<or> m x = m1 x) \<and>
     ld32 m (p + off) = a \<and> ld32 m (a + off) = NULL"

lemma kroom_write:
  assumes "kroom s L k" "p \<in> L" "\<And>x. x \<notin> payload (mem s) p \<Longrightarrow> m x = mem s x"
  shows "kroom (s\<lparr>mem := m\<rparr>) L k" "\<And>c. c \<in> L \<Longrightarrow> payload m c = payload (mem s) c"
    "\<And>c x. c \<in> L \<Longrightarrow> c \<noteq> p \<Longrightarrow> x \<in> payload (mem s) c \<Longrightarrow> m x = mem s x"
  using kroom.own_write [OF assms(1,2), of m] assms(3) by auto

lemma kmalloc_grow:
  assumes room: "kroom s L (unat (nunits_of n) + k)" "0 < k" and n: "unat n + 7 < 4294967296" "off + 4 \<le> unat n"
    and p: "p \<in> L" "region p (unat n) \<subseteq> payload (mem s) p"
    and s1: "freep s1 = freep s" "\<And>x. x \<notin> payload (mem s) p \<Longrightarrow> mem s1 x = mem s x"
  shows "\<exists>a s2 m. kmalloc n s1 = Some (a, s2) \<and> a \<notin> L \<and> a \<noteq> NULL \<and>
    m = st32 (a + of_nat off) NULL (st32 (p + of_nat off) a (mem s2)) \<and> kroom (s2\<lparr>mem := m\<rparr>) (insert a L) k \<and>
    region a (unat n) \<subseteq> payload m a \<and> grown s L (mem s1) (of_nat off) p a m"
proof -
  note w1 = kroom_write [OF room(1) p(1) s1(2)]
  have "kroom s1 L (unat (nunits_of n) + k)" using w1(1) kroom_cong [of s1 "s\<lparr>mem := mem s1\<rparr>"] s1(1) by simp
  from kroom.new_block [OF this room(2) n(1)]
  obtain a s2 where a: "kmalloc n s1 = Some (a, s2)" "a \<notin> L" "a \<noteq> NULL" "kroom s2 (insert a L) k"
    "region a (unat n) \<subseteq> payload (mem s2) a" "\<And>c. c \<in> L \<Longrightarrow> payload (mem s2) c = payload (mem s) c"
    "\<And>c x. c \<in> L \<Longrightarrow> x \<in> payload (mem s) c \<Longrightarrow> mem s2 x = mem s1 x"
    using w1(2) by auto
  let ?o = "of_nat off :: addr"
  define m4 where "m4 = st32 (p + ?o) a (mem s2)"
  define m5 where "m5 = st32 (a + ?o) NULL m4"
  have link: "region (q + ?o) 4 \<subseteq> region q (unat n)" for q
    using region_offset [of q off 4] region_mono [OF n(2), of q] by blast
  have "m4 x = mem s2 x" if "x \<notin> payload (mem s2) p" for x
    unfolding m4_def using that a(6) [OF p(1)] p(2) link [of p] by (intro st32_outside) blast
  note w4 = kroom_write [OF a(4) insertI2 [OF p(1)] this]
  have "m5 x = m4 x" if "x \<notin> payload m4 a" for x
    unfolding m5_def using that w4(2) [of a] a(5) link [of a] by (intro st32_outside) auto
  note w5 = kroom_write [OF w4(1) insertI1, simplified, OF this]
  have pay: "payload m5 c = payload (mem s2) c" if "c \<in> insert a L" for c using w5(2) [of c] w4(2) [of c] that by auto
  have c5: "m5 x = m4 x" if "c \<in> L" "x \<in> payload (mem s) c" for c x
    using w5(3) [of c x] w4(2) [of c] a(2,6) that by auto
  have "m5 x = mem s x" if "c \<in> L - {p}" "x \<in> payload (mem s) c" for c x
    using c5 [of c x] w4(3) [of c x] a(6,7) [of c] w1(3) [of c x] that by auto
  moreover have "x \<in> region (p + ?o) 4 \<or> m5 x = mem s1 x" if "x \<in> payload (mem s) p" for x
    using c5 [OF p(1) that] a(7) [OF p(1) that] st32_outside [of x "p + ?o" a "mem s2"] by (auto simp: m4_def)
  moreover have "ld32 m5 (p + ?o) = a"
  proof -
    have "ld32 m5 (p + ?o) = ld32 m4 (p + ?o)" using c5 [OF p(1)] link [of p] p(2) by (intro ld32_cong) blast
    then show ?thesis by (simp add: m4_def)
  qed
  ultimately have "grown s L (mem s1) ?o p a m5" using pay a(6) by (simp add: grown_def m5_def)
  then show ?thesis using a w5(1) pay [of a] by (auto simp: m5_def m4_def)
qed

end
