(* ===== verification/Diskio.thy ===== *)
theory Diskio
  imports Disk Heap_Clients
begin

text \<open>
  Partitions, \<open>drivers/diskio.c\<close> and \<open>include/diskio.h\<close>: the master boot record and the chain of extended
  boot records are read into blocks from \<open>kmalloc\<close>, and the properties of every partition are
  appended to the linked list \<open>partition\<close>. The structures lie in memory with the offsets the i386 compiler
  gives their members. A local array is its address on the stack, a parameter. \<open>None\<close> as a returned value stands
  for a function that ends without a \<open>return\<close>; its callers ignore the value.
\<close>

section \<open>diskio.h\<close>

record partition_entry =
  active :: byte
  start_head :: byte
  ssc1 :: byte
  ssc2 :: byte
  pe_type :: byte
  end_head :: byte
  esc1 :: byte
  esc2 :: byte
  start_lba :: uint
  num_sec :: uint

definition ld_entry :: "memory \<Rightarrow> addr \<Rightarrow> partition_entry" where
  "ld_entry m a =
     \<lparr>active = m a, start_head = m (a + 1), ssc1 = m (a + 2), ssc2 = m (a + 3), pe_type = m (a + 4),
      end_head = m (a + 5), esc1 = m (a + 6), esc2 = m (a + 7), start_lba = ld32 m (a + 8), num_sec = ld32 m (a + 12)\<rparr>"

text \<open>\<open>struct bootsector\<close>: the entries are aligned to 4 and so begin at 448, not 446.\<close>

abbreviation sizeof_bootsector :: uint where "sizeof_bootsector \<equiv> 520"

definition bs_part :: "addr \<Rightarrow> nat \<Rightarrow> addr" where "bs_part b i = b + 448 + 16 * of_nat i"
definition bs_signature :: "addr \<Rightarrow> addr" where "bs_signature b = b + 512"
definition bs_next :: "addr \<Rightarrow> addr" where "bs_next b = b + 516"

abbreviation sizeof_part_props :: uint where "sizeof_part_props \<equiv> 28"

definition pp_name :: "addr \<Rightarrow> addr" where "pp_name p = p"
definition pp_type_byte :: "addr \<Rightarrow> addr" where "pp_type_byte p = p + 4"
definition pp_type :: "addr \<Rightarrow> addr" where "pp_type p = p + 5"
definition pp_st_lba :: "addr \<Rightarrow> addr" where "pp_st_lba p = p + 16"
definition pp_part_size :: "addr \<Rightarrow> addr" where "pp_part_size p = p + 20"
definition pp_next :: "addr \<Rightarrow> addr" where "pp_next p = p + 24"

lemmas offset_defs = bs_part_def bs_signature_def bs_next_def pp_name_def pp_type_byte_def pp_type_def
  pp_st_lba_def pp_part_size_def pp_next_def

abbreviation MBR_SIGNATURE :: half where "MBR_SIGNATURE \<equiv> 0xAA55"
abbreviation PART_DOS_EXTENDED :: byte where "PART_DOS_EXTENDED \<equiv> 0x05"
abbreviation PART_WIN95_FAT32 :: byte where "PART_WIN95_FAT32 \<equiv> 0x0B"
abbreviation PART_WIN95_FAT32_LBA :: byte where "PART_WIN95_FAT32_LBA \<equiv> 0x0C"
abbreviation PART_WIN95_EXTENDED :: byte where "PART_WIN95_EXTENDED \<equiv> 0x0F"
abbreviation PART_LINUX_NATIVE :: byte where "PART_LINUX_NATIVE \<equiv> 0x83"
abbreviation PART_LINUX_EXTENDED :: byte where "PART_LINUX_EXTENDED \<equiv> 0x85"
abbreviation PART_LINUX_HIDDEN1 :: byte where "PART_LINUX_HIDDEN1 \<equiv> 0x93"

abbreviation DISK_READ_ERR :: int where "DISK_READ_ERR \<equiv> -8"
abbreviation BAD_SIG :: int where "BAD_SIG \<equiv> -16"

text \<open>\<open>bs_temp\<close> is the variable \<open>temp\<close>.\<close>

record dio = disk +
  bslist :: addr
  bs_temp :: addr
  partition :: addr
  part_temp :: addr
  part_in :: int
  current_lba :: uint

section \<open>diskio.c\<close>

definition read_disk_sector ::
    "device \<Rightarrow> addr \<Rightarrow> int \<Rightarrow> uint \<Rightarrow> uint \<Rightarrow> 'a machine_scheme \<Rightarrow> (int \<times> 'a machine_scheme) option" where
  "read_disk_sector dev buf drive_num lba num_sectors s = read_sector dev buf drive_num lba num_sectors s"

definition write_disk_sector ::
    "(nat \<Rightarrow> uint) \<Rightarrow> (nat \<Rightarrow> uint) \<Rightarrow> device \<Rightarrow> addr \<Rightarrow> int \<Rightarrow> uint \<Rightarrow> uint \<Rightarrow> 'a machine_scheme \<Rightarrow>
     (int \<times> 'a machine_scheme) option" where
  "write_disk_sector junk ret dev buf drive_num lba num_sectors s =
     write_sector junk ret dev buf drive_num lba num_sectors s"

text \<open>Assignment of a structure of \<open>n\<close> bytes.\<close>

definition copy_struct :: "nat \<Rightarrow> addr \<Rightarrow> addr \<Rightarrow> memory \<Rightarrow> memory" where
  "copy_struct n dst src m = st_bytes dst (map (\<lambda>i. m (src + of_nat i)) [0..<n]) m"

text \<open>The four entries and the signature of a sector at \<open>buf\<close>, copied to a \<open>bootsector\<close>.\<close>

definition copy_table :: "addr \<Rightarrow> addr \<Rightarrow> memory \<Rightarrow> memory" where
  "copy_table b buf m =
     (let m1 = fold (\<lambda>i. copy_struct 16 (bs_part b i) (buf + 446 + 16 * of_nat i)) [0, 1, 2, 3] m
      in st16 (bs_signature b) (ld16 m1 (buf + 510)) m1)"

definition read_mbr :: "device \<Rightarrow> addr \<Rightarrow> int \<Rightarrow> 'a dio_scheme \<Rightarrow> (int option \<times> 'a dio_scheme) option" where
  "read_mbr dev buf drive_num s = do {
     (a, s1) \<leftarrow> kmalloc sizeof_bootsector s;
     let s2 = s1\<lparr>bslist := a, mem := st32 (bs_next a) NULL (mem s1)\<rparr>;
     (r, s3) \<leftarrow> read_disk_sector dev buf drive_num 0 1 s2;
     if r = IDE_ERR_IO_ERROR then Some (Some DISK_READ_ERR, s3)
     else Some (None, s3\<lparr>mem := copy_table (bslist s3) buf (mem s3)\<rparr>) }"

definition part_type_name :: "byte \<Rightarrow> string option" where
  "part_type_name t =
     (if t = 0x00 then Some ''Unknown'' else if t = 0x01 then Some ''DOS_FAT12''
      else if t = 0x04 then Some ''DOS3_FAT16'' else if t = 0x05 then Some ''DOS3_Extended''
      else if t = 0x06 then Some ''DOS4_FAT16'' else if t = 0x07 then Some ''NTFS''
      else if t = 0x0B then Some ''FAT32'' else if t = 0x0C then Some ''FAT32''
      else if t = 0x0E then Some ''FAT16'' else if t = 0x0F then Some ''Win95_Ext''
      else if t = 0x82 then Some ''Lin Swap'' else if t = 0x83 then Some ''LINUX''
      else if t = 0x85 then Some ''Linux Ext'' else if t = 0x93 then Some ''LINUX''
      else if t = 0xA5 then Some ''BSD_386'' else if t = 0xA6 then Some ''OpenBSD''
      else if t = 0xA9 then Some ''NetBSD'' else if t = 0xC2 then Some ''LINUX'' else None)"

text \<open>\<open>strcpy(part_temp->type, \<dots>)\<close> of the \<open>switch\<close>.\<close>

definition put_type_name :: "addr \<Rightarrow> byte \<Rightarrow> memory \<Rightarrow> memory" where
  "put_type_name p t m =
     (case part_type_name t of Some nm \<Rightarrow> st_bytes (pp_type p) (str nm @ [0]) m | None \<Rightarrow> m)"

definition save_part_props :: "addr \<Rightarrow> uint \<Rightarrow> 'a dio_scheme \<Rightarrow> 'a dio_scheme option" where
  "save_part_props pe lba s =
     (let p = part_temp s;
          m1 = st32 (pp_name p) (word_of_int (part_in s)) (mem s);
          m2 = put_type_name p (pe_type (ld_entry m1 pe)) m1;
          e = ld_entry m2 pe; t = pe_type e; start = lba + start_lba e;
          s1 = (if t = PART_LINUX_HIDDEN1 \<or> t = PART_LINUX_NATIVE
                then s\<lparr>current_lba := start, mem := (st32 (pp_st_lba p) start m2)(pp_type_byte p := t)\<rparr>
                else if t = PART_WIN95_FAT32_LBA \<or> t = PART_WIN95_FAT32
                then s\<lparr>mem := (st32 (pp_st_lba p) start m2)(pp_type_byte p := t)\<rparr>
                else s\<lparr>mem := st32 (pp_st_lba p) start m2\<rparr>);
          m3 = st32 (pp_part_size p) (num_sec (ld_entry (mem s1) pe) div 2048) (mem s1)
      in do {
        (a, s2) \<leftarrow> kmalloc sizeof_part_props (s1\<lparr>mem := m3, part_in := part_in s1 + 1\<rparr>);
        Some (s2\<lparr>mem := st32 (pp_next a) NULL (st32 (pp_next (part_temp s2)) a (mem s2)), part_temp := a\<rparr>) })"

definition traverse_primary_partitions :: "'a dio_scheme \<Rightarrow> (int option \<times> 'a dio_scheme) option" where
  "traverse_primary_partitions s =
     (if ld16 (mem s) (bs_signature (bslist s)) = MBR_SIGNATURE then do {
        s1 \<leftarrow> save_part_props (bs_part (bslist s) 0) 0 s;
        s2 \<leftarrow> save_part_props (bs_part (bslist s1) 1) 0 s1;
        s3 \<leftarrow> save_part_props (bs_part (bslist s2) 2) 0 s2;
        s4 \<leftarrow> save_part_props (bs_part (bslist s3) 3) 0 s3;
        Some (None, s4) }
      else Some (Some BAD_SIG, s))"

text \<open>\<open>bufs k\<close> is the local array of the \<open>k\<close>th nested call.\<close>

partial_function (option) get_boot_sector ::
    "device \<Rightarrow> (nat \<Rightarrow> addr) \<Rightarrow> nat \<Rightarrow> uint \<Rightarrow> uint \<Rightarrow> int \<Rightarrow> 'a dio_scheme \<Rightarrow> (int option \<times> 'a dio_scheme) option" where
  "get_boot_sector dev bufs k lba extlba drive_num s = do {
     (a, s1) \<leftarrow> kmalloc sizeof_bootsector s;
     let s2 = s1\<lparr>mem := st32 (bs_next a) NULL (st32 (bs_next (bs_temp s1)) a (mem s1)), bs_temp := a\<rparr>;
     (r, s3) \<leftarrow> read_disk_sector dev (bufs k) drive_num lba 1 s2;
     if r = IDE_ERR_NOERROR then
       (let s4 = s3\<lparr>mem := copy_table (bs_temp s3) (bufs k) (mem s3)\<rparr> in
        if ld16 (mem s4) (bs_signature (bs_temp s4)) = MBR_SIGNATURE then do {
          s5 \<leftarrow> save_part_props (bs_part (bs_temp s4) 0) lba s4;
          let e = ld_entry (mem s5) (bs_part (bs_temp s5) 1);
          if pe_type e \<noteq> 0 then do {
            (_, s6) \<leftarrow> get_boot_sector dev bufs (Suc k) (start_lba e + extlba) extlba drive_num s5;
            Some (None, s6) }
          else Some (None, s5) }
        else Some (Some BAD_SIG, s4))
     else Some (Some DISK_READ_ERR, s3) }"

definition check_if_extended ::
    "device \<Rightarrow> (nat \<Rightarrow> addr) \<Rightarrow> addr \<Rightarrow> int \<Rightarrow> 'a dio_scheme \<Rightarrow> 'a dio_scheme option" where
  "check_if_extended dev bufs pe drive_num s =
     (let e = ld_entry (mem s) pe in
      if pe_type e = PART_DOS_EXTENDED \<or> pe_type e = PART_WIN95_EXTENDED \<or> pe_type e = PART_LINUX_EXTENDED
      then map_option snd (get_boot_sector dev bufs 0 (start_lba e) (start_lba e) drive_num s)
      else Some s)"

definition traverse_extended_partitions ::
    "device \<Rightarrow> (nat \<Rightarrow> addr) \<Rightarrow> int \<Rightarrow> 'a dio_scheme \<Rightarrow> 'a dio_scheme option" where
  "traverse_extended_partitions dev bufs drive_num s = do {
     let s0 = s\<lparr>bs_temp := bslist s\<rparr>;
     s1 \<leftarrow> check_if_extended dev bufs (bs_part (bs_temp s0) 0) drive_num s0;
     s2 \<leftarrow> check_if_extended dev bufs (bs_part (bs_temp s1) 1) drive_num s1;
     s3 \<leftarrow> check_if_extended dev bufs (bs_part (bs_temp s2) 2) drive_num s2;
     check_if_extended dev bufs (bs_part (bs_temp s3) 3) drive_num s3 }"

primrec read_drives :: "device \<Rightarrow> addr \<Rightarrow> (nat \<Rightarrow> addr) \<Rightarrow> nat \<Rightarrow> int \<Rightarrow> 'a dio_scheme \<Rightarrow> 'a dio_scheme option" where
  "read_drives dev buf bufs 0 drive_num s = Some s"
| "read_drives dev buf bufs (Suc n) drive_num s = do {
     (_, s1) \<leftarrow> read_mbr dev buf drive_num s;
     (_, s2) \<leftarrow> traverse_primary_partitions s1;
     s3 \<leftarrow> traverse_extended_partitions dev bufs drive_num s2;
     read_drives dev buf bufs n (drive_num + 1) s3 }"

definition read_disk_partitions :: "device \<Rightarrow> addr \<Rightarrow> (nat \<Rightarrow> addr) \<Rightarrow> 'a dio_scheme \<Rightarrow> 'a dio_scheme option" where
  "read_disk_partitions dev buf bufs s = do {
     (a, s1) \<leftarrow> kmalloc sizeof_part_props (s\<lparr>part_in := 1\<rparr>);
     let s2 = s1\<lparr>partition := a, part_temp := a, mem := st32 (pp_next a) NULL (mem s1)\<rparr>;
     read_drives dev buf bufs (nat (num_ide_drives s2)) 0 s2 }"

section \<open>The fields of a list element\<close>

lemma offset_notin:
  assumes "i < j \<or> j + n \<le> i" "i < 4294967296" "j + n < 4294967296"
  shows "p + of_nat i \<notin> region (p + of_nat j) n"
proof
  assume "p + of_nat i \<in> region (p + of_nat j) n"
  then obtain q where "q < n" "(of_nat i :: addr) = of_nat (j + q)" by (auto simp: region_def add.assoc)
  moreover from this have "i = j + q" using assms by (subst (asm) of_nat_inj_small) auto
  ultimately show False using assms by simp
qed

text \<open>The stores of \<open>save_part_props\<close> into the element \<open>p\<close>.\<close>

definition props_mem :: "addr \<Rightarrow> uint \<Rightarrow> byte \<Rightarrow> byte list \<Rightarrow> uint \<Rightarrow> uint \<Rightarrow> memory \<Rightarrow> memory" where
  "props_mem p nm tb bs start sz m =
     st32 (p + 20) sz ((st32 (p + 16) start (st_bytes (p + 5) bs (st32 p nm m)))(p + 4 := tb))"

lemma props_mem_fields:
  assumes "length bs \<le> 14"
  shows "ld32 (props_mem p nm tb bs start sz m) p = nm" "props_mem p nm tb bs start sz m (p + 4) = tb"
    "ld32 (props_mem p nm tb bs start sz m) (p + 16) = start" "ld32 (props_mem p nm tb bs start sz m) (p + 20) = sz"
    "bytes_at (props_mem p nm tb bs start sz m) (p + 5) (take 11 bs)"
proof -
  let ?X = "st_bytes (p + 5) bs (st32 p nm m)"
  have low: "?X p = st32 p nm m p" "?X (p + 1) = st32 p nm m (p + 1)" "?X (p + 2) = st32 p nm m (p + 2)"
    "?X (p + 3) = st32 p nm m (p + 3)"
    using assms offset_notin [of 0 5 "length bs" p] offset_notin [of 1 5 "length bs" p]
      offset_notin [of 2 5 "length bs" p] offset_notin [of 3 5 "length bs" p] by (simp_all add: st_bytes_outside)
  have "ld32 (props_mem p nm tb bs start sz m) p = ld32 (st32 p nm m) p"
    unfolding props_mem_def by (simp add: ld32_def low st32_outside region_4 del: fun_upd_apply) 
      (simp add: low st32_outside region_4 add.assoc)
  then show "ld32 (props_mem p nm tb bs start sz m) p = nm" by simp
  show "props_mem p nm tb bs start sz m (p + 4) = tb"
    unfolding props_mem_def by (simp add: st32_outside region_4 add.assoc)
  show "ld32 (props_mem p nm tb bs start sz m) (p + 20) = sz" unfolding props_mem_def by simp
  have "ld32 (props_mem p nm tb bs start sz m) (p + 16) = ld32 (st32 (p + 16) start ?X) (p + 16)"
    unfolding props_mem_def by (rule ld32_cong) (auto simp: region_4 st32_outside add.assoc)
  then show "ld32 (props_mem p nm tb bs start sz m) (p + 16) = start" by simp
  have "bytes_at ?X (p + 5) bs" using assms by (intro bytes_at_st_bytes) simp
  then have "bytes_at ?X (p + 5) (take 11 bs)" by (metis append_take_drop_id bytes_at_append)
  moreover have "props_mem p nm tb bs start sz m x = ?X x" if x: "x \<in> region (p + 5) 11" for x
  proof -
    obtain i where i: "i < 11" "x = p + of_nat (5 + i)" using x by (auto simp: region_def add.assoc)
    then have "x \<notin> region (p + of_nat 16) 4" "x \<notin> region (p + of_nat 20) 4" "x \<notin> region (p + of_nat 4) 1"
      unfolding i(2) by (intro offset_notin; simp)+
    moreover from this(3) have "x \<noteq> p + 4" by simp
    ultimately show ?thesis unfolding props_mem_def by (simp add: st32_outside del: region_simps)
  qed
  moreover have "region (p + 5) (length (take 11 bs)) \<subseteq> region (p + 5) 11" by (rule region_mono) simp
  ultimately show "bytes_at (props_mem p nm tb bs start sz m) (p + 5) (take 11 bs)"
    by (subst bytes_at_cong [where m' = ?X]) blast+
qed

lemma props_mem_outside:
  assumes "length bs \<le> 14" "x \<notin> region p 28"
  shows "props_mem p nm tb bs start sz m x = m x"
proof -
  have sub: "region (p + of_nat k) n \<subseteq> region p 28" if "k + n \<le> 28" for k n
    using region_offset [of p k n] region_mono [OF that, of p] by blast
  have "x \<notin> region p 4" "x \<notin> region (p + 5) (length bs)" "x \<notin> region (p + 16) 4" "x \<notin> region (p + 20) 4" "x \<noteq> p + 4"
    using assms sub [of 0 4] sub [of 5 "length bs"] sub [of 16 4] sub [of 20 4] sub [of 4 1] by (auto simp: region_def)
  then show ?thesis by (simp add: props_mem_def st32_outside st_bytes_outside)
qed

section \<open>Appending to the list\<close>

definition typed_part :: "byte \<Rightarrow> bool" where
  "typed_part t \<longleftrightarrow> t \<in> {PART_LINUX_HIDDEN1, PART_LINUX_NATIVE, PART_WIN95_FAT32_LBA, PART_WIN95_FAT32}"

text \<open>\<open>props_at m p n e lba\<close>: the element \<open>p\<close> describes the entry \<open>e\<close>, with number \<open>n\<close>. The name of a type is
  there up to the 11 bytes before \<open>st_lba\<close>.\<close>

definition props_at :: "memory \<Rightarrow> addr \<Rightarrow> int \<Rightarrow> partition_entry \<Rightarrow> uint \<Rightarrow> bool" where
  "props_at m p n e lba \<longleftrightarrow> ld32 m (pp_name p) = word_of_int n \<and>
     ld32 m (pp_st_lba p) = lba + start_lba e \<and> ld32 m (pp_part_size p) = num_sec e div 2048 \<and>
     (typed_part (pe_type e) \<longrightarrow> m (pp_type_byte p) = pe_type e) \<and>
     (case part_type_name (pe_type e) of None \<Rightarrow> True | Some nm \<Rightarrow> bytes_at m (pp_type p) (take 11 (str nm @ [0])))"

lemma part_type_name_short: "part_type_name t = Some nm \<Longrightarrow> length nm \<le> 13"
  by (auto simp: part_type_name_def split: if_splits)

definition name_bytes_of :: "byte \<Rightarrow> byte list" where
  "name_bytes_of t = (case part_type_name t of Some nm \<Rightarrow> str nm @ [0] | None \<Rightarrow> [])"

lemma name_bytes_of_short: "length (name_bytes_of t) \<le> 14"
  by (auto simp: name_bytes_of_def part_type_name_short split: option.splits)

lemma put_type_name_bytes: "put_type_name p t m = st_bytes (p + 5) (name_bytes_of t) m"
  by (auto simp: put_type_name_def name_bytes_of_def pp_type_def split: option.splits)

lemma ld_entry_cong: "(\<And>x. x \<in> region a 16 \<Longrightarrow> m' x = m x) \<Longrightarrow> ld_entry m' a = ld_entry m a"
proof -
  assume eq: "\<And>x. x \<in> region a 16 \<Longrightarrow> m' x = m x"
  have "m' (a + of_nat i) = m (a + of_nat i)" if "i < 16" for i using eq regionI [OF that] by blast
  from this [of 0] this [of 1] this [of 2] this [of 3] this [of 4] this [of 5] this [of 6] this [of 7]
  have "m' a = m a" "m' (a + 1) = m (a + 1)" "m' (a + 2) = m (a + 2)" "m' (a + 3) = m (a + 3)" "m' (a + 4) = m (a + 4)"
    "m' (a + 5) = m (a + 5)" "m' (a + 6) = m (a + 6)" "m' (a + 7) = m (a + 7)" by simp_all
  moreover have "ld32 m' (a + 8) = ld32 m (a + 8)" "ld32 m' (a + 12) = ld32 m (a + 12)"
    using eq region_offset [of a 8 4] region_offset [of a 12 4] region_mono [of 12 16 a]
    by (auto intro!: ld32_cong simp del: region_simps)
  ultimately show ?thesis by (simp add: ld_entry_def)
qed

text \<open>What one call stores, when the entry does not lie in the element.\<close>

lemma save_part_props_mem:
  fixes s :: "'a dio_scheme" and lba :: uint
  assumes dis: "region pe 16 \<inter> region (part_temp s) 28 = {}"
  defines "p \<equiv> part_temp s" and "e \<equiv> ld_entry (mem s) pe"
  defines "m3 \<equiv> props_mem p (word_of_int (part_in s)) (if typed_part (pe_type e) then pe_type e else mem s (p + 4))
    (name_bytes_of (pe_type e)) (lba + start_lba e) (num_sec e div 2048) (mem s)"
  shows "save_part_props pe lba s = do {
    (a, s2) \<leftarrow> kmalloc sizeof_part_props (s\<lparr>current_lba := (if pe_type e \<in> {PART_LINUX_HIDDEN1, PART_LINUX_NATIVE} then lba + start_lba e else current_lba s),
      mem := m3, part_in := part_in s + 1\<rparr>);
    Some (s2\<lparr>mem := st32 (pp_next a) NULL (st32 (pp_next (part_temp s2)) a (mem s2)), part_temp := a\<rparr>) }"
proof -
  let ?m1 = "st32 p (word_of_int (part_in s)) (mem s)"
  let ?m2 = "st_bytes (p + 5) (name_bytes_of (pe_type e)) ?m1"
  let ?st = "st32 (p + 16) (lba + start_lba e) ?m2"
  have sub: "region (p + of_nat k) n \<subseteq> region p 28" if "k + n \<le> 28" for k n
    using region_offset [of p k n] region_mono [OF that, of p] by blast
  have e1: "ld_entry ?m1 pe = e"
    unfolding e_def using dis sub [of 0 4] by (intro ld_entry_cong st32_outside) (auto simp: p_def)
  have e2: "ld_entry ?m2 pe = e"
  proof -
    have "region (p + 5) (length (name_bytes_of (pe_type e))) \<subseteq> region p 28"
      using sub [of 5 "length (name_bytes_of (pe_type e))"] name_bytes_of_short [of "pe_type e"] by simp
    then have "ld_entry ?m2 pe = ld_entry ?m1 pe"
      using dis by (intro ld_entry_cong st_bytes_outside) (auto simp: p_def)
    then show ?thesis using e1 by simp
  qed
  have e3: "ld_entry ?st pe = e"
  proof -
    have "ld_entry ?st pe = ld_entry ?m2 pe"
      using dis sub [of 16 4] by (intro ld_entry_cong st32_outside) (auto simp: p_def)
    then show ?thesis using e2 by simp
  qed
  have e4: "ld_entry (?st(p + 4 := tb)) pe = e" for tb
  proof -
    have "p + 4 \<notin> region pe 16" using dis sub [of 4 1] by (auto simp: p_def)
    then have "ld_entry (?st(p + 4 := tb)) pe = ld_entry ?st pe" by (intro ld_entry_cong) auto
    then show ?thesis using e3 by simp
  qed
  have same: "?st(p + 4 := mem s (p + 4)) = ?st"
  proof -
    have "p + 4 \<notin> region (p + 5) (length (name_bytes_of (pe_type e)))"
      using offset_notin [of 4 5 "length (name_bytes_of (pe_type e))" p] name_bytes_of_short [of "pe_type e"] by simp
    then have "?st (p + 4) = mem s (p + 4)" by (simp add: st32_outside st_bytes_outside region_4 add.assoc)
    then show ?thesis by (metis fun_upd_triv)
  qed
  have noop: "s\<lparr>current_lba := current_lba s\<rparr> = s" by simp
  show ?thesis
    unfolding save_part_props_def Let_def put_type_name_bytes p_def [symmetric] e1 pp_name_def pp_st_lba_def
      pp_type_byte_def pp_part_size_def e2
    by (auto simp: e3 e4 m3_def props_mem_def same noop typed_part_def simp del: fun_upd_apply)
qed

definition part_list :: "'a dio_scheme \<Rightarrow> addr set \<Rightarrow> nat \<Rightarrow> addr list \<Rightarrow> bool" where
  "part_list s L k ps \<longleftrightarrow> kroom s L k \<and> set (ps @ [part_temp s]) \<subseteq> L \<and> distinct (ps @ [part_temp s]) \<and>
     (\<forall>p \<in> set (ps @ [part_temp s]). region p 28 \<subseteq> payload (mem s) p) \<and>
     lseg 24 (mem s) (partition s) ps (part_temp s) \<and> ld32 (mem s) (pp_next (part_temp s)) = NULL \<and>
     part_in s = int (length ps) + 1"

text \<open>What a call leaves alone: every block but the last element, and the other variables.\<close>

definition keeps_blocks :: "addr set \<Rightarrow> 'a dio_scheme \<Rightarrow> 'a dio_scheme \<Rightarrow> bool" where
  "keeps_blocks K s s' \<longleftrightarrow> (\<forall>b \<in> K. payload (mem s') b = payload (mem s) b \<and> (\<forall>x \<in> payload (mem s) b. mem s' x = mem s x))"

definition same_lists :: "'a dio_scheme \<Rightarrow> 'a dio_scheme \<Rightarrow> bool" where
  "same_lists s s' \<longleftrightarrow> bslist s' = bslist s \<and> bs_temp s' = bs_temp s \<and> partition s' = partition s \<and>
     num_ide_drives s' = num_ide_drives s"

lemma kmalloc_same_lists: "kmalloc n s = Some (a, s') \<Longrightarrow> same_lists s s' \<and> part_temp s' = part_temp s \<and>
    part_in s' = part_in s \<and> current_lba s' = current_lba s"
  using kmalloc_upd [of n s a s'] by (auto simp: same_lists_def)

lemma units_part_props: "unat (nunits_of sizeof_part_props) = 5"
  by (simp add: unat_nunits)

lemma props_at_cong:
  assumes "props_at m p n e lba" "\<And>x. x \<in> region p 24 \<Longrightarrow> m' x = m x"
  shows "props_at m' p n e lba"
proof -
  have sub: "region (p + of_nat k) n \<subseteq> region p 24" if "k + n \<le> 24" for k n
    using region_offset [of p k n] region_mono [OF that, of p] by blast
  have w: "ld32 m' (p + of_nat k) = ld32 m (p + of_nat k)" if "k + 4 \<le> 24" for k
    using assms(2) sub [OF that] by (intro ld32_cong) blast
  have b: "bytes_at m' (p + 5) (take 11 bs) = bytes_at m (p + 5) (take 11 bs)" for bs
  proof (rule bytes_at_cong)
    have "region (p + 5) (length (take 11 bs)) \<subseteq> region p 24"
      using sub [of 5 "length (take 11 bs)"] by (simp add: min_le_iff_disj)
    then show "x \<in> region (p + 5) (length (take 11 bs)) \<Longrightarrow> m' x = m x" for x using assms(2) by blast
  qed
  show ?thesis
    using assms(1) w [of 0] w [of 16] w [of 20] b assms(2) [of "p + 4"] regionI [of 4 24 p]
    by (auto simp: props_at_def pp_name_def pp_st_lba_def pp_part_size_def pp_type_byte_def pp_type_def split: option.splits
      simp del: take_append)
qed

lemma props_mem_props_at:
  "props_at (props_mem p (word_of_int n) (if typed_part (pe_type e) then pe_type e else tb)
      (name_bytes_of (pe_type e)) (lba + start_lba e) (num_sec e div 2048) m) p n e lba"
  using props_mem_fields [OF name_bytes_of_short [of "pe_type e"], of p]
  by (auto simp: props_at_def pp_name_def pp_st_lba_def pp_part_size_def pp_type_byte_def pp_type_def
    name_bytes_of_def split: option.splits simp del: take_append)

lemma save_part_props_ok:
  assumes pl: "part_list s L (5 + k) ps" "0 < k"
    and pe: "b \<in> L" "b \<noteq> part_temp s" "region pe 16 \<subseteq> payload (mem s) b"
  shows "\<exists>s'. save_part_props pe lba s = Some s' \<and> part_temp s' \<notin> L \<and>
    part_list s' (insert (part_temp s') L) k (ps @ [part_temp s]) \<and>
    props_at (mem s') (part_temp s) (part_in s) (ld_entry (mem s) pe) lba \<and>
    keeps_blocks (L - {part_temp s}) s s' \<and> same_lists s s'"
proof -
  define p where "p = part_temp s"
  define e where "e = ld_entry (mem s) pe"
  define m3 where "m3 = props_mem p (word_of_int (part_in s)) (if typed_part (pe_type e) then pe_type e else mem s (p + 4))
    (name_bytes_of (pe_type e)) (lba + start_lba e) (num_sec e div 2048) (mem s)"
  define s1 where "s1 = s\<lparr>current_lba := (if pe_type e \<in> {PART_LINUX_HIDDEN1, PART_LINUX_NATIVE} then lba + start_lba e else current_lba s),
      mem := m3, part_in := part_in s + 1\<rparr>"
  have r: "kroom s L (5 + k)" "p \<in> L" "region p 28 \<subseteq> payload (mem s) p" "distinct (ps @ [p])" "set ps \<subseteq> L"
    using pl(1) by (auto simp: part_list_def p_def)
  have ps28: "region q 28 \<subseteq> payload (mem s) q" if "q \<in> set ps" for q using pl(1) that by (auto simp: part_list_def)
  have dis: "payload (mem s) b \<inter> payload (mem s) p = {}"
    using kowns_disjoint [OF kroom_own [OF r(1)] pe(1) r(2)] pe(2) by (simp add: p_def)
  have sv: "save_part_props pe lba s = do {
    (a, s2) \<leftarrow> kmalloc sizeof_part_props s1;
    Some (s2\<lparr>mem := st32 (pp_next a) NULL (st32 (pp_next (part_temp s2)) a (mem s2)), part_temp := a\<rparr>) }"
    unfolding s1_def m3_def p_def e_def
    by (rule save_part_props_mem) (use dis pe(3) r(3) p_def in blast)
  have out3: "m3 x = mem s x" if "x \<notin> payload (mem s) p" for x
    unfolding m3_def using that r(3) name_bytes_of_short by (intro props_mem_outside) auto
  have k1: "freep s1 = freep s" "\<And>x. x \<notin> payload (mem s) p \<Longrightarrow> mem s1 x = mem s x"
    using out3 by (simp_all add: s1_def)
  from kmalloc_grow [where n = sizeof_part_props and off = 24, OF _ pl(2) _ _ r(2) _ k1] r(1,3)
  obtain a s2 m where a: "kmalloc sizeof_part_props s1 = Some (a, s2)" "a \<notin> L"
    "m = st32 (a + 24) NULL (st32 (p + 24) a (mem s2))" "kroom (s2\<lparr>mem := m\<rparr>) (insert a L) k"
    "region a 28 \<subseteq> payload m a" "grown s L (mem s1) 24 p a m"
    by (auto simp: units_part_props)
  note f2 = kmalloc_same_lists [OF a(1)] and g = a(6) [unfolded grown_def]
  define s' where "s' = s2\<lparr>mem := m, part_temp := a\<rparr>"
  have new: "m x = m3 x" if "x \<in> region p 24" for x
  proof -
    have "region p 24 \<subseteq> region p 28" by (rule region_mono) simp
    moreover have "region (p + of_nat 0) 24 \<inter> region (p + of_nat 24) 4 = {}" by (rule region_offsets_disjoint) simp_all
    ultimately have "x \<in> payload (mem s) p" "x \<notin> region (p + 24) 4" using that r(3) by auto
    then show ?thesis using g by (auto simp: s1_def)
  qed
  have seg: "lseg 24 m (partition s) ps p"
  proof -
    have "ld32 m (q + 24) = ld32 (mem s) (q + 24)" if "q \<in> set ps" for q
    proof -
      have "q \<in> L - {p}" using that r(4,5) by auto
      moreover have "region (q + 24) 4 \<subseteq> payload (mem s) q"
        using ps28 [OF that] region_offset [of q 24 4] by simp
      ultimately show ?thesis using g by (intro ld32_cong) blast
    qed
    then show ?thesis using pl(1) lseg_cong [of ps m 24 "mem s"] by (simp add: part_list_def p_def)
  qed
  have "region q 28 \<subseteq> payload m q" if "q \<in> insert a (insert p (set ps))" for q
    using that a(5) g ps28 r(2,3,5) by blast
  then have "part_list s' (insert a L) k (ps @ [p])"
    using kroom_cong [of s' "s2\<lparr>mem := m\<rparr>"] a(2,4) r lseg_snoc [OF seg] g f2 pl(1)
    by (auto simp: part_list_def s'_def same_lists_def s1_def pp_next_def)
  moreover have "save_part_props pe lba s = Some s'"
    using sv a(1,3) f2 by (simp add: s'_def pp_next_def p_def s1_def)
  moreover have "props_at m p (part_in s) e lba"
    using props_at_cong [OF props_mem_props_at] new unfolding m3_def by blast
  moreover have "keeps_blocks (L - {p}) s s'" using g by (auto simp: keeps_blocks_def s'_def)
  moreover have "same_lists s s'" using f2 by (auto simp: same_lists_def s'_def s1_def)
  ultimately show ?thesis using a(2) by (intro exI [of _ s']) (simp add: s'_def p_def e_def)
qed

section \<open>The primary partitions\<close>

primrec save_all :: "addr list \<Rightarrow> uint \<Rightarrow> 'a dio_scheme \<Rightarrow> 'a dio_scheme option" where
  "save_all [] lba s = Some s"
| "save_all (pe # pes) lba s = Option.bind (save_part_props pe lba s) (save_all pes lba)"

text \<open>\<open>listed m n es ps\<close>: the elements \<open>ps\<close> describe the entries \<open>es\<close>, numbered from \<open>n\<close>.\<close>

primrec listed :: "memory \<Rightarrow> int \<Rightarrow> (partition_entry \<times> uint) list \<Rightarrow> addr list \<Rightarrow> bool" where
  "listed m n [] ps \<longleftrightarrow> ps = []"
| "listed m n (e # es) ps \<longleftrightarrow>
     (case ps of [] \<Rightarrow> False | p # qs \<Rightarrow> props_at m p n (fst e) (snd e) \<and> listed m (n + 1) es qs)"

lemma listed_length: "listed m n es ps \<Longrightarrow> length ps = length es"
  by (induction es arbitrary: n ps) (auto split: list.splits)

lemma listed_cong:
  "listed m n es ps \<Longrightarrow> (\<And>p x. p \<in> set ps \<Longrightarrow> x \<in> region p 28 \<Longrightarrow> m' x = m x) \<Longrightarrow> listed m' n es ps"
proof (induction es arbitrary: n ps)
  case (Cons e es)
  then obtain p qs where ps: "ps = p # qs" "props_at m p n (fst e) (snd e)" "listed m (n + 1) es qs"
    by (auto split: list.splits)
  have "region p 24 \<subseteq> region p 28" by (rule region_mono) simp
  then have "props_at m' p n (fst e) (snd e)" using Cons.prems(2) ps(1) by (intro props_at_cong [OF ps(2)]) auto
  moreover have "listed m' (n + 1) es qs" using Cons.prems(2) ps(1) by (intro Cons.IH [OF ps(3)]) auto
  ultimately show ?case by (simp add: ps(1))
qed simp

lemma listed_append: "listed m n es ps \<Longrightarrow> listed m (n + int (length es)) fs qs \<Longrightarrow> listed m n (es @ fs) (ps @ qs)"
  by (induction es arbitrary: n ps) (auto split: list.splits simp: algebra_simps)

lemma keeps_blocks_trans: "keeps_blocks K s s' \<Longrightarrow> keeps_blocks K s' s'' \<Longrightarrow> keeps_blocks K s s''"
  by (auto simp: keeps_blocks_def)

lemma keeps_blocks_mono: "keeps_blocks K s s' \<Longrightarrow> K' \<subseteq> K \<Longrightarrow> keeps_blocks K' s s'"
  by (auto simp: keeps_blocks_def)

lemma save_all_ok:
  "part_list s L (5 * length pes + k) ps \<Longrightarrow> 0 < k \<Longrightarrow> b \<in> L \<Longrightarrow> b \<notin> set (ps @ [part_temp s]) \<Longrightarrow>
   (\<And>pe. pe \<in> set pes \<Longrightarrow> region pe 16 \<subseteq> payload (mem s) b) \<Longrightarrow>
   \<exists>s' qs L'. save_all pes lba s = Some s' \<and> part_list s' L' k (ps @ qs) \<and> L \<subseteq> L' \<and>
     listed (mem s') (part_in s) (map (\<lambda>pe. (ld_entry (mem s) pe, lba)) pes) qs \<and>
     keeps_blocks (L - {part_temp s}) s s' \<and> same_lists s s' \<and> set (qs @ [part_temp s']) \<inter> L \<subseteq> {part_temp s}"
proof (induction pes arbitrary: s L ps)
  case Nil
  then show ?case
    by (intro exI [of _ s] exI [of _ "[]"] exI [of _ L]) (auto simp: keeps_blocks_def same_lists_def)
next
  case (Cons pe pes)
  let ?p = "part_temp s"
  have pl: "part_list s L (5 + (5 * length pes + k)) ps" using Cons.prems(1) by (simp add: algebra_simps)
  have b: "b \<noteq> ?p" "region pe 16 \<subseteq> payload (mem s) b" using Cons.prems(4,5) by auto
  obtain s1 where s1: "save_part_props pe lba s = Some s1" "part_temp s1 \<notin> L"
    "part_list s1 (insert (part_temp s1) L) (5 * length pes + k) (ps @ [?p])"
    "props_at (mem s1) ?p (part_in s) (ld_entry (mem s) pe) lba" "keeps_blocks (L - {?p}) s s1" "same_lists s s1"
    using save_part_props_ok [OF pl _ Cons.prems(3) b] Cons.prems(2) by auto
  have same: "payload (mem s1) b = payload (mem s) b" "\<And>x. x \<in> payload (mem s) b \<Longrightarrow> mem s1 x = mem s x"
    using s1(5) Cons.prems(3) b(1) by (auto simp: keeps_blocks_def)
  have ents: "ld_entry (mem s1) q = ld_entry (mem s) q" if "q \<in> set pes" for q
    using Cons.prems(5) [of q] that same(2) by (intro ld_entry_cong) auto
  have pl1: "?p \<in> L" "region ?p 28 \<subseteq> payload (mem s1) ?p"
    using Cons.prems(1) s1(3) by (auto simp: part_list_def)
  have b1: "b \<noteq> part_temp s1" using s1(2) Cons.prems(3) by auto
  have n: "part_in s1 = part_in s + 1" using Cons.prems(1) s1(3) by (simp add: part_list_def)
  obtain s' qs L' where s': "save_all pes lba s1 = Some s'" "part_list s' L' k ((ps @ [?p]) @ qs)"
    "insert (part_temp s1) L \<subseteq> L'"
    "listed (mem s') (part_in s + 1) (map (\<lambda>pe. (ld_entry (mem s) pe, lba)) pes) qs"
    "keeps_blocks L s1 s'" "same_lists s1 s'"
    "set (qs @ [part_temp s']) \<inter> insert (part_temp s1) L \<subseteq> {part_temp s1}"
    using Cons.IH [OF s1(3) Cons.prems(2)] Cons.prems(3,4,5) s1(2) same(1) ents n b1
    by (auto simp: keeps_blocks_def cong: map_cong)
  have "region ?p 24 \<subseteq> region ?p 28" by (rule region_mono) simp
  then have "props_at (mem s') ?p (part_in s) (ld_entry (mem s) pe) lba"
    using s'(5) pl1 by (intro props_at_cong [OF s1(4)]) (auto simp: keeps_blocks_def)
  then have "listed (mem s') (part_in s) (map (\<lambda>pe. (ld_entry (mem s) pe, lba)) (pe # pes)) (?p # qs)"
    using s'(4) by simp
  moreover have "keeps_blocks (L - {?p}) s s'"
    using keeps_blocks_trans [OF s1(5) keeps_blocks_mono [OF s'(5)]] by blast
  moreover have "same_lists s s'" using s1(6) s'(6) by (simp add: same_lists_def)
  ultimately show ?case
    using s1(1,2) s'(1,2,3,7) by (intro exI [of _ s'] exI [of _ "?p # qs"] exI [of _ L']) auto
qed

lemma save_part_props_bslist: "save_part_props pe lba s = Some s' \<Longrightarrow> bslist s' = bslist s"
  by (auto simp: save_part_props_def Let_def same_lists_def split: bind_splits if_splits dest!: kmalloc_same_lists)

lemma traverse_primary_ok:
  assumes "part_list s L (20 + k) ps" "0 < k" "bslist s \<in> L" "bslist s \<notin> set (ps @ [part_temp s])"
    and "region (bslist s) 520 \<subseteq> payload (mem s) (bslist s)"
    and "ld16 (mem s) (bs_signature (bslist s)) = MBR_SIGNATURE"
  shows "\<exists>s' qs L'. traverse_primary_partitions s = Some (None, s') \<and> part_list s' L' k (ps @ qs) \<and> L \<subseteq> L' \<and>
    listed (mem s') (part_in s) (map (\<lambda>i. (ld_entry (mem s) (bs_part (bslist s) i), 0)) [0, 1, 2, 3]) qs \<and>
    keeps_blocks (L - {part_temp s}) s s' \<and> same_lists s s' \<and> set (qs @ [part_temp s']) \<inter> L \<subseteq> {part_temp s}"
proof -
  let ?pes = "map (bs_part (bslist s)) [0, 1, 2, 3]"
  have "region (bslist s + of_nat (448 + 16 * i)) 16 \<subseteq> region (bslist s) 520" if "i < 4" for i
    using region_offset [of "bslist s" "448 + 16 * i" 16] region_mono [of "448 + 16 * i + 16" 520 "bslist s"] that by fastforce
  then have part: "region (bs_part (bslist s) i) 16 \<subseteq> payload (mem s) (bslist s)" if "i < 4" for i
    using that assms(5) unfolding bs_part_def by (auto simp: add.assoc)
  have e: "region pe 16 \<subseteq> payload (mem s) (bslist s)" if "pe \<in> set ?pes" for pe
  proof -
    from that obtain i where "i \<in> set [0, 1, 2, 3 :: nat]" "pe = bs_part (bslist s) i" by (auto simp only: set_map)
    then show ?thesis using part [of i] by auto
  qed
  have "traverse_primary_partitions s = map_option (\<lambda>s'. (None, s')) (save_all ?pes 0 s)"
    using assms(6)
    by (auto simp: traverse_primary_partitions_def save_part_props_bslist split: bind_split)
  then show ?thesis using save_all_ok [of s L ?pes k ps "bslist s" 0] assms e by auto
qed

section \<open>Copying the table of a boot sector\<close>

lemma copy_struct_at: "i < n \<Longrightarrow> n < 4294967296 \<Longrightarrow> copy_struct n dst src m (dst + of_nat i) = m (src + of_nat i)"
  using bytes_at_nth [OF bytes_at_st_bytes [of "map (\<lambda>i. m (src + of_nat i)) [0..<n]" dst m], of i]
  by (simp add: copy_struct_def)

lemma copy_struct_outside: "x \<notin> region dst n \<Longrightarrow> copy_struct n dst src m x = m x"
  by (simp add: copy_struct_def st_bytes_outside)

definition copy_entry :: "addr \<Rightarrow> addr \<Rightarrow> nat \<Rightarrow> memory \<Rightarrow> memory" where
  "copy_entry b buf i = copy_struct 16 (bs_part b i) (buf + 446 + 16 * of_nat i)"

lemma bs_part_offset: "bs_part b i = b + of_nat (448 + 16 * i)"
  by (simp add: bs_part_def add.assoc)

lemma copy_entry_at:
  assumes "i < 4" "j < 4" "k < 16"
  shows "copy_entry b buf i m (b + of_nat (448 + 16 * j + k)) =
    (if i = j then m (buf + of_nat (446 + 16 * j + k)) else m (b + of_nat (448 + 16 * j + k)))"
proof (cases "i = j")
  case True
  then show ?thesis
    using copy_struct_at [of k 16 "bs_part b i" "buf + 446 + 16 * of_nat i" m] assms
    by (simp add: copy_entry_def bs_part_offset add.assoc)
next
  case False
  then have "b + of_nat (448 + 16 * j + k) \<notin> region (b + of_nat (448 + 16 * i)) 16"
    using assms by (intro offset_notin) auto
  then show ?thesis using False unfolding copy_entry_def bs_part_offset
    by (simp only: copy_struct_outside not_False_eq_True if_False)
qed

lemma copy_entry_outside: "i < 4 \<Longrightarrow> x \<notin> region b 520 \<Longrightarrow> copy_entry b buf i m x = m x"
proof -
  assume "i < 4" "x \<notin> region b 520"
  then have "x \<notin> region (bs_part b i) 16"
    using region_offset [of b "448 + 16 * i" 16] region_mono [of "448 + 16 * i + 16" 520 b]
    unfolding bs_part_offset by auto
  then show ?thesis by (simp add: copy_entry_def copy_struct_outside)
qed

lemma copy_entries:
  assumes "region b 520 \<inter> region buf 512 = {}"
  shows "list_all (\<lambda>i. i < 4) is \<Longrightarrow> x \<notin> region b 520 \<Longrightarrow> fold (copy_entry b buf) is m x = m x"
    and "list_all (\<lambda>i. i < 4) is \<Longrightarrow> j < 4 \<Longrightarrow> k < 16 \<Longrightarrow>
      fold (copy_entry b buf) is m (b + of_nat (448 + 16 * j + k)) =
        (if j \<in> set is then m (buf + of_nat (446 + 16 * j + k)) else m (b + of_nat (448 + 16 * j + k)))"
proof -
  show "list_all (\<lambda>i. i < 4) is \<Longrightarrow> x \<notin> region b 520 \<Longrightarrow> fold (copy_entry b buf) is m x = m x"
    by (induction "is" arbitrary: m) (simp_all add: copy_entry_outside)
  show "list_all (\<lambda>i. i < 4) is \<Longrightarrow> j < 4 \<Longrightarrow> k < 16 \<Longrightarrow>
      fold (copy_entry b buf) is m (b + of_nat (448 + 16 * j + k)) =
        (if j \<in> set is then m (buf + of_nat (446 + 16 * j + k)) else m (b + of_nat (448 + 16 * j + k)))"
  proof (induction "is" arbitrary: m)
    case (Cons i "is")
    have "buf + of_nat (446 + 16 * j + k) \<in> region buf 512" using Cons.prems(2,3) by (intro regionI) simp
    then have "copy_entry b buf i m (buf + of_nat (446 + 16 * j + k)) = m (buf + of_nat (446 + 16 * j + k))"
      using Cons.prems(1) assms by (intro copy_entry_outside) auto
    then show ?case
      using Cons.IH [of "copy_entry b buf i m"] Cons.prems copy_entry_at [of i j k b buf m]
      by (auto simp del: of_nat_add)
  qed simp
qed

lemma ld_entry_shift:
  assumes "\<And>i. i < 16 \<Longrightarrow> m (a + of_nat i) = m' (b + of_nat i)"
  shows "ld_entry m a = ld_entry m' b"
  using assms [of 0] assms [of 1] assms [of 2] assms [of 3] assms [of 4] assms [of 5] assms [of 6] assms [of 7]
    assms [of 8] assms [of 9] assms [of 10] assms [of 11] assms [of 12] assms [of 13] assms [of 14] assms [of 15]
  by (simp add: ld_entry_def ld32_def add.assoc)

lemma copy_table_ok:
  assumes dis: "region b 520 \<inter> region buf 512 = {}"
  shows "i < 4 \<Longrightarrow> ld_entry (copy_table b buf m) (bs_part b i) = ld_entry m (buf + of_nat (446 + 16 * i))"
    and "ld16 (copy_table b buf m) (bs_signature b) = ld16 m (buf + 510)"
    and "x \<notin> region b 520 \<Longrightarrow> copy_table b buf m x = m x"
proof -
  let ?m1 = "fold (copy_entry b buf) [0, 1, 2, 3] m"
  have c: "copy_table b buf m = st16 (b + 512) (ld16 ?m1 (buf + 510)) ?m1"
    by (simp add: copy_table_def copy_entry_def bs_signature_def Let_def)
  have four: "list_all (\<lambda>i. i < 4) [0, 1, 2, 3 :: nat]" by simp
  note f = copy_entries [OF dis four]
  have "region (buf + of_nat 510) 2 \<subseteq> region buf 512" using region_offset [of buf 510 2] by simp
  then have sig: "ld16 ?m1 (buf + 510) = ld16 m (buf + 510)" using dis f(1) by (intro ld16_cong) auto
  show "ld16 (copy_table b buf m) (bs_signature b) = ld16 m (buf + 510)"
    unfolding c sig bs_signature_def by simp
  show "ld_entry (copy_table b buf m) (bs_part b i) = ld_entry m (buf + of_nat (446 + 16 * i))" if "i < 4"
  proof (rule ld_entry_shift)
    fix k :: nat assume k: "k < 16"
    have "b + of_nat (448 + 16 * i + k) \<notin> region (b + of_nat 512) 2" using that k by (intro offset_notin) auto
    then have "copy_table b buf m (b + of_nat (448 + 16 * i + k)) = ?m1 (b + of_nat (448 + 16 * i + k))"
      unfolding c by (intro st16_outside) simp
    also have "\<dots> = m (buf + of_nat (446 + 16 * i + k))"
    proof -
      have "i \<in> set [0, 1, 2, 3]" using that by auto
      then show ?thesis using f(2) [OF that k, of m] by (simp only: if_True)
    qed
    finally show "copy_table b buf m (bs_part b i + of_nat k) = m (buf + of_nat (446 + 16 * i) + of_nat k)"
      by (simp add: bs_part_offset add.assoc)
  qed
  show "copy_table b buf m x = m x" if x: "x \<notin> region b 520"
  proof -
    have "region (b + of_nat 512) 2 \<subseteq> region b 520"
      using region_offset [of b 512 2] region_mono [of 514 520 b] by simp
    then have "copy_table b buf m x = ?m1 x" using x unfolding c by (intro st16_outside) auto
    then show ?thesis using f(1) [OF x, of m] by simp
  qed
qed

section \<open>Reading the master boot record of a drive\<close>

definition sector_entry :: "byte list \<Rightarrow> nat \<Rightarrow> partition_entry" where
  "sector_entry sec i = ld_entry (\<lambda>x. sec ! unat x) (of_nat (446 + 16 * i))"

definition sector_signature :: "byte list \<Rightarrow> half" where
  "sector_signature sec = ld16 (\<lambda>x. sec ! unat x) 510"

lemma sector_at:
  assumes "length sec = 512"
  shows "i < 4 \<Longrightarrow> ld_entry (st_bytes buf sec m) (buf + of_nat (446 + 16 * i)) = sector_entry sec i"
    and "ld16 (st_bytes buf sec m) (buf + 510) = sector_signature sec"
proof -
  have at: "st_bytes buf sec m (buf + of_nat k) = sec ! k" if "k < 512" for k
    using that assms by (intro bytes_at_nth bytes_at_st_bytes) simp_all
  show "ld_entry (st_bytes buf sec m) (buf + of_nat (446 + 16 * i)) = sector_entry sec i" if "i < 4"
    unfolding sector_entry_def
  proof (rule ld_entry_shift)
    fix k :: nat assume "k < 16"
    then show "st_bytes buf sec m (buf + of_nat (446 + 16 * i) + of_nat k) = sec ! unat (of_nat (446 + 16 * i) + of_nat k :: addr)"
      using that at [of "446 + 16 * i + k"] unat_of_nat_small [of "446 + 16 * i + k"] by (simp add: add.assoc)
  qed
  show "ld16 (st_bytes buf sec m) (buf + 510) = sector_signature sec"
    using at [of 510] at [of 511] by (simp add: sector_signature_def ld16_def add.assoc)
qed

lemma units_bootsector: "unat (nunits_of sizeof_bootsector) = 66"
  by (simp add: unat_nunits)

lemma region_area: "region a n \<subseteq> payload (mem s) a \<Longrightarrow> kroom s L k \<Longrightarrow> a \<in> L \<Longrightarrow> region a n \<subseteq> kernel_area"
  using kroom.usable_area by blast

text \<open>A sector read to the stack and its table copied to the block \<open>a\<close>.\<close>

definition has_table :: "memory \<Rightarrow> addr \<Rightarrow> byte list \<Rightarrow> bool" where
  "has_table m a sec \<longleftrightarrow> (\<forall>i < 4. ld_entry m (bs_part a i) = sector_entry sec i) \<and>
     ld16 m (bs_signature a) = sector_signature sec"

lemma has_table_cong:
  assumes "has_table m a sec" "\<And>x. x \<in> region a 520 \<Longrightarrow> m' x = m x"
  shows "has_table m' a sec"
proof -
  have "region (bs_part a i) 16 \<subseteq> region a 520" if "i < 4" for i
    using region_offset [of a "448 + 16 * i" 16] region_mono [of "448 + 16 * i + 16" 520 a] that
    unfolding bs_part_offset by auto
  then have "ld_entry m' (bs_part a i) = ld_entry m (bs_part a i)" if "i < 4" for i
    using that assms(2) by (intro ld_entry_cong) blast
  moreover have "region (a + of_nat 512) 2 \<subseteq> region a 520"
    using region_offset [of a 512 2] region_mono [of 514 520 a] by simp
  then have "ld16 m' (bs_signature a) = ld16 m (bs_signature a)"
    using assms(2) by (intro ld16_cong) (auto simp: bs_signature_def)
  ultimately show ?thesis using assms(1) by (simp add: has_table_def)
qed

lemma read_table:
  assumes ata: "ata_reads dev disk" "drive = 0 \<or> drive = 1" "unat lba < 268435456"
    and len: "length (disk drive (unat lba)) = 512"
    and room: "kroom s L k" "a \<in> L" "region a 520 \<subseteq> payload (mem s) a" and buf: "region buf 512 \<inter> kernel_area = {}"
  shows "\<exists>h m. read_disk_sector dev buf drive lba 1 s = Some (IDE_ERR_NOERROR, s\<lparr>io := h, mem := m\<rparr>) \<and>
    kroom (s\<lparr>mem := copy_table a buf m\<rparr>) L k \<and> (\<forall>b \<in> L. payload (copy_table a buf m) b = payload (mem s) b) \<and>
    (\<forall>b \<in> L - {a}. \<forall>x \<in> payload (mem s) b. copy_table a buf m x = mem s x) \<and>
    has_table (copy_table a buf m) a (disk drive (unat lba))"
proof -
  let ?sec = "disk drive (unat lba)"
  obtain h where h: "read_disk_sector dev buf drive lba 1 s =
      Some (IDE_ERR_NOERROR, s\<lparr>io := h, mem := st_bytes buf ?sec (mem s)\<rparr>)"
    using read_sector_ata [OF ata, of buf s] by (auto simp: read_disk_sector_def)
  let ?m3 = "st_bytes buf ?sec (mem s)"
  have out3: "?m3 x = mem s x" if "x \<in> kernel_area" for x
    using that buf len by (intro st_bytes_outside) auto
  have w3: "kroom (s\<lparr>mem := ?m3\<rparr>) L k" "\<And>b. b \<in> L \<Longrightarrow> payload ?m3 b = payload (mem s) b"
    using kroom.room_elsewhere [OF room(1), of ?m3] out3 by auto
  have dis: "region a 520 \<inter> region buf 512 = {}" using region_area [OF room(3,1,2)] buf by blast
  note ct = copy_table_ok [OF dis, where m = ?m3]
  let ?m4 = "copy_table a buf ?m3"
  have "?m4 x = mem (s\<lparr>mem := ?m3\<rparr>) x" if "x \<notin> payload (mem (s\<lparr>mem := ?m3\<rparr>)) a" for x
    using that room(2,3) w3(2) [of a] ct(3) [of x] by auto
  note w4 = kroom_write [OF w3(1) room(2) this]
  have "has_table ?m4 a ?sec"
    using ct(1,2) sector_at [OF len, where buf = buf and m = "mem s"] by (simp add: has_table_def)
  moreover have "?m4 x = mem s x" if "b \<in> L - {a}" "x \<in> payload (mem s) b" for b x
    using that w4(3) [of b x] w3(2) [of b] out3 [of x] kroom.usable_area [OF room(1), of b] by auto
  ultimately show ?thesis using h w4(1,2) w3(2) by (intro exI [of _ h] exI [of _ ?m3]) auto
qed

lemma fresh_bootsector:
  assumes room: "kroom s L (66 + k)" "0 < k"
  obtains a s1 where "kmalloc sizeof_bootsector s = Some (a, s1)" "a \<notin> L" "kroom s1 (insert a L) k"
    "region a 520 \<subseteq> payload (mem s1) a" "keeps_blocks L s s1" "same_lists s s1"
    "part_temp s1 = part_temp s" "part_in s1 = part_in s" "freep (s1\<lparr>mem := m\<rparr>) = freep s1"
proof -
  have r: "kroom s L (unat (nunits_of sizeof_bootsector) + k)" using room(1) by (simp add: units_bootsector)
  obtain a s1 where "kmalloc sizeof_bootsector s = Some (a, s1)" "a \<notin> L" "kroom s1 (insert a L) k"
    "region a 520 \<subseteq> payload (mem s1) a" "keeps_blocks L s s1"
    using kroom.new_block [OF r room(2)] by (auto simp: keeps_blocks_def)
  then show ?thesis using that [of a s1] kmalloc_same_lists [of sizeof_bootsector s a s1] by auto
qed

text \<open>A store of a link in a boot sector block.\<close>

lemma link_bootsector:
  assumes "kroom s L k" "b \<in> L" "region b 520 \<subseteq> payload (mem s) b"
  shows "kroom (s\<lparr>mem := st32 (bs_next b) v (mem s)\<rparr>) L k"
    "\<And>c. c \<in> L \<Longrightarrow> payload (st32 (bs_next b) v (mem s)) c = payload (mem s) c"
    "\<And>c x. c \<in> L \<Longrightarrow> c \<noteq> b \<Longrightarrow> x \<in> payload (mem s) c \<Longrightarrow> st32 (bs_next b) v (mem s) x = mem s x"
proof -
  have "region (b + 516) 4 \<subseteq> region b 520" using region_offset [of b 516 4] by simp
  then have "st32 (bs_next b) v (mem s) x = mem s x" if "x \<notin> payload (mem s) b" for x
    using that assms(3) by (intro st32_outside) (auto simp: bs_next_def)
  from kroom_write [OF assms(1,2) this]
  show "kroom (s\<lparr>mem := st32 (bs_next b) v (mem s)\<rparr>) L k"
    "\<And>c. c \<in> L \<Longrightarrow> payload (st32 (bs_next b) v (mem s)) c = payload (mem s) c"
    "\<And>c x. c \<in> L \<Longrightarrow> c \<noteq> b \<Longrightarrow> x \<in> payload (mem s) c \<Longrightarrow> st32 (bs_next b) v (mem s) x = mem s x" by auto
qed

lemma read_mbr_ok:
  assumes ata: "ata_reads dev disk" "drive = 0 \<or> drive = 1" and len: "length (disk drive 0) = 512"
    and room: "kroom s L (66 + k)" "0 < k" and buf: "region buf 512 \<inter> kernel_area = {}"
  shows "\<exists>s'. read_mbr dev buf drive s = Some (None, s') \<and> bslist s' \<notin> L \<and> kroom s' (insert (bslist s') L) k \<and>
    region (bslist s') 520 \<subseteq> payload (mem s') (bslist s') \<and> keeps_blocks L s s' \<and>
    has_table (mem s') (bslist s') (disk drive 0) \<and>
    partition s' = partition s \<and> part_temp s' = part_temp s \<and> part_in s' = part_in s \<and> num_ide_drives s' = num_ide_drives s"
proof -
  obtain a s1 where a: "kmalloc sizeof_bootsector s = Some (a, s1)" "a \<notin> L" "kroom s1 (insert a L) k"
    "region a 520 \<subseteq> payload (mem s1) a" "keeps_blocks L s s1" "same_lists s s1"
    "part_temp s1 = part_temp s" "part_in s1 = part_in s"
    using fresh_bootsector [OF room] by metis
  note ln = link_bootsector [OF a(3) insertI1 a(4), where v = NULL]
  let ?s2 = "s1\<lparr>bslist := a, mem := st32 (bs_next a) NULL (mem s1)\<rparr>"
  have k2: "kroom ?s2 (insert a L) k" using ln(1) kroom_cong [of ?s2 "s1\<lparr>mem := mem ?s2\<rparr>"] by simp
  have reg2: "region a 520 \<subseteq> payload (mem ?s2) a" using a(4) ln(2) [of a] by simp
  have z: "unat (0 :: uint) < 268435456" "length (disk drive (unat (0 :: uint))) = 512" using len by simp_all
  obtain h m where t: "read_disk_sector dev buf drive 0 1 ?s2 = Some (IDE_ERR_NOERROR, ?s2\<lparr>io := h, mem := m\<rparr>)"
    "kroom (?s2\<lparr>mem := copy_table a buf m\<rparr>) (insert a L) k"
    "\<forall>b \<in> insert a L. payload (copy_table a buf m) b = payload (mem ?s2) b"
    "\<forall>b \<in> insert a L - {a}. \<forall>x \<in> payload (mem ?s2) b. copy_table a buf m x = mem ?s2 x"
    "has_table (copy_table a buf m) a (disk drive 0)"
    using read_table [where s = ?s2, OF ata z k2 insertI1 reg2 buf] unfolding unat_0 by blast
  define s' where "s' = ?s2\<lparr>io := h, mem := copy_table a buf m\<rparr>"
  have "read_mbr dev buf drive s = Some (None, s')" using a(1) t(1) by (simp add: read_mbr_def s'_def)
  moreover have "keeps_blocks L s s'"
  proof -
    have ne: "b \<noteq> a" if "b \<in> L" for b using that a(2) by auto
    have "mem ?s2 x = mem s1 x" if "b \<in> L" "x \<in> payload (mem s1) b" for b x
      using ln(3) [of b x] ne that by simp
    then have "keeps_blocks L s1 ?s2" using ln(2) by (auto simp: keeps_blocks_def)
    moreover have "keeps_blocks L ?s2 s'" using t(3,4) ne by (auto simp: keeps_blocks_def s'_def)
    ultimately show ?thesis using a(5) keeps_blocks_trans by blast
  qed
  moreover have "kroom s' (insert a L) k"
    using t(2) kroom_cong [of s' "?s2\<lparr>mem := copy_table a buf m\<rparr>"] by (simp add: s'_def)
  ultimately show ?thesis
    using t(3,5) ln(2) [of a] a(2,4,6-8) by (intro exI [of _ s']) (simp add: s'_def same_lists_def)
qed

section \<open>The chain of extended boot records\<close>

text \<open>
  \<open>ebr_chain disk drive extlba lba secs\<close>: from block \<open>lba\<close> on, the second entries lead through the boot
  records \<open>secs\<close>, the last of which has none. \<open>logical\<close> are the partitions they declare.
\<close>

primrec ebr_chain :: "(int \<Rightarrow> nat \<Rightarrow> byte list) \<Rightarrow> int \<Rightarrow> uint \<Rightarrow> uint \<Rightarrow> byte list list \<Rightarrow> bool" where
  "ebr_chain disk drive extlba lba [] \<longleftrightarrow> False"
| "ebr_chain disk drive extlba lba (sec # secs) \<longleftrightarrow>
     unat lba < 268435456 \<and> disk drive (unat lba) = sec \<and> length sec = 512 \<and> sector_signature sec = MBR_SIGNATURE \<and>
     (if pe_type (sector_entry sec 1) = 0 then secs = []
      else ebr_chain disk drive extlba (start_lba (sector_entry sec 1) + extlba) secs)"

primrec logical :: "uint \<Rightarrow> uint \<Rightarrow> byte list list \<Rightarrow> (partition_entry \<times> uint) list" where
  "logical extlba lba [] = []"
| "logical extlba lba (sec # secs) =
     (sector_entry sec 0, lba) # logical extlba (start_lba (sector_entry sec 1) + extlba) secs"

lemma part_list_keeps:
  assumes "part_list s L k ps" "kroom s' L' k'" "L \<subseteq> L'" "keeps_blocks (set (ps @ [part_temp s])) s s'"
    and "partition s' = partition s" "part_temp s' = part_temp s" "part_in s' = part_in s"
  shows "part_list s' L' k' ps"
proof -
  have w: "ld32 (mem s') (p + 24) = ld32 (mem s) (p + 24)" if "p \<in> set (ps @ [part_temp s])" for p
  proof (rule ld32_cong)
    fix x assume "x \<in> region (p + 24) 4"
    moreover have "region p 28 \<subseteq> payload (mem s) p" using assms(1) that unfolding part_list_def by blast
    ultimately have "x \<in> payload (mem s) p" using region_offset [of p 24 4] by auto
    then show "mem s' x = mem s x" using assms(4) that by (auto simp: keeps_blocks_def)
  qed
  have "lseg 24 (mem s') (partition s) ps (part_temp s)"
    using assms(1) w lseg_cong [of ps "mem s'" 24 "mem s"] by (simp add: part_list_def)
  moreover have "\<forall>p \<in> set (ps @ [part_temp s]). region p 28 \<subseteq> payload (mem s') p"
    using assms(1,4) by (auto simp: part_list_def keeps_blocks_def)
  ultimately show ?thesis
    using assms w [of "part_temp s"] unfolding part_list_def by (auto simp: pp_next_def)
qed

lemma bs_part_own: "i < 4 \<Longrightarrow> region b 520 \<subseteq> P \<Longrightarrow> region (bs_part b i) 16 \<subseteq> P"
  using region_offset [of b "448 + 16 * i" 16] region_mono [of "448 + 16 * i + 16" 520 b]
  unfolding bs_part_offset by auto

text \<open>One boot record of the chain: read into a fresh block, linked behind the last one.\<close>

definition boot_block :: "'a dio_scheme \<Rightarrow> addr set \<Rightarrow> addr list \<Rightarrow> bool" where
  "boot_block s L ps \<longleftrightarrow> bs_temp s \<in> L \<and> bs_temp s \<notin> set (ps @ [part_temp s]) \<and>
     region (bs_temp s) 520 \<subseteq> payload (mem s) (bs_temp s)"

lemma load_ebr:
  assumes ata: "ata_reads dev disk" "drive = 0 \<or> drive = 1" "unat lba < 268435456" "length (disk drive (unat lba)) = 512"
    and pl: "part_list s L (66 + k) ps" "0 < k" "boot_block s L ps" and buf: "region buf 512 \<inter> kernel_area = {}"
  shows "\<exists>a s1 s3. kmalloc sizeof_bootsector s = Some (a, s1) \<and>
    read_disk_sector dev buf drive lba 1
      (s1\<lparr>mem := st32 (bs_next a) NULL (st32 (bs_next (bs_temp s1)) a (mem s1)), bs_temp := a\<rparr>) = Some (IDE_ERR_NOERROR, s3) \<and>
    bs_temp s3 = a \<and> a \<notin> L \<and>
    (let s4 = s3\<lparr>mem := copy_table a buf (mem s3)\<rparr> in
     part_list s4 (insert a L) k ps \<and> boot_block s4 (insert a L) ps \<and> part_temp s4 = part_temp s \<and> part_in s4 = part_in s \<and>
     partition s4 = partition s \<and> has_table (mem s4) a (disk drive (unat lba)) \<and> keeps_blocks (L - {bs_temp s}) s s4)"
proof -
  have r: "kroom s L (66 + k)" using pl(1) by (simp add: part_list_def)
  obtain a s1 where a: "kmalloc sizeof_bootsector s = Some (a, s1)" "a \<notin> L" "kroom s1 (insert a L) k"
    "region a 520 \<subseteq> payload (mem s1) a" "keeps_blocks L s s1" "same_lists s s1"
    "part_temp s1 = part_temp s" "part_in s1 = part_in s"
    using fresh_bootsector [OF r pl(2)] by metis
  let ?b = "bs_temp s"
  have b: "bs_temp s1 = ?b" "?b \<in> insert a L" "region ?b 520 \<subseteq> payload (mem s1) ?b" "?b \<noteq> a"
    using a(2,5,6) pl(3) by (auto simp: boot_block_def keeps_blocks_def same_lists_def)
  let ?m1 = "st32 (bs_next ?b) a (mem s1)"
  note l1 = link_bootsector [OF a(3) b(2,3), where v = a]
  have reg1: "region a 520 \<subseteq> payload (mem (s1\<lparr>mem := ?m1\<rparr>)) a" using l1(2) [of a] a(4) by simp
  note l2 = link_bootsector [OF l1(1) insertI1 reg1, where v = NULL]
  let ?s2 = "s1\<lparr>mem := st32 (bs_next a) NULL ?m1, bs_temp := a\<rparr>"
  have k2: "kroom ?s2 (insert a L) k" using l2(1) kroom_cong [of ?s2 "s1\<lparr>mem := mem ?s2\<rparr>"] by simp
  have reg2: "region a 520 \<subseteq> payload (mem ?s2) a" using l2(2) [of a] reg1 by simp
  obtain h m where t: "read_disk_sector dev buf drive lba 1 ?s2 = Some (IDE_ERR_NOERROR, ?s2\<lparr>io := h, mem := m\<rparr>)"
    "kroom (?s2\<lparr>mem := copy_table a buf m\<rparr>) (insert a L) k"
    "\<forall>b \<in> insert a L. payload (copy_table a buf m) b = payload (mem ?s2) b"
    "\<forall>b \<in> insert a L - {a}. \<forall>x \<in> payload (mem ?s2) b. copy_table a buf m x = mem ?s2 x"
    "has_table (copy_table a buf m) a (disk drive (unat lba))"
    using read_table [where s = ?s2, OF ata k2 insertI1 reg2 buf] by blast
  define s4 where "s4 = ?s2\<lparr>io := h, mem := copy_table a buf m\<rparr>"
  have pay: "payload (mem s4) c = payload (mem s1) c" if "c \<in> insert a L" for c
    using bspec [OF t(3) that] l2(2) [of c] l1(2) [of c] that by (simp add: s4_def)
  have kp: "keeps_blocks (L - {?b}) s s4"
    unfolding keeps_blocks_def
  proof (intro ballI conjI)
    fix c assume c: "c \<in> L - {?b}"
    then have s1: "payload (mem s1) c = payload (mem s) c" "c \<noteq> a" using a(2,5) by (auto simp: keeps_blocks_def)
    show "payload (mem s4) c = payload (mem s) c" using pay [of c] c s1 by simp
    fix x assume x: "x \<in> payload (mem s) c"
    have "mem s4 x = mem ?s2 x" using t(4) l2(2) [of c] l1(2) [of c] c s1 x by (auto simp: s4_def)
    also have "\<dots> = mem s1 x" using l2(3) [of c x] l1(3) [of c x] l1(2) [of c] c s1 x by simp
    finally show "mem s4 x = mem s x" using a(5) c x by (auto simp: keeps_blocks_def)
  qed
  have "kroom s4 (insert a L) k" using t(2) kroom_cong [of s4 "?s2\<lparr>mem := copy_table a buf m\<rparr>"] by (simp add: s4_def)
  moreover have "keeps_blocks (set (ps @ [part_temp s])) s s4"
    using kp pl(1,3) by (elim keeps_blocks_mono) (auto simp: part_list_def boot_block_def)
  moreover have same: "partition s4 = partition s" "part_temp s4 = part_temp s" "part_in s4 = part_in s"
    using a(6-8) by (simp_all add: s4_def same_lists_def)
  ultimately have "part_list s4 (insert a L) k ps" using part_list_keeps [OF pl(1)] by blast
  moreover have "boot_block s4 (insert a L) ps"
    using pay [of a] a(2,4,7) pl(1) by (auto simp: boot_block_def s4_def part_list_def)
  ultimately show ?thesis
    using a(1,2,7,8) t(1,5) kp b(1) same(1) by (intro exI [of _ a] exI [of _ s1] exI [of _ "?s2\<lparr>io := h, mem := m\<rparr>"]) (simp add: s4_def Let_def)
qed

text \<open>What the list looks like after the chain has been followed.\<close>

definition follows :: "'a dio_scheme \<Rightarrow> addr set \<Rightarrow> nat \<Rightarrow> addr list \<Rightarrow> (partition_entry \<times> uint) list \<Rightarrow> byte list \<Rightarrow> 'a dio_scheme \<Rightarrow> bool" where
  "follows s L k ps es sec s' \<longleftrightarrow> (\<exists>qs L'. part_list s' L' k (ps @ qs) \<and> L \<subseteq> L' \<and> listed (mem s') (part_in s) es qs \<and>
     boot_block s' L' (ps @ qs) \<and> has_table (mem s') (bs_temp s') sec \<and> keeps_blocks (L - {bs_temp s, part_temp s}) s s' \<and>
     partition s' = partition s \<and> set (qs @ [part_temp s']) \<inter> L \<subseteq> {part_temp s})"

text \<open>A boot record that has been loaded, and its first entry.\<close>

lemma save_ebr:
  assumes pl: "part_list s4 (insert a L) (5 + k) ps" "0 < k" "boot_block s4 (insert a L) ps" "bs_temp s4 = a" "a \<notin> L"
    and tab: "has_table (mem s4) a sec"
  shows "\<exists>s5. save_part_props (bs_part a 0) lba s4 = Some s5 \<and> bs_temp s5 = a \<and> part_temp s5 \<notin> insert a L \<and>
    part_list s5 (insert (part_temp s5) (insert a L)) k (ps @ [part_temp s4]) \<and> has_table (mem s5) a sec \<and>
    boot_block s5 (insert (part_temp s5) (insert a L)) (ps @ [part_temp s4]) \<and>
    props_at (mem s5) (part_temp s4) (part_in s4) (sector_entry sec 0) lba \<and>
    keeps_blocks (insert a L - {part_temp s4}) s4 s5 \<and> partition s5 = partition s4"
proof -
  have a: "a \<noteq> part_temp s4" "region a 520 \<subseteq> payload (mem s4) a" "a \<notin> set ps" using pl(3,4) by (auto simp: boot_block_def)
  obtain s5 where s5: "save_part_props (bs_part a 0) lba s4 = Some s5" "part_temp s5 \<notin> insert a L"
    "part_list s5 (insert (part_temp s5) (insert a L)) k (ps @ [part_temp s4])"
    "props_at (mem s5) (part_temp s4) (part_in s4) (ld_entry (mem s4) (bs_part a 0)) lba"
    "keeps_blocks (insert a L - {part_temp s4}) s4 s5" "same_lists s4 s5"
    using save_part_props_ok [OF pl(1,2) insertI1 a(1) bs_part_own [OF _ a(2)], of 0 lba] by auto
  have "a \<in> insert a L - {part_temp s4}" using a(1) by simp
  then have sa: "payload (mem s5) a = payload (mem s4) a" "\<And>x. x \<in> payload (mem s4) a \<Longrightarrow> mem s5 x = mem s4 x"
    using s5(5) unfolding keeps_blocks_def by blast+
  then have "has_table (mem s5) a sec" using tab a(2) by (intro has_table_cong [OF tab]) blast
  moreover have "boot_block s5 (insert (part_temp s5) (insert a L)) (ps @ [part_temp s4])"
    using s5(2,6) sa(1) a pl(4) by (auto simp: boot_block_def same_lists_def)
  ultimately show ?thesis using s5 tab pl(4) by (auto simp: same_lists_def has_table_def)
qed

lemma get_boot_sector_chain:
  assumes ata: "ata_reads dev disk" "drive = 0 \<or> drive = 1" and buf: "\<And>j. region (bufs j) 512 \<inter> kernel_area = {}"
  shows "ebr_chain disk drive extlba lba secs \<Longrightarrow> part_list s L (71 * length secs + k) ps \<Longrightarrow> 0 < k \<Longrightarrow>
    boot_block s L ps \<Longrightarrow>
    \<exists>s'. get_boot_sector dev bufs j lba extlba drive s = Some (None, s') \<and>
      follows s L k ps (logical extlba lba secs) (last secs) s'"
proof (induction secs arbitrary: j lba s L ps)
  case (Cons sec secs)
  let ?k = "71 * length secs + k" and ?p = "part_temp s"
  have ch: "unat lba < 268435456" "disk drive (unat lba) = sec" "length sec = 512" "sector_signature sec = MBR_SIGNATURE"
    using Cons.prems(1) by simp_all
  have pl: "part_list s L (66 + (5 + ?k)) ps" using Cons.prems(2) by (simp add: algebra_simps)
  have len: "length (disk drive (unat lba)) = 512" using ch by simp
  obtain a s1 s3 where l: "kmalloc sizeof_bootsector s = Some (a, s1)"
    "read_disk_sector dev (bufs j) drive lba 1
      (s1\<lparr>mem := st32 (bs_next a) NULL (st32 (bs_next (bs_temp s1)) a (mem s1)), bs_temp := a\<rparr>) = Some (IDE_ERR_NOERROR, s3)"
    "bs_temp s3 = a" "a \<notin> L" and l4: "let s4 = s3\<lparr>mem := copy_table a (bufs j) (mem s3)\<rparr> in
     part_list s4 (insert a L) (5 + ?k) ps \<and> boot_block s4 (insert a L) ps \<and> part_temp s4 = ?p \<and> part_in s4 = part_in s \<and>
     partition s4 = partition s \<and> has_table (mem s4) a sec \<and> keeps_blocks (L - {bs_temp s}) s s4"
    using load_ebr [OF ata ch(1) len pl _ Cons.prems(4) buf [of j]] Cons.prems(3) unfolding ch(2) by auto
  define s4 where "s4 = s3\<lparr>mem := copy_table a (bufs j) (mem s3)\<rparr>"
  note s4 = l4 [unfolded Let_def, folded s4_def]
  have t4: "bs_temp s4 = a" using l(3) by (simp add: s4_def)
  obtain s5 where s5: "save_part_props (bs_part a 0) lba s4 = Some s5" "bs_temp s5 = a" "part_temp s5 \<notin> insert a L"
    "part_list s5 (insert (part_temp s5) (insert a L)) ?k (ps @ [?p])" "has_table (mem s5) a sec"
    "boot_block s5 (insert (part_temp s5) (insert a L)) (ps @ [?p])"
    "props_at (mem s5) ?p (part_in s) (sector_entry sec 0) lba"
    "keeps_blocks (insert a L - {?p}) s4 s5" "partition s5 = partition s4"
    using save_ebr [of s4 a L ?k ps sec lba] s4 t4 l(4) Cons.prems(3) by auto
  let ?e = "sector_entry sec 1" and ?L = "insert (part_temp s5) (insert a L)"
  have e: "ld_entry (mem s5) (bs_part a 1) = ?e" using s5(5) by (simp add: has_table_def)
  have sig: "ld16 (mem s4) (bs_signature a) = MBR_SIGNATURE" using s4 ch(4) by (simp add: has_table_def)
  have unf: "get_boot_sector dev bufs j lba extlba drive s = (if pe_type ?e \<noteq> 0
      then do { (_, s6) \<leftarrow> get_boot_sector dev bufs (Suc j) (start_lba ?e + extlba) extlba drive s5; Some (None, s6) }
      else Some (None, s5))"
    using l(1-3) s5(1,2) e sig by (subst get_boot_sector.simps) (simp add: Let_def s4_def)
  have kp: "keeps_blocks (L - {bs_temp s, ?p}) s s5"
    using s4 s5(8) by (intro keeps_blocks_trans [of _ s s4 s5]) (auto elim!: keeps_blocks_mono)
  have pL: "?p \<in> L" "part_in s5 = part_in s + 1" using Cons.prems(2) s5(4) by (auto simp: part_list_def)
  show ?case
  proof (cases "pe_type ?e = 0")
    case True
    then have "secs = []" using Cons.prems(1) by simp
    then have "follows s L k ps (logical extlba lba (sec # secs)) (last (sec # secs)) s5"
      unfolding follows_def using s4 s5 kp pL
      by (intro exI [of _ "[?p]"] exI [of _ ?L]) auto
    then show ?thesis using unf True by simp
  next
    case False
    then have ch': "ebr_chain disk drive extlba (start_lba ?e + extlba) secs" using Cons.prems(1) by simp
    then have ne: "secs \<noteq> []" by auto
    obtain s' qs L' where s': "get_boot_sector dev bufs (Suc j) (start_lba ?e + extlba) extlba drive s5 = Some (None, s')"
      "part_list s' L' k ((ps @ [?p]) @ qs)" "?L \<subseteq> L'"
      "listed (mem s') (part_in s5) (logical extlba (start_lba ?e + extlba) secs) qs"
      "boot_block s' L' ((ps @ [?p]) @ qs)" "has_table (mem s') (bs_temp s') (last secs)"
      "keeps_blocks (?L - {a, part_temp s5}) s5 s'" "partition s' = partition s5"
      "set (qs @ [part_temp s']) \<inter> ?L \<subseteq> {part_temp s5}"
      using Cons.IH [OF ch' s5(4) Cons.prems(3) s5(6), of "Suc j"] s5(2) unfolding follows_def by auto
    have "?p \<in> ?L - {a, part_temp s5}" using pL(1) l(4) s5(3) by auto
    then have "mem s' x = mem s5 x" if "x \<in> payload (mem s5) ?p" for x
      using s'(7) that unfolding keeps_blocks_def by blast
    moreover have "region ?p 24 \<subseteq> payload (mem s5) ?p"
      using s5(4) region_mono [of 24 28 ?p] by (auto simp: part_list_def)
    ultimately have "props_at (mem s') ?p (part_in s) (sector_entry sec 0) lba"
      by (intro props_at_cong [OF s5(7)]) blast
    moreover have "keeps_blocks (L - {bs_temp s, ?p}) s s'"
      using keeps_blocks_trans [OF kp keeps_blocks_mono [OF s'(7)]] l(4) s5(3) by blast
    ultimately have "follows s L k ps (logical extlba lba (sec # secs)) (last (sec # secs)) s'"
      unfolding follows_def using s4 s' s5(3,9) pL ne
      by (intro exI [of _ "?p # qs"] exI [of _ L']) auto
    then show ?thesis using unf False s'(1) by simp
  qed
qed simp

section \<open>The partitions of a drive\<close>

definition is_ext :: "partition_entry \<Rightarrow> bool" where
  "is_ext e \<longleftrightarrow> pe_type e = PART_DOS_EXTENDED \<or> pe_type e = PART_WIN95_EXTENDED \<or> pe_type e = PART_LINUX_EXTENDED"

primrec check_all :: "device \<Rightarrow> (nat \<Rightarrow> addr) \<Rightarrow> int \<Rightarrow> nat list \<Rightarrow> 'a dio_scheme \<Rightarrow> 'a dio_scheme option" where
  "check_all dev bufs drive [] s = Some s"
| "check_all dev bufs drive (i # is) s =
     Option.bind (check_if_extended dev bufs (bs_part (bs_temp s) i) drive s) (check_all dev bufs drive is)"

lemma check_all_append:
  "check_all dev bufs drive (is @ js) s = Option.bind (check_all dev bufs drive is s) (check_all dev bufs drive js)"
  by (induction "is" arbitrary: s) (auto split: bind_split)

lemma check_all_plain:
  assumes "has_table (mem s) (bs_temp s) sec"
  shows "\<forall>i \<in> set is. i < 4 \<and> \<not> is_ext (sector_entry sec i) \<Longrightarrow> check_all dev bufs drive is s = Some s"
  using assms by (induction "is") (auto simp: check_if_extended_def has_table_def is_ext_def Let_def)

text \<open>
  The layout of a drive: no extended partition, or one, the \<open>i\<close>th, with its chain of boot
  records. Behind the \<open>i\<close>th entry it is the last boot record that has no extended entry: the code
  goes on with that record's table and not with the one of the master boot record.
\<close>

fun layout :: "(int \<Rightarrow> nat \<Rightarrow> byte list) \<Rightarrow> int \<Rightarrow> (nat \<times> byte list list) option \<Rightarrow> bool" where
  "layout disk drive None \<longleftrightarrow> (\<forall>i < 4. \<not> is_ext (sector_entry (disk drive 0) i))"
| "layout disk drive (Some (i, secs)) \<longleftrightarrow> i < 4 \<and>
     (\<forall>j < i. \<not> is_ext (sector_entry (disk drive 0) j)) \<and> is_ext (sector_entry (disk drive 0) i) \<and>
     (let x = start_lba (sector_entry (disk drive 0) i) in ebr_chain disk drive x x secs) \<and>
     (\<forall>j < 4. i < j \<longrightarrow> \<not> is_ext (sector_entry (last secs) j))"

fun logicals :: "(int \<Rightarrow> nat \<Rightarrow> byte list) \<Rightarrow> int \<Rightarrow> (nat \<times> byte list list) option \<Rightarrow> (partition_entry \<times> uint) list" where
  "logicals disk drive None = []"
| "logicals disk drive (Some (i, secs)) =
     (let x = start_lba (sector_entry (disk drive 0) i) in logical x x secs)"

fun records :: "(nat \<times> byte list list) option \<Rightarrow> nat" where
  "records None = 0"
| "records (Some (i, secs)) = length secs"

lemma traverse_extended_ok:
  assumes ata: "ata_reads dev disk" "drive = 0 \<or> drive = 1" and buf: "\<And>j. region (bufs j) 512 \<inter> kernel_area = {}"
    and lay: "layout disk drive x" and pl: "part_list s L (71 * records x + k) ps" "0 < k"
    and b: "bslist s \<in> L" "bslist s \<notin> set (ps @ [part_temp s])" "region (bslist s) 520 \<subseteq> payload (mem s) (bslist s)"
    and tab: "has_table (mem s) (bslist s) (disk drive 0)"
  shows "\<exists>s' qs L'. traverse_extended_partitions dev bufs drive s = Some s' \<and> part_list s' L' k (ps @ qs) \<and> L \<subseteq> L' \<and>
    listed (mem s') (part_in s) (logicals disk drive x) qs \<and> partition s' = partition s \<and>
    keeps_blocks (L - {bslist s, part_temp s}) s s' \<and> part_temp s' \<notin> L - {part_temp s}"
proof -
  define s0 where "s0 = s\<lparr>bs_temp := bslist s\<rparr>"
  have tr: "traverse_extended_partitions dev bufs drive s = check_all dev bufs drive [0, 1, 2, 3] s0"
    by (auto simp: traverse_extended_partitions_def s0_def split: bind_split)
  have t0: "has_table (mem s0) (bs_temp s0) (disk drive 0)" using tab by (simp add: s0_def)
  have pl0: "part_list s0 L (71 * records x + k) ps"
    using pl(1) kroom_cong [of s0 s] by (simp add: part_list_def s0_def)
  have bb: "boot_block s0 L ps" using b by (simp add: boot_block_def s0_def)
  show ?thesis
  proof (cases x)
    case None
    have "check_all dev bufs drive [0, 1, 2, 3] s0 = Some s0"
      using lay None by (intro check_all_plain [OF t0]) auto
    then show ?thesis
      using None pl0 tr by (intro exI [of _ s0] exI [of _ "[]"] exI [of _ L]) (auto simp: s0_def keeps_blocks_def)
  next
    case (Some p)
    then obtain i secs where x: "x = Some (i, secs)" by (cases p) auto
    let ?e = "sector_entry (disk drive 0) i"
    have i: "i < 4" and ext: "is_ext ?e" and ch: "ebr_chain disk drive (start_lba ?e) (start_lba ?e) secs"
      using lay x by (auto simp: Let_def)
    have plr: "part_list s0 L (71 * length secs + k) ps" using pl0 x by simp
    obtain s' where s': "get_boot_sector dev bufs 0 (start_lba ?e) (start_lba ?e) drive s0 = Some (None, s')"
      "follows s0 L k ps (logicals disk drive x) (last secs) s'"
      using get_boot_sector_chain [where j = 0 and bufs = bufs, OF ata buf ch plr pl(2) bb] x by (auto simp: Let_def)
    have "ld_entry (mem s0) (bs_part (bs_temp s0) i) = ?e" using t0 i by (simp add: has_table_def)
    then have c1: "check_if_extended dev bufs (bs_part (bs_temp s0) i) drive s0 = Some s'"
      using ext s'(1) by (simp add: check_if_extended_def Let_def is_ext_def)
    have t': "has_table (mem s') (bs_temp s') (last secs)" using s'(2) by (auto simp: follows_def)
    have split: "[0, 1, 2, 3] = [0..<i] @ i # [Suc i..<4]"
    proof -
      have "i = 0 \<or> i = 1 \<or> i = 2 \<or> i = 3" using i by linarith
      moreover have "[0..<1] = [0]" "[0..<2] = [0, 1]" "[0..<3] = [0, 1, 2]" "[Suc 0..<4] = [1, 2, 3]"
        "[Suc 1..<4] = [2, 3]" "[Suc 2..<4] = [3]" "[Suc 3..<4] = []" by (simp_all add: upt_rec)
      ultimately show ?thesis by (elim disjE) simp_all
    qed
    have "check_all dev bufs drive [0..<i] s0 = Some s0" using lay x i by (intro check_all_plain [OF t0]) auto
    moreover have "check_all dev bufs drive [Suc i..<4] s' = Some s'"
      using lay x by (intro check_all_plain [OF t']) auto
    ultimately have "traverse_extended_partitions dev bufs drive s = Some s'"
      unfolding tr split check_all_append by (simp add: c1)
    then show ?thesis using s'(2) unfolding follows_def by (auto 0 4 simp: s0_def keeps_blocks_def)
  qed
qed

lemma read_mbr_list:
  assumes ata: "ata_reads dev disk" "drive = 0 \<or> drive = 1" and len: "length (disk drive 0) = 512"
    and pl: "part_list s L (66 + k) ps" "0 < k" and buf: "region buf 512 \<inter> kernel_area = {}"
  shows "\<exists>s1. read_mbr dev buf drive s = Some (None, s1) \<and> bslist s1 \<notin> L \<and>
    part_list s1 (insert (bslist s1) L) k ps \<and>
    region (bslist s1) 520 \<subseteq> payload (mem s1) (bslist s1) \<and> keeps_blocks L s s1 \<and>
    has_table (mem s1) (bslist s1) (disk drive 0) \<and>
    partition s1 = partition s \<and> part_temp s1 = part_temp s \<and> part_in s1 = part_in s \<and>
    bslist s1 \<notin> set (ps @ [part_temp s1])"
proof -
  have r: "kroom s L (66 + k)" using pl by (simp add: part_list_def)
  obtain s1 where s1: "read_mbr dev buf drive s = Some (None, s1)" "bslist s1 \<notin> L" "kroom s1 (insert (bslist s1) L) k"
    "region (bslist s1) 520 \<subseteq> payload (mem s1) (bslist s1)" "keeps_blocks L s s1"
    "has_table (mem s1) (bslist s1) (disk drive 0)"
    "partition s1 = partition s" "part_temp s1 = part_temp s" "part_in s1 = part_in s"
    using read_mbr_ok [where disk = disk, OF ata len r pl(2) buf] by blast
  have ps: "set (ps @ [part_temp s]) \<subseteq> L" using pl(1) by (simp add: part_list_def)
  have "part_list s1 (insert (bslist s1) L) k ps"
    using part_list_keeps [OF pl(1) s1(3) _ keeps_blocks_mono [OF s1(5) ps] s1(7-9)] by blast
  moreover have "bslist s1 \<notin> set (ps @ [part_temp s1])" using ps s1(2,8) by auto
  ultimately show ?thesis using s1 by blast
qed

lemma read_drive_ok:
  assumes ata: "ata_reads dev disk" "drive = 0 \<or> drive = 1"
    and bufs: "region buf 512 \<inter> kernel_area = {}" "\<And>j. region (bufs j) 512 \<inter> kernel_area = {}"
    and len: "length (disk drive 0) = 512" and sig: "sector_signature (disk drive 0) = MBR_SIGNATURE"
    and lay: "layout disk drive x" and pl: "part_list s L (86 + 71 * records x + k) ps" "0 < k"
  shows "\<exists>s' qs L'. read_drives dev buf bufs 1 drive s = Some s' \<and> part_list s' L' k (ps @ qs) \<and> L \<subseteq> L' \<and>
    listed (mem s') (part_in s) (map (\<lambda>i. (sector_entry (disk drive 0) i, 0)) [0, 1, 2, 3] @ logicals disk drive x) qs \<and>
    partition s' = partition s \<and> keeps_blocks (L - {part_temp s}) s s' \<and> part_temp s' \<notin> L - {part_temp s}"
proof -
  let ?k = "71 * records x + k" and ?es = "map (\<lambda>i. (sector_entry (disk drive 0) i, 0)) [0, 1, 2, 3]"
  have r: "part_list s L (66 + (20 + ?k)) ps" "0 < 20 + ?k" using pl by (simp_all add: algebra_simps)
  obtain s1 where s1: "read_mbr dev buf drive s = Some (None, s1)" "bslist s1 \<notin> L"
    "part_list s1 (insert (bslist s1) L) (20 + ?k) ps"
    "region (bslist s1) 520 \<subseteq> payload (mem s1) (bslist s1)" "keeps_blocks L s s1"
    "has_table (mem s1) (bslist s1) (disk drive 0)"
    "partition s1 = partition s" "part_temp s1 = part_temp s" "part_in s1 = part_in s"
    "bslist s1 \<notin> set (ps @ [part_temp s1])"
    using read_mbr_list [where disk = disk, OF ata len r bufs(1)] by blast
  note pl1 = s1(3) and nb = s1(10)
  have sg: "ld16 (mem s1) (bs_signature (bslist s1)) = MBR_SIGNATURE" using s1(6) sig by (simp add: has_table_def)
  obtain s2 qs L2 where s2: "traverse_primary_partitions s1 = Some (None, s2)" "part_list s2 L2 ?k (ps @ qs)"
    "insert (bslist s1) L \<subseteq> L2"
    "listed (mem s2) (part_in s1) (map (\<lambda>i. (ld_entry (mem s1) (bs_part (bslist s1) i), 0)) [0, 1, 2, 3]) qs"
    "keeps_blocks (insert (bslist s1) L - {part_temp s1}) s1 s2" "same_lists s1 s2"
    "set (qs @ [part_temp s2]) \<inter> insert (bslist s1) L \<subseteq> {part_temp s1}"
    using traverse_primary_ok [OF pl1 _ insertI1 nb s1(4) sg] pl(2) by auto
  let ?b = "bslist s1"
  have b2: "bslist s2 = ?b" "?b \<in> L2" "?b \<notin> set ((ps @ qs) @ [part_temp s2])"
    using s2(3,6,7) nb s1(8) by (auto simp: same_lists_def)
  have "?b \<in> insert ?b L - {part_temp s1}" using nb by simp
  then have kb: "payload (mem s2) ?b = payload (mem s1) ?b" "\<And>x. x \<in> payload (mem s1) ?b \<Longrightarrow> mem s2 x = mem s1 x"
    using s2(5) unfolding keeps_blocks_def by blast+
  have tab2: "region (bslist s2) 520 \<subseteq> payload (mem s2) (bslist s2)" "has_table (mem s2) (bslist s2) (disk drive 0)"
    using kb s1(4) has_table_cong [OF s1(6), of "mem s2"] b2(1) by auto
  obtain s3 rs L3 where s3: "traverse_extended_partitions dev bufs drive s2 = Some s3" "part_list s3 L3 k ((ps @ qs) @ rs)"
    "L2 \<subseteq> L3" "listed (mem s3) (part_in s2) (logicals disk drive x) rs" "partition s3 = partition s2"
    "keeps_blocks (L2 - {?b, part_temp s2}) s2 s3" "part_temp s3 \<notin> L2 - {part_temp s2}"
    using traverse_extended_ok [where bufs = bufs, OF ata bufs(2) lay s2(2) pl(2)] b2 tab2 by auto
  have e: "map (\<lambda>i. (ld_entry (mem s1) (bs_part ?b i), 0)) [0, 1, 2, 3] = ?es" using s1(6) by (simp add: has_table_def)
  have "listed (mem s3) (part_in s) ?es qs"
  proof (rule listed_cong)
    show "listed (mem s2) (part_in s) ?es qs" using s2(4) unfolding e s1(9) .
    fix p x assume p: "p \<in> set qs" "x \<in> region p 28"
    then have "p \<in> L2 - {?b, part_temp s2}" "x \<in> payload (mem s2) p" using s2(2) b2(3) by (auto simp: part_list_def)
    then show "mem s3 x = mem s2 x" using s3(6) unfolding keeps_blocks_def by blast
  qed
  moreover have "part_in s2 = part_in s + int (length ?es)"
    using s2(2) pl1 s1(9) listed_length [OF s2(4)] by (simp add: part_list_def)
  ultimately have "listed (mem s3) (part_in s) (?es @ logicals disk drive x) (qs @ rs)"
    using s3(4) listed_append [of "mem s3" "part_in s" ?es qs] by simp
  moreover have "keeps_blocks (L - {part_temp s}) s s3"
  proof -
    have "keeps_blocks (L - {part_temp s}) s s2"
      using s1(5,8) s2(5) by (intro keeps_blocks_trans [of _ s s1 s2]) (auto elim!: keeps_blocks_mono)
    moreover have "L - {part_temp s} \<subseteq> L2 - {?b, part_temp s2}" using s1(2,8) s2(3,7) by auto
    ultimately show ?thesis using keeps_blocks_trans keeps_blocks_mono [OF s3(6)] by blast
  qed
  moreover have "read_drives dev buf bufs 1 drive s = Some s3" using s1(1) s2(1) s3(1) by simp
  moreover have "part_temp s3 \<notin> L - {part_temp s}" using s1(8) s2(3,7) s3(7) by auto
  ultimately show ?thesis
    using s1(7) s2(3,6) s3 by (intro exI [of _ s3] exI [of _ "qs @ rs"] exI [of _ L3]) (auto simp: same_lists_def)
qed


text \<open>All drives: \<open>xs\<close> has the layout of each drive from \<open>drive\<close> on.\<close>

primrec drives_ok :: "(int \<Rightarrow> nat \<Rightarrow> byte list) \<Rightarrow> int \<Rightarrow> (nat \<times> byte list list) option list \<Rightarrow> bool" where
  "drives_ok disk drive [] \<longleftrightarrow> True"
| "drives_ok disk drive (x # xs) \<longleftrightarrow> (drive = 0 \<or> drive = 1) \<and> length (disk drive 0) = 512 \<and>
     sector_signature (disk drive 0) = MBR_SIGNATURE \<and> layout disk drive x \<and> drives_ok disk (drive + 1) xs"

primrec partitions_of :: "(int \<Rightarrow> nat \<Rightarrow> byte list) \<Rightarrow> int \<Rightarrow> (nat \<times> byte list list) option list \<Rightarrow> (partition_entry \<times> uint) list" where
  "partitions_of disk drive [] = []"
| "partitions_of disk drive (x # xs) =
     (map (\<lambda>i. (sector_entry (disk drive 0) i, 0)) [0, 1, 2, 3] @ logicals disk drive x) @ partitions_of disk (drive + 1) xs"

primrec drive_units :: "(nat \<times> byte list list) option list \<Rightarrow> nat" where
  "drive_units [] = 0"
| "drive_units (x # xs) = 86 + 71 * records x + drive_units xs"

lemma read_drives_cons:
  "read_drives dev buf bufs 1 drive s = Some s1 \<Longrightarrow>
   read_drives dev buf bufs (Suc n) drive s = read_drives dev buf bufs n (drive + 1) s1"
  by (auto split: bind_splits)

lemma read_drives_ok:
  fixes s :: "'a dio_scheme"
  assumes ata: "ata_reads dev disk"
    and bufs: "region buf 512 \<inter> kernel_area = {}" "\<And>j. region (bufs j) 512 \<inter> kernel_area = {}"
    and "drives_ok disk drive xs" "part_list s L (drive_units xs + k) ps" "0 < k"
  shows "\<exists>s' qs L'. read_drives dev buf bufs (length xs) drive s = Some s' \<and> part_list s' L' k (ps @ qs) \<and> L \<subseteq> L' \<and>
    listed (mem s') (part_in s) (partitions_of disk drive xs) qs \<and>
    partition s' = partition s \<and> keeps_blocks (L - {part_temp s}) s s'"
  using assms(4-6)
proof (induction xs arbitrary: drive s L ps)
  case Nil
  then show ?case by (intro exI [of _ s] exI [of _ "[]"] exI [of _ L]) (simp add: keeps_blocks_def)
next
  case (Cons x xs)
  let ?es = "map (\<lambda>i. (sector_entry (disk drive 0) i, 0)) [0, 1, 2, 3] @ logicals disk drive x"
  note dok = Cons.prems(1) [unfolded drives_ok.simps]
  have room: "part_list s L (86 + 71 * records x + (drive_units xs + k)) ps" "0 < drive_units xs + k"
    using Cons.prems(2,3) by (simp_all add: algebra_simps)
  obtain s1 qs L1 where s1: "read_drives dev buf bufs 1 drive s = Some s1" "part_list s1 L1 (drive_units xs + k) (ps @ qs)"
    "L \<subseteq> L1" "listed (mem s1) (part_in s) ?es qs" "partition s1 = partition s" "keeps_blocks (L - {part_temp s}) s s1"
    "part_temp s1 \<notin> L - {part_temp s}"
    using read_drive_ok [where bufs = bufs, OF ata _ bufs _ _ _ room] dok by blast
  obtain s2 rs L2 where s2: "read_drives dev buf bufs (length xs) (drive + 1) s1 = Some s2" "part_list s2 L2 k ((ps @ qs) @ rs)"
    "L1 \<subseteq> L2" "listed (mem s2) (part_in s1) (partitions_of disk (drive + 1) xs) rs" "partition s2 = partition s1"
    "keeps_blocks (L1 - {part_temp s1}) s1 s2"
    using Cons.IH [OF _ s1(2) Cons.prems(3), of "drive + 1"] dok by blast
  have fresh: "part_temp s1 \<notin> set (ps @ qs)" using s1(2) by (simp add: part_list_def)
  have "listed (mem s2) (part_in s) ?es qs"
  proof (rule listed_cong [OF s1(4)])
    fix p x assume p: "p \<in> set qs" "x \<in> region p 28"
    then have "p \<in> L1 - {part_temp s1}" "x \<in> payload (mem s1) p" using s1(2) fresh by (auto simp: part_list_def)
    then show "mem s2 x = mem s1 x" using s2(6) unfolding keeps_blocks_def by blast
  qed
  moreover have "part_in s1 = part_in s + int (length ?es)"
    using s1(2) Cons.prems(2) listed_length [OF s1(4)] by (simp only: part_list_def) simp
  ultimately have "listed (mem s2) (part_in s) (?es @ partitions_of disk (drive + 1) xs) (qs @ rs)"
    using s2(4) by (intro listed_append) simp_all
  moreover have "keeps_blocks (L - {part_temp s}) s s2"
  proof -
    have "L - {part_temp s} \<subseteq> L1 - {part_temp s1}" using s1(3,7) by blast
    then show ?thesis using keeps_blocks_trans [OF s1(6)] keeps_blocks_mono [OF s2(6)] by blast
  qed
  ultimately show ?case
    using s2 s1(3,5) read_drives_cons [OF s1(1)]
    by (intro exI [of _ s2] exI [of _ "qs @ rs"] exI [of _ L2]) (auto simp del: read_drives.simps list.map append_assoc simp: append_assoc [symmetric])
qed


section \<open>Properties\<close>

lemma read_disk_partitions_start:
  fixes s :: "'a dio_scheme"
  assumes "kroom s L (5 + k)" "0 < k"
  shows "\<exists>s2 L'. read_disk_partitions dev buf bufs s = read_drives dev buf bufs (nat (num_ide_drives s)) 0 s2 \<and>
    part_list s2 L' k [] \<and> L \<subseteq> L' \<and> part_temp s2 \<notin> L \<and> keeps_blocks L s s2 \<and> part_in s2 = 1"
proof -
  let ?s0 = "s\<lparr>part_in := 1\<rparr>"
  have r: "kroom ?s0 L (unat (nunits_of sizeof_part_props) + k)" using assms(1) kroom_cong [of ?s0 s] by (simp add: units_part_props)
  have lt: "unat sizeof_part_props + 7 < 4294967296" by simp
  obtain a s1 where a: "kmalloc sizeof_part_props ?s0 = Some (a, s1)" "a \<notin> L" "kroom s1 (insert a L) k"
    "region a 28 \<subseteq> payload (mem s1) a"
    "\<And>b. b \<in> L \<Longrightarrow> payload (mem s1) b = payload (mem s) b \<and> (\<forall>x \<in> payload (mem s) b. mem s1 x = mem s x)"
    using kroom.new_block [OF r assms(2) lt] by auto
  let ?m = "st32 (pp_next a) NULL (mem s1)"
  let ?s2 = "s1\<lparr>partition := a, part_temp := a, mem := ?m\<rparr>"
  have sub: "region (pp_next a) 4 \<subseteq> payload (mem s1) a"
    using region_offset [of a 24 4] a(4) by (auto simp: pp_next_def)
  have "?m x = mem s1 x" if "x \<notin> payload (mem s1) a" for x using that sub by (intro st32_outside) blast
  note w = kroom_write [OF a(3) insertI1 this]
  have k2: "kroom ?s2 (insert a L) k" using w(1) kroom_cong [of ?s2 "s1\<lparr>mem := ?m\<rparr>"] by simp
  moreover have "keeps_blocks L s ?s2" unfolding keeps_blocks_def
  proof (intro ballI conjI)
    fix b x assume b: "b \<in> L"
    then show "payload (mem ?s2) b = payload (mem s) b" using a(5) w(2) [of b] by simp
    assume "x \<in> payload (mem s) b"
    with b show "mem ?s2 x = mem s x" using a(2,5) w(3) [of b x] by auto
  qed
  moreover have "part_in s1 = 1" "num_ide_drives s1 = num_ide_drives s"
    using kmalloc_same_lists [OF a(1)] by (simp_all add: same_lists_def)
  ultimately show ?thesis
    using a(1,2,4) w(2) [of a]
    by (intro exI [of _ ?s2] exI [of _ "insert a L"]) (auto simp: read_disk_partitions_def part_list_def)
qed

section \<open>What the disk code leaves alone\<close>

lemma kmalloc_dio_more: "kmalloc n s = Some (a, s') \<Longrightarrow> dio.more s' = dio.more s"
  by (auto simp: kmalloc_def kmalloc_init_def Let_def split: bind_splits option.splits if_splits)

lemma ide_wait_upd: "ide_wait dev s = Some s' \<Longrightarrow> \<exists>h. s' = s\<lparr>io := h\<rparr>"
  using ide_wait_Some [of dev s s' s] by auto

lemma rd_words_upd: "\<exists>h m. rd_words dev n p s = s\<lparr>io := h, mem := m\<rparr>"
proof (induction n arbitrary: p s)
  case 0
  show ?case by (cases s) (auto simp: intro: exI [of _ "io s"])
next
  case (Suc n)
  let ?s1 = "s\<lparr>io := io s @ [In16 IDE_DATA_PORT (dev (io s) IDE_DATA_PORT)], mem := st16 p (ucast (dev (io s) IDE_DATA_PORT)) (mem s)\<rparr>"
  obtain h m where "rd_words dev n (p + 2) ?s1 = ?s1\<lparr>io := h, mem := m\<rparr>" using Suc by blast
  then show ?case by (auto simp: inportw_def Let_def)
qed

lemma read_disk_sector_upd: "read_disk_sector dev buf drive lba n s = Some (r, s') \<Longrightarrow> \<exists>h m. s' = s\<lparr>io := h, mem := m\<rparr>"
proof -
  assume a: "read_disk_sector dev buf drive lba n s = Some (r, s')"
  obtain b where b: "\<And>t :: 'a machine_scheme. ide_setup drive lba n t = t\<lparr>io := io t @ b\<rparr>" using ide_setup_io by blast
  obtain s1 where s1: "ide_wait dev (outportb IDE_COMMAND IDE_CMD_READ_SECTORS_RETRY (ide_setup drive lba n s)) = Some s1"
    using a by (auto simp: read_disk_sector_def read_sector_def split: bind_splits)
  obtain h where h: "s1 = s\<lparr>io := h\<rparr>" using ide_wait_upd [OF s1] by (auto simp: outportb_def b)
  obtain g where g: "inportb dev IDE_STATUS s1 = (dev h IDE_STATUS, s\<lparr>io := g\<rparr>)" by (simp add: inportb_def h Let_def)
  obtain h' m where w: "rd_words dev (unat (256 * n)) buf (s\<lparr>io := g\<rparr>) = s\<lparr>io := h', mem := m\<rparr>"
    using rd_words_upd [of dev "unat (256 * n)" buf "s\<lparr>io := g\<rparr>"] by auto
  have "s\<lparr>io := g\<rparr> = s\<lparr>io := g, mem := mem s\<rparr>" by simp
  moreover have "s' = s\<lparr>io := g\<rparr> \<or> s' = s\<lparr>io := h', mem := m\<rparr>"
    using a by (simp add: read_disk_sector_def read_sector_def s1 g w split: if_splits)
  ultimately show ?thesis by blast
qed

lemma read_mbr_more: "read_mbr dev buf drive s = Some (r, s') \<Longrightarrow> dio.more s' = dio.more s"
  by (auto simp: read_mbr_def Let_def split: bind_splits if_splits dest!: kmalloc_dio_more read_disk_sector_upd)

lemma save_part_props_more: "save_part_props pe lba s = Some s' \<Longrightarrow> dio.more s' = dio.more s"
  by (auto simp: save_part_props_def Let_def split: bind_splits if_splits dest!: kmalloc_dio_more)

lemma traverse_primary_more: "traverse_primary_partitions s = Some (r, s') \<Longrightarrow> dio.more s' = dio.more s"
  by (auto simp: traverse_primary_partitions_def split: bind_splits if_splits dest!: save_part_props_more)

lemma get_boot_sector_more: "get_boot_sector dev bufs k lba extlba drive s = Some y \<Longrightarrow> dio.more (snd y) = dio.more s"
proof (rule get_boot_sector.raw_induct [rotated], assumption)
  fix f :: "device \<Rightarrow> (nat \<Rightarrow> addr) \<Rightarrow> nat \<Rightarrow> uint \<Rightarrow> uint \<Rightarrow> int \<Rightarrow> 'a dio_scheme \<Rightarrow> (int option \<times> 'a dio_scheme) option"
    and dev :: device and bufs :: "nat \<Rightarrow> addr" and k :: nat and lba extlba :: uint and drive :: int
    and s :: "'a dio_scheme" and y :: "int option \<times> 'a dio_scheme"
  assume IH: "\<And>dev bufs k lba extlba drive s y. f dev bufs k lba extlba drive s = Some y \<Longrightarrow> dio.more (snd y) = dio.more s"
  have IH': "dio.more b = dio.more s" if "f dev bufs k lba extlba drive s = Some (a, b)" for dev bufs k lba extlba drive s a b
    using IH [OF that] by simp
  show "do {
      (a, s1) \<leftarrow> kmalloc sizeof_bootsector s;
      let s2 = s1\<lparr>mem := st32 (bs_next a) NULL (st32 (bs_next (bs_temp s1)) a (mem s1)), bs_temp := a\<rparr>;
      (r, s3) \<leftarrow> read_disk_sector dev (bufs k) drive lba 1 s2;
      if r = IDE_ERR_NOERROR then
        (let s4 = s3\<lparr>mem := copy_table (bs_temp s3) (bufs k) (mem s3)\<rparr> in
         if ld16 (mem s4) (bs_signature (bs_temp s4)) = MBR_SIGNATURE then do {
           s5 \<leftarrow> save_part_props (bs_part (bs_temp s4) 0) lba s4;
           let e = ld_entry (mem s5) (bs_part (bs_temp s5) 1);
           if pe_type e \<noteq> 0 then do {
             (_, s6) \<leftarrow> f dev bufs (Suc k) (start_lba e + extlba) extlba drive s5;
             Some (None, s6) }
           else Some (None, s5) }
         else Some (Some BAD_SIG, s4))
      else Some (Some DISK_READ_ERR, s3) } = Some y \<Longrightarrow> dio.more (snd y) = dio.more s"
    by (auto simp: Let_def split: bind_splits if_splits
        dest!: kmalloc_dio_more read_disk_sector_upd save_part_props_more IH')
qed

lemma check_if_extended_more: "check_if_extended dev bufs pe drive s = Some s' \<Longrightarrow> dio.more s' = dio.more s"
  by (auto simp: check_if_extended_def Let_def split: if_splits dest!: get_boot_sector_more)

lemma traverse_extended_more: "traverse_extended_partitions dev bufs drive s = Some s' \<Longrightarrow> dio.more s' = dio.more s"
  by (auto simp: traverse_extended_partitions_def Let_def split: bind_splits dest!: check_if_extended_more)

lemma read_drives_more: "read_drives dev buf bufs n drive s = Some s' \<Longrightarrow> dio.more s' = dio.more s"
  by (induction n arbitrary: drive s)
    (auto split: bind_splits dest!: read_mbr_more traverse_primary_more traverse_extended_more)

lemma read_disk_partitions_more: "read_disk_partitions dev buf bufs s = Some s' \<Longrightarrow> dio.more s' = dio.more s"
  by (auto simp: read_disk_partitions_def Let_def split: bind_splits dest!: kmalloc_dio_more read_drives_more)

lemma read_disk_partitions_ok:
  fixes s :: "'a dio_scheme"
  assumes "ata_reads dev disk" "region buf 512 \<inter> kernel_area = {}" "\<And>j. region (bufs j) 512 \<inter> kernel_area = {}"
    and "drives_ok disk 0 xs" "num_ide_drives s = int (length xs)" "kroom s L (5 + (drive_units xs + k))" "0 < k"
  shows "\<exists>s' ps L'. read_disk_partitions dev buf bufs s = Some s' \<and> part_list s' L' k ps \<and>
    listed (mem s') 1 (partitions_of disk 0 xs) ps \<and> L \<subseteq> L' \<and> keeps_blocks L s s'"
proof -
  have pos: "0 < drive_units xs + k" using assms(7) by simp
  obtain s2 L2 where s2: "read_disk_partitions dev buf bufs s = read_drives dev buf bufs (length xs) 0 s2"
    "part_list s2 L2 (drive_units xs + k) []" "L \<subseteq> L2" "part_temp s2 \<notin> L" "keeps_blocks L s s2" "part_in s2 = 1"
    using read_disk_partitions_start [OF assms(6) pos, of dev buf bufs] assms(5) by auto
  obtain s' ps L' where s': "read_drives dev buf bufs (length xs) 0 s2 = Some s'" "part_list s' L' k ps" "L2 \<subseteq> L'"
    "listed (mem s') 1 (partitions_of disk 0 xs) ps" "keeps_blocks (L2 - {part_temp s2}) s2 s'"
    using read_drives_ok [where bufs = bufs, OF assms(1-4) s2(2) assms(7)] s2(6) by auto
  have "keeps_blocks L s2 s'" using s2(3,4) by (intro keeps_blocks_mono [OF s'(5)]) auto
  then show ?thesis using keeps_blocks_trans [OF s2(5)] s2(1,3) s' by (intro exI [of _ s'] exI [of _ ps] exI [of _ L']) auto
qed

text \<open>
  C4: reading the partitions refines reading the tables off the disk. On drives that meet the register-level
  contract, whose boot sectors are signed and whose chains of extended boot records end, with room in the
  kernel storage, \<open>read_disk_partitions\<close> returns; from \<open>partition\<close> a linked list of distinct live blocks leads
  to an empty last element; its elements describe, numbered from 1, the four entries of each boot sector followed
  by the first entry of each extended record of that drive, at their absolute addresses; and no block that was
  live before is touched.
\<close>

theorem read_disk_partitions_lists:
  fixes s :: "'a dio_scheme"
  assumes "ata_reads dev disk" "region buf 512 \<inter> kernel_area = {}" "\<And>j. region (bufs j) 512 \<inter> kernel_area = {}"
    and "drives_ok disk 0 xs" "num_ide_drives s = int (length xs)" "kroom s L (5 + (drive_units xs + k))" "0 < k"
  shows "\<exists>s' ps L'. read_disk_partitions dev buf bufs s = Some s' \<and> part_list s' L' k ps \<and>
    listed (mem s') 1 (partitions_of disk 0 xs) ps \<and> L \<subseteq> L' \<and> keeps_blocks L s s'"
  using assms by (rule read_disk_partitions_ok)

text \<open>
  C27: the recursion over the chain of extended boot records ends when the chain does: \<open>get_boot_sector\<close> at the
  start of an extended partition returns, appends one element per record, in the order of the chain, and ends with
  \<open>temp\<close> on a copy of the last record's table.
\<close>

theorem get_boot_sector_follows_chain:
  fixes s :: "'a dio_scheme"
  assumes "ata_reads dev disk" "drive = 0 \<or> drive = 1" "\<And>j. region (bufs j) 512 \<inter> kernel_area = {}"
    and "ebr_chain disk drive extlba lba secs" "part_list s L (71 * length secs + k) ps" "0 < k" "boot_block s L ps"
  shows "\<exists>s'. get_boot_sector dev bufs j lba extlba drive s = Some (None, s') \<and>
      follows s L k ps (logical extlba lba secs) (last secs) s'"
  using assms by (rule get_boot_sector_chain)

text \<open>
  C28: \<open>save_part_props\<close> fills the last element from a partition entry that lies in another block, appends a fresh
  empty element behind it, keeps the list intact and leaves every other live block alone. The type names are longer
  than the field: of \<open>DOS3_Extended\<close> only the 11 bytes before \<open>st_lba\<close> survive, without the terminating zero.
\<close>

theorem save_part_props_appends:
  fixes s :: "'a dio_scheme"
  assumes "part_list s L (5 + k) ps" "0 < k" "b \<in> L" "b \<noteq> part_temp s" "region pe 16 \<subseteq> payload (mem s) b"
  shows "\<exists>s'. save_part_props pe lba s = Some s' \<and> part_temp s' \<notin> L \<and>
    part_list s' (insert (part_temp s') L) k (ps @ [part_temp s]) \<and>
    props_at (mem s') (part_temp s) (part_in s) (ld_entry (mem s) pe) lba \<and>
    keeps_blocks (L - {part_temp s}) s s' \<and>
    (pe_type (ld_entry (mem s) pe) \<noteq> PART_DOS_EXTENDED \<or>
     bytes_at (mem s') (pp_type (part_temp s)) (str ''DOS3_Extend''))"
proof -
  obtain s' where s': "save_part_props pe lba s = Some s'" "part_temp s' \<notin> L"
    "part_list s' (insert (part_temp s') L) k (ps @ [part_temp s])"
    "props_at (mem s') (part_temp s) (part_in s) (ld_entry (mem s) pe) lba" "keeps_blocks (L - {part_temp s}) s s'"
    using save_part_props_ok [OF assms] by blast
  have "bytes_at (mem s') (pp_type (part_temp s)) (str ''DOS3_Extend'')"
    if "pe_type (ld_entry (mem s) pe) = PART_DOS_EXTENDED"
    using s'(4) that by (simp add: props_at_def part_type_name_def)
  with s' show ?thesis by blast
qed

section \<open>Witnesses\<close>

text \<open>A drive with a Linux partition and an extended partition that holds one logical FAT partition.\<close>

definition demo_entry :: "byte \<Rightarrow> byte \<Rightarrow> byte list" where
  "demo_entry t lba = [0, 0, 0, 0, t, 0, 0, 0, lba, 0, 0, 0, 0, 16, 0, 0]"

definition demo_table :: "byte list \<Rightarrow> byte list \<Rightarrow> byte list" where
  "demo_table e f = map (\<lambda>i. if i < 446 then 0 else if i < 462 then e ! (i - 446) else if i < 478 then f ! (i - 462)
     else if i = 510 then 0x55 else if i = 511 then 0xAA else 0) [0..<512]"

definition demo_drive :: "int \<Rightarrow> nat \<Rightarrow> byte list" where
  "demo_drive d k = (if k = 0 then demo_table (demo_entry 0x83 63) (demo_entry 0x05 100)
     else demo_table (demo_entry 0x0B 63) (demo_entry 0 0))"

definition demo_dio :: dio where
  "demo_dio = kmalloc_init (disk.extend (intr.extend (demo_intr\<lparr>freep := NULL\<rparr>) \<lparr>num_ide_drives = 1, ide_drive = []\<rparr>)
     \<lparr>bslist = 0, bs_temp = 0, partition = 0, part_temp = 0, part_in = 0, current_lba = 0\<rparr>)"

lemma demo_dio_drives [simp]: "num_ide_drives demo_dio = 1"
  by (simp add: demo_dio_def kmalloc_init_def disk.defs intr.defs)

lemma demo_dio_room: "kroom demo_dio {} 0x1C0000"
  unfolding demo_dio_def by (rule kroom_boot) (simp add: disk.defs intr.defs)

lemma length_demo_table [simp]: "length (demo_table e f) = 512"
  by (simp add: demo_table_def)

lemma demo_drive_reads: "ata_reads (ata_dev demo_drive) demo_drive"
  by (rule ata_dev_reads) (simp add: demo_drive_def)

lemma demo_table_nth: "n < 512 \<Longrightarrow> demo_table e f ! n = (if n < 446 then 0 else if n < 462 then e ! (n - 446)
    else if n < 478 then f ! (n - 462) else if n = 510 then 0x55 else if n = 511 then 0xAA else 0)"
  by (simp add: demo_table_def del: upt_Suc)

lemma demo_table_at:
  shows "sector_signature (demo_table e f) = MBR_SIGNATURE"
    "sector_entry (demo_table e f) 0 = ld_entry (\<lambda>x. e ! unat x) 0"
    "sector_entry (demo_table e f) (Suc 0) = ld_entry (\<lambda>x. f ! unat x) 0"
    "sector_entry (demo_table e f) 2 = ld_entry (\<lambda>_. 0) 0" "sector_entry (demo_table e f) 3 = ld_entry (\<lambda>_. 0) 0"
  by (simp_all add: demo_table_nth sector_signature_def sector_entry_def ld_entry_def ld16_def ld32_def)

lemma demo_stack: "region 0x90000 512 \<inter> kernel_area = {}"
  by (auto simp: region_iff kernel_area_def)

lemma demo_layout: "drives_ok demo_drive 0 [Some (1, [demo_drive 0 100])]"
proof -
  have 4: "i < 4 \<longleftrightarrow> i = 0 \<or> i = 1 \<or> i = 2 \<or> i = 3" for i :: nat by linarith
  show ?thesis
    by (auto simp: demo_drive_def demo_table_at is_ext_def ld_entry_def ld32_def demo_entry_def Let_def 4)
qed

theorem read_disk_partitions_lists_witness:
  "\<exists>s' ps L'. read_disk_partitions (ata_dev demo_drive) 0x90000 (\<lambda>_. 0x90000) demo_dio = Some s' \<and>
    part_list s' L' 1 ps \<and> length ps = 5 \<and> props_at (mem s') (ps ! 0) 1 (sector_entry (demo_drive 0 0) 0) 0 \<and>
    props_at (mem s') (ps ! 4) 5 (sector_entry (demo_drive 0 100) 0) 100"
proof -
  let ?xs = "[Some (1, [demo_drive 0 100])]"
  have "kroom demo_dio {} (5 + (drive_units ?xs + 1))" using demo_dio_room by (rule kroom_mono) simp
  from read_disk_partitions_lists [where bufs = "\<lambda>_. 0x90000", OF demo_drive_reads demo_stack demo_stack demo_layout _ this]
  obtain s' ps L' where r: "read_disk_partitions (ata_dev demo_drive) 0x90000 (\<lambda>_. 0x90000) demo_dio = Some s'"
    "part_list s' L' 1 ps" "listed (mem s') 1 (partitions_of demo_drive 0 ?xs) ps" by auto
  have x: "start_lba (sector_entry (demo_drive 0 0) (Suc 0)) = 100"
    using demo_table_at(3) by (simp add: demo_drive_def ld_entry_def ld32_def demo_entry_def)
  then show ?thesis using r by (auto simp: Let_def split: list.splits)
qed

text \<open>A list with no elements yet and the boot sector of the drive in memory.\<close>

lemma demo_boot: "\<exists>(s :: dio) L. part_list s L 76 [] \<and> boot_block s L [] \<and> has_table (mem s) (bs_temp s) (demo_drive 0 0)"
proof -
  have "kroom demo_dio {} (5 + (66 + 76))" using demo_dio_room by (rule kroom_mono) simp
  from read_disk_partitions_start [OF this, of "\<lambda>_ _. 0" 0 "\<lambda>_. 0"]
  obtain s2 :: dio and L where s2: "part_list s2 L (66 + 76) []" by auto
  have len: "length (demo_drive 0 0) = 512" by (simp add: demo_drive_def)
  obtain s1 :: dio where s1: "part_list s1 (insert (bslist s1) L) 76 []" "region (bslist s1) 520 \<subseteq> payload (mem s1) (bslist s1)"
    "has_table (mem s1) (bslist s1) (demo_drive 0 0)" "bslist s1 \<notin> set ([] @ [part_temp s1])"
    using read_mbr_list [where disk = demo_drive and drive = 0, OF demo_drive_reads _ len s2 _ demo_stack] by auto
  let ?s = "s1\<lparr>bs_temp := bslist s1\<rparr>"
  have "part_list ?s (insert (bslist s1) L) 76 []" using s1(1) kroom_cong [of ?s s1] by (simp add: part_list_def)
  moreover have "boot_block ?s (insert (bslist s1) L) []" using s1 by (simp add: boot_block_def)
  ultimately show ?thesis using s1(3) by (intro exI [of _ ?s] exI [of _ "insert (bslist s1) L"]) simp
qed

theorem get_boot_sector_follows_chain_witness:
  "\<exists>(s :: dio) s' L. get_boot_sector (ata_dev demo_drive) (\<lambda>_. 0x90000) 0 100 100 0 s = Some (None, s') \<and>
     follows s L 5 [] [(sector_entry (demo_drive 0 100) 0, 100)] (demo_drive 0 100) s'"
proof -
  obtain s :: dio and L where s: "part_list s L (71 * length [demo_drive 0 100] + 5) []" "boot_block s L []"
    using demo_boot by auto
  have "ebr_chain demo_drive 0 100 100 [demo_drive 0 100]"
    by (simp add: demo_drive_def demo_table_at ld_entry_def demo_entry_def)
  from get_boot_sector_follows_chain [where bufs = "\<lambda>_. 0x90000" and j = 0, OF demo_drive_reads _ demo_stack this s(1) _ s(2)]
  show ?thesis by auto
qed

theorem save_part_props_appends_witness:
  "\<exists>(s :: dio) s'. save_part_props (bs_part (bs_temp s) 1) 0 s = Some s' \<and>
     bytes_at (mem s') (pp_type (part_temp s)) (str ''DOS3_Extend'')"
proof -
  obtain s :: dio and L where s: "part_list s L (5 + 71) []" "boot_block s L []" "has_table (mem s) (bs_temp s) (demo_drive 0 0)"
    using demo_boot by auto
  have b: "bs_temp s \<in> L" "bs_temp s \<noteq> part_temp s" "region (bs_part (bs_temp s) 1) 16 \<subseteq> payload (mem s) (bs_temp s)"
    using s(2) bs_part_own [of 1 "bs_temp s"] by (auto simp: boot_block_def)
  have "ld_entry (mem s) (bs_part (bs_temp s) 1) = sector_entry (demo_drive 0 0) 1" using s(3) by (simp add: has_table_def)
  then have "pe_type (ld_entry (mem s) (bs_part (bs_temp s) 1)) = PART_DOS_EXTENDED"
    using demo_table_at(3) by (simp add: demo_drive_def ld_entry_def demo_entry_def)
  with save_part_props_appends [OF s(1) _ b, of 0] show ?thesis by auto
qed

end
