(* ===== verification/Tokens.thy ===== *)
theory Tokens
  imports Diskio
begin

text \<open>
  Cutting a string into pieces in place: the loop that \<open>shell_gen_args\<close> (\<open>src/utils/shell.c\<close>) and \<open>ext2_chdir\<close>
  (\<open>src/fs/ext2/dir.c\<close>) share. A piece ends before a byte \<open>c\<close> after a byte \<open>b\<close> with \<open>stop b c\<close>; then all bytes
  with \<open>gap\<close> are overwritten by zeros; the addresses of the pieces go to a table. The laws the two
  instances need are the interface \<open>token_rules\<close>; \<open>tokens\<close> is the same on lists.
\<close>

section \<open>The loops\<close>

partial_function (option) skip_token :: "(byte \<Rightarrow> byte \<Rightarrow> bool) \<Rightarrow> memory \<Rightarrow> addr \<Rightarrow> addr option" where
  "skip_token stop m p =
     (if m p \<noteq> 0 \<and> \<not> stop (m (p - 1)) (m p) then skip_token stop m (p + 1) else Some p)"

partial_function (option) gap_token :: "(byte \<Rightarrow> bool) \<Rightarrow> memory \<Rightarrow> addr \<Rightarrow> (memory \<times> addr) option" where
  "gap_token gap m p = (if gap (m p) then gap_token gap (m(p := 0)) (p + 1) else Some (m, p))"

text \<open>\<open>Some None\<close> when there are more than \<open>lim\<close> pieces.\<close>

partial_function (option) tokenize ::
    "(byte \<Rightarrow> byte \<Rightarrow> bool) \<Rightarrow> (byte \<Rightarrow> bool) \<Rightarrow> nat \<Rightarrow> addr \<Rightarrow> memory \<Rightarrow> addr \<Rightarrow> nat \<Rightarrow> (nat option \<times> memory) option" where
  "tokenize stop gap lim tab m p args =
     (if m p = 0 then Some (Some args, m)
      else if lim \<le> args then Some (None, m)
      else do {
        let m1 = st32 (tab + 4 * of_nat args) p m;
        q \<leftarrow> skip_token stop m1 p;
        (m2, p') \<leftarrow> gap_token gap m1 q;
        tokenize stop gap lim tab m2 p' (Suc args) })"

section \<open>On lists\<close>

fun split_token :: "(byte \<Rightarrow> byte \<Rightarrow> bool) \<Rightarrow> byte \<Rightarrow> byte list \<Rightarrow> byte list \<times> byte list" where
  "split_token stop b [] = ([], [])"
| "split_token stop b (c # t) =
     (if stop b c then ([], c # t) else (let (w, r) = split_token stop c t in (c # w, r)))"

lemma split_token_append: "fst (split_token stop b s) @ snd (split_token stop b s) = s"
  by (induction stop b s rule: split_token.induct) (auto split: prod.splits)

lemma split_token_rest: "snd (split_token stop b s) = c # t \<Longrightarrow> \<exists>d. stop d c"
  by (induction stop b s rule: split_token.induct) (auto split: prod.splits if_splits)

text \<open>The guard only makes the recursion end for rules that are not \<open>token_rules\<close>.\<close>

function tokens :: "(byte \<Rightarrow> byte \<Rightarrow> bool) \<Rightarrow> (byte \<Rightarrow> bool) \<Rightarrow> byte \<Rightarrow> byte list \<Rightarrow> byte list list" where
  "tokens stop gap b s =
     (if s = [] then []
      else (let (w, r) = split_token stop b s; s' = dropWhile gap r
            in w # (if length s' < length s then tokens stop gap 0 s' else [])))"
  by pat_completeness auto
termination
  by (relation "measure (\<lambda>(stop, gap, b, s). length s)") auto

declare tokens.simps [simp del]

text \<open>Pieces joined by a separator.\<close>

fun join :: "byte \<Rightarrow> byte list list \<Rightarrow> byte list" where
  "join c [] = []"
| "join c [w] = w"
| "join c (w # v # ws) = w @ c # join c (v # ws)"

section \<open>Regions at offsets\<close>

lemma region_split: "region p (i + n) = region p i \<union> region (p + of_nat i) n"
  by (induction i arbitrary: p) (auto simp: add.assoc)

lemma offsets_disjoint:
  assumes "i + n \<le> j" "j + k \<le> 4294967296"
  shows "region (p + of_nat i) n \<inter> region (p + of_nat j) k = {}"
proof -
  have "p + of_nat (i + a) \<noteq> p + of_nat (j + b)" if "a < n" "b < k" for a b
  proof -
    have "(of_nat (i + a) :: addr) \<noteq> of_nat (j + b)" using assms that by (subst of_nat_inj_small) simp_all
    then show ?thesis by simp
  qed
  then show ?thesis by (auto simp: region_def add.assoc)
qed

text \<open>The entry \<open>n\<close> of a table of \<open>lim\<close> words and the \<open>l\<close> entries behind it.\<close>

lemma table_step:
  assumes "n + Suc l \<le> lim" "4 * lim \<le> 4294967296"
  shows "region (tab + 4 * of_nat (Suc n)) (4 * l) \<subseteq> region (tab + 4 * of_nat n) (4 * Suc l)"
    "region (tab + 4 * of_nat n) (4 * Suc l) \<subseteq> region tab (4 * lim)"
    "region (tab + 4 * of_nat n) 4 \<subseteq> region (tab + 4 * of_nat n) (4 * Suc l)"
    "region (tab + 4 * of_nat n) 4 \<inter> region (tab + 4 * of_nat (Suc n)) (4 * l) = {}"
proof -
  let ?a = "tab + 4 * of_nat n"
  have a: "tab + 4 * of_nat (Suc n) = ?a + of_nat 4" "?a = tab + of_nat (4 * n)"
    by (simp_all only: of_nat_Suc of_nat_mult of_nat_numeral distrib_left mult_1_right add_ac)
  show "region (tab + 4 * of_nat (Suc n)) (4 * l) \<subseteq> region ?a (4 * Suc l)"
    unfolding a(1) using region_offset [of ?a 4 "4 * l"] by simp
  have "4 * n + 4 * Suc l \<le> 4 * lim" using assms(1) by simp
  from order_trans [OF region_offset region_mono [OF this]] show "region ?a (4 * Suc l) \<subseteq> region tab (4 * lim)" unfolding a(2) .
  show "region ?a 4 \<subseteq> region ?a (4 * Suc l)" by (rule region_mono) simp
  have "region (?a + of_nat 0) 4 \<inter> region (?a + of_nat 4) (4 * l) = {}" using assms by (intro offsets_disjoint) simp_all
  then show "region ?a 4 \<inter> region (tab + 4 * of_nat (Suc n)) (4 * l) = {}" unfolding a(1) by simp
qed

text \<open>Writing the rest of the string and the rest \<open>R\<close> of the table leaves a piece and its entry \<open>a\<close> alone.\<close>

lemma piece_kept:
  assumes m21: "\<And>x. x \<notin> region p (d + l) \<Longrightarrow> m2 x = m1 x"
    and m'2: "\<And>x. x \<notin> region (p + of_nat d) l \<Longrightarrow> x \<notin> R \<Longrightarrow> m' x = m2 x"
    and d: "d + l + 2 \<le> 4294967296" "l = 0 \<or> length w < d" "length w \<le> d"
    and a: "region a 4 \<inter> R = {}" "(region a 4 \<union> R) \<inter> region p (Suc (d + l)) = {}"
    and w: "ld32 m1 a = v" "cstr m2 p w"
  shows "ld32 m' a = v" "cstr m' p w"
proof -
  have sub: "region (p + of_nat d) l \<subseteq> region p (d + l)" "region p (d + l) \<subseteq> region p (Suc (d + l))"
    by (rule region_offset) (rule region_mono, simp)
  have "m' x = m1 x" if x: "x \<in> region a 4" for x
  proof -
    have "x \<notin> region p (d + l)" "x \<notin> R" using a x sub(2) by blast+
    then show ?thesis using m21 [of x] m'2 [of x] sub(1) by auto
  qed
  then show "ld32 m' a = v" using w(1) ld32_cong [of a m' m1] by simp
  have "region p (Suc (length w)) \<inter> region (p + of_nat d) l = {}"
    using d offsets_disjoint [of 0 "Suc (length w)" d l p] by (cases "l = 0") auto
  moreover have "region p (Suc (length w)) \<subseteq> region p (Suc (d + l))" using d(3) by (intro region_mono) simp
  ultimately have "m' x = m2 x" if "x \<in> region p (Suc (length w))" for x using that a(2) by (intro m'2) blast+
  then show "cstr m' p w" using w(2) cstr_cong [of p w m' m2] by simp
qed

text \<open>The pieces \<open>ws\<close>, each in the \<open>N\<close> bytes from \<open>p\<close> on and at the address that the table at \<open>T\<close> has.\<close>

definition cut_at :: "memory \<Rightarrow> addr \<Rightarrow> addr \<Rightarrow> nat \<Rightarrow> byte list list \<Rightarrow> bool" where
  "cut_at m T p N ws \<longleftrightarrow> (\<forall>i < length ws. \<exists>k. k + length (ws ! i) \<le> N \<and> ld32 m (T + 4 * of_nat i) = p + of_nat k \<and>
     cstr m (p + of_nat k) (ws ! i))"

lemma cut_at_Nil [simp]: "cut_at m T p N []"
  by (simp add: cut_at_def)

lemma cut_at_Cons:
  assumes "ld32 m T = p" "cstr m p w" "length w \<le> N" "cut_at m (T + 4) (p + of_nat d) l ws" "d + l \<le> N"
  shows "cut_at m T p N (w # ws)"
  unfolding cut_at_def
proof (intro allI impI)
  fix i assume i: "i < length (w # ws)"
  show "\<exists>k. k + length ((w # ws) ! i) \<le> N \<and> ld32 m (T + 4 * of_nat i) = p + of_nat k \<and> cstr m (p + of_nat k) ((w # ws) ! i)"
  proof (cases i)
    case 0
    then show ?thesis using assms(1-3) by (intro exI [of _ 0]) simp
  next
    case (Suc j)
    then obtain k where "k + length (ws ! j) \<le> l" "ld32 m (T + 4 + 4 * of_nat j) = p + of_nat d + of_nat k" "cstr m (p + of_nat d + of_nat k) (ws ! j)"
      using assms(4) i by (auto simp: cut_at_def)
    then show ?thesis using assms(5) Suc by (intro exI [of _ "d + k"]) (simp add: add.assoc)
  qed
qed

text \<open>The \<open>NULL\<close> behind the last piece.\<close>

lemma cut_at_end:
  assumes c: "cut_at m tab p n ws" and n: "n \<le> N" "length ws \<le> lim" "4 * (lim + 1) \<le> 4294967296"
    and d: "region p (N + 1) \<inter> region tab (4 * (lim + 1)) = {}"
  shows "cut_at (st32 (tab + 4 * of_nat (length ws)) NULL m) tab p N ws"
  unfolding cut_at_def
proof (intro allI impI)
  let ?e = "tab + 4 * of_nat (length ws)" and ?m = "st32 (tab + 4 * of_nat (length ws)) NULL m"
  have e: "?e = tab + of_nat (4 * length ws)" by simp
  have te: "region ?e 4 \<subseteq> region tab (4 * (lim + 1))"
    unfolding e using order_trans [OF region_offset region_mono [of "4 * length ws + 4" "4 * (lim + 1)"]] n(2) by simp
  fix i assume i: "i < length ws"
  obtain k where k: "k + length (ws ! i) \<le> n" "ld32 m (tab + 4 * of_nat i) = p + of_nat k" "cstr m (p + of_nat k) (ws ! i)"
    using c i by (auto simp: cut_at_def)
  have "region (tab + of_nat (4 * i)) 4 \<inter> region ?e 4 = {}"
    unfolding e using i n by (intro offsets_disjoint) simp_all
  then have "ld32 ?m (tab + 4 * of_nat i) = p + of_nat k" using k(2) by (simp add: ld32_st32_disjoint Int_commute)
  moreover have "region (p + of_nat k) (Suc (length (ws ! i))) \<subseteq> region p (N + 1)"
    using order_trans [OF region_offset region_mono [of "k + Suc (length (ws ! i))" "N + 1"]] k(1) n(1) by simp
  then have "cstr ?m (p + of_nat k) (ws ! i) = cstr m (p + of_nat k) (ws ! i)"
    using d te by (intro cstr_cong st32_outside) blast
  ultimately show "\<exists>k. k + length (ws ! i) \<le> N \<and> ld32 ?m (tab + 4 * of_nat i) = p + of_nat k \<and> cstr ?m (p + of_nat k) (ws ! i)"
    using k(1,3) n(1) by (intro exI [of _ k]) simp
qed

section \<open>The laws and what follows from them\<close>

locale token_rules =
  fixes stop :: "byte \<Rightarrow> byte \<Rightarrow> bool" and gap :: "byte \<Rightarrow> bool"
  assumes stop_gap: "stop b c \<Longrightarrow> gap c" and keeps_end: "\<not> gap 0"
begin

lemma rest_shorter:
  assumes "s \<noteq> []"
  shows "length (dropWhile gap (snd (split_token stop b s))) < length s"
proof (cases "snd (split_token stop b s)")
  case Nil
  then show ?thesis using assms by simp
next
  case (Cons c t)
  then have "gap c" using split_token_rest stop_gap by blast
  then have "length (dropWhile gap (snd (split_token stop b s))) \<le> length t"
    using Cons length_dropWhile_le [of gap t] by simp
  moreover have "length s = length (fst (split_token stop b s)) + length (c # t)"
    using split_token_append [of stop b s] Cons by (metis length_append)
  ultimately show ?thesis by simp
qed

lemma tokens_Nil: "tokens stop gap b [] = []"
  by (simp add: tokens.simps)

lemma tokens_step:
  "s \<noteq> [] \<Longrightarrow> split_token stop b s = (w, r) \<Longrightarrow> tokens stop gap b s = w # tokens stop gap 0 (dropWhile gap r)"
  using rest_shorter [of s b] by (subst tokens.simps) simp

lemma skip_token_split:
  "cstr m p s \<Longrightarrow> m (p - 1) = b \<Longrightarrow> skip_token stop m p = Some (p + of_nat (length (fst (split_token stop b s))))"
proof (induction s arbitrary: p b)
  case Nil
  then show ?case by (subst skip_token.simps) simp
next
  case (Cons c s)
  have "skip_token stop m (p + 1) = Some (p + 1 + of_nat (length (fst (split_token stop c s))))"
    using Cons.prems by (intro Cons.IH) simp_all
  then show ?case using Cons.prems by (subst skip_token.simps) (auto split: prod.splits simp: add.assoc)
qed

lemma gap_token_split:
  "cstr m q r \<Longrightarrow> (let k = length (takeWhile gap r) in
     gap_token gap m q = Some (st_bytes q (replicate k 0) m, q + of_nat k))"
proof (induction r arbitrary: q m)
  case Nil
  then show ?case using keeps_end by (subst gap_token.simps) simp
next
  case (Cons c r)
  have l: "length (c # r) < 4294967296" using cstr_length [OF Cons.prems] .
  have "cstr (m(q := 0)) (q + 1) r = cstr m (q + 1) r"
    using region_next_notin [of "Suc (length r)" q] l by (intro cstr_cong) auto
  then have "cstr (m(q := 0)) (q + 1) r" using Cons.prems by simp
  note g = Cons.IH [OF this, unfolded Let_def]
  show ?case
    unfolding Let_def using Cons.prems by (subst gap_token.simps) (simp add: g add.assoc)
qed

text \<open>One round: the piece \<open>w\<close> is terminated, the rest \<open>s'\<close> is left as a string behind it.\<close>

lemma token_round:
  assumes s: "cstr m p s" "m (p - 1) = b" "split_token stop b s = (w, r)" "s' = dropWhile gap r"
  shows "\<exists>m2 k. skip_token stop m p = Some (p + of_nat (length w)) \<and>
    gap_token gap m (p + of_nat (length w)) = Some (m2, p + of_nat (length w + k)) \<and>
    length w + k + length s' = length s \<and> cstr m2 p w \<and> cstr m2 (p + of_nat (length w + k)) s' \<and>
    (s' = [] \<or> m2 (p + of_nat (length w + k) - 1) = 0 \<and> 0 < k) \<and>
    (\<forall>x. x \<in> region p (length s) \<or> m2 x = m x)"
proof -
  let ?q = "p + of_nat (length w)"
  define k where "k = length (takeWhile gap r)"
  define m2 where "m2 = st_bytes ?q (replicate k 0) m"
  have sw: "s = w @ r" using split_token_append [of stop b s] s(3) by simp
  have r: "takeWhile gap r @ s' = r" using s(4) by simp
  have len: "length w + k + length s' = length s" using arg_cong [OF r, of length] by (simp add: sw k_def)
  have lim: "length s < 4294967296" using cstr_length [OF s(1)] .
  have c: "0 \<notin> set s" "bytes_at m p s" "bytes_at m (p + of_nat (length s)) [0]"
    using s(1) by (simp_all add: cstr_bytes_at bytes_at_append)
  have cr: "cstr m ?q r" using c lim by (simp add: cstr_bytes_at bytes_at_append sw add.assoc)
  have m2: "m2 x = m x" if "x \<notin> region ?q k" for x using that unfolding m2_def by (intro st_bytes_outside) simp
  have dis: "region p (length w) \<inter> region ?q k = {}" "region (p + of_nat (length w + k)) (Suc (length s')) \<inter> region ?q k = {}"
    using offsets_disjoint [of 0 "length w" "length w" k p] offsets_disjoint [of "length w" k "length w + k" "Suc (length s')" p] len lim by auto
  have w: "bytes_at m2 p w"
    using c(2) dis(1) m2 bytes_at_cong [of p w m2 m] by (auto simp: sw bytes_at_append)
  have z: "m2 (?q + of_nat i) = 0" if "i < k" for i
    using bytes_at_nth [OF bytes_at_st_bytes [of "replicate k (0::byte)" ?q m], of i] that len lim by (simp add: m2_def)
  have e: "m2 ?q = 0"
  proof (cases "k = 0")
    case True
    have "r = []"
    proof (cases r)
      case (Cons a t)
      then have "gap a" using split_token_rest [of stop b s a t] s(3) stop_gap by auto
      then show ?thesis using True Cons by (simp add: k_def)
    qed
    then show ?thesis using m2 [of ?q] c(3) True sw by simp
  qed (use z [of 0] in simp)
  have "cstr m ?q (takeWhile gap r @ s')" using cr unfolding r .
  then have "cstr m (?q + of_nat k) s'" by (simp add: cstr_bytes_at bytes_at_append k_def)
  then have s': "cstr m2 (p + of_nat (length w + k)) s'"
    using cstr_cong [of "p + of_nat (length w + k)" s' m2 m] dis(2) m2 by (auto simp: add.assoc)
  have "s' = [] \<or> 0 < k"
  proof (cases r)
    case (Cons a t)
    then have "gap a" using split_token_rest [of stop b s a t] s(3) stop_gap by auto
    then show ?thesis using Cons by (simp add: k_def)
  qed (simp add: s(4))
  moreover have "m2 (p + of_nat (length w + k) - 1) = 0" if k: "0 < k"
  proof -
    obtain j where j: "k = Suc j" using k by (cases k) simp_all
    then have "p + of_nat (length w + k) - 1 = ?q + of_nat j" by simp
    then show ?thesis using z [of j] j by (simp add: add.assoc)
  qed
  moreover have "x \<in> region p (length s) \<or> m2 x = m x" for x
    using m2 [of x] region_offset [of p "length w" k] region_mono [of "length w + k" "length s" p] len by auto
  moreover have "cstr m2 p w" using w e c(1) by (auto simp: cstr_bytes_at bytes_at_append sw)
  moreover have "skip_token stop m p = Some ?q" using skip_token_split [OF s(1,2)] s(3) by simp
  moreover have "gap_token gap m ?q = Some (m2, p + of_nat (length w + k))"
    using gap_token_split [OF cr] by (simp add: k_def m2_def add.assoc Let_def)
  ultimately show ?thesis using len s' by blast
qed

text \<open>The pieces are where the table says, and nothing but the string and the table is written.\<close>

lemma tokenize_tokens:
  "cstr m p s \<Longrightarrow> m (p - 1) = b \<Longrightarrow> n + length (tokens stop gap b s) \<le> lim \<Longrightarrow> 4 * lim \<le> 4294967296 \<Longrightarrow>
   region (p - 1) (Suc (Suc (length s))) \<inter> region tab (4 * lim) = {} \<Longrightarrow> length s + 2 \<le> 4294967296 \<Longrightarrow>
   \<exists>m'. tokenize stop gap lim tab m p n = Some (Some (n + length (tokens stop gap b s)), m') \<and>
     cut_at m' (tab + 4 * of_nat n) p (length s) (tokens stop gap b s) \<and>
     (\<forall>x. x \<in> region p (length s) \<or> x \<in> region (tab + 4 * of_nat n) (4 * length (tokens stop gap b s)) \<or> m' x = m x)"
proof (induction "length s" arbitrary: s m p b n rule: less_induct)
  case less
  show ?case
  proof (cases "s = []")
    case True
    then show ?thesis using less.prems(1) by (subst tokenize.simps) (simp add: tokens_Nil)
  next
    case False
    obtain w r where wr: "split_token stop b s = (w, r)" by fastforce
    define s' where "s' = dropWhile gap r"
    let ?T = "tokens stop gap 0 s'" and ?a = "tab + 4 * of_nat n" and ?P = "region (p - 1) (Suc (Suc (length s)))"
    have T: "tokens stop gap b s = w # ?T" using tokens_step [OF False wr] by (simp add: s'_def)
    have n: "n < lim" "n + Suc (length ?T) \<le> lim" using less.prems(3) T by simp_all
    note ts = table_step [OF n(2) less.prems(4), of tab]
    define m1 where "m1 = st32 ?a p m"
    have m1: "m1 x = m x" if "x \<notin> region ?a 4" for x unfolding m1_def using that by (rule st32_outside)
    have P: "region p (Suc (length s)) \<subseteq> ?P" "p - 1 \<in> ?P" using region_offset [of "p - 1" 1 "Suc (length s)"] by auto
    have off: "x \<notin> region ?a 4" if "x \<in> ?P" for x using that less.prems(5) ts(2,3) by blast
    have c1: "cstr m1 p s" "m1 (p - 1) = b"
      using less.prems(1,2) cstr_cong [of p s m1 m] m1 off P by blast+
    obtain m2 k where m2: "skip_token stop m1 p = Some (p + of_nat (length w))"
      "gap_token gap m1 (p + of_nat (length w)) = Some (m2, p + of_nat (length w + k))"
      "length w + k + length s' = length s" "cstr m2 p w" "cstr m2 (p + of_nat (length w + k)) s'"
      "s' = [] \<or> m2 (p + of_nat (length w + k) - 1) = 0 \<and> 0 < k" "\<forall>x. x \<in> region p (length s) \<or> m2 x = m1 x"
      using token_round [OF c1 wr s'_def] by blast
    let ?p = "p + of_nat (length w + k)" and ?b = "m2 (p + of_nat (length w + k) - 1)"
    have step: "tokenize stop gap lim tab m p n = tokenize stop gap lim tab m2 ?p (Suc n)"
      using less.prems(1) False n m2(1,2) by (subst tokenize.simps) (cases s; simp add: m1_def)
    have T': "tokens stop gap ?b s' = ?T" using m2(6) by (auto simp: tokens_Nil)
    have short: "length s' < length s" using rest_shorter [OF False, of b] wr by (simp add: s'_def)
    then have "region (?p - 1) (Suc (Suc (length s'))) \<subseteq> ?P"
      using region_offset [of "p - 1" "length w + k" "Suc (Suc (length s'))"]
        region_mono [of "length w + k + Suc (Suc (length s'))" "Suc (Suc (length s))" "p - 1"] m2(3)
      by (simp add: algebra_simps del: region_simps)
    then have dis': "region (?p - 1) (Suc (Suc (length s'))) \<inter> region tab (4 * lim) = {}" using less.prems(5) by blast
    have lim': "Suc n + length (tokens stop gap ?b s') \<le> lim" "length s' + 2 \<le> 4294967296"
      using less.prems(3,6) T T' short by simp_all
    let ?R = "region (tab + 4 * of_nat (Suc n)) (4 * length ?T)"
    from less.hyps [OF short m2(5) refl lim'(1) less.prems(4) dis' lim'(2)]
    obtain m' where m': "tokenize stop gap lim tab m2 ?p (Suc n) = Some (Some (Suc n + length ?T), m')"
      "cut_at m' (tab + 4 * of_nat (Suc n)) ?p (length s') ?T" "\<forall>x. x \<in> region ?p (length s') \<or> x \<in> ?R \<or> m' x = m2 x"
      unfolding T' by blast
    have m21: "m2 x = m1 x" if "x \<notin> region p (length w + k + length s')" for x using m2(7) that unfolding m2(3) by blast
    have m'2: "m' x = m2 x" if "x \<notin> region ?p (length s')" "x \<notin> ?R" for x using m'(3) that by blast
    have aR: "(region ?a 4 \<union> ?R) \<inter> region p (Suc (length w + k + length s')) = {}"
      using less.prems(5) ts(1-3) P(1) unfolding m2(3) by blast
    have d: "length w + k + length s' + 2 \<le> 4294967296" "length s' = 0 \<or> length w < length w + k" "length w \<le> length w + k"
      using m2(3,6) less.prems(6) by auto
    have p: "ld32 m1 ?a = p" by (simp add: m1_def)
    note first = piece_kept [OF m21 m'2 d ts(4) aR p m2(4)]
    have "cut_at m' ?a p (length s) (w # ?T)"
      using m'(2) m2(3) by (intro cut_at_Cons [OF first, of _ "length w + k" "length s'"]) (simp_all add: algebra_simps)
    moreover have "x \<in> region p (length s) \<or> x \<in> region ?a (4 * length (w # ?T)) \<or> m' x = m x" for x
    proof (cases "x \<in> region p (length s) \<or> x \<in> region ?a (4 * Suc (length ?T))")
      case False
      have "region ?p (length s') \<subseteq> region p (length s)" using region_offset [of p "length w + k" "length s'"] m2(3) by simp
      then have "x \<notin> region ?p (length s')" "x \<notin> ?R" "x \<notin> region p (length w + k + length s')" "x \<notin> region ?a 4"
        using False ts(1,3) unfolding m2(3) by blast+
      then show ?thesis using m'2 m21 m1 by simp
    qed auto
    ultimately show ?thesis using step m'(1) unfolding T by simp
  qed
qed

text \<open>
  The idiom of both clients: the string is copied to an array \<open>sc\<close> of \<open>N + 1\<close> bytes, the copy is cut, and \<open>NULL\<close> ends the
  table, which has \<open>lim + 1\<close> entries.
\<close>

lemma copy_and_cut:
  assumes s: "cstr m c s" "length s \<le> N" "N + 2 \<le> 4294967296" and ws: "\<And>b. tokens stop gap b s = ws" "length ws \<le> lim"
    and lim: "4 * (lim + 1) \<le> 4294967296" and d: "region (sc - 1) (N + 2) \<inter> region tab (4 * (lim + 1)) = {}"
      "region sc (N + 1) \<inter> region c (Suc (length s)) = {}"
  defines "m0 \<equiv> st_bytes sc (s @ [0]) m"
  shows "strcpy sc c m = Some (sc, m0) \<and>
    (\<exists>m1 m'. tokenize stop gap lim tab m0 sc 0 = Some (Some (length ws), m1) \<and> m' = st32 (tab + 4 * of_nat (length ws)) NULL m1 \<and>
       cut_at m' tab sc N ws \<and> (\<forall>x. x \<in> region sc (N + 1) \<or> x \<in> region tab (4 * (lim + 1)) \<or> m' x = m x))"
proof -
  have sub: "region sc (Suc (length s)) \<subseteq> region sc (N + 1)" "region sc (length s) \<subseteq> region sc (N + 1)"
    using s(2) by (simp_all add: region_mono del: region_simps)
  have "region sc (length s) \<inter> region c (Suc (length s)) = {}" using d(2) sub by blast
  then have cp: "strcpy sc c m = Some (sc, m0)"
    using strcpy_loop_st_bytes [OF s(1), of sc] by (simp add: strcpy_def m0_def del: region_simps)
  have c0: "cstr m0 sc s" unfolding m0_def using s(1) cstr_length [OF s(1)] by (auto simp: cstr_bytes_at bytes_at_st_bytes)
  have "region (sc - 1) (Suc (Suc (length s))) \<subseteq> region (sc - 1) (N + 2)" "region tab (4 * lim) \<subseteq> region tab (4 * (lim + 1))"
    using s(2) by (simp_all add: region_mono del: region_simps)
  then have dis: "region (sc - 1) (Suc (Suc (length s))) \<inter> region tab (4 * lim) = {}" using d(1) by blast
  have dis': "region sc (N + 1) \<inter> region tab (4 * (lim + 1)) = {}"
    using d(1) region_offset [of "sc - 1" 1 "N + 1"] by (simp del: region_simps) blast
  obtain m1 where m1: "tokenize stop gap lim tab m0 sc 0 = Some (Some (length ws), m1)" "cut_at m1 tab sc (length s) ws"
    "\<And>x. x \<in> region sc (length s) \<or> x \<in> region tab (4 * length ws) \<or> m1 x = m0 x"
    using tokenize_tokens [OF c0 refl _ _ dis, of 0] ws s(2,3) lim by auto
  let ?e = "tab + 4 * of_nat (length ws)"
  define m' where "m' = st32 ?e NULL m1"
  have e: "?e = tab + of_nat (4 * length ws)" by simp
  have te: "region ?e 4 \<subseteq> region tab (4 * (lim + 1))"
    unfolding e using order_trans [OF region_offset region_mono [of "4 * length ws + 4" "4 * (lim + 1)"]] ws(2) by simp
  have m': "m' x = m1 x" if "x \<notin> region ?e 4" for x unfolding m'_def using that by (rule st32_outside)
  have "cut_at m' tab sc N ws"
    unfolding m'_def using cut_at_end [OF m1(2) s(2) ws(2) lim dis'] .
  moreover have "x \<in> region sc (N + 1) \<or> x \<in> region tab (4 * (lim + 1)) \<or> m' x = m x" for x
  proof -
    have t: "region tab (4 * length ws) \<subseteq> region tab (4 * (lim + 1))" using ws(2) by (intro region_mono) simp
    show ?thesis
    proof (cases "x \<in> region ?e 4 \<or> x \<in> region sc (N + 1) \<or> x \<in> region tab (4 * length ws)")
      case False
      then have "m' x = m1 x" "m1 x = m0 x" "m0 x = m x"
        using m' [of x] m1(3) [of x] sub st_bytes_outside [of x sc "s @ [0]" m] by (auto simp: m0_def)
      then show ?thesis by simp
    qed (use te t in blast)
  qed
  ultimately show ?thesis using cp m1(1) m'_def by blast
qed

text \<open>A string without separators that begins with no gap, and what is joined comes apart again.\<close>

lemma split_token_plain: "list_all (\<lambda>c. \<not> gap c) w \<Longrightarrow> stop (last (b # w)) c \<Longrightarrow> split_token stop b (w @ c # r) = (w, c # r)"
proof (induction w arbitrary: b)
  case (Cons a w)
  then show ?case using stop_gap by (auto split: if_splits)
qed simp

lemma split_token_all: "list_all (\<lambda>c. \<not> gap c) w \<Longrightarrow> split_token stop b w = (w, [])"
  by (induction w arbitrary: b) (use stop_gap in auto)

lemma tokens_first:
  assumes "s = [] \<or> \<not> gap (hd s)"
  shows "tokens stop gap b s = tokens stop gap 0 s"
proof (cases s)
  case (Cons c t)
  then have "\<not> stop b c" "\<not> stop 0 c" using assms stop_gap by auto
  then have "split_token stop b s = split_token stop 0 s" using Cons by simp
  then show ?thesis using tokens_step [of s b] tokens_step [of s 0] Cons by (metis list.distinct(1) surj_pair)
qed (simp add: tokens_Nil)

text \<open>Between two pieces there is a separator, so there are at most half as many pieces as bytes.\<close>

lemma tokens_count: "s = [] \<or> \<not> gap (hd s) \<Longrightarrow> 2 * length (tokens stop gap b s) \<le> length s + 1"
proof (induction "length s" arbitrary: s b rule: less_induct)
  case less
  show ?case
  proof (cases s)
    case (Cons c t)
    then have "\<not> stop b c" using less.prems stop_gap by auto
    then obtain w r where wr: "split_token stop b s = (c # w, r)" using Cons by (cases "split_token stop c t") auto
    let ?s = "dropWhile gap r"
    have len: "length s = Suc (length w) + length r" using split_token_append [of stop b s] wr by (metis fst_conv snd_conv length_append length_Cons)
    have short: "length ?s < length s" using rest_shorter [of s b] Cons wr by simp
    have "?s = [] \<or> \<not> gap (hd ?s)" using hd_dropWhile [of gap r] by blast
    from less.hyps [OF short this, of 0] have IH: "2 * length (tokens stop gap 0 ?s) \<le> length ?s + 1" .
    have "?s = [] \<or> length ?s < length r"
    proof (cases r)
      case (Cons a u)
      then have "gap a" using split_token_rest [of stop b s a u] wr stop_gap by auto
      then show ?thesis using Cons length_dropWhile_le [of gap u] by simp
    qed simp
    moreover have "tokens stop gap b s = (c # w) # tokens stop gap 0 ?s" using tokens_step [OF _ wr] Cons by simp
    moreover have "?s = [] \<Longrightarrow> tokens stop gap 0 ?s = []" by (simp only: tokens_Nil)
    ultimately show ?thesis using IH len by (elim disjE) simp_all
  qed (simp add: tokens_Nil)
qed

text \<open>What is joined with single separators comes apart again.\<close>

lemma tokens_join:
  assumes "gap c" "\<And>b. b \<noteq> c \<Longrightarrow> b \<noteq> 92 \<Longrightarrow> stop b c"
  shows "list_all (\<lambda>w. w \<noteq> [] \<and> list_all (\<lambda>d. \<not> gap d \<and> d \<noteq> 92) w) ws \<Longrightarrow> tokens stop gap 0 (join c ws) = ws"
proof (induction ws rule: induct_list012)
  case 1
  then show ?case by (simp add: tokens_Nil)
next
  case (2 w)
  then have "split_token stop 0 w = (w, [])" by (intro split_token_all) (auto simp: list_all_iff)
  then show ?case using tokens_step [of w 0 w "[]"] 2 by (simp add: tokens_Nil)
next
  case (3 w v ws)
  let ?j = "join c (v # ws)"
  have w: "list_all (\<lambda>d. \<not> gap d) w" "last (0 # w) \<noteq> c" "last (0 # w) \<noteq> 92"
    using 3(3) assms(1) by (auto simp: list_all_iff)
  then have sp: "split_token stop 0 (w @ c # ?j) = (w, c # ?j)" using assms(2) by (intro split_token_plain) auto
  have v: "v \<noteq> []" "\<not> gap (hd v)" using 3(3) by (auto simp: list_all_iff)
  moreover have "hd ?j = hd v" "?j \<noteq> []" using v(1) by (cases ws; simp)+
  ultimately have "dropWhile gap (c # ?j) = ?j" using assms(1) by (cases ?j) auto
  then have "tokens stop gap 0 (w @ c # ?j) = w # tokens stop gap 0 ?j"
    using tokens_step [OF _ sp] by simp
  then show ?case using 3(2,3) by simp
qed

end

end
