(* ===== verification/Shell.thy ===== *)
theory Shell
  imports Tokens
begin

text \<open>
  The command line, \<open>src/utils/shell.c\<close>: reading and editing a line, cutting it into arguments, looking up the
  command. The commands themselves (\<open>src/utils/shell_builtin.c\<close>) are a parameter here. A string constant of
  the source is its text; \<open>kprintf\<close> of a format is \<open>kprint\<close>, the rendered text on the console: by
  \<open>kprintf_prints\<close> that is what it does as long as the text fits in its buffer of 100 bytes, and \<open>None\<close> otherwise.
\<close>

section \<open>Output of formatted text\<close>

definition cstring :: "memory \<Rightarrow> addr \<Rightarrow> byte list option" where
  "cstring m a = map_option (\<lambda>n. bytes_of m a (unat n)) (strlen m a)"

lemma cstring_cstr: "cstr m a s \<Longrightarrow> cstring m a = Some s"
  using cstr_length [of m a s] cstr_bytes [of m a s]
  by (simp add: cstring_def strlen_cstr unat_of_nat_small bytes_at_bytes_of)

definition lits :: "string \<Rightarrow> item list" where
  "lits t = map Lit (str t)"

definition kprint :: "item list \<Rightarrow> varg list \<Rightarrow> 'a console_scheme \<Rightarrow> 'a console_scheme option" where
  "kprint its vs s = do { out \<leftarrow> renders its vs; if length out < 100 then Some (kputs out s) else None }"

text \<open>The heap and the screen.\<close>

lemma kernel_off_screen: "kernel_area \<inter> screen = {}"
  using unat_add_of_nat [of VIDEO_MEM] by (auto simp: kernel_area_def screen_def vid_def)

text \<open>Text in a format, and on the console.\<close>

lemma renders_text: "renders (lits t @ its) vs = map_option ((@) (str t)) (renders its vs)"
  by (simp add: lits_def renders_lits)

lemma kputs_append: "kputs (xs @ ys) s = kputs ys (kputs xs s)"
  by (induction xs arbitrary: s) simp_all

abbreviation pct :: "char \<Rightarrow> item" where
  "pct c \<equiv> Dir False False [] [] (ch c)"

text \<open>\<open>strcmp\<close> with a constant.\<close>

definition strcmp_lit :: "memory \<Rightarrow> string \<Rightarrow> addr \<Rightarrow> int option" where
  "strcmp_lit m t a = map_option (strcmp_spec (str t)) (cstring m a)"

section \<open>State and error codes\<close>

record shell = dio +
  current_inode :: int
  current_cluster :: int
  current_drive :: int
  PART :: int

abbreviation SUCCESS :: int where "SUCCESS \<equiv> 1"
abbreviation FAILURE :: int where "FAILURE \<equiv> 0"
abbreviation PROMPT_LEN :: int where "PROMPT_LEN \<equiv> 8"
abbreviation ARGNUM :: nat where "ARGNUM \<equiv> 255"
abbreviation CMDLEN :: nat where "CMDLEN \<equiv> 256"
abbreviation MOD_NOT_LOAD :: int where "MOD_NOT_LOAD \<equiv> -1"
abbreviation FIL_NOT_FOUND :: int where "FIL_NOT_FOUND \<equiv> -5"
abbreviation NOT_REG_FILE :: int where "NOT_REG_FILE \<equiv> -6"
abbreviation DIR_NOT_FOUND :: int where "DIR_NOT_FOUND \<equiv> -7"
abbreviation PAT_LEN_EXCEED :: int where "PAT_LEN_EXCEED \<equiv> -9"
abbreviation CD_ERR :: int where "CD_ERR \<equiv> -10"
abbreviation BAD_SUPER :: int where "BAD_SUPER \<equiv> -12"
abbreviation ARG_LIST_EXCEED :: int where "ARG_LIST_EXCEED \<equiv> -13"
abbreviation PART_NO_SUPPORT :: int where "PART_NO_SUPPORT \<equiv> -14"
abbreviation NO_SUCH_PART :: int where "NO_SUCH_PART \<equiv> -15"

definition ISSPACE :: "byte \<Rightarrow> bool" where "ISSPACE c \<longleftrightarrow> c = 32 \<or> c = 9"

section \<open>shell.c\<close>

definition cmdtab :: "(string \<times> string) list" where
  "cmdtab =
     [(''help'', ''help: help [command]''), (''ls'', ''ls: ls [dir]''), (''cd'', ''cd: cd [path]''),
      (''reboot'', ''reboot: reboot''), (''clear'', ''clear: clear''), (''ppart'', ''ppart: ppart''),
      (''more'', ''more: more filename''),
      (''load'', ''load: load [p[partition number]or [-s -f] [sector no. filename]]''),
      (''ldmod'', ''ldmod: ldmod [module name] [address]''), (''root'', ''root: root p[partition number] ''),
      (''lsdrv'', ''lsdrv: lsdrv''), (''rmdrv'', ''rmdrv: rmdrv [module name]''), (''chload'', ''chload: chload''),
      (''dump'', ''dump: dump -x or -c [Memory location]'')]"

partial_function (option) strip_leading_whitespace :: "memory \<Rightarrow> addr \<Rightarrow> int \<Rightarrow> (addr \<times> int) option" where
  "strip_leading_whitespace m s index =
     (if ISSPACE (m s) then strip_leading_whitespace m (s + 1) (index - 1) else Some (s, index))"

definition step_back :: "'a console_scheme \<Rightarrow> 'a console_scheme" where
  "step_back s =
     set_cursor_position (if cursor_x s - 1 < PROMPT_LEN then PROMPT_LEN else cursor_x s - 1) (cursor_y s) s"

partial_function (option) getline_loop ::
    "device \<Rightarrow> addr \<Rightarrow> int \<Rightarrow> 'a kbd_scheme \<Rightarrow> (addr \<times> int \<times> 'a kbd_scheme) option" where
  "getline_loop dev buf buf_index s = do {
     (c, s1) \<leftarrow> getch dev s;
     if c = 10 then Some (buf, buf_index, s1)
     else if c = BACKSPACE then
       (let s2 = step_back (kputs [32] (step_back s1)) in
        if buf_index > 0 then getline_loop dev (buf - 1) (buf_index - 1) s2
        else getline_loop dev buf buf_index s2)
     else
       (let s2 = kputc c s1 in
        getline_loop dev (buf + 1) (buf_index + 1) (s2\<lparr>mem := (mem s2)(buf := c)\<rparr>)) }"

text \<open>\<open>buf0\<close> is what the pointer \<open>buf\<close> holds, which the source does not initialise.\<close>

definition getline :: "device \<Rightarrow> addr \<Rightarrow> 'a kbd_scheme \<Rightarrow> (addr \<times> 'a kbd_scheme) option" where
  "getline dev buf0 s = do {
     (_, buf_index, s1) \<leftarrow> getline_loop dev buf0 0 s;
     let s2 = s1\<lparr>cursor_y := cursor_y s1 + 1, cursor_x := 0\<rparr>;
     (c, i) \<leftarrow> strip_leading_whitespace (mem s2) buf0 buf_index;
     Some (c, s2\<lparr>mem := (mem s2)(c + word_of_int i := 0)\<rparr>) }"

definition print_prompt :: "'a console_scheme \<Rightarrow> 'a console_scheme" where
  "print_prompt s = kputs (str ''janus86>'') (set_cursor_position 0 (cursor_y s) (s\<lparr>cursor_x := 0\<rparr>))"

definition arg_stop :: "byte \<Rightarrow> byte \<Rightarrow> bool" where
  "arg_stop b c \<longleftrightarrow> c = 32 \<and> b \<noteq> 92 \<or> c = 9"

text \<open>\<open>argtable\<close> and \<open>sc\<close> are the addresses of the static arrays. The result is the returned value, \<open>*argc\<close> and
  \<open>*argv\<close>.\<close>

definition shell_gen_args ::
    "addr \<Rightarrow> addr \<Rightarrow> addr \<Rightarrow> 'a console_scheme \<Rightarrow> ((int \<times> nat \<times> addr) \<times> 'a console_scheme) option" where
  "shell_gen_args argtable sc c s = do {
     (ccp, m) \<leftarrow> strcpy sc c (mem s);
     (r, m1) \<leftarrow> tokenize arg_stop ISSPACE ARGNUM argtable m ccp 0;
     case r of
       None \<Rightarrow> do { s1 \<leftarrow> kprint (lits ''Argument List Exceeded'' @ [Lit 10]) [] (s\<lparr>mem := m1\<rparr>); Some ((FAILURE, 0, NULL), s1) }
     | Some args \<Rightarrow> Some ((SUCCESS, args, argtable), s\<lparr>mem := st32 (argtable + 4 * of_nat args) NULL m1\<rparr>) }"

definition panic_text :: "int \<Rightarrow> string option" where
  "panic_text msg =
     (if msg = MOD_NOT_LOAD then Some ''Module Not loaded''
      else if msg = FIL_NOT_FOUND then Some ''File not Found''
      else if msg = NOT_REG_FILE then Some ''Not a Regular File''
      else if msg = DIR_NOT_FOUND then Some ''Directory not found''
      else if msg = DISK_READ_ERR then Some ''Disk Read Error''
      else if msg = PAT_LEN_EXCEED then Some ''Path Length Exceeded''
      else if msg = CD_ERR then Some ''Cannot cd to a file''
      else if msg = ARG_LIST_EXCEED then Some ''Argument List Exceeded''
      else if msg = PART_NO_SUPPORT then Some ''Argument List Exceeded''
      else if msg = NO_SUCH_PART then Some ''No such partition: Use ppart to see available partitions''
      else if msg = BAD_SIG then Some ''Bad signature''
      else None)"

definition shell_panic :: "int \<Rightarrow> 'a console_scheme \<Rightarrow> int \<times> 'a console_scheme" where
  "shell_panic msg s =
     (case panic_text msg of Some t \<Rightarrow> (SUCCESS, kputs (str t @ [10]) s) | None \<Rightarrow> (FAILURE, s))"

text \<open>The loop over \<open>cmdtab\<close>: the index of the command, or \<open>None\<close> behind the last one.\<close>

fun find_cmd :: "memory \<Rightarrow> addr \<Rightarrow> (string \<times> string) list \<Rightarrow> nat \<Rightarrow> nat option option" where
  "find_cmd m name [] x = Some None"
| "find_cmd m name ((t, h) # cmds) x = do {
     r \<leftarrow> strcmp_lit m t name;
     if r \<noteq> 0 then find_cmd m name cmds (Suc x) else Some (Some x) }"

text \<open>\<open>run x argc argv\<close> is \<open>cmdtab[x].fnptr\<close>.\<close>

definition shell_exec ::
    "(nat \<Rightarrow> nat \<Rightarrow> addr \<Rightarrow> 'a console_scheme \<Rightarrow> 'a console_scheme option) \<Rightarrow> addr \<Rightarrow> nat \<Rightarrow> addr \<Rightarrow>
     'a console_scheme \<Rightarrow> (int \<times> 'a console_scheme) option" where
  "shell_exec run name argc argv s = do {
     x \<leftarrow> find_cmd (mem s) name cmdtab 0;
     case x of
       None \<Rightarrow> do {
         n \<leftarrow> cstring (mem s) name;
         s1 \<leftarrow> kprint (lits ''Cannot exec \"'' @ [pct CHR ''s''] @ lits ''\".'' @ [Lit 10]) [Str n] s;
         Some (FAILURE, s1) }
     | Some x \<Rightarrow> do { s1 \<leftarrow> run x argc argv s; Some (SUCCESS, s1) } }"

partial_function (option) skip_blanks :: "memory \<Rightarrow> addr \<Rightarrow> addr option" where
  "skip_blanks m p = (if m p = 32 \<or> m p = 9 then skip_blanks m (p + 1) else Some p)"

definition shell_parse ::
    "(nat \<Rightarrow> nat \<Rightarrow> addr \<Rightarrow> 'a console_scheme \<Rightarrow> 'a console_scheme option) \<Rightarrow> addr \<Rightarrow> addr \<Rightarrow> addr \<Rightarrow>
     'a console_scheme \<Rightarrow> (int \<times> 'a console_scheme) option" where
  "shell_parse run argtable sc input s = do {
     dup \<leftarrow> skip_blanks (mem s) input;
     if mem s dup = 0 then Some (FAILURE, s)
     else do {
       ((r, argc, argv), s1) \<leftarrow> shell_gen_args argtable sc dup s;
       if r \<noteq> SUCCESS then Some (FAILURE, s1)
       else do {
         (_, s2) \<leftarrow> shell_exec run (ld32 (mem s1) argv) argc argv s1;
         Some (SUCCESS, s2) } } }"

definition shell_start :: "'a shell_scheme \<Rightarrow> 'a shell_scheme" where
  "shell_start s = s\<lparr>current_inode := 2, current_cluster := 2, current_drive := 0, PART := 1\<rparr>"

text \<open>One turn of the endless loop of \<open>shell_main\<close>.\<close>

definition shell_turn ::
    "device \<Rightarrow> addr \<Rightarrow> addr \<Rightarrow> addr \<Rightarrow> (nat \<Rightarrow> nat \<Rightarrow> addr \<Rightarrow> 'a kbd_scheme \<Rightarrow> 'a kbd_scheme option) \<Rightarrow>
     'a kbd_scheme \<Rightarrow> 'a kbd_scheme option" where
  "shell_turn dev buf0 argtable sc run s = do {
     (buffer, s1) \<leftarrow> getline dev buf0 (print_prompt s);
     (_, s2) \<leftarrow> shell_parse run argtable sc buffer s1;
     Some (s2\<lparr>mem := (mem s2)(buffer := 0)\<rparr>) }"

text \<open>\<open>array_size(cmdtab)\<close> and the table.\<close>

definition shell_cmdtab :: "int \<times> (string \<times> string) list" where
  "shell_cmdtab = (int (length cmdtab), cmdtab)"

section \<open>Arguments\<close>

interpretation arg: token_rules arg_stop ISSPACE
  by unfold_locales (auto simp: arg_stop_def ISSPACE_def)

definition words :: "byte list \<Rightarrow> byte list list" where
  "words line = tokens arg_stop ISSPACE 0 line"

text \<open>The static arrays: the copy of the line and the table do not overlap each other.\<close>

definition arrays_ok :: "addr \<Rightarrow> addr \<Rightarrow> bool" where
  "arrays_ok argtable sc \<longleftrightarrow> region (sc - 1) 258 \<inter> region argtable 1024 = {}"

lemma shell_gen_args_words:
  assumes line: "cstr (mem s) c line" "length line \<le> CMDLEN" "line = [] \<or> \<not> ISSPACE (hd line)"
    and arr: "arrays_ok argtable sc" "region sc 257 \<inter> region c (Suc (length line)) = {}"
  defines "ws \<equiv> words line"
  shows "\<exists>m. shell_gen_args argtable sc c s = Some ((SUCCESS, length ws, argtable), s\<lparr>mem := m\<rparr>) \<and>
    (\<forall>i < length ws. cstr m (ld32 m (argtable + 4 * of_nat i)) (ws ! i)) \<and>
    ld32 m (argtable + 4 * of_nat (length ws)) = NULL \<and>
    (\<forall>x. x \<in> region sc 257 \<or> x \<in> region argtable 1024 \<or> m x = mem s x)"
proof -
  have W: "tokens arg_stop ISSPACE b line = ws" for b unfolding ws_def words_def using line(3) by (rule arg.tokens_first)
  have n: "length ws \<le> ARGNUM" using arg.tokens_count [OF line(3), of 0] line(2) by (simp add: ws_def words_def)
  have d: "region (sc - 1) (CMDLEN + 2) \<inter> region argtable (4 * (ARGNUM + 1)) = {}"
    "region sc (CMDLEN + 1) \<inter> region c (Suc (length line)) = {}"
    using arr unfolding arrays_ok_def by (simp_all del: region_simps)
  obtain m1 m where "strcpy sc c (mem s) = Some (sc, st_bytes sc (line @ [0]) (mem s))"
    "tokenize arg_stop ISSPACE ARGNUM argtable (st_bytes sc (line @ [0]) (mem s)) sc 0 = Some (Some (length ws), m1)"
    "m = st32 (argtable + 4 * of_nat (length ws)) NULL m1" "cut_at m argtable sc CMDLEN ws"
    "\<And>x. x \<in> region sc (CMDLEN + 1) \<or> x \<in> region argtable (4 * (ARGNUM + 1)) \<or> m x = mem s x"
    using arg.copy_and_cut [OF line(1,2) _ W n _ d] by auto
  then show ?thesis by (intro exI [of _ m]) (auto simp: shell_gen_args_def cut_at_def simp del: region_simps)
qed

section \<open>The command table\<close>

lemma str_no_zero: "0 \<notin> set (map of_char t :: byte list) \<Longrightarrow> strcmp_spec (str t) w = 0 \<Longrightarrow> 0 \<notin> set w \<Longrightarrow> str t = w"
  using strcmp_spec_eq_0 [of "str t" w] by (simp add: str_def)

lemma strcmp_lit_cstr:
  assumes "cstr m name w" "0 \<notin> set (str t)"
  shows "\<exists>r. strcmp_lit m t name = Some r \<and> (r = 0 \<longleftrightarrow> str t = w)"
  using assms strcmp_spec_eq_0 [of "str t" w] by (auto simp: strcmp_lit_def cstring_cstr cstr_bytes_at)

lemma find_cmd_first:
  assumes "cstr m name w" "list_all (\<lambda>(t, h). 0 \<notin> set (str t)) cmds"
  shows "find_cmd m name cmds n =
    Some (if w \<in> set (map (str \<circ> fst) cmds) then Some (n + length (takeWhile (\<lambda>e. str (fst e) \<noteq> w) cmds)) else None)"
  using assms(2)
proof (induction cmds arbitrary: n)
  case (Cons e cmds)
  obtain t h where e: "e = (t, h)" by fastforce
  obtain r where "strcmp_lit m t name = Some r" "r = 0 \<longleftrightarrow> str t = w"
    using strcmp_lit_cstr [OF assms(1), of t] Cons.prems e by auto
  then show ?case using Cons e by auto
qed simp

lemma cmdtab_names: "list_all (\<lambda>(t, h). 0 \<notin> set (str t)) cmdtab"
  by (simp add: cmdtab_def)

lemma takeWhile_index:
  "distinct (map f xs) \<Longrightarrow> x < length xs \<Longrightarrow> length (takeWhile (\<lambda>e. f e \<noteq> f (xs ! x)) xs) = x"
proof (induction xs arbitrary: x)
  case (Cons e xs)
  then show ?case by (cases x) auto
qed simp

lemma cmdtab_distinct: "distinct (map (str \<circ> fst) cmdtab)" "length cmdtab = 14"
  by (simp_all add: cmdtab_def)

section \<open>The keyboard as a queue of codes\<close>

fun is_key_read :: "io_event \<Rightarrow> bool" where
  "is_key_read (In8 p v) \<longleftrightarrow> p = KEYPORT"
| "is_key_read _ \<longleftrightarrow> False"

definition keys_read :: "io_event list \<Rightarrow> nat" where
  "keys_read h = length (filter is_key_read h)"

lemma keys_read_append [simp]: "keys_read (h @ k) = keys_read h + keys_read k"
  by (simp add: keys_read_def)

text \<open>The controller has the codes \<open>q\<close>; each read of the data port takes the next one.\<close>

definition key_queue :: "device \<Rightarrow> uint list \<Rightarrow> bool" where
  "key_queue dev q \<longleftrightarrow> list_all (\<lambda>c. c < 256) q \<and>
     (\<forall>h. keys_read h < length q \<longrightarrow> dev h 0x64 AND 1 \<noteq> 0 \<and> dev h KEYPORT = q ! keys_read h)"

lemma key_queue_trace:
  assumes "key_queue dev q"
  shows "keys_read h + n \<le> length q \<Longrightarrow> \<exists>ks. length ks = n \<and> answers dev h (keys_trace ks) \<and> list_all key_ok ks \<and>
    map key_code ks = take n (drop (keys_read h) q) \<and> (\<forall>j \<le> n. keys_read (h @ keys_trace (take j ks)) = keys_read h + j)"
proof (induction n arbitrary: h)
  case (Suc n)
  let ?i = "keys_read h"
  have i: "?i < length q" using Suc.prems by simp
  let ?w = "dev h 0x64" and ?c = "q ! ?i"
  define k where "k = ([] :: uint list, ?w, ?c)"
  have tr: "key_trace k = [In8 0x64 ?w, In8 KEYPORT ?c]" by (simp add: k_def)
  have h': "keys_read (h @ [In8 0x64 ?w]) = ?i" "keys_read (h @ key_trace k) = Suc ?i"
    by (simp_all add: tr keys_read_def)
  have a: "answers dev h (key_trace k)" using assms h'(1) i by (simp add: tr key_queue_def)
  have ok: "key_ok k" using assms i by (auto simp: k_def key_queue_def list_all_length)
  obtain ks where ks: "length ks = n" "answers dev (h @ key_trace k) (keys_trace ks)" "list_all key_ok ks"
    "map key_code ks = take n (drop (Suc ?i) q)" "\<And>j. j \<le> n \<Longrightarrow> keys_read ((h @ key_trace k) @ keys_trace (take j ks)) = Suc ?i + j"
    using Suc.IH [of "h @ key_trace k"] Suc.prems h'(2) by auto
  have "map key_code (k # ks) = take (Suc n) (drop ?i q)"
    using ks(4) i by (simp add: Cons_nth_drop_Suc [symmetric] k_def key_code_def)
  moreover have "keys_read (h @ keys_trace (take j (k # ks))) = ?i + j" if "j \<le> Suc n" for j
    using ks(5) [of "j - 1"] that by (cases j) simp_all
  ultimately show ?case using a ok ks by (intro exI [of _ "k # ks"]) simp
qed (auto intro: exI [of _ "[]"])

lemma next_press_bound: "next_press sh q = Some (c, sh', n) \<Longrightarrow> 0 < n \<and> n \<le> length q"
  by (induction sh q arbitrary: n rule: next_press.induct) (auto split: key_event.splits)

lemma getch_queue:
  assumes q: "key_queue dev q" and p: "next_press (shift s) (drop (keys_read (io s)) q) = Some (c, sh, n)"
    and b: "key_char sh c = Some b"
  shows "\<exists>h. getch dev s = Some (b, s\<lparr>io := h, shift := sh\<rparr>) \<and> keys_read h = keys_read (io s) + n"
proof -
  let ?i = "keys_read (io s)"
  have n: "n \<le> length q - ?i" "?i \<le> length q" using next_press_bound [OF p] by auto
  obtain ks where ks: "length ks = length q - ?i" "answers dev (io s) (keys_trace ks)" "list_all key_ok ks"
    "map key_code ks = drop ?i q" "\<And>j. j \<le> length q - ?i \<Longrightarrow> keys_read (io s @ keys_trace (take j ks)) = ?i + j"
    using key_queue_trace [OF q, of "io s" "length q - ?i"] n(2) by auto
  then show ?thesis using getch_keys [OF ks(2,3), of c sh n b] p b n by auto
qed

text \<open>The characters typed up to the newline, the shift state after it and the number of codes.\<close>

fun typed :: "int \<Rightarrow> uint list \<Rightarrow> (byte list \<times> int \<times> nat) option" where
  "typed sh [] = None"
| "typed sh (c # q) =
     (case key_event c of
        Press k \<Rightarrow>
          (case key_char sh k of
             None \<Rightarrow> None
           | Some b \<Rightarrow> if b = 10 then Some ([], sh, 1)
                     else map_option (\<lambda>(l, sh', n). (b # l, sh', Suc n)) (typed sh q))
      | Shift_down \<Rightarrow> map_option (\<lambda>(l, sh', n). (l, sh', Suc n)) (typed 1 q)
      | Shift_up \<Rightarrow> map_option (\<lambda>(l, sh', n). (l, sh', Suc n)) (typed 0 q)
      | Release \<Rightarrow> map_option (\<lambda>(l, sh', n). (l, sh', Suc n)) (typed sh q))"

lemma typed_next:
  "typed sh q = Some (l, sh', n) \<Longrightarrow>
   \<exists>c sh1 k b. next_press sh q = Some (c, sh1, k) \<and> key_char sh1 c = Some b \<and>
     (b = 10 \<and> l = [] \<and> sh' = sh1 \<and> n = k \<or>
      b \<noteq> 10 \<and> (\<exists>l' n'. l = b # l' \<and> typed sh1 (drop k q) = Some (l', sh', n') \<and> n = k + n'))"
proof (induction q arbitrary: sh n)
  case (Cons c q)
  let ?P = "\<lambda>sh q n. \<exists>c sh1 k b. next_press sh q = Some (c, sh1, k) \<and> key_char sh1 c = Some b \<and>
     (b = 10 \<and> l = [] \<and> sh' = sh1 \<and> n = k \<or>
      b \<noteq> 10 \<and> (\<exists>l' n'. l = b # l' \<and> typed sh1 (drop k q) = Some (l', sh', n') \<and> n = k + n'))"
  have skip: "?P sh (c # q) n"
    if "typed sh (c # q) = map_option (\<lambda>(l, sh', n). (l, sh', Suc n)) (typed sh2 q)"
      "next_press sh (c # q) = map_option (\<lambda>(k, sh', n). (k, sh', Suc n)) (next_press sh2 q)" for sh2
  proof -
    have "map_option (\<lambda>(l, sh', n). (l, sh', Suc n)) (typed sh2 q) = Some (l, sh', n)"
      using Cons.prems unfolding that(1) .
    then obtain n' where n': "n = Suc n'" "typed sh2 q = Some (l, sh', n')" by auto
    from Cons.IH [OF n'(2)] obtain d sh1 k b where "next_press sh2 q = Some (d, sh1, k)" "key_char sh1 d = Some b"
      "b = 10 \<and> l = [] \<and> sh' = sh1 \<and> n' = k \<or>
       b \<noteq> 10 \<and> (\<exists>l' m. l = b # l' \<and> typed sh1 (drop k q) = Some (l', sh', m) \<and> n' = k + m)" by blast
    then show ?thesis using that(2) n'(1) by (intro exI [of _ d] exI [of _ sh1] exI [of _ "Suc k"] exI [of _ b]) auto
  qed
  show ?case
  proof (cases "key_event c")
    case (Press k)
    then show ?thesis using Cons.prems by (auto split: option.splits if_splits)
  qed (use skip in \<open>simp_all\<close>)
qed simp

section \<open>Editing\<close>

lemma keys_read_cursor: "keys_read (io (set_cursor_position x y s)) = keys_read (io s)"
  by (simp add: set_cursor_position_def Let_def outportb_def keys_read_def)

lemma keys_read_kput1: "keys_read (io (kput1 c s)) = keys_read (io s)"
  by (auto simp: kput1_def newline_def put_cell_def Let_def kscroll_display_def keys_read_cursor)

lemma outputs_shift: "outputs s (t :: 'a kbd_scheme) \<Longrightarrow> shift t = shift s"
  by (auto simp: outputs_def)

text \<open>One character in the middle of a line moves the cursor by one.\<close>

lemma kput1_column:
  assumes "cursor_ok s" "cursor_y s < 25" "cursor_x s < 79" "c \<noteq> 10"
  shows "cursor_x (kput1 c s) = cursor_x s + 1 \<and> cursor_y (kput1 c s) = cursor_y s"
proof -
  let ?t = "kput1 c s"
  have t: "?t = snd (put_cell c (of_nat (cell s)) s)" using assms(4) by (simp add: kput1_def)
  have "cell ?t = cell s + 2" "cursor_ok ?t" using put_cell_ok(1,3) [OF assms(1), of c] assms(2) unfolding t by auto
  then have n: "80 * nat (cursor_y ?t) + nat (cursor_x ?t) = 80 * nat (cursor_y s) + nat (cursor_x s) + 1"
    "0 \<le> cursor_x ?t" "cursor_x ?t < 80" "0 \<le> cursor_y ?t" "0 \<le> cursor_x s" "0 \<le> cursor_y s"
    using assms(1) by (auto simp: cell_def cursor_ok_def)
  from arg_cong [OF n(1), of int] n(2-6) have "80 * cursor_y ?t + cursor_x ?t = 80 * cursor_y s + cursor_x s + 1" by simp
  moreover from this have "cursor_y ?t = cursor_y s" using assms(3) n(2-6) by linarith
  ultimately show ?thesis by simp
qed

text \<open>The line editor: a backspace takes the last character away.\<close>

fun edit :: "byte list \<Rightarrow> byte list \<Rightarrow> byte list" where
  "edit acc [] = acc"
| "edit acc (c # l) = edit (if c = BACKSPACE then butlast acc else acc @ [c]) l"

text \<open>The screen between the prompt and the end of the line.\<close>

definition in_line :: "'a console_scheme \<Rightarrow> nat \<Rightarrow> bool" where
  "in_line s n \<longleftrightarrow> 0 \<le> cursor_y s \<and> cursor_y s < 25 \<and> PROMPT_LEN \<le> cursor_x s \<and> cursor_x s + int n < 80"

lemma in_line_ok: "in_line s n \<Longrightarrow> cursor_ok s"
  by (auto simp: in_line_def cursor_ok_def)

text \<open>What echoing a character or a backspace does.\<close>

definition echo :: "byte \<Rightarrow> 'a console_scheme \<Rightarrow> 'a console_scheme" where
  "echo c s = (if c = BACKSPACE then step_back (kputs [32] (step_back s)) else kputc c s)"

lemma step_back_line:
  assumes "in_line s n"
  shows "in_line (step_back s) n" "a \<notin> screen \<Longrightarrow> mem (step_back s) a = mem s a"
    "keys_read (io (step_back s)) = keys_read (io s)" "outputs s (step_back s)"
    "cursor_x (step_back s) = max 8 (cursor_x s - 1)"
proof -
  let ?x = "if cursor_x s - 1 < PROMPT_LEN then PROMPT_LEN else cursor_x s - 1"
  have x: "0 \<le> ?x" "?x \<le> 80" "0 \<le> cursor_y s" "cursor_y s \<le> 25" "cursor_y s = 25 \<longrightarrow> ?x = 0" "?x \<noteq> 80"
    using assms by (auto simp: in_line_def)
  show "in_line (step_back s) n" "cursor_x (step_back s) = max 8 (cursor_x s - 1)"
    using assms by (auto simp: step_back_def set_cursor_position_def Let_def in_line_def outportb_def)
  show "keys_read (io (step_back s)) = keys_read (io s)" by (simp add: step_back_def keys_read_cursor)
  show "outputs s (step_back s)" by (simp add: step_back_def outputs_cursor outputs_refl)
  assume "a \<notin> screen"
  moreover have "2 * (80 * nat (cursor_y s) + nat ?x) + 1 < 4002" using assms by (auto simp: in_line_def)
  ultimately show "mem (step_back s) a = mem s a"
    unfolding step_back_def set_cursor_at(3) [OF x(1-5)] using screenI by auto
qed

lemma kput1_line:
  assumes "in_line s (Suc n)" "c \<noteq> 10"
  shows "in_line (kput1 c s) n" "a \<notin> screen \<Longrightarrow> mem (kput1 c s) a = mem s a"
    "keys_read (io (kput1 c s)) = keys_read (io s)" "outputs s (kput1 c s)" "cursor_x (kput1 c s) = cursor_x s + 1"
proof -
  have "cursor_x s < 79" "cursor_y s < 25" using assms(1) by (auto simp: in_line_def)
  note col = kput1_column [OF in_line_ok [OF assms(1)] this(2,1) assms(2)]
  show "in_line (kput1 c s) n" "cursor_x (kput1 c s) = cursor_x s + 1" using col assms(1) by (auto simp: in_line_def)
  show "a \<notin> screen \<Longrightarrow> mem (kput1 c s) a = mem s a" using kput1_ok(2) in_line_ok [OF assms(1)] by blast
qed (simp_all add: keys_read_kput1 outputs_kput1)

lemma in_line_mono: "in_line s n \<Longrightarrow> k \<le> n \<Longrightarrow> in_line s k"
  by (auto simp: in_line_def)

lemma echo_line:
  assumes "in_line s (Suc n)" "c \<noteq> 10"
  shows "in_line (echo c s) n \<and> (\<forall>a. a \<in> screen \<or> mem (echo c s) a = mem s a) \<and>
    keys_read (io (echo c s)) = keys_read (io s) \<and> outputs s (echo c s)"
proof (cases "c = BACKSPACE")
  case True
  let ?a = "step_back s" and ?b = "kput1 32 (step_back s)"
  have e: "echo c s = step_back ?b" using True by (simp add: echo_def kput1_def)
  note a = step_back_line [OF assms(1)]
  have b: "in_line ?b n" "\<And>x. x \<notin> screen \<Longrightarrow> mem ?b x = mem ?a x" "keys_read (io ?b) = keys_read (io ?a)" "outputs ?a ?b"
    using kput1_line [OF a(1)] by simp_all
  note c = step_back_line [OF b(1)]
  show ?thesis unfolding e using a(2-4) b(2-4) c(1-4) outputs_trans by metis
next
  case False
  then have "echo c s = (if c = 0 then s else kput1 c s)" by (simp add: echo_def kputc_def kput1_def)
  then show ?thesis
    using kput1_line [OF assms] in_line_mono [OF assms(1), of n] by (auto simp: outputs_refl)
qed

section \<open>Reading a line\<close>

lemma edit_length: "length (edit acc l) \<le> length acc + length l"
proof (induction l arbitrary: acc)
  case (Cons c l)
  then show ?case using Cons.IH [of "butlast acc"] Cons.IH [of "acc @ [c]"] by auto
qed simp

text \<open>One key: \<open>edit acc [c]\<close> is what has been typed after it.\<close>

lemma getline_round:
  assumes q: "key_queue dev q" and ty: "typed (shift s) (drop (keys_read (io s)) q) = Some (c # l, sh, n)"
    and il: "in_line s (Suc (length l))" and acc: "bytes_at (mem s) b0 acc"
    and d: "region b0 (length acc + Suc (length l)) \<inter> screen = {}" "length acc + Suc (length l) < 4294967296"
  defines "as \<equiv> edit acc [c]"
  shows "\<exists>s' n'. getline_loop dev (b0 + of_nat (length acc)) (int (length acc)) s = getline_loop dev (b0 + of_nat (length as)) (int (length as)) s' \<and>
    typed (shift s') (drop (keys_read (io s')) q) = Some (l, sh, n') \<and> keys_read (io s') + n' = keys_read (io s) + n \<and>
    in_line s' (length l) \<and> bytes_at (mem s') b0 as \<and>
    (\<forall>x. x \<in> screen \<or> x \<in> region b0 (length acc + Suc (length l)) \<or> mem s' x = mem s x)"
proof -
  obtain e sh1 k n' where p: "next_press (shift s) (drop (keys_read (io s)) q) = Some (e, sh1, k)" "key_char sh1 e = Some c"
    "c \<noteq> 10" "typed sh1 (drop k (drop (keys_read (io s)) q)) = Some (l, sh, n')" "n = k + n'"
    using typed_next [OF ty] by auto
  obtain h where h: "getch dev s = Some (c, s\<lparr>io := h, shift := sh1\<rparr>)" "keys_read h = keys_read (io s) + k"
    using getch_queue [OF q p(1,2)] by blast
  define s1 where "s1 = s\<lparr>io := h, shift := sh1\<rparr>"
  define s2 where "s2 = echo c s1"
  have l1: "in_line s1 (Suc (length l))" using il by (simp add: s1_def in_line_def)
  have s2: "in_line s2 (length l)" "\<And>a. a \<notin> screen \<Longrightarrow> mem s2 a = mem s a" "keys_read (io s2) = keys_read (io s) + k" "shift s2 = sh1"
    using echo_line [OF l1 p(3)] outputs_shift [of s1 s2] h(2) by (auto simp: s2_def s1_def)
  have ty2: "typed (shift s2) (drop (keys_read (io s2)) q) = Some (l, sh, n')" "keys_read (io s2) + n' = keys_read (io s) + n"
    using p(4,5) s2(3,4) by (simp_all add: add.commute)
  have acc2: "bytes_at (mem s2) b0 acc"
    using acc d(1) s2(2) region_mono [of "length acc" "length acc + Suc (length l)" b0]
    by (subst bytes_at_cong [where m' = "mem s"]) auto
  show ?thesis
  proof (cases "c = BACKSPACE")
    case True
    then have "getline_loop dev (b0 + of_nat (length acc)) (int (length acc)) s = getline_loop dev (b0 + of_nat (length as)) (int (length as)) s2"
      using h(1) by (subst getline_loop.simps) (cases acc rule: rev_cases; simp add: s2_def s1_def echo_def Let_def as_def)
    moreover have "bytes_at (mem s2) b0 as"
      using acc2 True by (cases acc rule: rev_cases) (simp_all add: bytes_at_append as_def)
    ultimately show ?thesis using ty2 s2(1,2) by blast
  next
    case False
    define s3 where "s3 = s2\<lparr>mem := (mem s2)(b0 + of_nat (length acc) := c)\<rparr>"
    have "getline_loop dev (b0 + of_nat (length acc)) (int (length acc)) s = getline_loop dev (b0 + of_nat (length as)) (int (length as)) s3"
      using h(1) False p(3)
      by (subst getline_loop.simps) (simp add: s2_def s1_def s3_def echo_def Let_def as_def add.assoc [symmetric] add.commute)
    moreover have "b0 + of_nat (length acc) \<notin> region b0 (length acc)"
      using offset_notin [of "length acc" 0 "length acc" b0] d(2) by simp
    then have "bytes_at (mem s3) b0 acc" using acc2 by (subst bytes_at_cong [where m' = "mem s2"]) (auto simp: s3_def)
    then have "bytes_at (mem s3) b0 as" using False by (simp add: bytes_at_append s3_def as_def)
    moreover have "in_line s3 (length l)" using s2(1) by (simp add: s3_def in_line_def)
    moreover have "b0 + of_nat (length acc) \<in> region b0 (length acc + Suc (length l))" by (rule regionI) simp
    then have "x \<in> screen \<or> x \<in> region b0 (length acc + Suc (length l)) \<or> mem s3 x = mem s x" for x
      using s2(2) [of x] by (auto simp: s3_def)
    ultimately show ?thesis using ty2 by (intro exI [of _ s3] exI [of _ n']) (simp add: s3_def)
  qed
qed

lemma edit_Cons: "edit acc (c # l) = edit (edit acc [c]) l"
  by simp

lemma getline_loop_typed:
  assumes q: "key_queue dev q"
  shows "typed (shift s) (drop (keys_read (io s)) q) = Some (l, sh, n) \<Longrightarrow> in_line s (length l) \<Longrightarrow>
    bytes_at (mem s) b0 acc \<Longrightarrow> region b0 (length acc + length l) \<inter> screen = {} \<Longrightarrow>
    length acc + length l < 4294967296 \<Longrightarrow>
    \<exists>s'. getline_loop dev (b0 + of_nat (length acc)) (int (length acc)) s =
        Some (b0 + of_nat (length (edit acc l)), int (length (edit acc l)), s') \<and>
      bytes_at (mem s') b0 (edit acc l) \<and> in_line s' 0 \<and>
      shift s' = sh \<and> keys_read (io s') = keys_read (io s) + n \<and>
      (\<forall>x. x \<in> screen \<or> x \<in> region b0 (length acc + length l) \<or> mem s' x = mem s x)"
proof (induction l arbitrary: s acc n)
  case Nil
  then obtain c sh1 k where p: "next_press (shift s) (drop (keys_read (io s)) q) = Some (c, sh1, k)" "key_char sh1 c = Some 10"
    "sh = sh1" "n = k" using typed_next by fastforce
  from getch_queue [OF q p(1,2)] obtain h where "getch dev s = Some (10, s\<lparr>io := h, shift := sh1\<rparr>)"
    "keys_read h = keys_read (io s) + k" by blast
  then show ?case
    using p Nil.prems by (subst getline_loop.simps) (simp add: in_line_def)
next
  case (Cons c l)
  let ?as = "edit acc [c]"
  obtain s1 n1 where r: "getline_loop dev (b0 + of_nat (length acc)) (int (length acc)) s = getline_loop dev (b0 + of_nat (length ?as)) (int (length ?as)) s1"
    "typed (shift s1) (drop (keys_read (io s1)) q) = Some (l, sh, n1)" "keys_read (io s1) + n1 = keys_read (io s) + n"
    "in_line s1 (length l)" "bytes_at (mem s1) b0 ?as"
    "\<And>x. x \<in> screen \<or> x \<in> region b0 (length acc + Suc (length l)) \<or> mem s1 x = mem s x"
    using getline_round [OF q Cons.prems(1) _ Cons.prems(3)] Cons.prems(2,4,5) by auto
  have len: "length ?as + length l \<le> length acc + Suc (length l)" using edit_length [of acc "[c]"] by simp
  then have reg: "region b0 (length ?as + length l) \<subseteq> region b0 (length acc + Suc (length l))" by (rule region_mono)
  have "region b0 (length ?as + length l) \<inter> screen = {}" "length ?as + length l < 4294967296"
    using reg len Cons.prems(4,5) by auto
  from Cons.IH [OF r(2,4,5) this] obtain s' where s': "getline_loop dev (b0 + of_nat (length ?as)) (int (length ?as)) s1 =
      Some (b0 + of_nat (length (edit ?as l)), int (length (edit ?as l)), s')" "bytes_at (mem s') b0 (edit ?as l)" "in_line s' 0"
    "shift s' = sh" "keys_read (io s') = keys_read (io s1) + n1"
    "\<And>x. x \<in> screen \<or> x \<in> region b0 (length ?as + length l) \<or> mem s' x = mem s1 x" by blast
  have "x \<in> screen \<or> x \<in> region b0 (length acc + length (c # l)) \<or> mem s' x = mem s x" for x
    using s'(6) [of x] r(6) [of x] subsetD [OF reg, of x] by auto
  then show ?case using r(1,3) s'(1-5) unfolding edit_Cons [of acc c l] by (intro exI [of _ s']) simp
qed

lemma getline_after:
  assumes q: "key_queue dev q" "typed (shift s) (drop (keys_read (io s)) q) = Some (l, sh, n)"
    and s: "in_line s (length l)" "region b0 (length l) \<inter> screen = {}" "length l < 4294967296"
    and strip: "\<And>m. bytes_at m b0 (edit [] l) \<Longrightarrow> (\<And>x. x \<notin> screen \<Longrightarrow> x \<notin> region b0 (length l) \<Longrightarrow> m x = mem s x) \<Longrightarrow>
      strip_leading_whitespace m b0 (int (length (edit [] l))) = Some (b0 + of_nat k, int (length (edit [] l)) - int k)"
  shows "\<exists>s' m. getline dev b0 s = Some (b0 + of_nat k, s') \<and> bytes_at m b0 (edit [] l) \<and>
      mem s' = m(b0 + of_nat (length (edit [] l)) := 0) \<and> cursor_x s' = 0 \<and> shift s' = sh \<and>
      keys_read (io s') = keys_read (io s) + n \<and> (\<forall>x. x \<in> screen \<or> x \<in> region b0 (length l) \<or> m x = mem s x)"
proof -
  have "\<exists>s1. getline_loop dev b0 0 s = Some (b0 + of_nat (length (edit [] l)), int (length (edit [] l)), s1) \<and>
      bytes_at (mem s1) b0 (edit [] l) \<and> in_line s1 0 \<and> shift s1 = sh \<and> keys_read (io s1) = keys_read (io s) + n \<and>
      (\<forall>x. x \<in> screen \<or> x \<in> region b0 (length l) \<or> mem s1 x = mem s x)"
    using getline_loop_typed [OF q(1,2) s(1), of b0 "[]"] s(2,3) by simp
  then obtain s1 where s1: "getline_loop dev b0 0 s = Some (b0 + of_nat (length (edit [] l)), int (length (edit [] l)), s1)"
    "bytes_at (mem s1) b0 (edit [] l)" "shift s1 = sh" "keys_read (io s1) = keys_read (io s) + n"
    "\<And>x. x \<in> screen \<or> x \<in> region b0 (length l) \<or> mem s1 x = mem s x" by blast
  have "strip_leading_whitespace (mem s1) b0 (int (length (edit [] l))) = Some (b0 + of_nat k, int (length (edit [] l)) - int k)"
    using s1(2,5) by (intro strip) blast+
  then show ?thesis
    using s1 by (auto simp: getline_def intro!: exI [of _ "mem s1"])
qed

lemma strip_bytes:
  "bytes_at m a (ws @ [c]) \<Longrightarrow> list_all ISSPACE ws \<Longrightarrow> \<not> ISSPACE c \<Longrightarrow>
   strip_leading_whitespace m a i = Some (a + of_nat (length ws), i - int (length ws))"
proof (induction ws arbitrary: a i)
  case Nil
  then show ?case by (subst strip_leading_whitespace.simps) simp
next
  case (Cons w ws)
  then show ?case by (subst strip_leading_whitespace.simps) (simp add: add.assoc algebra_simps)
qed

section \<open>Properties\<close>


text \<open>
  after a line of blanks only, \<open>getline\<close> does not return an empty line when the buffer still holds text of an earlier one:
  leading blanks are skipped before the line is terminated, so the result is the old text, which has not been typed.
\<close>

theorem getline_blank_line_stale:
  assumes "key_queue dev q" "typed (shift s) (drop (keys_read (io s)) q) = Some (l, sh, n)" "list_all ISSPACE l"
    and "in_line s (length l)" "region b0 (length l + Suc (length ws + length old)) \<inter> screen = {}"
    and "length l + Suc (length ws + length old) < 4294967296"
    and "cstr (mem s) (b0 + of_nat (length l)) (ws @ old)" "list_all ISSPACE ws" "ws \<noteq> []" "old \<noteq> []" "\<not> ISSPACE (hd old)"
  shows "\<exists>a s'. getline dev b0 s = Some (a, s') \<and> cstr (mem s') a old"
proof -
  have ed: "edit acc l = acc @ l" if "list_all ISSPACE l" for acc l
    using that by (induction l arbitrary: acc) (auto simp: ISSPACE_def)
  have e: "edit [] l = l" using ed [OF assms(3), of "[]"] by simp
  let ?b = "b0 + of_nat (length l)" and ?k = "length l + length ws"
  let ?R = "region b0 (length l + Suc (length ws + length old))"
  have old: "old = hd old # tl old" using assms(10) by simp
  have R: "region b0 (length l) \<subseteq> ?R" "region ?b (Suc (length (ws @ old))) \<subseteq> ?R"
  proof -
    show "region b0 (length l) \<subseteq> ?R" by (rule region_mono) simp
    show "region ?b (Suc (length (ws @ old))) \<subseteq> ?R"
      using region_offset [of b0 "length l" "Suc (length (ws @ old))"] by simp
  qed
  have out: "region ?b (Suc (length (ws @ old))) \<inter> region b0 (length l) = {}"
    using offsets_disjoint [of 0 "length l" "length l" "Suc (length (ws @ old))" b0] assms(6) by auto
  have tail: "cstr m ?b (ws @ old)" if that': "\<And>x. x \<notin> screen \<Longrightarrow> x \<notin> region b0 (length l) \<Longrightarrow> m x = mem s x" for m
  proof -
    have "m x = mem s x" if "x \<in> region ?b (Suc (length (ws @ old)))" for x
    proof (rule that')
      show "x \<notin> screen" using that R(2) assms(5) by (meson disjoint_iff subsetD)
      show "x \<notin> region b0 (length l)" using that out by (meson disjoint_iff)
    qed
    then have "cstr m ?b (ws @ old) = cstr (mem s) ?b (ws @ old)" by (rule cstr_cong)
    then show ?thesis using assms(7) by simp
  qed
  have strip: "strip_leading_whitespace m b0 (int (length (edit [] l))) = Some (b0 + of_nat ?k, int (length (edit [] l)) - int ?k)"
    if "bytes_at m b0 (edit [] l)" "\<And>x. x \<notin> screen \<Longrightarrow> x \<notin> region b0 (length l) \<Longrightarrow> m x = mem s x" for m
  proof -
    have "cstr m ?b (ws @ old)" by (rule tail) (rule that(2))
    moreover have "ws @ old = (ws @ [hd old]) @ tl old" using assms(10) by simp
    ultimately have "bytes_at m ?b (ws @ [hd old])" by (metis bytes_at_append cstr_bytes)
    then have "bytes_at m b0 ((l @ ws) @ [hd old])" using that(1) unfolding e by (simp add: bytes_at_append)
    from strip_bytes [OF this, of "int (length (edit [] l))"] assms(3,8,11) show ?thesis by simp
  qed
  have dis: "region b0 (length l) \<inter> screen = {}" "length l < 4294967296" using R(1) assms(5,6) by auto
  obtain s' m where s': "getline dev b0 s = Some (b0 + of_nat ?k, s')"
    "mem s' = m(b0 + of_nat (length l) := 0)" "\<And>x. x \<in> screen \<or> x \<in> region b0 (length l) \<or> m x = mem s x"
    using getline_after [OF assms(1,2,4) dis strip] unfolding e by blast
  have "cstr m (b0 + of_nat ?k) old"
    using tail [of m] s'(3) by (auto simp: cstr_bytes_at bytes_at_append add.assoc)
  moreover have "?b \<notin> region (b0 + of_nat ?k) (Suc (length old))"
    using offset_notin [of "length l" ?k "Suc (length old)" b0] assms(6,9) by (cases ws) auto
  ultimately have "cstr (mem s') (b0 + of_nat ?k) old" unfolding s'(2) by (subst cstr_cong [where m' = m]) auto
  then show ?thesis using s'(1) by blast
qed



section \<open>Witnesses\<close>

text \<open>A controller that always has the next code of \<open>q\<close>.\<close>

definition queue_dev :: "uint list \<Rightarrow> device" where
  "queue_dev q h p = (if p = KEYPORT then (if keys_read h < length q then q ! keys_read h else 0) else 1)"

lemma queue_dev: "list_all (\<lambda>c. c < 256) q \<Longrightarrow> key_queue (queue_dev q) q"
  by (simp add: key_queue_def queue_dev_def)

definition demo_line :: "memory \<Rightarrow> kbd" where
  "demo_line m = (demo_kbd m)\<lparr>cursor_x := 8\<rparr>"

lemma demo_line: "in_line (demo_line m) n \<longleftrightarrow> n < 72" "io (demo_line m) = []" "shift (demo_line m) = 0" "mem (demo_line m) = m"
  by (auto simp: demo_line_def demo_kbd_def in_line_def)

lemma low_screen: "unat a + n \<le> 753664 \<Longrightarrow> region a n \<inter> screen = {}"
proof (rule screen_low)
  fix x assume "unat a + n \<le> 753664" "x \<in> region a n"
  then show "unat x < 753664" using region_iff [of a n x] by simp
qed


theorem getline_blank_line_stale_witness:
  "\<exists>a s'. getline (queue_dev [0x39, 0x1C]) 0x5000 (demo_line (st_bytes 0x5000 (str ''x ls'' @ [0]) (\<lambda>_. 0))) = Some (a, s') \<and>
     cstr (mem s') a (str ''ls'')"
proof -
  let ?q = "[0x39, 0x1C] :: uint list" and ?s = "demo_line (st_bytes 0x5000 (str ''x ls'' @ [0]) (\<lambda>_. 0))"
  have t: "typed (shift ?s) (drop (keys_read (io ?s)) ?q) = Some ([32], 0, 2)"
    by (simp add: demo_line keys_read_def key_event_def key_char_def asciiNonSh_def)
  have r: "region 0x5000 (length [32 :: byte] + Suc (length [32 :: byte] + length (str ''ls''))) \<inter> screen = {}"
    by (rule low_screen) simp
  have c: "cstr (mem ?s) (0x5000 + of_nat (length [32 :: byte])) ([32] @ str ''ls'')" by (simp add: demo_line)
  have q: "key_queue (queue_dev ?q) ?q" by (rule queue_dev) simp
  from getline_blank_line_stale [OF q t _ _ r _ c] show ?thesis by (simp add: demo_line ISSPACE_def)
qed

definition demo_input :: "string \<Rightarrow> console" where
  "demo_input t = demo_console (st_bytes 0x5000 (str t @ [0]) (\<lambda>_. 0)) 0 0"

lemma low_regions: "unat a + n \<le> unat b \<Longrightarrow> unat b + k \<le> 4294967296 \<Longrightarrow> region a n \<inter> region b k = {}"
  by (auto simp: region_iff)

lemma demo_arrays: "arrays_ok 0x8000 0x7000"
  unfolding arrays_ok_def by (rule low_regions) simp_all



end
