(* ===== verification/Elf.thy ===== *)
theory Elf
  imports Shell
begin

text \<open>
  The ELF reader, \<open>src/kernel/elf.c\<close>: it prints the headers, the symbols and the program headers of an image in
  memory. The image and the tables of pointers lie in the byte memory; an \<open>int\<close> that takes part in unsigned arithmetic is the
  word of its bits.
\<close>

section \<open>elf.h\<close>

definition e_ident :: "addr \<Rightarrow> nat \<Rightarrow> addr" where "e_ident h k = h + of_nat k"
definition e_type :: "addr \<Rightarrow> addr" where "e_type h = h + 16"
definition e_machine :: "addr \<Rightarrow> addr" where "e_machine h = h + 18"
definition e_version :: "addr \<Rightarrow> addr" where "e_version h = h + 20"
definition e_entry :: "addr \<Rightarrow> addr" where "e_entry h = h + 24"
definition e_phoff :: "addr \<Rightarrow> addr" where "e_phoff h = h + 28"
definition e_shoff :: "addr \<Rightarrow> addr" where "e_shoff h = h + 32"
definition e_flags :: "addr \<Rightarrow> addr" where "e_flags h = h + 36"
definition e_ehsize :: "addr \<Rightarrow> addr" where "e_ehsize h = h + 40"
definition e_phentsize :: "addr \<Rightarrow> addr" where "e_phentsize h = h + 42"
definition e_phnum :: "addr \<Rightarrow> addr" where "e_phnum h = h + 44"
definition e_shentsize :: "addr \<Rightarrow> addr" where "e_shentsize h = h + 46"
definition e_shnum :: "addr \<Rightarrow> addr" where "e_shnum h = h + 48"
definition e_shstrndx :: "addr \<Rightarrow> addr" where "e_shstrndx h = h + 50"

definition sh_name :: "addr \<Rightarrow> addr" where "sh_name h = h"
definition sh_type :: "addr \<Rightarrow> addr" where "sh_type h = h + 4"
definition sh_flags :: "addr \<Rightarrow> addr" where "sh_flags h = h + 8"
definition sh_addr :: "addr \<Rightarrow> addr" where "sh_addr h = h + 12"
definition sh_offset :: "addr \<Rightarrow> addr" where "sh_offset h = h + 16"
definition sh_size :: "addr \<Rightarrow> addr" where "sh_size h = h + 20"
definition sh_link :: "addr \<Rightarrow> addr" where "sh_link h = h + 24"
definition sh_info :: "addr \<Rightarrow> addr" where "sh_info h = h + 28"
definition sh_addralign :: "addr \<Rightarrow> addr" where "sh_addralign h = h + 32"
definition sh_entsize :: "addr \<Rightarrow> addr" where "sh_entsize h = h + 36"

definition st_name :: "addr \<Rightarrow> addr" where "st_name y = y"
definition st_value :: "addr \<Rightarrow> addr" where "st_value y = y + 4"
definition st_size :: "addr \<Rightarrow> addr" where "st_size y = y + 8"
definition st_info :: "addr \<Rightarrow> addr" where "st_info y = y + 12"
definition st_other :: "addr \<Rightarrow> addr" where "st_other y = y + 13"
definition st_shndx :: "addr \<Rightarrow> addr" where "st_shndx y = y + 14"

definition p_type :: "addr \<Rightarrow> addr" where "p_type h = h"
definition p_offset :: "addr \<Rightarrow> addr" where "p_offset h = h + 4"
definition p_vaddr :: "addr \<Rightarrow> addr" where "p_vaddr h = h + 8"
definition p_paddr :: "addr \<Rightarrow> addr" where "p_paddr h = h + 12"
definition p_filesz :: "addr \<Rightarrow> addr" where "p_filesz h = h + 16"
definition p_memsz :: "addr \<Rightarrow> addr" where "p_memsz h = h + 20"
definition p_flags :: "addr \<Rightarrow> addr" where "p_flags h = h + 24"
definition p_align :: "addr \<Rightarrow> addr" where "p_align h = h + 28"

abbreviation EI_MAG0 :: nat where "EI_MAG0 \<equiv> 0"
abbreviation EI_MAG1 :: nat where "EI_MAG1 \<equiv> 1"
abbreviation EI_MAG2 :: nat where "EI_MAG2 \<equiv> 2"
abbreviation EI_MAG3 :: nat where "EI_MAG3 \<equiv> 3"
abbreviation EI_CLASS :: nat where "EI_CLASS \<equiv> 4"
abbreviation EI_DATA :: nat where "EI_DATA \<equiv> 5"
abbreviation EI_VERSION :: nat where "EI_VERSION \<equiv> 6"
abbreviation ELFMAG0 :: byte where "ELFMAG0 \<equiv> 0x7F"
definition ELFMAG1 :: byte where "ELFMAG1 = ch CHR ''E''"
definition ELFMAG2 :: byte where "ELFMAG2 = ch CHR ''L''"
definition ELFMAG3 :: byte where "ELFMAG3 = ch CHR ''F''"
abbreviation ET_EXEC :: half where "ET_EXEC \<equiv> 2"
abbreviation EM_386 :: half where "EM_386 \<equiv> 3"
abbreviation EV_CURRENT :: uint where "EV_CURRENT \<equiv> 1"
abbreviation SHT_SYMTAB :: uint where "SHT_SYMTAB \<equiv> 2"
abbreviation SHT_STRTAB :: uint where "SHT_STRTAB \<equiv> 3"
abbreviation SHT_DYNSYM :: uint where "SHT_DYNSYM \<equiv> 11"
abbreviation ELF_HEADER_SIZE :: uint where "ELF_HEADER_SIZE \<equiv> 52"
abbreviation ELF_SH_SIZE :: uint where "ELF_SH_SIZE \<equiv> 40"
abbreviation ELF_STENTRY_SIZE :: uint where "ELF_STENTRY_SIZE \<equiv> 16"
abbreviation ELF_PH_SIZE :: uint where "ELF_PH_SIZE \<equiv> 32"

record elf = console +
  strtab_size :: uint
  symtab_num :: uint

section \<open>Printing\<close>

definition elf_print_error :: "byte list \<Rightarrow> 'a console_scheme \<Rightarrow> 'a console_scheme option" where
  "elf_print_error message s = kprint [pct CHR ''s''] [Str message] s"

text \<open>The lines of \<open>debug_elf_header\<close>: a name, an explanation and a number, with tabs between them.\<close>

definition ident_field :: "string \<Rightarrow> nat \<Rightarrow> string \<times> string \<times> (memory \<Rightarrow> addr \<Rightarrow> uint)" where
  "ident_field t k = (''e_ident'', t, \<lambda>m h. ucast (m (e_ident h k)))"

definition half_field :: "string \<Rightarrow> string \<Rightarrow> (addr \<Rightarrow> addr) \<Rightarrow> string \<times> string \<times> (memory \<Rightarrow> addr \<Rightarrow> uint)" where
  "half_field n t f = (n, t, \<lambda>m h. ucast (ld16 m (f h)))"

definition word_field :: "string \<Rightarrow> string \<Rightarrow> (addr \<Rightarrow> addr) \<Rightarrow> string \<times> string \<times> (memory \<Rightarrow> addr \<Rightarrow> uint)" where
  "word_field n t f = (n, t, \<lambda>m h. ld32 m (f h))"

definition elf_fields :: "(string \<times> string \<times> (memory \<Rightarrow> addr \<Rightarrow> uint)) list" where
  "elf_fields =
     [ident_field ''File Class '' EI_CLASS, ident_field ''Data Encoding '' EI_DATA, ident_field ''File Version '' EI_VERSION,
      half_field ''e_type'' ''Object File type '' e_type,
      half_field ''e_machine'' ''Machine arch. '' e_machine,
      word_field ''e_version'' ''Object file version '' e_version,
      word_field ''e_entry'' ''Virtual address to which system first transfers control '' e_entry,
      word_field ''e_phoff'' ''Program header table's file offset(bytes) '' e_phoff,
      word_field ''e_shoff'' ''Section header table's file offset(bytes) '' e_shoff,
      word_field ''e_flags'' ''Processor specific flags '' e_flags,
      half_field ''e_ehsize'' ''ELF header's size '' e_ehsize,
      half_field ''e_phentsize'' ''Size of one entry of PH  '' e_phentsize,
      half_field ''e_phnum'' ''Number of entries in PHt '' e_phnum,
      half_field ''e_shentsize'' ''size of one entry of SH  '' e_shentsize,
      half_field ''e_shnum'' ''Number of entries in SHt '' e_shnum]"

fun print_fields :: "(string \<times> string \<times> (memory \<Rightarrow> addr \<Rightarrow> uint)) list \<Rightarrow> addr \<Rightarrow> 'a console_scheme \<Rightarrow> 'a console_scheme option" where
  "print_fields [] h s = Some s"
| "print_fields ((n, t, f) # fs) h s = do {
     s1 \<leftarrow> kprint (lits n @ lits '' : '' @ [Lit 9] @ lits t @ [Lit 9, pct CHR ''d'', Lit 10]) [Num (f (mem s) h)] s;
     print_fields fs h s1 }"

text \<open>A \<open>%c\<close> with the character 0 ends the text.\<close>

definition debug_elf_header :: "addr \<Rightarrow> 'a console_scheme \<Rightarrow> 'a console_scheme option" where
  "debug_elf_header elf_hdr s = do {
     s1 \<leftarrow> kprint (lits ''e_ident : '' @ [pct CHR ''X'']) [Num (ucast (mem s (e_ident elf_hdr EI_MAG0)))] s;
     let s2 = kputs (takeWhile (\<lambda>c. c \<noteq> 0) (str '' e_ident : '' @ [mem s1 (e_ident elf_hdr EI_MAG1),
       mem s1 (e_ident elf_hdr EI_MAG2), mem s1 (e_ident elf_hdr EI_MAG3), 10])) s1;
     s3 \<leftarrow> print_fields elf_fields elf_hdr s2;
     kprint (lits ''e_shstrndx : '' @ [Lit 9] @ lits ''SHt index of entry associated with section name string table '' @
       [Lit 9, Lit 9, Lit 9, pct CHR ''d'', Lit 10]) [Num (ucast (ld16 (mem s3) (e_shstrndx elf_hdr)))] s3 }"

text \<open>A sequence of \<open>kprintf\<close> calls with one number each.\<close>

fun print_nums :: "(item list \<times> (memory \<Rightarrow> uint)) list \<Rightarrow> 'a console_scheme \<Rightarrow> 'a console_scheme option" where
  "print_nums [] s = Some s"
| "print_nums ((its, f) # fs) s = do { s1 \<leftarrow> kprint its [Num (f (mem s))] s; print_nums fs s1 }"

abbreviation dec_left :: "string \<Rightarrow> item" where "dec_left w \<equiv> Dir True False (str w) [] (ch CHR ''d'')"
abbreviation dec_right :: "string \<Rightarrow> item" where "dec_right w \<equiv> Dir False False (str w) [] (ch CHR ''d'')"
abbreviation hex_left :: "string \<Rightarrow> item" where "hex_left w \<equiv> Dir True False (str w) [] (ch CHR ''X'')"

definition debug_section_header :: "addr \<Rightarrow> 'a console_scheme \<Rightarrow> 'a console_scheme option" where
  "debug_section_header elf_shdr s = print_nums
     [([pct CHR ''d'', Lit 9], \<lambda>m. ld32 m (sh_name elf_shdr)),
      (lits ''0x'' @ [hex_left ''11'', Lit 9], \<lambda>m. ld32 m (sh_type elf_shdr)),
      ([dec_left ''5'', Lit 9], \<lambda>m. ld32 m (sh_flags elf_shdr)),
      (lits ''0x'' @ [hex_left ''11'', Lit 9], \<lambda>m. ld32 m (sh_addr elf_shdr)),
      (lits ''0x'' @ [hex_left ''8'', Lit 9], \<lambda>m. ld32 m (sh_offset elf_shdr)),
      ([dec_left ''7'', Lit 9], \<lambda>m. ld32 m (sh_size elf_shdr)),
      ([dec_left ''7'', Lit 9], \<lambda>m. ld32 m (sh_link elf_shdr)),
      ([dec_left ''7'', Lit 9], \<lambda>m. ld32 m (sh_info elf_shdr)),
      ([dec_left ''7'', Lit 9], \<lambda>m. ld32 m (sh_addralign elf_shdr)),
      ([dec_left ''7'', Lit 10], \<lambda>m. ld32 m (sh_entsize elf_shdr))] s"

definition debug_symboltable_entry :: "addr \<Rightarrow> addr \<Rightarrow> 'a console_scheme \<Rightarrow> 'a console_scheme option" where
  "debug_symboltable_entry elf_sym elf_strtab s = do {
     t \<leftarrow> cstring (mem s) (elf_strtab + ld32 (mem s) (st_name elf_sym));
     s1 \<leftarrow> kprint [Dir False False (str ''25'') [] (ch CHR ''s'')] [Str t] s;
     print_nums
       [([Lit 9, dec_right ''10''], \<lambda>m. ld32 m (st_value elf_sym)),
        ([Lit 9, Lit 9, pct CHR ''d''], \<lambda>m. ld32 m (st_size elf_sym)),
        ([Lit 9, pct CHR ''d''], \<lambda>m. ucast (m (st_info elf_sym))),
        ([Lit 9, pct CHR ''d''], \<lambda>m. ucast (m (st_other elf_sym))),
        ([Lit 9] @ lits ''0x'' @ [pct CHR ''X'', Lit 10], \<lambda>m. ucast (ld16 m (st_shndx elf_sym)))] s1 }"

definition debug_program_header :: "addr \<Rightarrow> 'a console_scheme \<Rightarrow> 'a console_scheme option" where
  "debug_program_header elf_phdr s = print_nums
     [([Lit 32, Lit 10, dec_right ''10'', Lit 9], \<lambda>m. ld32 m (p_type elf_phdr)),
      ([Lit 32, dec_right ''10'', Lit 9], \<lambda>m. ld32 m (p_offset elf_phdr)),
      ([Lit 32, dec_right ''10'', Lit 9], \<lambda>m. ld32 m (p_vaddr elf_phdr)),
      ([Lit 32, dec_right ''10'', Lit 9], \<lambda>m. ld32 m (p_paddr elf_phdr)),
      ([Lit 32, dec_right ''5'', Lit 9], \<lambda>m. ld32 m (p_filesz elf_phdr)),
      ([Lit 32, dec_right ''5'', Lit 9], \<lambda>m. ld32 m (p_memsz elf_phdr)),
      ([Lit 32, dec_right ''5'', Lit 9], \<lambda>m. ld32 m (p_flags elf_phdr)),
      ([Lit 32, dec_right ''5'', Lit 9], \<lambda>m. ld32 m (p_align elf_phdr))] s"

primrec print_bytes :: "nat \<Rightarrow> addr \<Rightarrow> 'a console_scheme \<Rightarrow> 'a console_scheme" where
  "print_bytes 0 p s = s"
| "print_bytes (Suc n) p s = print_bytes n (p + 1) (kputc (mem s p) s)"

definition debug_string_tables :: "addr \<Rightarrow> 'a elf_scheme \<Rightarrow> 'a elf_scheme" where
  "debug_string_tables elf_strtab s =
     kputs [10, 10] (print_bytes (nat (sint (strtab_size s))) elf_strtab (kputs [10] s))"

section \<open>Reading the tables\<close>

text \<open>Entry \<open>i\<close> of a table of pointers, and what the source does with it: the block it has just allocated is
  replaced by the address in the image.\<close>

definition ptr_at :: "addr \<Rightarrow> nat \<Rightarrow> addr" where "ptr_at tab i = tab + 4 * of_nat i"

partial_function (option) program_headers_loop :: "addr \<Rightarrow> addr \<Rightarrow> addr \<Rightarrow> nat \<Rightarrow> 'a elf_scheme \<Rightarrow> 'a elf_scheme option" where
  "program_headers_loop elf_hdr elf_ptr tab i s =
     (if i < unat (ld16 (mem s) (e_phnum elf_hdr)) then do {
        (p, s1) \<leftarrow> kmalloc ELF_PH_SIZE s;
        let m1 = st32 (ptr_at tab i) p (mem s1);
        let m2 = st32 (ptr_at tab i) (elf_ptr + (ld32 m1 (e_phoff elf_hdr) + of_nat i * ELF_PH_SIZE)) m1;
        s3 \<leftarrow> debug_program_header (ld32 m2 (ptr_at tab i)) (s1\<lparr>mem := m2\<rparr>);
        program_headers_loop elf_hdr elf_ptr tab (Suc i) s3 }
      else Some s)"

definition read_program_headers :: "addr \<Rightarrow> addr \<Rightarrow> 'a elf_scheme \<Rightarrow> (addr \<times> 'a elf_scheme) option" where
  "read_program_headers elf_hdr elf_ptr s = do {
     (elf_phdr, s1) \<leftarrow> kmalloc (ucast (ld16 (mem s) (e_phnum elf_hdr))) s;
     s2 \<leftarrow> program_headers_loop elf_hdr elf_ptr elf_phdr 0 s1;
     Some (elf_phdr, s2) }"

partial_function (option) section_headers_loop :: "addr \<Rightarrow> addr \<Rightarrow> addr \<Rightarrow> nat \<Rightarrow> 'a elf_scheme \<Rightarrow> 'a elf_scheme option" where
  "section_headers_loop elf_hdr elf_ptr tab i s =
     (if i < unat (ld16 (mem s) (e_shnum elf_hdr)) then do {
        (p, s1) \<leftarrow> kmalloc ELF_SH_SIZE s;
        let m1 = st32 (ptr_at tab i) p (mem s1);
        let m2 = st32 (ptr_at tab i) (elf_ptr + (ld32 m1 (e_shoff elf_hdr) + of_nat i * ELF_SH_SIZE)) m1;
        s3 \<leftarrow> debug_section_header (ld32 m2 (ptr_at tab i)) (s1\<lparr>mem := m2\<rparr>);
        section_headers_loop elf_hdr elf_ptr tab (Suc i) s3 }
      else Some s)"

definition section_title :: "byte list" where
  "section_title = [10] @ str ''sh_name sh_type    sh_flags '' @ [9] @ str ''sh_addr '' @ [9] @ str ''sh_offset '' @ [9] @
     str ''sh_size sh_link sh_info sh_addralign  sh_entsize'' @ [10]"

definition read_section_headers :: "addr \<Rightarrow> addr \<Rightarrow> 'a elf_scheme \<Rightarrow> (addr \<times> 'a elf_scheme) option" where
  "read_section_headers elf_hdr elf_ptr s = do {
     (elf_shdr, s1) \<leftarrow> kmalloc (ucast (ld16 (mem s) (e_shnum elf_hdr))) s;
     s2 \<leftarrow> section_headers_loop elf_hdr elf_ptr elf_shdr 0 (kputs section_title s1);
     Some (elf_shdr, s2) }"

text \<open>The sum of the sizes of the sections of some types.\<close>

definition sections :: "memory \<Rightarrow> addr \<Rightarrow> addr \<Rightarrow> addr list" where
  "sections m elf_hdr elf_shdr = map (\<lambda>i. ld32 m (ptr_at elf_shdr i)) [0..<unat (ld16 m (e_shnum elf_hdr))]"

definition size_sum :: "memory \<Rightarrow> uint set \<Rightarrow> addr list \<Rightarrow> uint" where
  "size_sum m types hs = (\<Sum>h \<leftarrow> filter (\<lambda>h. ld32 m (sh_type h) \<in> types) hs. ld32 m (sh_size h))"

partial_function (option) symtab_entries ::
    "addr \<Rightarrow> addr \<Rightarrow> addr \<Rightarrow> addr \<Rightarrow> uint \<Rightarrow> uint \<Rightarrow> 'a elf_scheme \<Rightarrow> 'a elf_scheme option" where
  "symtab_entries elf_shdr_i elf_strtab elf_ptr elf_sym tab_entry tab_size s =
     (if tab_size \<noteq> 0 then do {
        (p, s1) \<leftarrow> kmalloc ELF_STENTRY_SIZE s;
        let a = elf_sym + 4 * symtab_num s1;
        let m1 = st32 a p (mem s1);
        let m2 = st32 a (elf_ptr + (ld32 m1 (sh_offset (ld32 m1 elf_shdr_i)) + tab_entry * ELF_STENTRY_SIZE)) m1;
        s3 \<leftarrow> debug_symboltable_entry (ld32 m2 a) elf_strtab (s1\<lparr>mem := m2\<rparr>);
        symtab_entries elf_shdr_i elf_strtab elf_ptr elf_sym (tab_entry + 1) (tab_size - ELF_STENTRY_SIZE)
          (s3\<lparr>symtab_num := symtab_num s3 + 1\<rparr>) }
      else Some s)"


partial_function (option) symtab_sections ::
    "addr \<Rightarrow> addr \<Rightarrow> addr \<Rightarrow> addr \<Rightarrow> addr \<Rightarrow> nat \<Rightarrow> 'a elf_scheme \<Rightarrow> 'a elf_scheme option" where
  "symtab_sections elf_hdr elf_shdr elf_strtab elf_ptr elf_sym i s =
     (if i < unat (ld16 (mem s) (e_shnum elf_hdr)) then do {
        let h = ld32 (mem s) (ptr_at elf_shdr i);
        s1 \<leftarrow> (if ld32 (mem s) (sh_type h) \<in> {SHT_SYMTAB, SHT_DYNSYM}
               then symtab_entries (ptr_at elf_shdr i) elf_strtab elf_ptr elf_sym 0 (ld32 (mem s) (sh_size h)) s
               else Some s);
        symtab_sections elf_hdr elf_shdr elf_strtab elf_ptr elf_sym (Suc i) s1 }
      else Some s)"

definition read_symbol_table ::
    "addr \<Rightarrow> addr \<Rightarrow> addr \<Rightarrow> addr \<Rightarrow> 'a elf_scheme \<Rightarrow> (addr \<times> 'a elf_scheme) option" where
  "read_symbol_table elf_hdr elf_shdr elf_strtab elf_ptr s = do {
     let symtab_size = size_sum (mem s) {SHT_SYMTAB, SHT_DYNSYM} (sections (mem s) elf_hdr elf_shdr);
     (elf_sym, s1) \<leftarrow> kmalloc (symtab_size div ELF_STENTRY_SIZE + 1) (s\<lparr>symtab_num := symtab_size div ELF_STENTRY_SIZE + 1\<rparr>);
     s2 \<leftarrow> symtab_sections elf_hdr elf_shdr elf_strtab elf_ptr elf_sym 0 (s1\<lparr>symtab_num := 0\<rparr>);
     Some (elf_sym, s2) }"

text \<open>The string tables are not copied: the block is printed as \<open>kmalloc\<close> returned it.\<close>

definition read_string_tables :: "addr \<Rightarrow> addr \<Rightarrow> addr \<Rightarrow> 'a elf_scheme \<Rightarrow> (addr \<times> 'a elf_scheme) option" where
  "read_string_tables elf_hdr elf_shdr elf_ptr s = do {
     let total = strtab_size s + size_sum (mem s) {SHT_STRTAB} (sections (mem s) elf_hdr elf_shdr);
     (elf_strtab, s1) \<leftarrow> kmalloc total (s\<lparr>strtab_size := total\<rparr>);
     let strtab_ptr = size_sum (mem s1) {SHT_STRTAB} (sections (mem s1) elf_hdr elf_shdr);
     Some (elf_strtab, debug_string_tables elf_strtab (s1\<lparr>strtab_size := strtab_ptr\<rparr>)) }"

definition check_elf_header :: "addr \<Rightarrow> 'a console_scheme \<Rightarrow> 'a console_scheme option" where
  "check_elf_header elf_hdr s = do {
     s1 \<leftarrow> (if mem s (e_ident elf_hdr 0) \<noteq> ELFMAG0 \<or> mem s (e_ident elf_hdr 1) \<noteq> ELFMAG1 \<or>
             mem s (e_ident elf_hdr 2) \<noteq> ELFMAG2 \<or> mem s (e_ident elf_hdr 3) \<noteq> ELFMAG3
            then elf_print_error (str ''Invalid File Format'' @ [10]) s else Some s);
     s2 \<leftarrow> (if ld16 (mem s1) (e_type elf_hdr) \<noteq> ET_EXEC
            then elf_print_error (str ''Unsopprted execution format '' @ [10]) s1 else Some s1);
     s3 \<leftarrow> (if ld16 (mem s2) (e_machine elf_hdr) \<noteq> EM_386
            then elf_print_error (str ''Unsupported e_machine format '' @ [10]) s2 else Some s2);
     if ld32 (mem s3) (e_version elf_hdr) \<noteq> EV_CURRENT
     then elf_print_error (str ''Invalid e_version format '' @ [10]) s3 else Some s3 }"

definition read_elf_header :: "addr \<Rightarrow> 'a elf_scheme \<Rightarrow> (addr \<times> 'a elf_scheme) option" where
  "read_elf_header elf_ptr s = do {
     (_, s1) \<leftarrow> kmalloc ELF_HEADER_SIZE s;
     s2 \<leftarrow> debug_elf_header elf_ptr s1;
     Some (elf_ptr, s2) }"

definition elf_load :: "addr \<Rightarrow> 'a elf_scheme \<Rightarrow> (int \<times> 'a elf_scheme) option" where
  "elf_load elf_ptr s = do {
     (elf_hdr, s1) \<leftarrow> read_elf_header elf_ptr s;
     s2 \<leftarrow> check_elf_header elf_hdr s1;
     (elf_shdr, s3) \<leftarrow> read_section_headers elf_hdr elf_ptr s2;
     (elf_strtab, s4) \<leftarrow> read_string_tables elf_hdr elf_shdr elf_ptr s3;
     (elf_sym, s5) \<leftarrow> read_symbol_table elf_hdr elf_shdr elf_strtab elf_ptr s4;
     (elf_phdr, s6) \<leftarrow> read_program_headers elf_hdr elf_ptr s5;
     s7 \<leftarrow> kfree elf_hdr s6;
     s8 \<leftarrow> kfree elf_shdr s7;
     s9 \<leftarrow> kfree elf_sym s8;
     s10 \<leftarrow> kfree elf_phdr s9;
     s11 \<leftarrow> kfree elf_phdr s10;
     s12 \<leftarrow> kfree elf_strtab s11;
     Some (0, s12) }"

section \<open>The header check\<close>

text \<open>What \<open>check_elf_header\<close> has to say of a header.\<close>

definition header_faults :: "memory \<Rightarrow> addr \<Rightarrow> byte list" where
  "header_faults m h =
     (if map (\<lambda>k. m (e_ident h k)) [0, 1, 2, 3] = 127 # str ''ELF'' then [] else str ''Invalid File Format'' @ [10]) @
     (if ld16 m (e_type h) = ET_EXEC then [] else str ''Unsopprted execution format '' @ [10]) @
     (if ld16 m (e_machine h) = EM_386 then [] else str ''Unsupported e_machine format '' @ [10]) @
     (if ld32 m (e_version h) = EV_CURRENT then [] else str ''Invalid e_version format '' @ [10])"

lemma elf_print_error_kputs: "length message < 100 \<Longrightarrow> elf_print_error message s = Some (kputs message s)"
  by (simp add: elf_print_error_def kprint_def field_def)

lemma elf_check:
  assumes "length t < 100"
  shows "(if b then elf_print_error t s else Some s) = Some (kputs (if b then t else []) s)"
  using elf_print_error_kputs [OF assms, of s] by simp

lemma if_not_swap: "(if a \<noteq> b then x else y) = (if a = b then y else x)"
  by simp

lemma header_off_screen:
  assumes "cursor_ok s" "region h 24 \<inter> screen = {}"
  shows "cursor_ok (kputs t s)" "header_faults (mem (kputs t s)) h = header_faults (mem s) h"
    "k < 4 \<Longrightarrow> mem (kputs t s) (e_ident h k) = mem s (e_ident h k)"
    "ld16 (mem (kputs t s)) (e_type h) = ld16 (mem s) (e_type h)"
    "ld16 (mem (kputs t s)) (e_machine h) = ld16 (mem s) (e_machine h)"
    "ld32 (mem (kputs t s)) (e_version h) = ld32 (mem s) (e_version h)"
proof -
  have keep: "mem (kputs t s) x = mem s x" if "x \<in> region h 24" for x
    using that assms kputs_ok(2) [OF assms(1), of x t] by blast
  have sub: "region (h + of_nat k) n \<subseteq> region h 24" if "k + n \<le> 24" for k n
    using region_offset [of h k n] region_mono [OF that, of h] by blast
  show "cursor_ok (kputs t s)" using kputs_ok(1) [OF assms(1)] .
  show i: "k < 4 \<Longrightarrow> mem (kputs t s) (e_ident h k) = mem s (e_ident h k)" for k
    using keep [of "h + of_nat k"] regionI [of k 24 h] by (simp add: e_ident_def)
  show f: "ld16 (mem (kputs t s)) (e_type h) = ld16 (mem s) (e_type h)" "ld16 (mem (kputs t s)) (e_machine h) = ld16 (mem s) (e_machine h)"
    "ld32 (mem (kputs t s)) (e_version h) = ld32 (mem s) (e_version h)"
    using sub [of 16 2] sub [of 18 2] sub [of 20 4] by (auto simp: e_type_def e_machine_def e_version_def intro!: ld16_cong ld32_cong keep)
  show "header_faults (mem (kputs t s)) h = header_faults (mem s) h"
    using i [of 0] i [of 1] i [of 2] i [of 3] f by (simp add: header_faults_def)
qed

text \<open>
  C38: \<open>check_elf_header\<close> prints one line for each of its four tests that the header fails, in order, and nothing for a header of an
  executable of version 1 for the i386 - and never anything else: it has no result, and \<open>elf_load\<close> goes on whatever it found.
\<close>

theorem check_elf_header_reports:
  assumes "cursor_ok s" "region h 24 \<inter> screen = {}"
  shows "check_elf_header h s = Some (kputs (header_faults (mem s) h) s) \<and>
    (header_faults (mem s) h = [] \<longleftrightarrow> map (\<lambda>k. mem s (h + of_nat k)) [0, 1, 2, 3] = 127 # str ''ELF'' \<and> ld16 (mem s) (h + 16) = 2 \<and>
       ld16 (mem s) (h + 18) = 3 \<and> ld32 (mem s) (h + 20) = 1)"
proof
  have i: "mem s (e_ident h 0) \<noteq> ELFMAG0 \<or> mem s (e_ident h 1) \<noteq> ELFMAG1 \<or> mem s (e_ident h 2) \<noteq> ELFMAG2 \<or>
      mem s (e_ident h 3) \<noteq> ELFMAG3 \<longleftrightarrow> map (\<lambda>k. mem s (e_ident h k)) [0, 1, 2, 3] \<noteq> 127 # str ''ELF''"
    by (auto simp: ELFMAG1_def ELFMAG2_def ELFMAG3_def)
  note off = header_off_screen(3-) [OF _ assms(2)]
  let ?t1 = "if map (\<lambda>k. mem s (e_ident h k)) [0, 1, 2, 3] = 127 # str ''ELF'' then [] else str ''Invalid File Format'' @ [10]"
  let ?t2 = "if ld16 (mem s) (e_type h) = ET_EXEC then [] else str ''Unsopprted execution format '' @ [10]"
  let ?t3 = "if ld16 (mem s) (e_machine h) = EM_386 then [] else str ''Unsupported e_machine format '' @ [10]"
  define t1 t2 t3 t4 where t: "t1 = str ''Invalid File Format'' @ [10]" "t2 = str ''Unsopprted execution format '' @ [10]"
    "t3 = str ''Unsupported e_machine format '' @ [10]" "t4 = str ''Invalid e_version format '' @ [10]"
  have l: "length t1 < 100" "length t2 < 100" "length t3 < 100" "length t4 < 100" by (simp_all add: t)
  note faults = header_faults_def [folded t]
  show "check_elf_header h s = Some (kputs (header_faults (mem s) h) s)"
    unfolding check_elf_header_def t [symmetric] i
    by (simp only: elf_check [OF l(1)] elf_check [OF l(2)] elf_check [OF l(3)] elf_check [OF l(4)] Option.bind.simps faults
      kputs_append off kputs_ok(1) assms(1) if_not_swap)
  show "header_faults (mem s) h = [] \<longleftrightarrow> map (\<lambda>k. mem s (h + of_nat k)) [0, 1, 2, 3] = 127 # str ''ELF'' \<and> ld16 (mem s) (h + 16) = 2 \<and>
       ld16 (mem s) (h + 18) = 3 \<and> ld32 (mem s) (h + 20) = 1"
    by (auto simp: header_faults_def e_ident_def e_type_def e_machine_def e_version_def)
qed

text \<open>
  C39: the loop over the entries of a symbol table counts down the bytes of the section and stops at 0 only: when the size of the
  section is not a multiple of 16 it never returns, whatever the rest of the image holds.
\<close>

theorem symtab_entries_diverges:
  assumes "\<not> 16 dvd unat tab_size"
  shows "symtab_entries slot elf_strtab elf_ptr elf_sym tab_entry tab_size s = None"
proof -
  have step: "\<not> 16 dvd unat (n - 16)" if "\<not> 16 dvd unat n" "n \<noteq> 0" for n :: uint
  proof -
    have "unat n = unat (n - 16 + 16)" by simp
    also have "\<dots> = (unat (n - 16) + 16) mod 2 ^ 32" unfolding unat_word_ariths by simp
    finally show ?thesis using that by (auto simp: dvd_mod_iff)
  qed
  have "\<not> 16 dvd unat tab_size \<longrightarrow> False" if "symtab_entries slot elf_strtab elf_ptr elf_sym tab_entry tab_size s = Some y" for y
    using that
  proof (rule symtab_entries.raw_induct [rotated])
    fix f :: "addr \<Rightarrow> addr \<Rightarrow> addr \<Rightarrow> addr \<Rightarrow> uint \<Rightarrow> uint \<Rightarrow> 'a elf_scheme \<Rightarrow> 'a elf_scheme option"
      and slot elf_strtab elf_ptr elf_sym :: addr and tab_entry tab_size :: uint and s y :: "'a elf_scheme"
    assume IH: "\<And>slot elf_strtab elf_ptr elf_sym tab_entry tab_size s y.
        f slot elf_strtab elf_ptr elf_sym tab_entry tab_size s = Some y \<Longrightarrow> \<not> 16 dvd unat tab_size \<longrightarrow> False"
      and b: "(if tab_size \<noteq> 0 then do {
        (p, s1) \<leftarrow> kmalloc ELF_STENTRY_SIZE s;
        let a = elf_sym + 4 * symtab_num s1;
        let m1 = st32 a p (mem s1);
        let m2 = st32 a (elf_ptr + (ld32 m1 (sh_offset (ld32 m1 slot)) + tab_entry * ELF_STENTRY_SIZE)) m1;
        s3 \<leftarrow> debug_symboltable_entry (ld32 m2 a) elf_strtab (s1\<lparr>mem := m2\<rparr>);
        f slot elf_strtab elf_ptr elf_sym (tab_entry + 1) (tab_size - ELF_STENTRY_SIZE) (s3\<lparr>symtab_num := symtab_num s3 + 1\<rparr>) }
      else Some s) = Some y"
    show "\<not> 16 dvd unat tab_size \<longrightarrow> False"
    proof
      assume t: "\<not> 16 dvd unat tab_size"
      then have "tab_size \<noteq> 0" by auto
      with b IH step [OF t this] show False by (auto simp: Let_def split: bind_splits)
    qed
  qed
  then show ?thesis using assms by (cases "symtab_entries slot elf_strtab elf_ptr elf_sym tab_entry tab_size s") blast+
qed

section \<open>Witnesses\<close>

text \<open>An image at \<open>0x3000\<close> with the magic number, the wrong type and the wrong machine.\<close>

theorem check_elf_header_reports_witness:
  "\<exists>s :: console. check_elf_header 0x3000 s =
     Some (kputs (str ''Unsopprted execution format '' @ [10] @ str ''Unsupported e_machine format '' @ [10]) s)"
proof -
  let ?m = "(\<lambda>_. 0 :: byte)(0x3000 := 127, 0x3001 := 69, 0x3002 := 76, 0x3003 := 70, 0x3014 := 1 :: byte)"
  let ?s = "demo_console ?m 0 3" and ?t = "str ''Unsopprted execution format '' @ [10] @ str ''Unsupported e_machine format '' @ [10]"
  have m: "mem ?s = ?m" by (simp add: demo_console_def)
  have ok: "cursor_ok ?s" by (simp add: demo_console_def cursor_ok_def)
  have r: "region 0x3000 24 \<inter> screen = {}" by (rule screen_low) (auto simp: region_iff)
  have "map (\<lambda>k. ?m (e_ident 0x3000 k)) [0, 1, 2, 3] = 127 # str ''ELF''" by (simp add: e_ident_def)
  then have f: "header_faults (mem ?s) 0x3000 = ?t"
    unfolding header_faults_def m by (simp add: e_type_def e_machine_def e_version_def ld16_def ld32_def del: str_simps)
  show ?thesis using conjunct1 [OF check_elf_header_reports [OF ok r]] unfolding f by (rule exI)
qed

theorem symtab_entries_diverges_witness:
  "\<forall>s :: elf. symtab_entries 0 0 0x3000 0x4000 0 24 s = None"
  by (intro allI symtab_entries_diverges) simp

end
