(* ===== verification/Fs.thy ===== *)
theory Fs
  imports Shell
begin

text \<open>
  The registry of file systems, \<open>src/kernel/fs.c\<close> and \<open>include/fs.h\<close>: a linked list of driver records, the
  driver of the partition in use as three function pointers. A call through a function pointer is a call of the
  parameter \<open>call\<close>, which says what the code at an address does.
\<close>

section \<open>fs.h\<close>

record fsys = shell +
  fs_drv_list :: addr
  drv_root :: addr
  drv_chdir :: addr
  drv_loadfile :: addr
  fs_prop :: addr
  fs_temp :: addr
  fs_more :: addr

abbreviation sizeof_fs_drv_reg :: uint where "sizeof_fs_drv_reg \<equiv> 36"

definition reg_type_byte :: "addr \<Rightarrow> addr" where "reg_type_byte r = r"
definition reg_load_mem :: "addr \<Rightarrow> addr" where "reg_load_mem r = r + 4"
definition reg_drv_name :: "addr \<Rightarrow> addr" where "reg_drv_name r = r + 8"
definition reg_sym_root :: "addr \<Rightarrow> addr" where "reg_sym_root r = r + 20"
definition reg_sym_chdir :: "addr \<Rightarrow> addr" where "reg_sym_chdir r = r + 24"
definition reg_sym_loadfile :: "addr \<Rightarrow> addr" where "reg_sym_loadfile r = r + 28"
definition reg_drv_next :: "addr \<Rightarrow> addr" where "reg_drv_next r = r + 32"

lemmas reg_defs = reg_type_byte_def reg_load_mem_def reg_drv_name_def reg_sym_root_def reg_sym_chdir_def
  reg_sym_loadfile_def reg_drv_next_def

abbreviation sizeof_fs_drv_mod :: uint where "sizeof_fs_drv_mod \<equiv> 28"

definition mod_sign :: "addr \<Rightarrow> addr" where "mod_sign h = h"
definition mod_load_mem :: "addr \<Rightarrow> addr" where "mod_load_mem h = h + 4"
definition mod_sym_tab_addr :: "addr \<Rightarrow> addr" where "mod_sym_tab_addr h = h + 12"
definition mod_type_byte :: "addr \<Rightarrow> addr" where "mod_type_byte h = h + 16"
definition mod_name :: "addr \<Rightarrow> addr" where "mod_name h = h + 17"

abbreviation sizeof_fs_sym_tab :: uint where "sizeof_fs_sym_tab \<equiv> 16"

definition sym_val :: "addr \<Rightarrow> addr" where "sym_val t = t + 12"

abbreviation FS_DRV_NOT_FOUND :: int where "FS_DRV_NOT_FOUND \<equiv> 0"
abbreviation FS_DRV_FOUND :: int where "FS_DRV_FOUND \<equiv> 1"
abbreviation FS_MODULE_REGISTERED :: int where "FS_MODULE_REGISTERED \<equiv> 2"
abbreviation FS_BAD_MODULE_FMT :: int where "FS_BAD_MODULE_FMT \<equiv> -1"
abbreviation FS_MODULE_REMOVED :: int where "FS_MODULE_REMOVED \<equiv> 1"
abbreviation FS_MODULE_NOT_FOUND :: int where "FS_MODULE_NOT_FOUND \<equiv> 0"

section \<open>fs.c\<close>

definition init_fs_modules :: "addr \<Rightarrow> addr \<Rightarrow> addr \<Rightarrow> 'a fsys_scheme \<Rightarrow> (int \<times> 'a fsys_scheme) option" where
  "init_fs_modules ext2_root ext2_chdir ext2_loadfile s = do {
     (tmp, s1) \<leftarrow> kmalloc sizeof_fs_drv_reg s;
     let m1 = (mem s1)(reg_type_byte tmp := PART_LINUX_NATIVE);
     let m2 = st_bytes (reg_drv_name tmp) (str ''ext2'' @ [0]) (st32 (reg_load_mem tmp) NULL m1);
     let m3 = st32 (reg_sym_loadfile tmp) ext2_loadfile
                (st32 (reg_sym_chdir tmp) ext2_chdir (st32 (reg_sym_root tmp) ext2_root m2));
     Some (0, s1\<lparr>mem := st32 (reg_drv_next tmp) NULL m3, fs_drv_list := tmp\<rparr>) }"

text \<open>The search of \<open>part_temp\<close> ends at the last element of the list, the empty one, when there is no such number.\<close>

partial_function (option) find_part :: "memory \<Rightarrow> addr \<Rightarrow> uint \<Rightarrow> addr option" where
  "find_part m p n =
     (if ld32 m (pp_next p) \<noteq> NULL
      then (if ld32 m (pp_name p) = n then Some p else find_part m (ld32 m (pp_next p)) n)
      else Some p)"

partial_function (option) find_drv :: "memory \<Rightarrow> addr \<Rightarrow> byte \<Rightarrow> addr option option" where
  "find_drv m tmp t =
     (if tmp \<noteq> NULL
      then (if m (reg_type_byte tmp) = t then Some (Some tmp) else find_drv m (ld32 m (reg_drv_next tmp)) t)
      else Some None)"

text \<open>\<open>call_root f lba drive inode\<close> is \<open>(*f)(lba, drive, inode)\<close>.\<close>

definition fs_root ::
    "(addr \<Rightarrow> uint \<Rightarrow> int \<Rightarrow> int \<Rightarrow> 'a fsys_scheme \<Rightarrow> (addr \<times> 'a fsys_scheme) option) \<Rightarrow> uint \<Rightarrow>
     'a fsys_scheme \<Rightarrow> (int \<times> 'a fsys_scheme) option" where
  "fs_root call_root partition_num s = do {
     p \<leftarrow> find_part (mem s) (partition s) partition_num;
     let s1 = s\<lparr>part_temp := p\<rparr>;
     r \<leftarrow> find_drv (mem s1) (fs_drv_list s1) (mem s1 (pp_type_byte (part_temp s1)));
     case r of
       None \<Rightarrow> Some (FS_DRV_NOT_FOUND, s1)
     | Some tmp \<Rightarrow> do {
         let s2 = s1\<lparr>drv_root := ld32 (mem s1) (reg_sym_root tmp), drv_chdir := ld32 (mem s1) (reg_sym_chdir tmp),
                     drv_loadfile := ld32 (mem s1) (reg_sym_loadfile tmp)\<rparr>;
         (f, s3) \<leftarrow> call_root (drv_root s2) (ld32 (mem s2) (pp_st_lba (part_temp s2))) 0 2 s2;
         Some (FS_DRV_FOUND, s3\<lparr>fs_prop := f\<rparr>) } }"

text \<open>The copies of the symbol table entries: the addresses of the copies, in order.\<close>

fun copy_syms :: "nat \<Rightarrow> uint \<Rightarrow> addr \<Rightarrow> 'a heap_scheme \<Rightarrow> (addr list \<times> 'a heap_scheme) option" where
  "copy_syms 0 i hdr s = Some ([], s)"
| "copy_syms (Suc n) i hdr s = do {
     (a, s1) \<leftarrow> kmalloc sizeof_fs_sym_tab s;
     let m = snd (memcpy a (ld32 (mem s1) (mod_sym_tab_addr hdr) + i * sizeof_fs_sym_tab) sizeof_fs_sym_tab (mem s1));
     (as, s2) \<leftarrow> copy_syms n (i + 1) hdr (s1\<lparr>mem := m\<rparr>);
     Some (a # as, s2) }"

partial_function (option) last_drv :: "memory \<Rightarrow> addr \<Rightarrow> addr option" where
  "last_drv m tmp =
     (if ld32 m (reg_drv_next tmp) \<noteq> NULL then last_drv m (ld32 m (reg_drv_next tmp)) else Some tmp)"

definition append_drv :: "addr \<Rightarrow> 'a fsys_scheme \<Rightarrow> 'a fsys_scheme option" where
  "append_drv new s =
     (if fs_drv_list s = NULL then Some (s\<lparr>fs_drv_list := new\<rparr>)
      else do {
        tmp \<leftarrow> last_drv (mem s) (fs_drv_list s);
        Some (s\<lparr>mem := st32 (reg_drv_next tmp) new (mem s)\<rparr>) })"

definition register_module :: "addr \<Rightarrow> 'a fsys_scheme \<Rightarrow> (int \<times> 'a fsys_scheme) option" where
  "register_module load_addr s = do {
     (hdr, s1) \<leftarrow> kmalloc sizeof_fs_drv_mod s;
     let s2 = s1\<lparr>mem := snd (memcpy hdr load_addr sizeof_fs_drv_mod (mem s1))\<rparr>;
     if ld16 (mem s2) (mod_sign hdr) = 0xEF86 then do {
       s3 \<leftarrow> kprint (Lit 10 # lits ''Found FS module with signature : 0x'' @ [pct CHR ''X''])
              [Num (ucast (ld16 (mem s2) (mod_sign hdr)))] s2;
       nm \<leftarrow> cstring (mem s3) (mod_name hdr);
       s4 \<leftarrow> kprint (Lit 10 # lits ''Module name : '' @ [pct CHR ''s'', Lit 10]) [Str nm] s3;
       (new, s5) \<leftarrow> kmalloc sizeof_fs_drv_reg s4;
       (syms, s6) \<leftarrow> copy_syms 3 0 hdr s5;
       let m1 = (mem s6)(reg_type_byte new := mem s6 (mod_type_byte hdr));
       let m2 = st32 (reg_load_mem new) (ld32 m1 (mod_load_mem hdr)) m1;
       (_, m3) \<leftarrow> strcpy (reg_drv_name new) (mod_name hdr) m2;
       let m4 = st32 (reg_sym_root new) (ld32 m3 (sym_val (syms ! 0))) m3;
       let m5 = st32 (reg_sym_chdir new) (ld32 m4 (sym_val (syms ! 1))) m4;
       let m6 = st32 (reg_sym_loadfile new) (ld32 m5 (sym_val (syms ! 2))) m5;
       s7 \<leftarrow> append_drv new (s6\<lparr>mem := st32 (reg_drv_next new) NULL m6\<rparr>);
       Some (FS_MODULE_REGISTERED, s7) }
     else Some (FS_BAD_MODULE_FMT, s2) }"

text \<open>The second search of \<open>unregister_module\<close>; \<open>prev\<close> is \<open>prev_drv\<close>, not initialised before the first turn.\<close>

partial_function (option) unregister_loop :: "addr \<Rightarrow> addr \<Rightarrow> addr \<Rightarrow> 'a fsys_scheme \<Rightarrow> (int \<times> 'a fsys_scheme) option" where
  "unregister_loop drv_name prev tmp s =
     (if tmp \<noteq> NULL then do {
        r \<leftarrow> strcmp (mem s) (reg_drv_name tmp) drv_name;
        if r = 0 then do {
          let s1 = s\<lparr>mem := st32 (reg_drv_next prev) (ld32 (mem s) (reg_drv_next tmp)) (mem s)\<rparr>;
          s2 \<leftarrow> kfree tmp s1;
          Some (FS_MODULE_REMOVED,
            s2\<lparr>drv_root := ld32 (mem s2) (reg_sym_root prev), drv_chdir := ld32 (mem s2) (reg_sym_chdir prev),
               drv_loadfile := ld32 (mem s2) (reg_sym_loadfile prev)\<rparr>) }
        else unregister_loop drv_name tmp (ld32 (mem s) (reg_drv_next tmp)) s }
      else Some (FS_MODULE_NOT_FOUND, s))"

definition unregister_module :: "addr \<Rightarrow> addr \<Rightarrow> 'a fsys_scheme \<Rightarrow> (int \<times> 'a fsys_scheme) option" where
  "unregister_module prev0 drv_name s = do {
     let tmp = fs_drv_list s;
     r \<leftarrow> strcmp (mem s) (reg_drv_name tmp) drv_name;
     if r = 0 then do {
       let s1 = s\<lparr>fs_drv_list := ld32 (mem s) (reg_drv_next (fs_drv_list s))\<rparr>;
       s2 \<leftarrow> kfree tmp s1;
       Some (FS_MODULE_REMOVED, s2) }
     else unregister_loop drv_name prev0 tmp s }"

partial_function (option) list_drivers_loop :: "addr \<Rightarrow> 'a fsys_scheme \<Rightarrow> 'a fsys_scheme option" where
  "list_drivers_loop tmp s =
     (if tmp \<noteq> NULL then do {
        nm \<leftarrow> cstring (mem s) (reg_drv_name tmp);
        s1 \<leftarrow> kprint (lits ''Name : '' @ [pct CHR ''s''] @ lits ''  FS type : 0x'' @ [pct CHR ''X''] @
                lits ''  Mem : 0x'' @ [pct CHR ''X'', Lit 10])
               [Str nm, Num (ucast (mem s (reg_type_byte tmp))), Num (ld32 (mem s) (reg_load_mem tmp))] s;
        list_drivers_loop (ld32 (mem s1) (reg_drv_next tmp)) s1 }
      else Some s)"

definition list_drivers :: "'a fsys_scheme \<Rightarrow> 'a fsys_scheme option" where
  "list_drivers s = map_option (kputs [10]) (list_drivers_loop (fs_drv_list s) s)"

definition fs_chdir ::
    "(addr \<Rightarrow> addr \<Rightarrow> 'a fsys_scheme \<Rightarrow> (addr \<times> 'a fsys_scheme) option) \<Rightarrow> addr \<Rightarrow> 'a fsys_scheme \<Rightarrow>
     (addr \<times> 'a fsys_scheme) option" where
  "fs_chdir call_chdir path s = (if drv_chdir s \<noteq> NULL then call_chdir (drv_chdir s) path s else Some (NULL, s))"

definition fs_loadfile ::
    "(addr \<Rightarrow> addr \<Rightarrow> addr \<Rightarrow> 'a fsys_scheme \<Rightarrow> (uint \<times> 'a fsys_scheme) option) \<Rightarrow> addr \<Rightarrow> addr \<Rightarrow> 'a fsys_scheme \<Rightarrow>
     (uint \<times> 'a fsys_scheme) option" where
  "fs_loadfile call_load filename load_mem s =
     (if drv_loadfile s \<noteq> NULL then call_load (drv_loadfile s) filename load_mem s else Some (0, s))"


section \<open>The searches on lists\<close>

lemma find_part_lseg:
  "lseg 24 m a ps t \<Longrightarrow> NULL \<notin> set (ps @ [t]) \<Longrightarrow> ld32 m (pp_next t) = NULL \<Longrightarrow>
   find_part m a n = Some (case find (\<lambda>p. ld32 m (pp_name p) = n) ps of Some p \<Rightarrow> p | None \<Rightarrow> t)"
proof (induction ps arbitrary: a)
  case Nil
  then show ?case by (subst find_part.simps) simp
next
  case (Cons p ps)
  have "lseg 24 m (ld32 m (pp_next p)) ps t" using Cons.prems(1) by (simp add: pp_next_def)
  moreover from this have "ld32 m (pp_next p) \<noteq> NULL" using Cons.prems(2) by (cases ps) auto
  ultimately show ?case using Cons by (subst find_part.simps) simp
qed

lemma find_drv_lseg:
  "lseg 32 m a rs NULL \<Longrightarrow> NULL \<notin> set rs \<Longrightarrow> find_drv m a t = Some (find (\<lambda>r. m (reg_type_byte r) = t) rs)"
proof (induction rs arbitrary: a)
  case Nil
  then show ?case by (subst find_drv.simps) simp
next
  case (Cons r rs)
  then show ?case by (subst find_drv.simps) (simp add: reg_drv_next_def)
qed

lemma uint_small: "0 \<le> k \<Longrightarrow> k < 4294967296 \<Longrightarrow> uint (word_of_int k :: uint) = k"
  by (simp add: uint_word_of_int take_bit_eq_mod)

lemma find_listed:
  "listed m k es ps \<Longrightarrow> i < length es \<Longrightarrow> 0 \<le> k \<Longrightarrow> k + int (length es) < 4294967296 \<Longrightarrow>
   find (\<lambda>p. ld32 m (pp_name p) = word_of_int (k + int i)) ps = Some (ps ! i) \<and>
   props_at m (ps ! i) (k + int i) (fst (es ! i)) (snd (es ! i))"
proof (induction es arbitrary: k ps i)
  case (Cons e es)
  obtain p qs where p: "ps = p # qs" "props_at m p k (fst e) (snd e)" "listed m (k + 1) es qs"
    using Cons.prems(1) by (auto split: list.splits)
  have n: "ld32 m (pp_name p) = word_of_int k" using p(2) by (simp add: props_at_def)
  show ?case
  proof (cases i)
    case 0
    then show ?thesis using p n by simp
  next
    case (Suc j)
    have "(word_of_int k :: uint) \<noteq> word_of_int (k + int i)"
    proof
      assume "(word_of_int k :: uint) = word_of_int (k + int i)"
      from arg_cong [OF this, of uint] show False
        using uint_small [of k] uint_small [of "k + int i"] Cons.prems(2-4) Suc by (simp only: length_Cons) linarith
    qed
    then show ?thesis using Cons.IH [of "k + 1" qs j] Cons.prems p n Suc by (simp add: algebra_simps)
  qed
qed simp

lemma part_list_nonnull: "part_list s L k ps \<Longrightarrow> NULL \<notin> set (ps @ [part_temp s])"
proof
  assume pl: "part_list s L k ps" and n: "NULL \<in> set (ps @ [part_temp s])"
  then have "region NULL 28 \<subseteq> kernel_area"
    using region_area [of NULL 28 s L k] by (auto simp: part_list_def)
  then show False using regionI [of 0 28 NULL] by (auto simp: kernel_area_def)
qed

section \<open>Fields of a structure\<close>

lemma ld32_field:
  "i + 4 \<le> j \<or> j + 4 \<le> i \<Longrightarrow> i < 65536 \<Longrightarrow> j < 65536 \<Longrightarrow>
   ld32 (st32 (t + of_nat j) v m) (t + of_nat i) = ld32 m (t + of_nat i)"
  using offsets_disjoint [of i 4 j 4 t] offsets_disjoint [of j 4 i 4 t]
  by (intro ld32_st32_disjoint) (auto simp: Int_commute)

lemma byte_field: "i < j \<or> j + 4 \<le> i \<Longrightarrow> i < 65536 \<Longrightarrow> j < 65536 \<Longrightarrow> st32 (t + of_nat j) v m (t + of_nat i) = m (t + of_nat i)"
  using offset_notin [of i j 4 t] by (intro st32_outside) auto

lemma cstr_field:
  "i + Suc (length nm) \<le> j \<or> j + 4 \<le> i \<Longrightarrow> i + length nm < 65535 \<Longrightarrow> j < 65536 \<Longrightarrow>
   cstr (st32 (t + of_nat j) v m) (t + of_nat i) nm = cstr m (t + of_nat i) nm"
  using offsets_disjoint [of i "Suc (length nm)" j 4 t] offsets_disjoint [of j 4 i "Suc (length nm)" t]
  by (intro cstr_cong st32_outside) auto

text \<open>The record that \<open>init_fs_modules\<close> fills in.\<close>

definition reg_mem :: "addr \<Rightarrow> byte \<Rightarrow> addr \<Rightarrow> string \<Rightarrow> addr \<Rightarrow> addr \<Rightarrow> addr \<Rightarrow> memory \<Rightarrow> memory" where
  "reg_mem t ty lm nm r c l m =
     st32 (t + 32) NULL (st32 (t + 28) l (st32 (t + 24) c (st32 (t + 20) r
       (st_bytes (t + 8) (str nm @ [0]) (st32 (t + 4) lm (m(t := ty)))))))"

lemma reg_mem_fields:
  fixes t r c l lm :: addr and ty :: byte and m :: memory and nm :: string
  assumes "length nm < 10" "0 \<notin> set (str nm)"
  defines "m' \<equiv> reg_mem t ty lm nm r c l m"
  shows "m' t = ty" "cstr m' (t + 8) (str nm)" "ld32 m' (t + 20) = r" "ld32 m' (t + 24) = c" "ld32 m' (t + 28) = l"
    "ld32 m' (t + 32) = NULL" "x \<notin> region t 36 \<Longrightarrow> m' x = m x"
proof -
  have b: "st32 (t + 4) lm (m(t := ty)) t = ty" using byte_field [of 0 4 t lm] by simp
  have s: "st_bytes (t + 8) (str nm @ [0]) (st32 (t + 4) lm (m(t := ty))) t = ty"
    using b offset_notin [of 0 8 "length (str nm @ [0])" t] assms(1) by (subst st_bytes_outside) (auto simp: str_def)
  show "m' t = ty"
    using s byte_field [of 0 20 t] byte_field [of 0 24 t] byte_field [of 0 28 t] byte_field [of 0 32 t]
    by (simp add: m'_def reg_mem_def)
  have "cstr (st_bytes (t + 8) (str nm @ [0]) (st32 (t + 4) lm (m(t := ty)))) (t + 8) (str nm)"
    using assms(1,2) by (intro cstr_st_bytes) (simp_all add: str_def)
  then show "cstr m' (t + 8) (str nm)"
    using cstr_field [of 8 "str nm" 20 t] cstr_field [of 8 "str nm" 24 t] cstr_field [of 8 "str nm" 28 t]
      cstr_field [of 8 "str nm" 32 t] assms(1) by (simp add: m'_def reg_mem_def str_def)
  show "ld32 m' (t + 32) = NULL" by (simp add: m'_def reg_mem_def)
  show "ld32 m' (t + 28) = l" using ld32_field [of 28 32 t] by (simp add: m'_def reg_mem_def)
  show "ld32 m' (t + 24) = c" using ld32_field [of 24 32 t] ld32_field [of 24 28 t] by (simp add: m'_def reg_mem_def)
  show "ld32 m' (t + 20) = r" using ld32_field [of 20 32 t] ld32_field [of 20 28 t] ld32_field [of 20 24 t]
    by (simp add: m'_def reg_mem_def)
  assume x: "x \<notin> region t 36"
  have sub: "x \<notin> region (t + of_nat k) n" if "k + n \<le> 36" for k n
    using region_offset [of t k n] region_mono [OF that, of t] x by blast
  have "x \<noteq> t" using sub [of 0 1] by simp
  then show "m' x = m x"
    using sub [of 32 4] sub [of 28 4] sub [of 24 4] sub [of 20 4] sub [of 8 "length (str nm @ [0])"] sub [of 4 4] assms(1)
    by (simp add: m'_def reg_mem_def st32_outside st_bytes_outside str_def)
qed

lemma units_fs_drv_reg: "unat (nunits_of sizeof_fs_drv_reg) = 6"
  by (simp add: unat_nunits)

section \<open>Properties\<close>

text \<open>What \<open>fs_root\<close> does with the element \<open>p\<close> it has chosen.\<close>

definition mounts ::
    "(addr \<Rightarrow> uint \<Rightarrow> int \<Rightarrow> int \<Rightarrow> 'a fsys_scheme \<Rightarrow> (addr \<times> 'a fsys_scheme) option) \<Rightarrow> addr list \<Rightarrow> addr \<Rightarrow> byte \<Rightarrow> uint \<Rightarrow>
     'a fsys_scheme \<Rightarrow> (int \<times> 'a fsys_scheme) option" where
  "mounts call_root rs p t lba s =
     (let s1 = s\<lparr>part_temp := p\<rparr>; m = mem s in
      case find (\<lambda>r. m (reg_type_byte r) = t) rs of
        None \<Rightarrow> Some (FS_DRV_NOT_FOUND, s1)
      | Some r \<Rightarrow> map_option (\<lambda>(f, s3). (FS_DRV_FOUND, s3\<lparr>fs_prop := f\<rparr>))
          (call_root (ld32 m (reg_sym_root r)) lba 0 2
            (s1\<lparr>drv_root := ld32 m (reg_sym_root r), drv_chdir := ld32 m (reg_sym_chdir r),
               drv_loadfile := ld32 m (reg_sym_loadfile r)\<rparr>)))"

lemma fs_root_mounts_found:
  assumes "find_part (mem s) (partition s) n = Some p" "lseg 32 (mem s) (fs_drv_list s) rs NULL" "NULL \<notin> set rs"
  shows "fs_root call_root n s = mounts call_root rs p (mem s (pp_type_byte p)) (ld32 (mem s) (pp_st_lba p)) s"
  using assms(1) find_drv_lseg [OF assms(2,3), of "mem s (pp_type_byte p)"]
  by (simp add: fs_root_def mounts_def Let_def map_conv_bind_option split_def o_def split: option.splits)

text \<open>The list of partitions, whose empty last element is \<open>z\<close>; \<open>part_temp\<close> points to that at first, and to what was mounted later.\<close>

lemma find_part_in_list:
  assumes "part_list (s\<lparr>part_temp := z\<rparr>) L k ps"
  shows "find_part (mem s) (partition s) n = Some (case find (\<lambda>p. ld32 (mem s) (pp_name p) = n) ps of Some p \<Rightarrow> p | None \<Rightarrow> z)"
proof -
  have "lseg 24 (mem s) (partition s) ps z" "ld32 (mem s) (pp_next z) = NULL" using assms by (simp_all add: part_list_def)
  then show ?thesis using find_part_lseg [of "mem s" "partition s" ps z] part_list_nonnull [OF assms] by simp
qed

lemma find_listed_number:
  assumes "listed m 1 es ps" "length es < 2147483648" "i < length es"
  shows "find (\<lambda>p. ld32 m (pp_name p) = of_nat (Suc i)) ps = Some (ps ! i)" "props_at m (ps ! i) (1 + int i) (fst (es ! i)) (snd (es ! i))"
proof -
  have "(word_of_int (1 + int i) :: uint) = of_nat (Suc i)" by simp
  then show "find (\<lambda>p. ld32 m (pp_name p) = of_nat (Suc i)) ps = Some (ps ! i)"
    "props_at m (ps ! i) (1 + int i) (fst (es ! i)) (snd (es ! i))"
    using find_listed [OF assms(1,3)] assms(2) by simp_all
qed

lemma find_unlisted:
  assumes "listed m 1 es ps" "length es < 2147483648" "\<forall>i < length es. n \<noteq> of_nat (Suc i)"
  shows "find (\<lambda>p. ld32 m (pp_name p) = n) ps = None"
proof -
  have "ld32 m (pp_name p) \<noteq> n" if "p \<in> set ps" for p
  proof -
    obtain i where "i < length ps" and p: "p = ps ! i" using \<open>p \<in> set ps\<close> by (auto simp: in_set_conv_nth)
    then have i: "i < length es" using listed_length [OF assms(1)] by simp
    have "ld32 m (pp_name p) = of_nat (Suc i)" using find_listed_number(2) [OF assms(1,2) i] by (simp add: props_at_def p)
    then show ?thesis using assms(3) i by metis
  qed
  then show ?thesis by (simp add: find_None_iff)
qed

lemma fs_root_listed:
  assumes "part_list (s\<lparr>part_temp := z\<rparr>) L k ps" "listed (mem s) 1 es ps" "length es < 2147483648"
    and "lseg 32 (mem s) (fs_drv_list s) rs NULL" "NULL \<notin> set rs" and i: "i < length es"
  shows "fs_root call_root (of_nat (Suc i)) s =
      mounts call_root rs (ps ! i) (mem s (pp_type_byte (ps ! i))) (snd (es ! i) + start_lba (fst (es ! i))) s"
    "typed_part (pe_type (fst (es ! i))) \<Longrightarrow> mem s (pp_type_byte (ps ! i)) = pe_type (fst (es ! i))"
proof -
  note p = find_listed_number [OF assms(2,3) i]
  have "find_part (mem s) (partition s) (of_nat (Suc i)) = Some (ps ! i)" unfolding find_part_in_list [OF assms(1)] p(1) by simp
  from fs_root_mounts_found [OF this assms(4,5)] p(2)
  show "fs_root call_root (of_nat (Suc i)) s =
      mounts call_root rs (ps ! i) (mem s (pp_type_byte (ps ! i))) (snd (es ! i) + start_lba (fst (es ! i))) s"
    by (simp add: props_at_def)
  show "typed_part (pe_type (fst (es ! i))) \<Longrightarrow> mem s (pp_type_byte (ps ! i)) = pe_type (fst (es ! i))"
    using p(2) by (simp add: props_at_def)
qed

text \<open>
  C10: \<open>fs_root\<close> mounts the partition with the given number of the list that \<open>read_disk_partitions\<close> has built, whatever was
  mounted before: it takes the first registered driver for the type byte of the element, makes its functions the current ones and calls
  its root function on the absolute address of the partition; without such a driver it reports \<open>FS_DRV_NOT_FOUND\<close>. The type byte is
  the type in the partition table for Linux and FAT32 partitions; for the others nothing has stored it. With any number that is not in the
  list, 0 or beyond its end, the same happens with the empty last element \<open>z\<close>, whose type and address nothing has stored.
\<close>

theorem fs_root_mounts:
  assumes "part_list (s\<lparr>part_temp := z\<rparr>) L k ps" "listed (mem s) 1 es ps" "length es < 2147483648"
    and "lseg 32 (mem s) (fs_drv_list s) rs NULL" "NULL \<notin> set rs"
  shows "(\<forall>i < length es. fs_root call_root (of_nat (Suc i)) s =
       mounts call_root rs (ps ! i) (mem s (pp_type_byte (ps ! i))) (snd (es ! i) + start_lba (fst (es ! i))) s) \<and>
    (\<forall>i < length es. typed_part (pe_type (fst (es ! i))) \<longrightarrow> mem s (pp_type_byte (ps ! i)) = pe_type (fst (es ! i))) \<and>
    (\<forall>n. (\<forall>i < length es. n \<noteq> of_nat (Suc i)) \<longrightarrow>
       fs_root call_root n s = mounts call_root rs z (mem s (pp_type_byte z)) (ld32 (mem s) (pp_st_lba z)) s)"
proof (intro conjI allI impI)
  show "fs_root call_root (of_nat (Suc i)) s =
      mounts call_root rs (ps ! i) (mem s (pp_type_byte (ps ! i))) (snd (es ! i) + start_lba (fst (es ! i))) s"
    if "i < length es" for i by (rule fs_root_listed(1) [OF assms that])
  show "mem s (pp_type_byte (ps ! i)) = pe_type (fst (es ! i))" if "i < length es" "typed_part (pe_type (fst (es ! i)))" for i
    by (rule fs_root_listed(2) [OF assms that])
  fix n :: uint assume "\<forall>i < length es. n \<noteq> of_nat (Suc i)"
  from find_unlisted [OF assms(2,3) this] have "find_part (mem s) (partition s) n = Some z" unfolding find_part_in_list [OF assms(1)] by simp
  from fs_root_mounts_found [OF this assms(4,5)]
  show "fs_root call_root n s = mounts call_root rs z (mem s (pp_type_byte z)) (ld32 (mem s) (pp_st_lba z)) s" .
qed

text \<open>The names of the registered drivers.\<close>

definition drv_names :: "memory \<Rightarrow> addr list \<Rightarrow> byte list list \<Rightarrow> bool" where
  "drv_names m rs nms \<longleftrightarrow> list_all2 (\<lambda>r nm. cstr m (reg_drv_name r) nm) rs nms"

lemma unregister_step:
  "tmp \<noteq> NULL \<Longrightarrow> cstr (mem s) (reg_drv_name tmp) nm \<Longrightarrow> cstr (mem s) drv_name x \<Longrightarrow> nm \<noteq> x \<Longrightarrow>
   unregister_loop drv_name prev tmp s = unregister_loop drv_name tmp (ld32 (mem s) (reg_drv_next tmp)) s"
  using strcmp_returns [of "mem s" "reg_drv_name tmp" nm drv_name x] by (subst unregister_loop.simps) auto

lemma unregister_skip:
  "lseg 32 (mem s) a (rs @ r # rest) NULL \<Longrightarrow> NULL \<notin> set (rs @ [r]) \<Longrightarrow> drv_names (mem s) rs nms \<Longrightarrow>
   cstr (mem s) drv_name x \<Longrightarrow> x \<notin> set nms \<Longrightarrow>
   unregister_loop drv_name prev a s = unregister_loop drv_name (last (prev # rs)) r s"
proof (induction rs arbitrary: a prev nms)
  case (Cons q rs)
  obtain nm ns where n: "nms = nm # ns" "cstr (mem s) (reg_drv_name q) nm" "drv_names (mem s) rs ns"
    using Cons.prems(3) by (auto simp: drv_names_def list_all2_Cons1)
  have a: "a = q" "lseg 32 (mem s) (ld32 (mem s) (reg_drv_next q)) (rs @ r # rest) NULL"
    using Cons.prems(1) by (simp_all add: reg_drv_next_def)
  have "unregister_loop drv_name prev a s = unregister_loop drv_name q (ld32 (mem s) (reg_drv_next q)) s"
    unfolding a(1) using Cons.prems(2,4,5) n by (intro unregister_step) auto
  then show ?case using Cons.IH [OF a(2) _ n(3) Cons.prems(4), of q] Cons.prems(2,5) n(1) by simp
qed simp

lemma meets_last_payload:
  assumes own: "kowns s L" "a \<in> L" "b \<in> L" and m: "\<And>x. x \<notin> payload (mem s) b \<Longrightarrow> m x = mem s x"
    and t: "freep t = freep s" "mem t = m"
  shows "meets_last (a - 8) t = meets_last (a - 8) s"
proof -
  let ?ls = "(\<lambda>a. a - 8) ` L"
  obtain bs where ok: "heap_ok s bs ?ls" using own(1) by (rule kownsE)
  have h: "m x = mem s x" if "x \<in> region r 8" "r \<in> set bs \<union> ?ls" for x r
    using m [of x] payload_no_header [OF ok, of "b - 8" r x] that own(3) by auto
  have "hdr_ptr m (freep s) = hdr_ptr (mem s) (freep s)" "hdr_size m (a - 8) = hdr_size (mem s) (a - 8)"
    using h heap_okD(2) [OF ok] own(2) by (auto intro!: hdr_cong)
  then show ?thesis by (simp add: meets_last_def blk_end_def t)
qed

text \<open>The driver structures are live blocks.\<close>

definition drv_list :: "'a fsys_scheme \<Rightarrow> addr set \<Rightarrow> addr list \<Rightarrow> byte list list \<Rightarrow> bool" where
  "drv_list s L rs nms \<longleftrightarrow> kowns s L \<and> set rs \<subseteq> L \<and> distinct rs \<and> NULL \<notin> set rs \<and>
     (\<forall>r \<in> set rs. region r 36 \<subseteq> payload (mem s) r) \<and>
     lseg 32 (mem s) (fs_drv_list s) rs NULL \<and> drv_names (mem s) rs nms"

lemma drv_keeps:
  assumes "\<And>x. x \<in> region r 36 \<Longrightarrow> m' x = m x"
  shows "ld32 m' (r + 32) = ld32 m (r + 32)" "length nm < 10 \<Longrightarrow> cstr m' (reg_drv_name r) nm = cstr m (reg_drv_name r) nm"
    "m' (reg_type_byte r) = m (reg_type_byte r)" "ld32 m' (r + 20) = ld32 m (r + 20)" "ld32 m' (r + 24) = ld32 m (r + 24)"
    "ld32 m' (r + 28) = ld32 m (r + 28)"
proof -
  have sub: "region (r + of_nat k) n \<subseteq> region r 36" if "k + n \<le> 36" for k n
    using region_offset [of r k n] region_mono [OF that, of r] by blast
  have w: "ld32 m' (r + of_nat k) = ld32 m (r + of_nat k)" if "k + 4 \<le> 36" for k
    using assms sub [OF that] by (intro ld32_cong) blast
  show "ld32 m' (r + 32) = ld32 m (r + 32)" "ld32 m' (r + 20) = ld32 m (r + 20)" "ld32 m' (r + 24) = ld32 m (r + 24)"
    "ld32 m' (r + 28) = ld32 m (r + 28)" using w [of 32] w [of 20] w [of 24] w [of 28] by simp_all
  show "m' (reg_type_byte r) = m (reg_type_byte r)" using assms regionI [of 0 36 r] by (simp add: reg_type_byte_def)
  assume "length nm < 10"
  then have "region (r + 8) (Suc (length nm)) \<subseteq> region r 36" using sub [of 8 "Suc (length nm)"] by simp
  then show "cstr m' (reg_drv_name r) nm = cstr m (reg_drv_name r) nm"
    using assms unfolding reg_drv_name_def by (intro cstr_cong) blast
qed

lemma drv_lseg_keeps:
  assumes "\<And>q x. q \<in> set rs \<Longrightarrow> x \<in> region q 36 \<Longrightarrow> m' x = m x"
  shows "lseg 32 m' a rs b = lseg 32 m a rs b"
proof (rule lseg_cong)
  fix q assume "q \<in> set rs"
  then show "ld32 m' (q + 32) = ld32 m (q + 32)" using assms by (intro drv_keeps(1)) blast
qed

lemma drv_names_keeps:
  assumes "drv_names m rs nms" "list_all (\<lambda>nm. length nm < 10) nms"
    and "\<And>q nm. q \<in> set rs \<Longrightarrow> length nm < 10 \<Longrightarrow> cstr m' (reg_drv_name q) nm = cstr m (reg_drv_name q) nm"
  shows "drv_names m' rs nms"
  using assms(1)[unfolded drv_names_def] assms(2,3) unfolding drv_names_def
  by (induction rs nms rule: list_all2_induct) auto

lemma kfree_upd: "kfree a s = Some s' \<Longrightarrow> \<exists>m f. s' = s\<lparr>mem := m, freep := f\<rparr>"
  by (cases s) (auto simp: kfree_def Let_def split: bind_splits option.splits if_splits prod.splits)

lemma kowns_cong: "freep t = freep s \<Longrightarrow> mem t = mem s \<Longrightarrow> kowns t L = kowns s L"
  by (simp add: kowns_def heap_ok_def)

lemma free_block:
  assumes "kowns t L" "r \<in> L" "\<not> meets_last (r - 8) t"
  shows "\<exists>m f. kfree r t = Some (t\<lparr>mem := m, freep := f\<rparr>) \<and> kowns (t\<lparr>mem := m, freep := f\<rparr>) (L - {r}) \<and>
    (\<forall>b \<in> L - {r}. payload m b = payload (mem t) b \<and> (\<forall>x \<in> payload (mem t) b. m x = mem t x))"
proof -
  obtain t' where t': "kfree r t = Some t'" "kowns t' (L - {r})"
    "\<forall>b \<in> L - {r}. payload (mem t') b = payload (mem t) b \<and> (\<forall>x \<in> payload (mem t) b. mem t' x = mem t x)"
    using kfree_owns [OF assms] by blast
  moreover obtain m f where "t' = t\<lparr>mem := m, freep := f\<rparr>" using kfree_upd [OF t'(1)] by blast
  ultimately show ?thesis by auto
qed

lemma drv_list_keeps:
  assumes "kowns t L" "set rs \<subseteq> L" "distinct rs" "NULL \<notin> set rs"
    and keep: "\<And>q. q \<in> set rs \<Longrightarrow> region q 36 \<subseteq> payload m q \<and> payload (mem t) q = payload m q \<and> (\<forall>x \<in> payload m q. mem t x = m x)"
    and l: "lseg 32 m (fs_drv_list t) rs NULL" "drv_names m rs nms" "list_all (\<lambda>nm. length nm < 10) nms"
  shows "drv_list t L rs nms"
proof -
  have k: "mem t x = m x" if "q \<in> set rs" "x \<in> region q 36" for q x using keep [OF that(1)] that(2) by blast
  have k1: "ld32 (mem t) (q + 32) = ld32 m (q + 32)"
    "\<And>nm. length nm < 10 \<Longrightarrow> cstr (mem t) (reg_drv_name q) nm = cstr m (reg_drv_name q) nm" if "q \<in> set rs" for q
    using drv_keeps(1,2) [of q "mem t" m] k [OF that] by blast+
  have "lseg 32 (mem t) (fs_drv_list t) rs NULL" using l(1) drv_lseg_keeps [of rs "mem t" m, OF k] by simp
  moreover have "drv_names (mem t) rs nms"
    using l(2,3) k1(2) by (rule drv_names_keeps)
  ultimately show ?thesis using assms(1-4) keep by (simp add: drv_list_def)
qed

lemma drv_list_survives:
  assumes dl: "drv_list s L rs nms" "list_all (\<lambda>nm. length nm < 10) nms"
    and s': "kowns s' L'" "L \<subseteq> L'" "keeps_blocks L s s'" "fs_drv_list s' = fs_drv_list s"
  shows "drv_list s' L' rs nms" "q \<in> set rs \<Longrightarrow> x \<in> region q 36 \<Longrightarrow> mem s' x = mem s x"
proof -
  have d: "set rs \<subseteq> L" "distinct rs" "NULL \<notin> set rs" "\<forall>r \<in> set rs. region r 36 \<subseteq> payload (mem s) r"
    "lseg 32 (mem s) (fs_drv_list s) rs NULL" "drv_names (mem s) rs nms" using dl(1) by (simp_all add: drv_list_def)
  show "drv_list s' L' rs nms"
  proof (rule drv_list_keeps [OF s'(1) _ d(2,3), where m = "mem s"])
    show "set rs \<subseteq> L'" using d(1) s'(2) by blast
    show "lseg 32 (mem s) (fs_drv_list s') rs NULL" using d(5) s'(4) by simp
    show "region q 36 \<subseteq> payload (mem s) q \<and> payload (mem s') q = payload (mem s) q \<and> (\<forall>x \<in> payload (mem s) q. mem s' x = mem s x)"
      if "q \<in> set rs" for q using that d(1,4) s'(3) by (auto simp: keeps_blocks_def)
  qed (use d(6) dl(2) in simp_all)
  assume "q \<in> set rs" "x \<in> region q 36"
  then show "mem s' x = mem s x" using d(1,4) s'(3) unfolding keeps_blocks_def by blast
qed

lemma unlink:
  assumes "region p 36 \<inter> region q 36 = {}"
  shows "x \<in> region q 36 \<Longrightarrow> st32 (p + 32) v m x = m x"
proof -
  assume "x \<in> region q 36"
  moreover have "region (p + 32) 4 \<subseteq> region p 36" using region_offset [of p 32 4] by simp
  ultimately show ?thesis using assms by (intro st32_outside) blast
qed

lemma unlink_own:
  assumes "k + n \<le> 32"
  shows "x \<in> region (p + of_nat k) n \<Longrightarrow> st32 (p + 32) v m x = m x"
  using offsets_disjoint [of k n 32 4 p] assms by (intro st32_outside) auto

text \<open>Taking the element \<open>r\<close> behind \<open>p\<close> out of the list and giving its block back.\<close>

lemma unlink_block:
  fixes s :: "'a fsys_scheme"
  assumes own: "kowns s L" "r \<in> L" "p \<in> L" "p \<noteq> r" and blk: "region p 36 \<subseteq> payload (mem s) p" and safe: "\<not> meets_last (r - 8) s"
  obtains m f where "kfree r (s\<lparr>mem := st32 (p + 32) v (mem s)\<rparr>) = Some (s\<lparr>mem := m, freep := f\<rparr>)"
    "kowns (s\<lparr>mem := m, freep := f\<rparr>) (L - {r})"
    "\<And>b. b \<in> L - {r} \<Longrightarrow> payload m b = payload (mem s) b"
    "\<And>b y. b \<in> L - {r} \<Longrightarrow> b \<noteq> p \<Longrightarrow> y \<in> payload (mem s) b \<Longrightarrow> m y = mem s y"
    "\<And>y. y \<in> region p 36 \<Longrightarrow> m y = st32 (p + 32) v (mem s) y"
proof -
  let ?m = "st32 (p + 32) v (mem s)"
  let ?t = "s\<lparr>mem := ?m\<rparr>"
  have "region (p + 32) 4 \<subseteq> payload (mem s) p" using blk region_offset [of p 32 4] by auto
  then have out: "?m y = mem s y" if "y \<notin> payload (mem s) p" for y using that by (intro st32_outside) blast
  have t: "kowns ?t L" "\<And>b. b \<in> L \<Longrightarrow> payload ?m b = payload (mem s) b" "\<not> meets_last (r - 8) ?t"
    using kowns_put [OF own(1,3) out] meets_last_payload [OF own(1-3) out, of ?t] safe by auto
  obtain m f where f: "kfree r ?t = Some (?t\<lparr>mem := m, freep := f\<rparr>)" "kowns (?t\<lparr>mem := m, freep := f\<rparr>) (L - {r})"
    "\<forall>b \<in> L - {r}. payload m b = payload ?m b \<and> (\<forall>x \<in> payload ?m b. m x = ?m x)"
    using free_block [OF t(1) own(2) t(3)] by auto
  show thesis
  proof (rule that [of f m])
    show "kfree r ?t = Some (s\<lparr>mem := m, freep := f\<rparr>)" "kowns (s\<lparr>mem := m, freep := f\<rparr>) (L - {r})" using f(1,2) by simp_all
    show "payload m b = payload (mem s) b" if "b \<in> L - {r}" for b using f(3) t(2) that by auto
    show "m y = mem s y" if b: "b \<in> L - {r}" "b \<noteq> p" "y \<in> payload (mem s) b" for b y
    proof -
      have "y \<notin> payload (mem s) p" using kowns_disjoint [OF own(1,3), of b] b by blast
      moreover have "m y = ?m y" using f(3) t(2) b by auto
      ultimately show ?thesis using out by simp
    qed
    show "m y = ?m y" if "y \<in> region p 36" for y using f(3) own(3,4) t(2) [of p] blk that by auto
  qed
qed

lemma unlinked_list:
  fixes s t :: "'a fsys_scheme"
  assumes dl: "drv_list s L (rs0 @ p # r # rs2) (ns @ np # x # nms2)" "length ns = length rs0"
    and len: "list_all (\<lambda>nm. length nm < 10) (ns @ np # nms2)"
    and t: "kowns t (L - {r})" "fs_drv_list t = fs_drv_list s"
    and pay: "\<And>b. b \<in> L - {r} \<Longrightarrow> payload (mem t) b = payload (mem s) b"
    and rest: "\<And>b y. b \<in> L - {r} \<Longrightarrow> b \<noteq> p \<Longrightarrow> y \<in> payload (mem s) b \<Longrightarrow> mem t y = mem s y"
    and kp: "\<And>y. y \<in> region p 36 \<Longrightarrow> mem t y = st32 (p + 32) (ld32 (mem s) (r + 32)) (mem s) y"
  shows "drv_list t (L - {r}) (rs0 @ p # rs2) (ns @ np # nms2)"
proof -
  let ?m = "st32 (p + 32) (ld32 (mem s) (r + 32)) (mem s)"
  have d: "set (rs0 @ p # r # rs2) \<subseteq> L" "distinct (rs0 @ p # r # rs2)" "NULL \<notin> set (rs0 @ p # r # rs2)"
    and blk: "\<And>q. q \<in> set (rs0 @ p # r # rs2) \<Longrightarrow> region q 36 \<subseteq> payload (mem s) q"
    and l: "lseg 32 (mem s) (fs_drv_list s) rs0 p" "lseg 32 (mem s) (ld32 (mem s) (r + 32)) rs2 NULL"
    and nm: "drv_names (mem s) rs0 ns" "cstr (mem s) (reg_drv_name p) np" "drv_names (mem s) rs2 nms2"
    using dl by (auto simp: drv_list_def lseg_append drv_names_def list_all2_append)
  have kq: "mem t y = mem s y" if "q \<in> set rs0 \<union> set rs2" "y \<in> region q 36" for q y
    using that rest [of q y] blk [of q] d by auto
  have "lseg 32 (mem t) a qs b = lseg 32 (mem s) a qs b" if "set qs \<subseteq> set rs0 \<union> set rs2" for a qs b
    using kq that by (intro drv_lseg_keeps) blast
  from this [of rs0] this [of rs2] have "lseg 32 (mem t) (fs_drv_list t) rs0 p" "lseg 32 (mem t) (ld32 (mem s) (r + 32)) rs2 NULL"
    using l t(2) by simp_all
  moreover have "ld32 (mem t) (p + 32) = ld32 (mem s) (r + 32)" using drv_keeps(1) [of p "mem t" ?m] kp by simp
  ultimately have lm: "lseg 32 (mem t) (fs_drv_list t) (rs0 @ p # rs2) NULL" by (auto simp: lseg_append)
  have np: "length np < 10" using len by simp
  then have "?m y = mem s y" if "y \<in> region (p + 8) (Suc (length np))" for y
    using that unlink_own [of 8 "Suc (length np)" y p] by simp
  then have "cstr ?m (reg_drv_name p) np = cstr (mem s) (reg_drv_name p) np" unfolding reg_drv_name_def by (rule cstr_cong)
  then have pn: "cstr (mem t) (reg_drv_name p) np" using nm(2) drv_keeps(2) [of p "mem t" ?m] kp np by simp
  have nq: "cstr (mem t) (reg_drv_name q) nm = cstr (mem s) (reg_drv_name q) nm"
    if "q \<in> set rs0 \<union> set rs2" "length nm < 10" for q nm using drv_keeps(2) [of q "mem t" "mem s" nm] kq that by blast
  have "drv_names (mem t) rs0 ns" using nm(1) by (rule drv_names_keeps) (use len nq in auto)
  moreover have "drv_names (mem t) rs2 nms2" using nm(3) by (rule drv_names_keeps) (use len nq in auto)
  ultimately have nms: "drv_names (mem t) (rs0 @ p # rs2) (ns @ np # nms2)"
    using pn by (simp add: drv_names_def list_all2_appendI)
  show ?thesis
    unfolding drv_list_def
  proof (intro conjI ballI)
    show "set (rs0 @ p # rs2) \<subseteq> L - {r}" "distinct (rs0 @ p # rs2)" "NULL \<notin> set (rs0 @ p # rs2)" using d by auto
    fix q assume "q \<in> set (rs0 @ p # rs2)"
    then have "q \<in> L - {r}" "q \<in> set (rs0 @ p # r # rs2)" using d by auto
    then show "region q 36 \<subseteq> payload (mem t) q" using blk [of q] pay [of q] by simp
  qed (use t(1) lm nms in simp_all)
qed

text \<open>What \<open>unregister_module\<close> does when the driver is not the head of the list.\<close>

lemma unregister_inner:
  fixes s :: "'a fsys_scheme"
  assumes dl: "drv_list s L (rs0 @ p # r # rs2) (nms1 @ x # nms2)" "length nms1 = Suc (length rs0)" "x \<notin> set nms1"
    and x: "cstr (mem s) drv_name x"
    and f: "kfree r (s\<lparr>mem := st32 (p + 32) (ld32 (mem s) (r + 32)) (mem s)\<rparr>) = Some (s\<lparr>mem := m, freep := f\<rparr>)"
  shows "unregister_module prev0 drv_name s = Some (FS_MODULE_REMOVED, s\<lparr>mem := m, freep := f,
      drv_root := ld32 m (p + 20), drv_chdir := ld32 m (p + 24), drv_loadfile := ld32 m (p + 28)\<rparr>)"
proof -
  have d: "NULL \<notin> set (rs0 @ p # r # rs2)" "lseg 32 (mem s) (fs_drv_list s) ((rs0 @ [p]) @ r # rs2) NULL"
    "drv_names (mem s) ((rs0 @ [p]) @ r # rs2) (nms1 @ x # nms2)" using dl(1) by (simp_all add: drv_list_def)
  then have names: "drv_names (mem s) (rs0 @ [p]) nms1" "cstr (mem s) (reg_drv_name r) x"
    unfolding drv_names_def list_all2_append [of "rs0 @ [p]" nms1, simplified dl(2) length_append_singleton, OF refl] by auto
  obtain h n1 where h: "fs_drv_list s = h" "cstr (mem s) (reg_drv_name h) n1" "n1 \<noteq> x"
    using d(2) names(1) dl(3) by (cases rs0; cases nms1) (auto simp: drv_names_def)
  obtain c where "strcmp (mem s) (reg_drv_name h) drv_name = Some c" "c \<noteq> 0" using strcmp_returns [OF h(2) x] h(3) by blast
  then have "unregister_module prev0 drv_name s = unregister_loop drv_name prev0 (fs_drv_list s) s"
    by (simp add: unregister_module_def h(1))
  also have "\<dots> = unregister_loop drv_name p r s"
    using unregister_skip [OF d(2) _ names(1) x dl(3), of prev0] d(1) by simp
  also have "\<dots> = Some (FS_MODULE_REMOVED, s\<lparr>mem := m, freep := f,
      drv_root := ld32 m (p + 20), drv_chdir := ld32 m (p + 24), drv_loadfile := ld32 m (p + 28)\<rparr>)"
  proof -
    have "strcmp (mem s) (reg_drv_name r) drv_name = Some 0" using strcmp_returns [OF names(2) x] by auto
    moreover have "r \<noteq> NULL" using d(1) by auto
    ultimately show ?thesis using f by (subst unregister_loop.simps) (simp add: reg_defs)
  qed
  finally show ?thesis .
qed

lemma unregister_head:
  fixes s :: "'a fsys_scheme"
  assumes dl: "drv_list s L (r # rs2) (x # nms2)" and x: "cstr (mem s) drv_name x" "list_all (\<lambda>nm. length nm < 10) nms2"
    and safe: "\<not> meets_last (r - 8) s"
  shows "\<exists>s'. unregister_module prev0 drv_name s = Some (FS_MODULE_REMOVED, s') \<and> drv_list s' (L - {r}) rs2 nms2 \<and>
    (\<forall>b \<in> L - {r}. payload (mem s') b = payload (mem s) b \<and> (\<forall>y \<in> payload (mem s) b. mem s' y = mem s y)) \<and>
    (drv_root s', drv_chdir s', drv_loadfile s') = (drv_root s, drv_chdir s, drv_loadfile s)"
proof -
  have n: "lseg 32 (mem s) (fs_drv_list s) (r # rs2) NULL" "cstr (mem s) (reg_drv_name r) x" "drv_names (mem s) rs2 nms2"
    using dl by (auto simp: drv_list_def drv_names_def)
  have hd: "fs_drv_list s = r" using n(1) by simp
  have own: "kowns s L" "r \<in> L" using dl by (auto simp: drv_list_def)
  let ?t = "s\<lparr>fs_drv_list := ld32 (mem s) (r + 32)\<rparr>"
  have t: "kowns ?t L" "\<not> meets_last (r - 8) ?t" using kowns_cong [of ?t s] own safe by (simp_all add: meets_last_def)
  obtain m f where f: "kfree r ?t = Some (?t\<lparr>mem := m, freep := f\<rparr>)" "kowns (?t\<lparr>mem := m, freep := f\<rparr>) (L - {r})"
    "\<forall>b \<in> L - {r}. payload m b = payload (mem s) b \<and> (\<forall>x \<in> payload (mem s) b. m x = mem s x)"
    using free_block [OF t(1) own(2) t(2)] by auto
  have "strcmp (mem s) (reg_drv_name r) drv_name = Some 0" using strcmp_returns [OF n(2) x(1)] by auto
  then have "unregister_module prev0 drv_name s = Some (FS_MODULE_REMOVED, ?t\<lparr>mem := m, freep := f\<rparr>)"
    using f(1) by (simp add: unregister_module_def hd reg_drv_next_def)
  moreover have "drv_list (?t\<lparr>mem := m, freep := f\<rparr>) (L - {r}) rs2 nms2"
    using f(2,3) dl n(1,3) x(2) by (intro drv_list_keeps [where m = "mem s"]) (auto simp: drv_list_def)
  ultimately show ?thesis using f(3) by simp
qed

text \<open>
  C11: \<open>unregister_module\<close> removes the first driver with the given name from the list and gives its block back; the
  other drivers keep their order and names, and no other live block changes. If it was the head of the
  list, the function pointers of the mounted partition stay as they are, even when they lead into the removed
  module; otherwise the partition in use is silently given to the driver in front of it. The block of the driver must not
  end where the only free block of the heap begins (\<open>meets_last\<close>), which \<open>kfree\<close> does not handle.
\<close>

theorem unregister_module_removes:
  fixes s :: "'a fsys_scheme"
  assumes dl: "drv_list s L (rs1 @ r # rs2) (nms1 @ x # nms2)" "length rs1 = length nms1" "x \<notin> set nms1"
    and x: "cstr (mem s) drv_name x" "list_all (\<lambda>nm. length nm < 10) (nms1 @ x # nms2)" and safe: "\<not> meets_last (r - 8) s"
  shows "\<exists>s'. unregister_module prev0 drv_name s = Some (FS_MODULE_REMOVED, s') \<and>
    drv_list s' (L - {r}) (rs1 @ rs2) (nms1 @ nms2) \<and>
    (\<forall>b \<in> L - {r}. b \<in> set rs1 \<or> payload (mem s') b = payload (mem s) b \<and> (\<forall>y \<in> payload (mem s) b. mem s' y = mem s y)) \<and>
    (drv_root s', drv_chdir s', drv_loadfile s') =
      (if rs1 = [] then (drv_root s, drv_chdir s, drv_loadfile s)
       else (ld32 (mem s) (last rs1 + 20), ld32 (mem s) (last rs1 + 24), ld32 (mem s) (last rs1 + 28)))"
proof (cases rs1 rule: rev_cases)
  case Nil
  then show ?thesis using unregister_head [of s L r rs2 x nms2 drv_name prev0] dl x safe by simp
next
  case (snoc rs0 p)
  obtain ns np where n1: "nms1 = ns @ [np]" "length ns = length rs0" using dl(2) snoc by (cases nms1 rule: rev_cases) auto
  have dl': "drv_list s L (rs0 @ p # r # rs2) (ns @ np # x # nms2)" using dl(1) snoc n1(1) by simp
  have own: "kowns s L" "r \<in> L" "p \<in> L" "p \<noteq> r" "region p 36 \<subseteq> payload (mem s) p" using dl' by (auto simp: drv_list_def)
  let ?m = "st32 (p + 32) (ld32 (mem s) (r + 32)) (mem s)"
  obtain m f where f: "kfree r (s\<lparr>mem := ?m\<rparr>) = Some (s\<lparr>mem := m, freep := f\<rparr>)" "kowns (s\<lparr>mem := m, freep := f\<rparr>) (L - {r})"
    "\<And>b. b \<in> L - {r} \<Longrightarrow> payload m b = payload (mem s) b"
    "\<And>b y. b \<in> L - {r} \<Longrightarrow> b \<noteq> p \<Longrightarrow> y \<in> payload (mem s) b \<Longrightarrow> m y = mem s y"
    "\<And>y. y \<in> region p 36 \<Longrightarrow> m y = ?m y"
    by (rule unlink_block [OF own safe, of "ld32 (mem s) (r + 32)"]) (assumption | rule that)+
  let ?T = "s\<lparr>mem := m, freep := f, drv_root := ld32 m (p + 20), drv_chdir := ld32 m (p + 24), drv_loadfile := ld32 m (p + 28)\<rparr>"
  have "kowns ?T (L - {r})" using kowns_cong [of ?T "s\<lparr>mem := m, freep := f\<rparr>"] f(2) by simp
  then have "drv_list ?T (L - {r}) (rs0 @ p # rs2) (ns @ np # nms2)"
    using unlinked_list [OF dl' n1(2), of ?T] f(3-5) x(2) n1(1) by simp
  moreover have "unregister_module prev0 drv_name s = Some (FS_MODULE_REMOVED, ?T)"
    using unregister_inner [OF _ _ dl(3) x(1) f(1)] dl(1,2) snoc by simp
  moreover have "ld32 m (p + of_nat k) = ld32 (mem s) (p + of_nat k)" if "k + 4 \<le> 32" for k
  proof -
    have "region (p + of_nat k) 4 \<subseteq> region p 36" using region_offset [of p k 4] region_mono [of "k + 4" 36 p] that by auto
    then show ?thesis using unlink_own [OF that, of _ p] f(5) by (intro ld32_cong) auto
  qed
  from this [of 20] this [of 24] this [of 28] have "(drv_root ?T, drv_chdir ?T, drv_loadfile ?T) =
      (ld32 (mem s) (p + 20), ld32 (mem s) (p + 24), ld32 (mem s) (p + 28))" by simp
  moreover have "\<forall>b \<in> L - {r}. b \<in> set rs1 \<or> payload m b = payload (mem s) b \<and> (\<forall>y \<in> payload (mem s) b. m y = mem s y)"
    using f(3,4) snoc by auto
  ultimately show ?thesis unfolding snoc n1(1) by (intro exI [of _ ?T]) simp
qed

lemma init_fs_modules_ok:
  fixes s :: "'a fsys_scheme"
  assumes "kroom s L (6 + k)" "0 < k"
  shows "\<exists>tmp s'. init_fs_modules r c l s = Some (0, s') \<and> fs_drv_list s' = tmp \<and> tmp \<notin> L \<and>
    drv_list s' (insert tmp L) [tmp] [str ''ext2''] \<and> kroom s' (insert tmp L) k \<and>
    mem s' (reg_type_byte tmp) = PART_LINUX_NATIVE \<and> ld32 (mem s') (reg_sym_root tmp) = r \<and>
    ld32 (mem s') (reg_sym_chdir tmp) = c \<and> ld32 (mem s') (reg_sym_loadfile tmp) = l \<and>
    (\<forall>b \<in> L. payload (mem s') b = payload (mem s) b \<and> (\<forall>x \<in> payload (mem s) b. mem s' x = mem s x))"
proof -
  have rm: "kroom s L (unat (nunits_of sizeof_fs_drv_reg) + k)" using assms(1) by (simp add: units_fs_drv_reg)
  have lt: "unat sizeof_fs_drv_reg + 7 < 4294967296" by simp
  obtain a s1 where a: "kmalloc sizeof_fs_drv_reg s = Some (a, s1)" "a \<noteq> NULL" "a \<notin> L" "kroom s1 (insert a L) k"
    "region a 36 \<subseteq> payload (mem s1) a"
    "\<And>b. b \<in> L \<Longrightarrow> payload (mem s1) b = payload (mem s) b \<and> (\<forall>x \<in> payload (mem s) b. mem s1 x = mem s x)"
    using kroom.new_block [OF rm assms(2) lt] by auto
  let ?m = "reg_mem a PART_LINUX_NATIVE NULL ''ext2'' r c l (mem s1)"
  let ?s = "s1\<lparr>mem := ?m, fs_drv_list := a\<rparr>"
  have f: "?m a = PART_LINUX_NATIVE" "cstr ?m (a + 8) (str ''ext2'')" "ld32 ?m (a + 20) = r" "ld32 ?m (a + 24) = c"
    "ld32 ?m (a + 28) = l" "ld32 ?m (a + 32) = NULL" "\<And>x. x \<notin> region a 36 \<Longrightarrow> ?m x = mem s1 x"
    using reg_mem_fields [where nm = "''ext2''" and t = a and ty = PART_LINUX_NATIVE and lm = NULL and r = r and c = c and l = l
      and m = "mem s1"] by (simp_all add: str_def)
  have "?m x = mem s1 x" if "x \<notin> payload (mem s1) a" for x using that a(5) f(7) [of x] by blast
  note w = kroom_write [OF a(4) insertI1 this]
  have kr: "kroom ?s (insert a L) k" using w(1) kroom_cong [of ?s "s1\<lparr>mem := ?m\<rparr>"] by simp
  have "init_fs_modules r c l s = Some (0, ?s)"
    using a(1) by (simp add: init_fs_modules_def reg_defs reg_mem_def)
  moreover have "drv_list ?s (insert a L) [a] [str ''ext2'']"
    using kroom_own [OF kr] a(2,5) w(2) [of a] f(2,6) by (simp add: drv_list_def drv_names_def reg_drv_name_def)
  moreover have "payload ?m b = payload (mem s) b \<and> (\<forall>x \<in> payload (mem s) b. ?m x = mem s x)" if b: "b \<in> L" for b
  proof -
    have "b \<noteq> a" using b a(3) by blast
    then show ?thesis using a(6) [OF b] w(2) [of b] w(3) [of b] b by auto
  qed
  ultimately show ?thesis using a(3) kr f by (intro exI [of _ a] exI [of _ ?s]) (simp add: reg_defs)
qed

text \<open>
  \<open>init_fs_modules\<close> registers the compiled-in driver: the list consists of one record, in a fresh block, that
  names \<open>ext2\<close>, serves native Linux partitions and points to the three functions of the driver; no live block changes.
\<close>

theorem init_fs_modules_registers:
  fixes s :: "'a fsys_scheme"
  assumes "kroom s L (6 + k)" "0 < k"
  shows "\<exists>tmp s'. init_fs_modules r c l s = Some (0, s') \<and> fs_drv_list s' = tmp \<and> tmp \<notin> L \<and>
    drv_list s' (insert tmp L) [tmp] [str ''ext2''] \<and> kroom s' (insert tmp L) k \<and>
    mem s' (reg_type_byte tmp) = PART_LINUX_NATIVE \<and> ld32 (mem s') (reg_sym_root tmp) = r \<and>
    ld32 (mem s') (reg_sym_chdir tmp) = c \<and> ld32 (mem s') (reg_sym_loadfile tmp) = l \<and>
    (\<forall>b \<in> L. payload (mem s') b = payload (mem s) b \<and> (\<forall>x \<in> payload (mem s) b. mem s' x = mem s x))"
  using assms by (rule init_fs_modules_ok)

section \<open>Witnesses\<close>

definition demo_fsys :: fsys where
  "demo_fsys = kmalloc_init (shell.extend (dio.extend (dio.truncate (demo_dio\<lparr>freep := NULL\<rparr>))
       \<lparr>current_inode = 0, current_cluster = 0, current_drive = 0, PART = 0\<rparr>)
     \<lparr>fs_drv_list = 0, drv_root = 0, drv_chdir = 0, drv_loadfile = 0, fs_prop = 0, fs_temp = 0, fs_more = 0\<rparr>)"

lemma demo_fsys_room: "kroom demo_fsys {} 0x1C0000"
  unfolding demo_fsys_def by (rule kroom_boot) (simp add: dio.defs shell.defs)

lemma demo_fsys_drives: "num_ide_drives demo_fsys = 1"
  by (simp add: demo_fsys_def kmalloc_init_def dio.defs shell.defs)

theorem init_fs_modules_registers_witness:
  "\<exists>tmp s'. init_fs_modules 0x1000 0x2000 0x3000 demo_fsys = Some (0, s') \<and> drv_list s' {tmp} [tmp] [str ''ext2'']"
proof -
  have "kroom demo_fsys {} (6 + 1)" using demo_fsys_room by (rule kroom_mono) simp
  from init_fs_modules_registers [OF this, of "0x1000" "0x2000" "0x3000"] show ?thesis by auto
qed

lemma demo_mounted:
  "\<exists>(s :: fsys) L ps rs. part_list s L 1 ps \<and> listed (mem s) 1 (partitions_of demo_drive 0 [Some (1, [demo_drive 0 100])]) ps \<and>
     drv_list s L [rs] [str ''ext2''] \<and> mem s (reg_type_byte rs) = PART_LINUX_NATIVE \<and> ld32 (mem s) (reg_sym_root rs) = 0x1000"
proof -
  let ?xs = "[Some (1, [demo_drive 0 100])]"
  have "kroom demo_fsys {} (6 + (5 + (drive_units ?xs + 1)))" using demo_fsys_room by (rule kroom_mono) simp
  then obtain tmp s1 where s1: "init_fs_modules 0x1000 0x2000 0x3000 demo_fsys = Some (0, s1)" "fs_drv_list s1 = tmp"
    "drv_list s1 {tmp} [tmp] [str ''ext2'']" "kroom s1 {tmp} (5 + (drive_units ?xs + 1))"
    "mem s1 (reg_type_byte tmp) = PART_LINUX_NATIVE" "ld32 (mem s1) (reg_sym_root tmp) = 0x1000"
    using init_fs_modules_ok [of demo_fsys "{}" "5 + (drive_units ?xs + 1)" "0x1000" "0x2000" "0x3000"] by auto
  have n: "num_ide_drives s1 = int (length ?xs)"
    using s1(1) demo_fsys_drives
    by (auto simp: init_fs_modules_def Let_def same_lists_def split: bind_splits dest!: kmalloc_same_lists)
  obtain s' ps L' where r: "read_disk_partitions (ata_dev demo_drive) 0x90000 (\<lambda>_. 0x90000) s1 = Some s'"
    "part_list s' L' 1 ps" "listed (mem s') 1 (partitions_of demo_drive 0 ?xs) ps" "{tmp} \<subseteq> L'" "keeps_blocks {tmp} s1 s'"
    using read_disk_partitions_ok [where bufs = "\<lambda>_. 0x90000", OF demo_drive_reads demo_stack demo_stack demo_layout n s1(4)] by auto
  have "kowns s' L'" using r(2) kroom_own by (auto simp: part_list_def)
  moreover have "fs_drv_list s' = fs_drv_list s1" using read_disk_partitions_more [OF r(1)] by (cases s'; cases s1) simp
  ultimately have dl: "drv_list s' L' [tmp] [str ''ext2'']" "\<And>x. x \<in> region tmp 36 \<Longrightarrow> mem s' x = mem s1 x"
    using drv_list_survives [OF s1(3) _ _ r(4,5)] by simp_all
  then show ?thesis
    using r(2,3) s1(5,6) drv_keeps(3,4) [of tmp "mem s'" "mem s1"]
    by (intro exI [of _ s'] exI [of _ L'] exI [of _ ps] exI [of _ tmp]) (simp add: reg_sym_root_def)
qed

theorem fs_root_mounts_witness:
  "\<exists>(s :: fsys) s'. fs_root (\<lambda>f lba drive inode s. Some (f + lba, s)) 1 s = Some (FS_DRV_FOUND, s') \<and> fs_prop s' = 0x103F"
proof -
  let ?f = "\<lambda>f lba (drive :: int) (inode :: int) s. Some (f + lba, s :: fsys)"
  let ?es = "partitions_of demo_drive 0 [Some (1, [demo_drive 0 100])]"
  obtain s :: fsys and L ps r where s: "part_list s L 1 ps" "listed (mem s) 1 ?es ps" "drv_list s L [r] [str ''ext2'']"
    "mem s (reg_type_byte r) = PART_LINUX_NATIVE" "ld32 (mem s) (reg_sym_root r) = 0x1000" using demo_mounted by blast
  have e: "pe_type (fst (?es ! 0)) = PART_LINUX_NATIVE" "snd (?es ! 0) + start_lba (fst (?es ! 0)) = 63" "0 < length ?es"
    by (simp_all add: demo_drive_def demo_table_at ld_entry_def demo_entry_def ld32_def Let_def)
  have l: "length ?es < 2147483648" by (simp add: Let_def)
  have d: "lseg 32 (mem s) (fs_drv_list s) [r] NULL" "NULL \<notin> set [r]" using s(3) by (simp_all add: drv_list_def)
  have "fs_root ?f (of_nat (Suc 0)) s = mounts ?f [r] (ps ! 0) (pe_type (fst (?es ! 0))) (snd (?es ! 0) + start_lba (fst (?es ! 0))) s"
  proof -
    have z: "part_list (s\<lparr>part_temp := part_temp s\<rparr>) L 1 ps" using s(1) by simp
    have "mem s (pp_type_byte (ps ! 0)) = pe_type (fst (?es ! 0))"
      using fs_root_mounts [OF z s(2) l d, of ?f] e(1,3) unfolding typed_part_def by blast
    then show ?thesis using fs_root_mounts [OF z s(2) l d, of ?f] e(3) by metis
  qed
  then have "\<exists>s'. fs_root ?f 1 s = Some (FS_DRV_FOUND, s') \<and> fs_prop s' = 0x103F"
    unfolding e(1,2) using s(4,5) by (simp add: mounts_def Let_def)
  then show ?thesis by blast
qed

lemma demo_registered:
  assumes "init_fs_modules r c l demo_fsys = Some (0, s')"
  shows "fs_drv_list s' = 0xFFFFD8 \<and> freep s' = 0x200000"
proof -
  obtain a s1 where a: "kmalloc sizeof_fs_drv_reg demo_fsys = Some (a, s1)" "fs_drv_list s' = a" "freep s' = freep s1"
    using assms by (auto simp: init_fs_modules_def Let_def split: bind_splits)
  have "a = 0xFFFFD8 \<and> freep s1 = 0x200000"
    using a(1) by (simp add: kmalloc_def demo_fsys_def kmalloc_init_idem) 
      (auto simp: kmalloc_init_def dio.defs shell.defs nunits_of_def kmalloc_search.simps Let_def)
  then show ?thesis using a by simp
qed

theorem unregister_module_removes_witness:
  "\<exists>(s :: fsys) s'. fs_drv_list s = 0xFFFFD8 \<and> unregister_module 0 (reg_drv_name 0xFFFFD8) s = Some (FS_MODULE_REMOVED, s') \<and>
    drv_list s' {} [] []"
proof -
  let ?r = "0xFFFFD8 :: addr"
  have "kroom demo_fsys {} (6 + 1)" using demo_fsys_room by (rule kroom_mono) simp
  from init_fs_modules_ok [OF this, of "0x1000" "0x2000" "0x3000"]
  obtain s1 where s1: "init_fs_modules 0x1000 0x2000 0x3000 demo_fsys = Some (0, s1)"
    "drv_list s1 {fs_drv_list s1} [fs_drv_list s1] [str ''ext2'']" by auto
  note r = demo_registered [OF s1(1)]
  have dl: "drv_list s1 {?r} ([] @ ?r # []) ([] @ str ''ext2'' # [])" using s1(2) r by simp
  have nm: "cstr (mem s1) (reg_drv_name ?r) (str ''ext2'')" using dl by (simp add: drv_list_def drv_names_def)
  have "blk_end (mem s1) (?r - 8) \<noteq> unat (freep s1)" using r by (simp add: blk_end_def)
  then have safe: "\<not> meets_last (?r - 8) s1" by (simp add: meets_last_def)
  obtain s' where "unregister_module 0 (reg_drv_name ?r) s1 = Some (FS_MODULE_REMOVED, s')"
    "drv_list s' ({?r} - {?r}) ([] @ []) ([] @ [])"
    using unregister_module_removes [OF dl _ _ nm _ safe, of 0] by auto
  with r show ?thesis by auto
qed

end
