(* ===== verification/Ext2.thy ===== *)
theory Ext2
  imports Fs
begin

text \<open>
  The ext2 driver, \<open>src/fs/ext2/superblock.c\<close>, \<open>ext2.c\<close> and \<open>dir.c\<close>: superblock, inodes, directories,
  files. The structures of the file system lie in memory as the disk has them. Local arrays are their
  addresses on the stack, collected in \<open>ext2_bufs\<close>; a pointer that the source leaves on such an array after the function has
  returned (\<open>grblock\<close>, \<open>intab\<close>, \<open>sind\<close>, \<open>dind\<close>) stays that address. An index before the start of an array is \<open>None\<close>.
  \<open>gbinfo\<close> is a pointer nobody sets: a C program starts with it \<open>NULL\<close>.
\<close>

section \<open>superblock.h, ext2.h and dir.h\<close>

record ext2 = fsys +
  ext2super :: addr
  gbinfo :: addr
  grblock :: addr
  intab :: "addr list"
  intab1 :: "addr list"
  direntry :: addr
  sind :: addr
  dind :: addr
  ext2_file_prop :: addr
  ext2_temp :: addr
  item_index :: uint
  nam_index :: uint
  prev_inode :: int

record ext2_bufs =
  groupdescr :: addr
  inodebuff :: addr
  dirbuf :: addr
  indbuf :: addr
  databuf :: addr
  indirectbuf :: addr
  indirect2buf :: addr
  load_inodebuff :: addr
  path_argtable :: addr
  path_sc :: addr

abbreviation sizeof_super_block :: uint where "sizeof_super_block \<equiv> 1024"

definition sb_log_block_size :: "addr \<Rightarrow> addr" where "sb_log_block_size p = p + 24"
definition sb_blocks_per_group :: "addr \<Rightarrow> addr" where "sb_blocks_per_group p = p + 32"
definition sb_inodes_per_group :: "addr \<Rightarrow> addr" where "sb_inodes_per_group p = p + 40"
definition sb_magic :: "addr \<Rightarrow> addr" where "sb_magic p = p + 56"

definition gb_bs :: "addr \<Rightarrow> addr" where "gb_bs p = p"
definition gb_gdoffset :: "addr \<Rightarrow> addr" where "gb_gdoffset p = p + 4"

definition gr_inode_table :: "addr \<Rightarrow> addr" where "gr_inode_table p = p + 8"

definition i_mode :: "addr \<Rightarrow> addr" where "i_mode p = p"
definition i_size :: "addr \<Rightarrow> addr" where "i_size p = p + 4"
definition i_block :: "addr \<Rightarrow> nat \<Rightarrow> addr" where "i_block p k = p + 40 + 4 * of_nat k"

definition de_inode :: "addr \<Rightarrow> addr" where "de_inode p = p"
definition de_rec_len :: "addr \<Rightarrow> addr" where "de_rec_len p = p + 4"
definition de_name_len :: "addr \<Rightarrow> addr" where "de_name_len p = p + 6"
definition de_file_type :: "addr \<Rightarrow> addr" where "de_file_type p = p + 7"
definition de_name :: "addr \<Rightarrow> addr" where "de_name p = p + 8"

abbreviation sizeof_file_properties :: uint where "sizeof_file_properties \<equiv> 272"

definition fp_inode :: "addr \<Rightarrow> addr" where "fp_inode p = p"
definition fp_size :: "addr \<Rightarrow> addr" where "fp_size p = p + 4"
definition fp_file_type :: "addr \<Rightarrow> addr" where "fp_file_type p = p + 8"
definition fp_filename :: "addr \<Rightarrow> addr" where "fp_filename p = p + 12"
definition fp_next :: "addr \<Rightarrow> addr" where "fp_next p = p + 268"

lemmas ext2_offsets = sb_log_block_size_def sb_blocks_per_group_def sb_inodes_per_group_def sb_magic_def gb_bs_def
  gb_gdoffset_def gr_inode_table_def i_mode_def i_size_def i_block_def de_inode_def de_rec_len_def de_name_len_def
  de_file_type_def de_name_def fp_inode_def fp_size_def fp_file_type_def fp_filename_def fp_next_def

abbreviation SUPER_BLOCK_OFFSET :: uint where "SUPER_BLOCK_OFFSET \<equiv> 2"
abbreviation EXT2_MAGIC :: half where "EXT2_MAGIC \<equiv> 0xEF53"
abbreviation S_IFMT :: half where "S_IFMT \<equiv> 0xF000"
abbreviation S_IFREG :: half where "S_IFREG \<equiv> 0x8000"
abbreviation S_IFDIR :: half where "S_IFDIR \<equiv> 0x4000"
abbreviation REG_FILE :: uint where "REG_FILE \<equiv> 1"
abbreviation DIRECTORY :: uint where "DIRECTORY \<equiv> 2"
abbreviation DIRECTORY_NUM :: nat where "DIRECTORY_NUM \<equiv> 10"
abbreviation PATH_LEN :: nat where "PATH_LEN \<equiv> 100"

definition S_ISREG :: "half \<Rightarrow> bool" where "S_ISREG m \<longleftrightarrow> m AND S_IFMT = S_IFREG"
definition S_ISDIR :: "half \<Rightarrow> bool" where "S_ISDIR m \<longleftrightarrow> m AND S_IFMT = S_IFDIR"

section \<open>superblock.c\<close>

text \<open>The processor takes the shift count modulo 32.\<close>

definition ext2_rd_superblock :: "device \<Rightarrow> int \<Rightarrow> uint \<Rightarrow> 'a ext2_scheme \<Rightarrow> (int \<times> 'a ext2_scheme) option" where
  "ext2_rd_superblock dev drive_num lba s = do {
     (super_buf, s1) \<leftarrow> kmalloc sizeof_super_block s;
     (r, s2) \<leftarrow> read_disk_sector dev super_buf drive_num (lba + SUPER_BLOCK_OFFSET) 2 s1;
     let s3 = (if r = IDE_ERR_IO_ERROR then snd (shell_panic DISK_READ_ERR s2) else s2)\<lparr>ext2super := super_buf\<rparr>;
     if ld16 (mem s3) (sb_magic (ext2super s3)) \<noteq> EXT2_MAGIC then Some (FAILURE, snd (shell_panic BAD_SUPER s3))
     else (let bs = push_bit (unat (ld32 (mem s3) (sb_log_block_size (ext2super s3)) AND 31)) 1024;
               m1 = st32 (gb_bs (gbinfo s3)) bs (mem s3);
               bs1 = ld32 m1 (gb_bs (gbinfo s3));
               gd = (if bs1 = 1024 then 2 else if bs1 = 4096 then 6 else 2)
           in Some (SUCCESS, s3\<lparr>mem := st32 (gb_gdoffset (gbinfo s3)) gd m1\<rparr>)) }"

definition ext2_rd_block :: "device \<Rightarrow> int \<Rightarrow> uint \<Rightarrow> uint \<Rightarrow> addr \<Rightarrow> 'a console_scheme \<Rightarrow> 'a console_scheme option" where
  "ext2_rd_block dev drive_num lba sectors buf s = do {
     (r, s1) \<leftarrow> read_disk_sector dev buf drive_num (lba + SUPER_BLOCK_OFFSET) sectors s;
     Some (if r = IDE_ERR_IO_ERROR then snd (shell_panic DISK_READ_ERR s1) else s1) }"

section \<open>ext2.c\<close>

text \<open>The block size in use, and the number of sectors of a block.\<close>

definition bsize :: "'a ext2_scheme \<Rightarrow> uint" where
  "bsize s = ld32 (mem s) (gb_bs (gbinfo s))"

text \<open>The groups that the source takes to hold a copy of the superblock.\<close>

definition backup_groups :: "uint list" where
  "backup_groups = [0, 1, 3, 9, 27, 5, 25, 7, 49, 81, 125, 243, 343, 625]"

text \<open>\<open>None\<close>: the division by zero traps.\<close>

definition inode_to_lba :: "uint \<Rightarrow> 'a ext2_scheme \<Rightarrow> uint option" where
  "inode_to_lba inode s =
     (let ipg = ld32 (mem s) (sb_inodes_per_group (ext2super s));
          bpg = ld32 (mem s) (sb_blocks_per_group (ext2super s))
      in if ipg = 0 then None
         else (let j = inode mod ipg; g = inode div ipg; small_size = bsize s div 128 in
           if g \<in> set backup_groups
           then Some ((g * bpg * small_size + (j - 1) + ld32 (mem s) (gr_inode_table (grblock s)) * small_size) div 4 - 2)
           else (let n = (g * bpg * small_size + (j - 1) + 2 * small_size) div 4
                 in Some ((if bsize s = 1024 then n + 2 else n) - 2))))"

text \<open>The remainder of a division of signed numbers has the sign of the dividend.\<close>

definition get_index :: "uint \<Rightarrow> 'a ext2_scheme \<Rightarrow> int option" where
  "get_index inode s =
     (let ipg = ld32 (mem s) (sb_inodes_per_group (ext2super s)) in
      if ipg = 0 then None
      else (let i = sint (inode mod ipg) in Some (sgn (i - 1) * (\<bar>i - 1\<bar> mod 4))))"

section \<open>dir.c: directories\<close>

text \<open>The copy of a name: a blank gets a backslash in front. The result has the final \<open>nam_index\<close>.\<close>

partial_function (option) copy_name :: "addr \<Rightarrow> addr \<Rightarrow> nat \<Rightarrow> uint \<Rightarrow> memory \<Rightarrow> (uint \<times> memory) option" where
  "copy_name fn de j ni m =
     (if j < unat (m (de_name_len de)) then
        (if m (de_name de + of_nat j) \<noteq> 32
         then copy_name fn de (Suc j) (ni + 1) (m(fn + ni := m (de_name de + of_nat j)))
         else (let m1 = m(fn + ni := 92)
               in copy_name fn de (Suc j) (ni + 2) (m1(fn + (ni + 1) := m1 (de_name de + of_nat j)))))
      else Some (ni, m))"

text \<open>The body of the loop up to the test of \<open>rec_len\<close>: the entry at \<open>de\<close> goes to the structure \<open>ext2_temp\<close>.\<close>

definition rd_dir_entry :: "device \<Rightarrow> ext2_bufs \<Rightarrow> int \<Rightarrow> uint \<Rightarrow> addr \<Rightarrow> 'a ext2_scheme \<Rightarrow> 'a ext2_scheme option" where
  "rd_dir_entry dev B drive_num lba de s = do {
     let fn = fp_filename (ext2_temp s);
     (ni, m) \<leftarrow> copy_name fn de 0 (nam_index s) (mem s);
     let s1 = s\<lparr>direntry := de, mem := m(fn + ni := 0), nam_index := 0\<rparr>;
     inodefile \<leftarrow> inode_to_lba (ld32 (mem s1) (de_inode de)) s1;
     s2 \<leftarrow> ext2_rd_block dev drive_num (lba + inodefile) 1 (indbuf B) s1;
     isam \<leftarrow> get_index (ld32 (mem s2) (de_inode de)) s2;
     if isam < 0 then None
     else (let ino = indbuf B + 128 * word_of_int isam; t = ext2_temp s2;
               m1 = st32 (fp_size t) (ld32 (mem s2) (i_size ino)) (mem s2);
               m2 = st32 (fp_inode t) (ld32 m1 (de_inode de)) m1;
               m3 = st32 (fp_file_type t) (ucast (m2 (de_file_type de))) m2
           in Some (s2\<lparr>intab1 := (intab1 s2)[nat isam := ino], mem := m3\<rparr>)) }"

partial_function (option) rd_dir_loop ::
    "device \<Rightarrow> ext2_bufs \<Rightarrow> int \<Rightarrow> uint \<Rightarrow> uint \<Rightarrow> 'a ext2_scheme \<Rightarrow> 'a ext2_scheme option" where
  "rd_dir_loop dev B drive_num lba prev_rec_len s = do {
     s1 \<leftarrow> rd_dir_entry dev B drive_num lba (dirbuf B + prev_rec_len) s;
     let next_rec = ucast (ld16 (mem s1) (de_rec_len (direntry s1))) + prev_rec_len;
     if next_rec \<ge> bsize s1 then Some s1
     else do {
       (a, s2) \<leftarrow> kmalloc sizeof_file_properties (s1\<lparr>item_index := item_index s1 + 1\<rparr>);
       let s3 = s2\<lparr>mem := st32 (fp_next a) NULL (st32 (fp_next (ext2_temp s2)) a (mem s2)), ext2_temp := a\<rparr>;
       if ld16 (mem s3) (de_rec_len (direntry s3)) > 0 then rd_dir_loop dev B drive_num lba next_rec s3
       else Some s3 } }"

text \<open>The block number \<open>blk\<close> of a file system at \<open>lba\<close>, as \<open>ext2_rd_block\<close> wants it.\<close>

definition blk_lba :: "uint \<Rightarrow> uint \<Rightarrow> 'a ext2_scheme \<Rightarrow> uint" where
  "blk_lba lba blk s = lba + (bsize s div 512) * blk - 2"

fun rd_dir_blocks :: "device \<Rightarrow> ext2_bufs \<Rightarrow> int \<Rightarrow> uint \<Rightarrow> addr \<Rightarrow> nat list \<Rightarrow> 'a ext2_scheme \<Rightarrow> 'a ext2_scheme option" where
  "rd_dir_blocks dev B drive_num lba ino [] s = Some s"
| "rd_dir_blocks dev B drive_num lba ino (k # ks) s = do {
     s2 \<leftarrow> (if ld32 (mem s) (i_block ino k) \<noteq> 0 then do {
              s1 \<leftarrow> ext2_rd_block dev drive_num (blk_lba lba (ld32 (mem s) (i_block ino k)) s) (bsize s div 512) (dirbuf B) s;
              rd_dir_loop dev B drive_num lba 0 s1 }
            else Some s);
     rd_dir_blocks dev B drive_num lba ino ks s2 }"

definition ext2_rd_dir :: "device \<Rightarrow> ext2_bufs \<Rightarrow> int \<Rightarrow> uint \<Rightarrow> addr \<Rightarrow> 'a ext2_scheme \<Rightarrow> 'a ext2_scheme option" where
  "ext2_rd_dir dev B drive_num lba ino s =
     rd_dir_blocks dev B drive_num lba ino [0..<12] (s\<lparr>item_index := 0, nam_index := 0\<rparr>)"

definition ext2_rd_inode :: "device \<Rightarrow> ext2_bufs \<Rightarrow> int \<Rightarrow> uint \<Rightarrow> uint \<Rightarrow> 'a ext2_scheme \<Rightarrow> 'a ext2_scheme option" where
  "ext2_rd_inode dev B drive_num lba inode s = do {
     s1 \<leftarrow> ext2_rd_block dev drive_num (lba + ld32 (mem s) (gb_gdoffset (gbinfo s))) 2 (groupdescr B) s;
     let s2 = s1\<lparr>grblock := groupdescr B\<rparr>;
     inodesam \<leftarrow> inode_to_lba inode s2;
     s3 \<leftarrow> ext2_rd_block dev drive_num (lba + inodesam) 1 (inodebuff B) s2;
     i \<leftarrow> get_index inode s3;
     if i < 0 then None
     else (let ino = inodebuff B + 128 * word_of_int i; s4 = s3\<lparr>intab := (intab s3)[nat i := ino]\<rparr>
           in if S_ISDIR (ld16 (mem s4) (i_mode ino)) then ext2_rd_dir dev B drive_num lba ino s4 else Some s4) }"

definition init_ext2 :: "device \<Rightarrow> ext2_bufs \<Rightarrow> int \<Rightarrow> uint \<Rightarrow> uint \<Rightarrow> 'a ext2_scheme \<Rightarrow> (uint \<times> 'a ext2_scheme) option" where
  "init_ext2 dev B drive_num lba inode s = do {
     (a, s1) \<leftarrow> kmalloc sizeof_file_properties s;
     let s2 = s1\<lparr>ext2_file_prop := a, ext2_temp := a, mem := st32 (fp_next a) NULL (mem s1)\<rparr>;
     (_, s3) \<leftarrow> ext2_rd_superblock dev drive_num lba s2;
     s4 \<leftarrow> ext2_rd_inode dev B drive_num lba inode s3;
     Some (item_index s4, s4) }"

section \<open>dir.c: files\<close>

text \<open>\<open>for (index = 0; index < 4096; index++) *(memloc++) = databuf[index];\<close>\<close>

primrec copy_bytes :: "nat \<Rightarrow> addr \<Rightarrow> addr \<Rightarrow> memory \<Rightarrow> memory" where
  "copy_bytes 0 dst src m = m"
| "copy_bytes (Suc n) dst src m = copy_bytes n (dst + 1) (src + 1) (m(dst := m src))"

definition rd_data :: "device \<Rightarrow> ext2_bufs \<Rightarrow> uint \<Rightarrow> uint \<Rightarrow> addr \<Rightarrow> 'a ext2_scheme \<Rightarrow> 'a ext2_scheme option" where
  "rd_data dev B lba blk memloc s = do {
     s1 \<leftarrow> ext2_rd_block dev 0 (blk_lba lba blk s) (bsize s div 512) (databuf B) s;
     Some (s1\<lparr>mem := copy_bytes 4096 memloc (databuf B) (mem s1)\<rparr>) }"

fun rd_direct :: "device \<Rightarrow> ext2_bufs \<Rightarrow> uint \<Rightarrow> addr \<Rightarrow> nat list \<Rightarrow> addr \<Rightarrow> 'a ext2_scheme \<Rightarrow> (addr \<times> 'a ext2_scheme) option" where
  "rd_direct dev B lba ino [] memloc s = Some (memloc, s)"
| "rd_direct dev B lba ino (k # ks) memloc s =
     (if ld32 (mem s) (i_block ino k) \<noteq> 0 then do {
        s1 \<leftarrow> rd_data dev B lba (ld32 (mem s) (i_block ino k)) memloc s;
        rd_direct dev B lba ino ks (memloc + 4096) s1 }
      else rd_direct dev B lba ino ks memloc s)"

fun rd_single :: "device \<Rightarrow> ext2_bufs \<Rightarrow> uint \<Rightarrow> nat list \<Rightarrow> addr \<Rightarrow> 'a ext2_scheme \<Rightarrow> (addr \<times> 'a ext2_scheme) option" where
  "rd_single dev B lba [] memloc s = Some (memloc, s)"
| "rd_single dev B lba (j # js) memloc s = do {
     let s1 = s\<lparr>sind := indirectbuf B + 4 * of_nat j\<rparr>;
     s2 \<leftarrow> rd_data dev B lba (ld32 (mem s1) (sind s1)) memloc s1;
     rd_single dev B lba js (memloc + 4096) s2 }"

text \<open>The loop over the doubly indirect block reads through \<open>dind\<close> where it means \<open>sind\<close>, and the other way round.\<close>

fun rd_double_row :: "device \<Rightarrow> ext2_bufs \<Rightarrow> uint \<Rightarrow> nat list \<Rightarrow> addr \<Rightarrow> 'a ext2_scheme \<Rightarrow> (addr \<times> 'a ext2_scheme) option" where
  "rd_double_row dev B lba [] memloc s = Some (memloc, s)"
| "rd_double_row dev B lba (l # ls) memloc s = do {
     let s1 = s\<lparr>dind := indirect2buf B + 4 * of_nat l\<rparr>;
     s2 \<leftarrow> rd_data dev B lba (ld32 (mem s1) (sind s1)) memloc s1;
     rd_double_row dev B lba ls (memloc + 4096) s2 }"

fun rd_double ::
    "device \<Rightarrow> ext2_bufs \<Rightarrow> uint \<Rightarrow> nat \<Rightarrow> nat list \<Rightarrow> addr \<Rightarrow> 'a ext2_scheme \<Rightarrow> (addr \<times> 'a ext2_scheme) option" where
  "rd_double dev B lba indblocks [] memloc s = Some (memloc, s)"
| "rd_double dev B lba indblocks (j # js) memloc s = do {
     let s1 = s\<lparr>sind := indirectbuf B + 4 * of_nat j\<rparr>;
     s2 \<leftarrow> ext2_rd_block dev 0 (blk_lba lba (ld32 (mem s1) (dind s1)) s1) (bsize s1 div 512) (indirect2buf B) s1;
     (p, s3) \<leftarrow> rd_double_row dev B lba [0..<indblocks] memloc s2;
     rd_double dev B lba indblocks js p s3 }"

definition ext2_rd_file :: "device \<Rightarrow> ext2_bufs \<Rightarrow> uint \<Rightarrow> addr \<Rightarrow> addr \<Rightarrow> 'a ext2_scheme \<Rightarrow> (int \<times> 'a ext2_scheme) option" where
  "ext2_rd_file dev B lba ino memloc s = do {
     let indblocks = unat (bsize s div 4);
     (p1, s1) \<leftarrow> rd_direct dev B lba ino [0..<12] memloc s;
     (p2, s2) \<leftarrow> (if ld32 (mem s1) (i_block ino 12) \<noteq> 0 then do {
         t \<leftarrow> ext2_rd_block dev 0 (blk_lba lba (ld32 (mem s1) (i_block ino 12)) s1) (bsize s1 div 512) (indirectbuf B) s1;
         rd_single dev B lba [0..<indblocks] p1 t }
       else Some (p1, s1));
     (p3, s3) \<leftarrow> (if ld32 (mem s2) (i_block ino 13) \<noteq> 0 then do {
         t \<leftarrow> ext2_rd_block dev 0 (blk_lba lba (ld32 (mem s2) (i_block ino 13)) s2) (bsize s2 div 512) (indirectbuf B) s2;
         rd_double dev B lba indblocks [0..<indblocks] p2 t }
       else Some (p2, s2));
     Some (SUCCESS, s3) }"

definition ext2_load_file :: "device \<Rightarrow> ext2_bufs \<Rightarrow> uint \<Rightarrow> addr \<Rightarrow> 'a ext2_scheme \<Rightarrow> (uint \<times> 'a ext2_scheme) option" where
  "ext2_load_file dev B inode load_mem s = do {
     inodesam \<leftarrow> inode_to_lba inode s;
     s1 \<leftarrow> ext2_rd_block dev 0 (current_lba s + inodesam) 1 (load_inodebuff B) s;
     i \<leftarrow> get_index inode s1;
     if i < 0 then None
     else do {
       let ino = load_inodebuff B + 128 * word_of_int i;
       s2 \<leftarrow> (if S_ISREG (ld16 (mem s1) (i_mode ino))
              then map_option snd (ext2_rd_file dev B (current_lba s1) ino load_mem s1) else Some s1);
       Some (ld32 (mem s2) (i_size ino), s2) } }"

text \<open>The pointer results of the driver double as error codes.\<close>

partial_function (option) loadfile_loop ::
    "device \<Rightarrow> ext2_bufs \<Rightarrow> addr \<Rightarrow> addr \<Rightarrow> 'a ext2_scheme \<Rightarrow> (addr \<times> 'a ext2_scheme) option" where
  "loadfile_loop dev B c load_mem s =
     (if ext2_temp s \<noteq> NULL then do {
        r \<leftarrow> strcmp (mem s) c (fp_filename (ext2_temp s));
        if r = 0 then
          (if ld32 (mem s) (fp_file_type (ext2_temp s)) = REG_FILE then do {
             (p, s1) \<leftarrow> (if load_mem = NULL then kmalloc (ld32 (mem s) (fp_size (ext2_temp s))) s else Some (load_mem, s));
             (_, s2) \<leftarrow> ext2_load_file dev B (ld32 (mem s1) (fp_inode (ext2_temp s1))) p s1;
             Some (p, s2) }
           else Some (word_of_int NOT_REG_FILE, s))
        else loadfile_loop dev B c load_mem (s\<lparr>ext2_temp := ld32 (mem s) (fp_next (ext2_temp s))\<rparr>) }
      else Some (word_of_int FIL_NOT_FOUND, s))"

definition ext2_loadfile :: "device \<Rightarrow> ext2_bufs \<Rightarrow> addr \<Rightarrow> addr \<Rightarrow> 'a ext2_scheme \<Rightarrow> (addr \<times> 'a ext2_scheme) option" where
  "ext2_loadfile dev B c load_mem s = do {
     (_, s1) \<leftarrow> init_ext2 dev B (current_drive s) (current_lba s) (word_of_int (current_inode s)) s;
     loadfile_loop dev B c load_mem (s1\<lparr>ext2_temp := ext2_file_prop s1\<rparr>) }"

section \<open>dir.c: paths\<close>

definition path_stop :: "byte \<Rightarrow> byte \<Rightarrow> bool" where "path_stop b c \<longleftrightarrow> c = 47"
definition path_gap :: "byte \<Rightarrow> bool" where "path_gap c \<longleftrightarrow> c = 47 \<or> c = 10"

text \<open>The initialisation with the current directory.\<close>

definition reread :: "device \<Rightarrow> ext2_bufs \<Rightarrow> 'a ext2_scheme \<Rightarrow> 'a ext2_scheme option" where
  "reread dev B s = do {
     (_, s1) \<leftarrow> init_ext2 dev B (current_drive s) (current_lba s) (word_of_int (current_inode s)) s;
     Some (s1\<lparr>ext2_temp := ext2_file_prop s1\<rparr>) }"

text \<open>The search for one name: \<open>Some True\<close> when it has been entered, \<open>Some False\<close> for a file that is no directory,
  \<open>None\<close> when there is none.\<close>

partial_function (option) chdir_find ::
    "device \<Rightarrow> ext2_bufs \<Rightarrow> addr \<Rightarrow> 'a ext2_scheme \<Rightarrow> (bool option \<times> 'a ext2_scheme) option" where
  "chdir_find dev B arg s =
     (if ext2_temp s \<noteq> NULL then do {
        r \<leftarrow> strcmp (mem s) (fp_filename (ext2_temp s)) arg;
        if r = 0 then
          (if ld32 (mem s) (fp_file_type (ext2_temp s)) = DIRECTORY then do {
             s1 \<leftarrow> reread dev B (s\<lparr>prev_inode := current_inode s, current_inode := sint (ld32 (mem s) (fp_inode (ext2_temp s)))\<rparr>);
             Some (Some True, s1) }
           else Some (Some False, s))
        else chdir_find dev B arg (s\<lparr>ext2_temp := ld32 (mem s) (fp_next (ext2_temp s))\<rparr>) }
      else Some (None, s))"

fun chdir_args :: "device \<Rightarrow> ext2_bufs \<Rightarrow> nat list \<Rightarrow> 'a ext2_scheme \<Rightarrow> (addr \<times> 'a ext2_scheme) option" where
  "chdir_args dev B [] s = Some (ext2_file_prop s, s)"
| "chdir_args dev B (j # js) s =
     (let arg = ld32 (mem s) (path_argtable B + 4 * of_nat j) in
      if mem s arg = 0 then chdir_args dev B js s
      else do {
        (r, s1) \<leftarrow> chdir_find dev B arg s;
        case r of
          Some True \<Rightarrow> chdir_args dev B js s1
        | Some False \<Rightarrow> (let s2 = snd (shell_panic CD_ERR s1) in Some (ext2_file_prop s2, s2))
        | None \<Rightarrow> do {
            s2 \<leftarrow> reread dev B s1;
            let s3 = snd (shell_panic DIR_NOT_FOUND s2);
            Some (ext2_file_prop s3, s3) } })"

definition ext2_chdir :: "device \<Rightarrow> ext2_bufs \<Rightarrow> addr \<Rightarrow> 'a ext2_scheme \<Rightarrow> (addr \<times> 'a ext2_scheme) option" where
  "ext2_chdir dev B c s = do {
     (ccp, m) \<leftarrow> strcpy (path_sc B) c (mem s);
     (r, m1) \<leftarrow> tokenize path_stop path_gap DIRECTORY_NUM (path_argtable B) m ccp 0;
     case r of
       None \<Rightarrow> Some (word_of_int FAILURE, snd (shell_panic PAT_LEN_EXCEED (s\<lparr>mem := m1\<rparr>)))
     | Some args \<Rightarrow> do {
         s1 \<leftarrow> reread dev B (s\<lparr>mem := st32 (path_argtable B + 4 * of_nat args) NULL m1\<rparr>);
         chdir_args dev B [0..<args] s1 } }"

text \<open>\<open>slash\<close> is the address of the constant \<open>"/"\<close>.\<close>

definition ext2_root :: "device \<Rightarrow> ext2_bufs \<Rightarrow> addr \<Rightarrow> uint \<Rightarrow> int \<Rightarrow> int \<Rightarrow> 'a ext2_scheme \<Rightarrow> (addr \<times> 'a ext2_scheme) option" where
  "ext2_root dev B slash lba drive inode s = do {
     (a, s1) \<leftarrow> ext2_chdir dev B slash (s\<lparr>current_lba := lba, current_drive := drive, current_inode := inode\<rparr>);
     Some (a, s1\<lparr>ext2_file_prop := a\<rparr>) }"

definition print_mode :: "uint \<Rightarrow> 'a console_scheme \<Rightarrow> 'a console_scheme" where
  "print_mode m s =
     fold (\<lambda>iss. kputc (if m AND drop_bit iss 0x0800 \<noteq> 0 then str ''USGrwxrwxrwx'' ! iss else ch CHR ''-'')) [0..<12] s"

section \<open>Where an inode is\<close>

text \<open>The copies of the superblock of a file system with \<open>sparse_super\<close>.\<close>

definition has_backup :: "nat \<Rightarrow> bool" where
  "has_backup g \<longleftrightarrow> g = 0 \<or> (\<exists>k. g = 3 ^ k \<or> g = 5 ^ k \<or> g = 7 ^ k)"

text \<open>The block of the inode table of group \<open>g\<close>: behind the copies of superblock and descriptors, as in group 0 at
  \<open>t0\<close>, or behind the two bitmaps that begin the group.\<close>

definition table_block :: "nat \<Rightarrow> nat \<Rightarrow> nat \<Rightarrow> nat \<Rightarrow> nat" where
  "table_block bs bpg t0 g = (if has_backup g then g * bpg + t0 else g * bpg + (if bs = 1024 then 1 else 0) + 2)"

text \<open>The sector of the file system that holds an inode, four to a sector, counted from 1 in groups of \<open>ipg\<close>.\<close>

definition inode_sector :: "nat \<Rightarrow> nat \<Rightarrow> nat \<Rightarrow> nat \<Rightarrow> nat \<Rightarrow> nat" where
  "inode_sector bs bpg ipg t0 ino =
     table_block bs bpg t0 ((ino - 1) div ipg) * (bs div 512) + (ino - 1) mod ipg div 4"

lemma power_below: "b ^ k < b ^ n \<Longrightarrow> 2 \<le> b \<Longrightarrow> k < n" for b :: nat
  using power_strict_increasing_iff [of b k n] by simp

lemma backup_groups_below:
  assumes "g < 729"
  shows "has_backup g \<longleftrightarrow> of_nat g \<in> set backup_groups"
proof -
  have l: "[0..<6] = [0, 1, 2, 3, 4, 5]" "[0..<5] = [0, 1, 2, 3, 4]" "[0..<4] = [0, 1, 2, 3 :: nat]" by (simp_all add: upt_rec)
  have p: "(\<exists>k. g = b ^ k) \<longleftrightarrow> g \<in> (\<lambda>k. b ^ k) ` set [0..<n]" if "729 \<le> b ^ n" "2 \<le> b" for b n
  proof
    assume "\<exists>k. g = b ^ k"
    then obtain k where k: "g = b ^ k" by blast
    then have "k < n" using assms that power_below [of b k n] by linarith
    then show "g \<in> (\<lambda>k. b ^ k) ` set [0..<n]" using k by simp
  qed auto
  have "has_backup g \<longleftrightarrow> g \<in> {0, 1, 3, 9, 27, 81, 243, 5, 25, 125, 625, 7, 49, 343}"
    using p [of 3 6] p [of 5 5] p [of 7 4] assms unfolding l has_backup_def ex_disj_distrib by auto
  moreover have "(of_nat g :: uint) = numeral w \<longleftrightarrow> g = numeral w" if "numeral w < (4294967296 :: nat)" for w
    using of_nat_inj_small [of g "numeral w"] assms that by simp
  moreover have "(of_nat g :: uint) = 0 \<longleftrightarrow> g = 0" "(of_nat g :: uint) = 1 \<longleftrightarrow> g = 1"
    using of_nat_inj_small [of g 0] of_nat_inj_small [of g 1] assms by simp_all
  ultimately show ?thesis by (simp add: backup_groups_def) blast
qed

lemma div_mod_pred:
  fixes I p :: nat
  assumes "I mod p \<noteq> 0" "0 < p"
  shows "(I - 1) div p = I div p" "(I - 1) mod p = I mod p - 1"
proof -
  obtain d where d: "I mod p = Suc d" using assms(1) not0_implies_Suc by blast
  have "d < p" using d mod_less_divisor [OF assms(2), of I] by simp
  moreover have "I - 1 = d + p * (I div p)" using d mult_div_mod_eq [of p I] by linarith
  ultimately show "(I - 1) div p = I div p" "(I - 1) mod p = I mod p - 1" using d by simp_all
qed

lemma inode_to_lba_sector:
  fixes s :: "'a ext2_scheme" and inode :: uint
  defines "sb \<equiv> ext2super s"
  defines "ipg \<equiv> unat (ld32 (mem s) (sb_inodes_per_group sb))" and "bpg \<equiv> unat (ld32 (mem s) (sb_blocks_per_group sb))"
    and "t0 \<equiv> unat (ld32 (mem s) (gr_inode_table (grblock s)))" and "bs \<equiv> unat (bsize s)" and "I \<equiv> unat inode"
  assumes bs: "bs \<in> {1024, 2048, 4096}" and I: "I mod ipg \<noteq> 0" "I div ipg < 729" "0 < ipg"
    and room: "(I div ipg * bpg + t0 + 2) * (bs div 128) + ipg < 4294967296"
  shows "\<exists>x. inode_to_lba inode s = Some x \<and> x + 2 = of_nat (inode_sector bs bpg ipg t0 I)"
proof -
  define wi where "wi = ld32 (mem s) (sb_inodes_per_group sb)"
  define wb where "wb = ld32 (mem s) (sb_blocks_per_group sb)"
  define wt where "wt = ld32 (mem s) (gr_inode_table (grblock s))"
  define sm where "sm = bs div 128"
  define G where "G = I div ipg"
  define J where "J = I mod ipg"
  have sm: "sm = 4 * (bs div 512)" "sm \<in> {8, 16, 32}" using bs by (auto simp: sm_def)
  have "unat (bsize s div 128) = sm" by (simp add: unat_div_distrib sm_def bs_def)
  then have w5: "bsize s div 128 = of_nat sm" using word_of_nat_unat32 [of "bsize s div 128"] by simp
  have w: "inode div wi = of_nat G" "inode mod wi = of_nat J" "wb = of_nat bpg" "wt = of_nat t0"
    by (simp_all add: G_def J_def sm_def I_def ipg_def bpg_def t0_def bs_def wi_def wb_def wt_def word_of_nat_unat32
        unat_div_distrib [symmetric] unat_mod_distrib [symmetric])
  have J: "0 < J" "J < ipg" using I by (simp_all add: J_def)
  have g: "(I - 1) div ipg = G" "(I - 1) mod ipg = J - 1"
    using div_mod_pred [OF I(1,3)] by (simp_all add: G_def J_def)
  have wj: "(of_nat J :: uint) - 1 = of_nat (J - 1)" using J(1) by (simp add: of_nat_diff)
  have big: "(G * bpg + t0 + 2) * sm + ipg < 4294967296" using room by (simp add: G_def sm_def)
  have quarter: "(of_nat (sm * a + (J - 1)) :: uint) div 4 = of_nat (bs div 512 * a + (J - 1) div 4)"
    if "a \<le> G * bpg + t0 + 2" for a
  proof -
    have "a * sm \<le> (G * bpg + t0 + 2) * sm" using that by (rule mult_le_mono1)
    then have "sm * a \<le> (G * bpg + t0 + 2) * sm" by (simp only: mult.commute [of sm a])
    then have "unat (of_nat (sm * a + (J - 1)) :: uint) = sm * a + (J - 1)" using big J by (intro unat_of_nat_small) linarith
    then have "unat ((of_nat (sm * a + (J - 1)) :: uint) div 4) = (sm * a + (J - 1)) div 4" by (simp add: unat_div_distrib)
    also have "\<dots> = bs div 512 * a + (J - 1) div 4" unfolding sm(1) by (simp add: mult.assoc)
    finally show ?thesis by (metis word_of_nat_unat32)
  qed
  have e: "(of_nat G * of_nat bpg * of_nat sm + of_nat (J - 1) + of_nat t0 * of_nat sm :: uint) = of_nat (sm * (G * bpg + t0) + (J - 1))"
    "(of_nat G * of_nat bpg * of_nat sm + of_nat (J - 1) + 2 * of_nat sm :: uint) = of_nat (sm * (G * bpg + 2) + (J - 1))"
    by (simp_all add: algebra_simps)
  have ipg0: "wi \<noteq> 0" using I(3) by (auto simp: wi_def ipg_def unat_gt_0)
  have in_list: "(of_nat G :: uint) \<in> set backup_groups \<longleftrightarrow> has_backup G"
    using backup_groups_below [of G] I(2) by (simp add: G_def)
  have b1: "bsize s = 1024 \<longleftrightarrow> bs = 1024"
    by (simp add: bs_def word_unat_eq_iff)
  have "inode_to_lba inode s = Some (if has_backup G then of_nat (bs div 512 * (G * bpg + t0) + (J - 1) div 4) - 2
      else (if bs = 1024 then of_nat (bs div 512 * (G * bpg + 2) + (J - 1) div 4) + 2
            else of_nat (bs div 512 * (G * bpg + 2) + (J - 1) div 4)) - 2)"
    using ipg0 quarter [of "G * bpg + t0"] quarter [of "G * bpg + 2"]
    unfolding inode_to_lba_def Let_def wi_def [symmetric] wb_def [symmetric] wt_def [symmetric] sb_def [symmetric]
      w w5 in_list wj e b1 by simp
  moreover have "inode_sector bs bpg ipg t0 I = (if has_backup G then bs div 512 * (G * bpg + t0) + (J - 1) div 4
      else if bs = 1024 then bs div 512 * (G * bpg + 2) + (J - 1) div 4 + 2
      else bs div 512 * (G * bpg + 2) + (J - 1) div 4)"
    unfolding inode_sector_def table_block_def g by (simp add: algebra_simps)
  ultimately show ?thesis by simp
qed

lemma get_index_nth:
  fixes s :: "'a ext2_scheme" and inode :: uint
  defines "ipg \<equiv> unat (ld32 (mem s) (sb_inodes_per_group (ext2super s)))"
  assumes "0 < ipg" "ipg < 2147483648"
  shows "get_index inode s = Some (if unat inode mod ipg = 0 then -1 else int ((unat inode - 1) mod ipg mod 4))"
proof -
  define wi where "wi = ld32 (mem s) (sb_inodes_per_group (ext2super s))"
  define I where "I = unat inode"
  have wi: "wi \<noteq> 0" using assms(2) by (auto simp: wi_def ipg_def unat_gt_0)
  have u: "unat (inode mod wi) = I mod ipg" by (simp add: unat_mod_distrib I_def ipg_def wi_def)
  have "I mod ipg < 2147483648" using assms(2,3) mod_less_divisor [of ipg I] by linarith
  then have si: "sint (inode mod wi) = int (I mod ipg)"
    using u sint_of_nat_small [of "I mod ipg"] word_of_nat_unat32 [of "inode mod wi"] by simp
  show ?thesis
  proof (cases "I mod ipg = 0")
    case True
    then show ?thesis using wi si by (simp add: get_index_def wi_def [symmetric] I_def [symmetric])
  next
    case False
    have "(I - 1) mod ipg = I mod ipg - 1" using div_mod_pred [of I ipg] False assms(2) by simp
    moreover define J where "J = I mod ipg"
    have "sgn (int J - 1) * (\<bar>int J - 1\<bar> mod 4) = int ((J - 1) mod 4)" if "J \<noteq> 0"
      using that by (cases "J = 1") (simp_all add: zmod_int of_nat_diff)
    ultimately show ?thesis using False wi si
      by (simp add: get_index_def wi_def [symmetric] I_def [symmetric] J_def [symmetric] Let_def del: of_nat_mod)
  qed
qed

section \<open>Blocks of a drive that meets its contract\<close>

definition sectors :: "(int \<Rightarrow> nat \<Rightarrow> byte list) \<Rightarrow> int \<Rightarrow> nat \<Rightarrow> nat \<Rightarrow> byte list" where
  "sectors disk drive k n = concat (map (disk drive) [k..<k + n])"

lemma length_sectors: "(\<And>k. length (disk drive k) = 512) \<Longrightarrow> length (sectors disk drive k n) = 512 * n"
  by (simp add: sectors_def length_concat o_def sum_list_triv)

text \<open>A single sector; of a block of several, which the driver takes with one call of \<open>read_sector\<close>, the first one is right in any
  case, and the others if the drive is ready between the sectors.\<close>

lemma ext2_rd_block_ata:
  assumes "ata_reads dev disk" "drive = 0 \<or> drive = 1" "unat (lba + 2) < 268435456"
  shows "\<exists>h. ext2_rd_block dev drive lba 1 buf s = Some (s\<lparr>io := h, mem := st_bytes buf (disk drive (unat (lba + 2))) (mem s)\<rparr>)"
  using read_sector_ata [OF assms, of buf s] by (auto simp: ext2_rd_block_def read_disk_sector_def)

lemma ext2_rd_block_first:
  assumes "ata_reads dev disk" "drive = 0 \<or> drive = 1" "unat (lba + 2) < 268435456" "0 < unat n" "unat n \<le> 256"
  shows "\<exists>h rest. ext2_rd_block dev drive lba n buf s =
      Some (s\<lparr>io := h, mem := st_bytes buf (disk drive (unat (lba + 2)) @ rest) (mem s)\<rparr>) \<and> length rest = 512 * (unat n - 1) \<and>
    (ready_between dev \<longrightarrow> disk drive (unat (lba + 2)) @ rest = sectors disk drive (unat (lba + 2)) (unat n))"
proof -
  let ?k = "unat (lba + 2)"
  have "[?k..<?k + unat n] = ?k # [Suc ?k..<?k + unat n]" using assms(4) by (simp add: upt_conv_Cons)
  then have e: "sectors disk drive ?k (unat n) = disk drive ?k @ concat (map (disk drive) [Suc ?k..<?k + unat n])"
    by (simp add: sectors_def)
  obtain h rest where r: "read_sector dev buf drive (lba + 2) n s = Some (IDE_ERR_NOERROR,
      s\<lparr>io := h, mem := st_bytes buf (disk drive ?k @ rest) (mem s)\<rparr>)" "length rest = 512 * (unat n - 1)"
    "ready_between dev \<longrightarrow> rest = concat (map (disk drive) [Suc ?k..<?k + unat n])"
    using read_sector_first [OF assms, of buf s] by blast
  then show ?thesis unfolding e
    by (intro exI [of _ h] exI [of _ rest]) (simp add: ext2_rd_block_def read_disk_sector_def)
qed

lemma copy_bytes_st_bytes:
  "region dst n \<inter> region src n = {} \<Longrightarrow> copy_bytes n dst src m = st_bytes dst (bytes_of m src n) m"
proof -
  have "copy_bytes n dst src m = memcpy_loop n dst src m" by (induction n arbitrary: dst src m) simp_all
  then show "region dst n \<inter> region src n = {} \<Longrightarrow> copy_bytes n dst src m = st_bytes dst (bytes_of m src n) m"
    by (simp add: memcpy_loop_st_bytes)
qed

text \<open>The data of the block \<open>b\<close> of a file system with \<open>spb\<close> sectors to the block.\<close>

definition block_data :: "(int \<Rightarrow> nat \<Rightarrow> byte list) \<Rightarrow> uint \<Rightarrow> nat \<Rightarrow> uint \<Rightarrow> byte list" where
  "block_data disk lba spb b = sectors disk 0 (unat lba + spb * unat b) spb"

text \<open>What a read of the block leaves at \<open>p\<close>: its first sector and, from a drive that is ready in time, the rest.\<close>

definition block_at :: "device \<Rightarrow> (int \<Rightarrow> nat \<Rightarrow> byte list) \<Rightarrow> uint \<Rightarrow> nat \<Rightarrow> memory \<Rightarrow> addr \<Rightarrow> uint \<Rightarrow> bool" where
  "block_at dev disk lba spb m p b \<longleftrightarrow> (\<exists>rest. length rest = 512 * (spb - 1) \<and>
     bytes_at m p (disk 0 (unat lba + spb * unat b) @ rest) \<and>
     (ready_between dev \<longrightarrow> disk 0 (unat lba + spb * unat b) @ rest = block_data disk lba spb b))"

lemma block_at_data:
  assumes "block_at dev disk lba spb m p b"
  shows "bytes_at m p (disk 0 (unat lba + spb * unat b))" "ready_between dev \<Longrightarrow> bytes_at m p (block_data disk lba spb b)"
proof -
  obtain rest where "bytes_at m p (disk 0 (unat lba + spb * unat b) @ rest)"
    "ready_between dev \<longrightarrow> disk 0 (unat lba + spb * unat b) @ rest = block_data disk lba spb b"
    using assms by (auto simp: block_at_def)
  then show "bytes_at m p (disk 0 (unat lba + spb * unat b))" "ready_between dev \<Longrightarrow> bytes_at m p (block_data disk lba spb b)"
    by (simp add: bytes_at_append, metis)
qed

lemma block_at_cong:
  assumes "block_at dev disk lba spb m p b" "\<And>x. x \<in> region p 4096 \<Longrightarrow> m' x = m x"
    and "\<And>k. length (disk 0 k) = 512" "0 < spb" "spb \<le> 8"
  shows "block_at dev disk lba spb m' p b"
proof -
  obtain rest where rest: "length rest = 512 * (spb - 1)" "bytes_at m p (disk 0 (unat lba + spb * unat b) @ rest)"
    "ready_between dev \<longrightarrow> disk 0 (unat lba + spb * unat b) @ rest = block_data disk lba spb b"
    using assms(1) by (auto simp: block_at_def)
  have "length (disk 0 (unat lba + spb * unat b) @ rest) = 512 * spb" using rest(1) assms(3,4) by (cases spb) simp_all
  then have sub: "region p (length (disk 0 (unat lba + spb * unat b) @ rest)) \<subseteq> region p 4096" using assms(5) by (intro region_mono) simp
  have "bytes_at m' p (disk 0 (unat lba + spb * unat b) @ rest) = bytes_at m p (disk 0 (unat lba + spb * unat b) @ rest)"
  proof (rule bytes_at_cong)
    show "m' x = m x" if "x \<in> region p (length (disk 0 (unat lba + spb * unat b) @ rest))" for x
      using assms(2) subsetD [OF sub that] .
  qed
  with rest show ?thesis unfolding block_at_def by blast
qed

lemma rd_data_ata:
  fixes s :: "'a ext2_scheme"
  assumes ata: "ata_reads dev disk" "\<And>k. length (disk 0 k) = 512"
    and spb: "bsize s div 512 = of_nat spb" "0 < spb" "spb \<le> 8" and b: "unat lba + spb * unat b < 268435456"
    and d: "region p 4096 \<inter> region (databuf B) 4096 = {}"
  shows "\<exists>h m. rd_data dev B lba b p s = Some (s\<lparr>io := h, mem := m\<rparr>) \<and> block_at dev disk lba spb m p b \<and>
    (\<forall>x. x \<in> region p 4096 \<or> x \<in> region (databuf B) 4096 \<or> m x = mem s x)"
proof -
  let ?d = "databuf B" and ?sec = "disk 0 (unat lba + spb * unat b)"
  have w: "blk_lba lba b s + 2 = of_nat (unat lba + spb * unat b)" by (simp add: blk_lba_def spb(1))
  then have u: "unat (blk_lba lba b s + 2) = unat lba + spb * unat b" using b by (simp add: unat_of_nat_small del: of_nat_add of_nat_mult)
  have n: "unat (bsize s div 512) = spb" using spb by (simp add: unat_of_nat_small)
  obtain h rest where h: "ext2_rd_block dev 0 (blk_lba lba b s) (bsize s div 512) ?d s =
      Some (s\<lparr>io := h, mem := st_bytes ?d (?sec @ rest) (mem s)\<rparr>)" and rest: "length rest = 512 * (spb - 1)"
      "ready_between dev \<longrightarrow> ?sec @ rest = block_data disk lba spb b"
    using ext2_rd_block_first [OF ata(1), of 0 "blk_lba lba b s" "bsize s div 512" ?d s] u n spb b by (auto simp: block_data_def)
  define bs where "bs = ?sec @ rest"
  have len: "length bs = 512 * spb" using ata(2) rest(1) spb(2) by (cases spb) (simp_all add: bs_def)
  let ?M = "st_bytes ?d bs (mem s)"
  have data: "bytes_of ?M ?d 4096 = bs @ bytes_of ?M (?d + of_nat (512 * spb)) (4096 - 512 * spb)"
  proof -
    have "bytes_of ?M ?d (512 * spb) = bs" using bytes_at_st_bytes [of bs ?d "mem s"] len spb(3) by (simp add: bytes_at_bytes_of)
    moreover have "[0..<4096] = [0..<512 * spb] @ [512 * spb..<4096]" using spb(3) upt_add_eq_append [of 0 "512 * spb" "4096 - 512 * spb"] by simp
    moreover have "map (\<lambda>i. ?M (?d + of_nat i)) [512 * spb..<4096] =
        map (\<lambda>i. ?M (?d + of_nat (512 * spb) + of_nat i)) [0..<4096 - 512 * spb]"
      using spb(3) by (intro nth_equalityI) (simp_all add: add.assoc del: of_nat_mult)
    ultimately show ?thesis unfolding bytes_of_def by simp
  qed
  let ?m = "copy_bytes 4096 p ?d ?M"
  have m: "?m = st_bytes p (bytes_of ?M ?d 4096) ?M" using d by (rule copy_bytes_st_bytes)
  have l4: "length (bytes_of ?M ?d 4096) = 4096" by (simp add: bytes_of_def)
  have "bytes_at ?m p (bytes_of ?M ?d 4096)" unfolding m using l4 by (intro bytes_at_st_bytes) simp
  then have "bytes_at ?m p bs" unfolding data bytes_at_append by simp
  then have "block_at dev disk lba spb ?m p b" unfolding block_at_def using rest by (auto simp: bs_def)
  moreover have "?m x = mem s x" if "x \<notin> region p 4096" "x \<notin> region ?d 4096" for x
  proof -
    have "x \<notin> region ?d (length bs)" using that(2) region_mono [of "512 * spb" 4096 ?d] len spb(3) by auto
    then show ?thesis unfolding m using that(1) l4 by (simp add: st_bytes_outside)
  qed
  moreover have "rd_data dev B lba b p s = Some (s\<lparr>io := h, mem := ?m\<rparr>)" by (simp add: rd_data_def h bs_def)
  ultimately show ?thesis by blast
qed

text \<open>The block pointers of an inode that are used, in order.\<close>

definition used_blocks :: "memory \<Rightarrow> addr \<Rightarrow> nat list \<Rightarrow> uint list" where
  "used_blocks m ino ks = filter (\<lambda>b. b \<noteq> 0) (map (\<lambda>k. ld32 m (i_block ino k)) ks)"

lemma used_blocks_Cons:
  "used_blocks m ino (k # ks) =
     (if ld32 m (i_block ino k) = 0 then used_blocks m ino ks else ld32 m (i_block ino k) # used_blocks m ino ks)"
  by (simp add: used_blocks_def)

lemma i_block_cong:
  assumes "\<And>x. x \<in> region ino 128 \<Longrightarrow> m' x = m x" "k < 15"
  shows "ld32 m' (i_block ino k) = ld32 m (i_block ino k)"
proof (rule ld32_cong)
  fix x assume "x \<in> region (i_block ino k) 4"
  moreover have "i_block ino k = ino + of_nat (40 + 4 * k)" by (simp add: i_block_def add.assoc)
  ultimately have "x \<in> region ino (40 + 4 * k + 4)" using region_offset [of ino "40 + 4 * k" 4] by auto
  then have "x \<in> region ino 128" using region_mono [of "40 + 4 * k + 4" 128 ino] assms(2) by auto
  then show "m' x = m x" by (rule assms(1))
qed

lemma used_blocks_cong:
  assumes "\<And>x. x \<in> region ino 128 \<Longrightarrow> m' x = m x" "\<forall>k \<in> set ks. k < 15"
  shows "used_blocks m' ino ks = used_blocks m ino ks"
  using i_block_cong [OF assms(1)] assms(2) by (simp add: used_blocks_def cong: map_cong)

lemma bsize_cong: "gbinfo s' = gbinfo s \<Longrightarrow> (\<And>x. x \<in> region (gbinfo s) 4 \<Longrightarrow> mem s' x = mem s x) \<Longrightarrow> bsize s' = bsize s"
  using ld32_cong [of "gbinfo s" "mem s'" "mem s"] by (simp add: bsize_def gb_bs_def)

lemma rd_direct_ata:
  fixes s :: "'a ext2_scheme"
  assumes ata: "ata_reads dev disk" "\<And>k. length (disk 0 k) = 512" and spb: "0 < spb" "spb \<le> 8"
  shows "bsize s div 512 = of_nat spb \<Longrightarrow> \<forall>k \<in> set ks. k < 15 \<Longrightarrow>
    \<forall>b \<in> set (used_blocks (mem s) ino ks). unat lba + spb * unat b < 268435456 \<Longrightarrow>
    length (used_blocks (mem s) ino ks) = n \<Longrightarrow> n \<le> 1000000 \<Longrightarrow>
    region p (4096 * n) \<inter> (region (databuf B) 4096 \<union> region ino 128 \<union> region (gbinfo s) 4) = {} \<Longrightarrow>
    region (databuf B) 4096 \<inter> (region ino 128 \<union> region (gbinfo s) 4) = {} \<Longrightarrow>
    \<exists>h m. rd_direct dev B lba ino ks p s = Some (p + of_nat (4096 * n), s\<lparr>io := h, mem := m\<rparr>) \<and>
      (\<forall>i < n. block_at dev disk lba spb m (p + of_nat (4096 * i)) (used_blocks (mem s) ino ks ! i)) \<and>
      (\<forall>x. x \<in> region p (4096 * n) \<or> x \<in> region (databuf B) 4096 \<or> m x = mem s x)"
proof (induction ks arbitrary: p s n)
  case Nil
  then show ?case by (intro exI [of _ "io s"] exI [of _ "mem s"]) (simp add: used_blocks_def)
next
  case (Cons k ks)
  let ?b = "ld32 (mem s) (i_block ino k)" and ?d = "databuf B"
  show ?case
  proof (cases "?b = 0")
    case True
    then show ?thesis using Cons by (simp add: used_blocks_Cons)
  next
    case False
    then obtain n' where n: "n = Suc n'" "length (used_blocks (mem s) ino ks) = n'"
      using Cons.prems(4) by (simp add: used_blocks_Cons)
    have split: "region p (4096 * n) = region p 4096 \<union> region (p + 4096) (4096 * n')"
      using region_split [of p 4096 "4096 * n'"] n(1) by (simp add: add.commute del: region_simps)
    have d: "region p 4096 \<inter> region ?d 4096 = {}" using Cons.prems(6) split by auto
    have b: "unat lba + spb * unat ?b < 268435456" using Cons.prems(3) False by (simp add: used_blocks_Cons)
    obtain h m where m: "rd_data dev B lba ?b p s = Some (s\<lparr>io := h, mem := m\<rparr>)"
      "block_at dev disk lba spb m p ?b" "\<forall>x. x \<in> region p 4096 \<or> x \<in> region ?d 4096 \<or> m x = mem s x"
      using rd_data_ata [OF ata Cons.prems(1) spb b d] by blast
    let ?s = "s\<lparr>io := h, mem := m\<rparr>"
    have keep: "m x = mem s x" if "x \<in> region ino 128 \<union> region (gbinfo s) 4" for x
      using m(3) Cons.prems(6,7) split that by blast
    then have u: "used_blocks m ino ks = used_blocks (mem s) ino ks" using Cons.prems(2) by (intro used_blocks_cong) auto
    have bs: "bsize ?s = bsize s" using keep by (intro bsize_cong) auto
    have "region (p + 4096) (4096 * n') \<inter> (region ?d 4096 \<union> region ino 128 \<union> region (gbinfo s) 4) = {}"
      using Cons.prems(6) split by blast
    then obtain h' m' where m': "rd_direct dev B lba ino ks (p + 4096) ?s = Some (p + 4096 + of_nat (4096 * n'), ?s\<lparr>io := h', mem := m'\<rparr>)"
      "\<forall>i < n'. block_at dev disk lba spb m' (p + 4096 + of_nat (4096 * i)) (used_blocks (mem s) ino ks ! i)"
      "\<forall>x. x \<in> region (p + 4096) (4096 * n') \<or> x \<in> region ?d 4096 \<or> m' x = m x"
      using Cons.IH [of ?s n' "p + 4096"] Cons.prems(1-3,5,7) n u bs by (auto simp: used_blocks_Cons False)
    have "region p 4096 \<inter> region (p + 4096) (4096 * n') = {}"
      using offsets_disjoint [of 0 4096 4096 "4096 * n'" p] Cons.prems(5) n(1) by (simp del: region_simps)
    then have "m' x = m x" if "x \<in> region p 4096" for x using m'(3) d that by blast
    then have first: "block_at dev disk lba spb m' p ?b" using block_at_cong [OF m(2) _ ata(2) spb] by blast
    have all: "block_at dev disk lba spb m' (p + of_nat (4096 * i)) (used_blocks (mem s) ino (k # ks) ! i)" if "i < n" for i
    proof (cases i)
      case 0
      then show ?thesis using first False by (simp add: used_blocks_Cons)
    next
      case (Suc j)
      then show ?thesis using m'(2) that n(1) False by (simp add: used_blocks_Cons add.assoc)
    qed
    have "rd_direct dev B lba ino (k # ks) p s = Some (p + of_nat (4096 * n), s\<lparr>io := h', mem := m'\<rparr>)"
      using False m(1) m'(1) n(1) by (simp add: add.assoc)
    moreover have "\<forall>x. x \<in> region p (4096 * n) \<or> x \<in> region ?d 4096 \<or> m' x = mem s x" using m(3) m'(3) split by (metis UnCI)
    ultimately show ?thesis using all by blast
  qed
qed

lemma bytes_at_concat:
  assumes "\<And>b. length (f b) = c"
  shows "\<forall>i < length xs. bytes_at m (p + of_nat (c * i)) (f (xs ! i)) \<Longrightarrow> bytes_at m p (concat (map f xs))"
proof (induction xs arbitrary: p)
  case (Cons x xs)
  have "bytes_at m (p + of_nat c + of_nat (c * i)) (f (xs ! i))" if "i < length xs" for i
    using Cons.prems [rule_format, of "Suc i"] that by (simp add: algebra_simps)
  then have "bytes_at m (p + of_nat c) (concat (map f xs))" by (intro Cons.IH) simp
  moreover have "bytes_at m p (f x)" using Cons.prems [rule_format, of 0] by simp
  ultimately show ?case by (simp add: bytes_at_append assms)
qed simp

text \<open>Where the reading of a file may write, and what it must leave alone.\<close>

definition file_room :: "ext2_bufs \<Rightarrow> addr \<Rightarrow> addr \<Rightarrow> nat \<Rightarrow> 'a ext2_scheme \<Rightarrow> bool" where
  "file_room B ino p n s \<longleftrightarrow>
     region p (4096 * n) \<inter> (region (databuf B) 4096 \<union> region ino 128 \<union> region (gbinfo s) 4) = {} \<and>
     region (databuf B) 4096 \<inter> (region ino 128 \<union> region (gbinfo s) 4) = {}"

section \<open>The superblock\<close>

definition le16 :: "byte list \<Rightarrow> nat \<Rightarrow> half" where "le16 bs i = ld16 (\<lambda>x. bs ! unat x) (of_nat i)"
definition le32 :: "byte list \<Rightarrow> nat \<Rightarrow> uint" where "le32 bs i = ld32 (\<lambda>x. bs ! unat x) (of_nat i)"

lemma bytes_at_le:
  assumes "bytes_at m a bs" "length bs < 65536"
  shows "i + 2 \<le> length bs \<Longrightarrow> ld16 m (a + of_nat i) = le16 bs i"
    "i + 4 \<le> length bs \<Longrightarrow> ld32 m (a + of_nat i) = le32 bs i"
proof -
  have b: "m (a + of_nat i + of_nat j) = bs ! unat (of_nat i + of_nat j :: addr)" if "i + j < length bs" for j
  proof -
    have "unat (of_nat (i + j) :: addr) = i + j" using that assms(2) by (intro unat_of_nat_small) simp
    then show ?thesis using bytes_at_nth [OF assms(1) that] by (simp add: add.assoc)
  qed
  show "i + 2 \<le> length bs \<Longrightarrow> ld16 m (a + of_nat i) = le16 bs i"
    using b [of 0] b [of 1] by (simp add: le16_def ld16_def)
  show "i + 4 \<le> length bs \<Longrightarrow> ld32 m (a + of_nat i) = le32 bs i"
    using b [of 0] b [of 1] b [of 2] b [of 3] by (simp add: le32_def ld32_def)
qed

definition valid_super :: "byte list \<Rightarrow> bool" where
  "valid_super sb \<longleftrightarrow> le16 sb 56 = EXT2_MAGIC \<and> le32 sb 24 \<in> {0, 1, 2}"

lemma units_super_block: "unat (nunits_of sizeof_super_block) = 129"
  by (simp add: unat_nunits)

text \<open>The group descriptors are in the block behind the one of the superblock.\<close>

definition descriptor_sector :: "nat \<Rightarrow> nat" where
  "descriptor_sector bs = (if bs = 1024 then 2 else 1) * (bs div 512)"

lemma two_words:
  assumes "ld32 m (g + 4) = x"
  shows "ld32 (st32 g v m) (g + 4) = x" "ld32 (st32 (g + 4) w m') g = ld32 m' g"
  using ld32_field [of 4 0 g v m] ld32_field [of 0 4 g w m'] assms by simp_all

lemma ext2_rd_superblock_ok:
  fixes s :: "'a ext2_scheme"
  assumes ata: "ata_reads dev disk" "drive = 0 \<or> drive = 1" "unat (lba + 2) < 268435456" "\<And>k. length (disk drive k) = 512"
    and sb: "sb = disk drive (unat (lba + 2))" "valid_super sb"
    and room: "kroom s L (129 + k)" "0 < k" and g: "region (gbinfo s) 8 \<inter> kernel_area = {}"
  shows "\<exists>a h m b f. ext2_rd_superblock dev drive lba s =
      Some (SUCCESS, s\<lparr>mem := m, io := h, heap_base := b, freep := f, ext2super := a\<rparr>) \<and> a \<notin> L \<and>
    kroom (s\<lparr>mem := m, io := h, heap_base := b, freep := f, ext2super := a\<rparr>) (insert a L) k \<and>
    region a 1024 \<subseteq> payload m a \<and> bytes_at m a sb \<and> (ready_between dev \<longrightarrow> bytes_at m a (sectors disk drive (unat (lba + 2)) 2)) \<and>
    ld32 m (gb_bs (gbinfo s)) = push_bit (unat (le32 sb 24)) 1024 \<and>
    unat (ld32 m (gb_gdoffset (gbinfo s)) + 2) = descriptor_sector (unat (ld32 m (gb_bs (gbinfo s)))) \<and>
    (\<forall>c \<in> L. payload m c = payload (mem s) c \<and> (\<forall>x \<in> payload (mem s) c. m x = mem s x)) \<and>
    (\<forall>x. x \<in> kernel_area \<or> x \<in> region (gbinfo s) 8 \<or> m x = mem s x)"
proof -
  have rm: "kroom s L (unat (nunits_of sizeof_super_block) + k)" using room(1) units_super_block by simp
  have lt: "unat sizeof_super_block + 7 < 4294967296" by simp
  obtain a s1 where a: "kmalloc sizeof_super_block s = Some (a, s1)" "a \<noteq> NULL" "a \<notin> L" "kroom s1 (insert a L) k"
    "region a 1024 \<subseteq> payload (mem s1) a"
    "\<And>c. c \<in> L \<Longrightarrow> payload (mem s1) c = payload (mem s) c \<and> (\<forall>x \<in> payload (mem s) c. mem s1 x = mem s x)"
    using kroom.new_block [OF rm room(2) lt] by auto
  obtain m0 f b where s1: "s1 = s\<lparr>mem := m0, heap_base := b, freep := f\<rparr>" using kmalloc_upd [OF a(1)] by blast
  obtain h rest where rd': "read_disk_sector dev a drive (lba + 2) 2 s1 = Some (IDE_ERR_NOERROR, s1\<lparr>io := h, mem := st_bytes a (sb @ rest) m0\<rparr>)"
    and rest: "length rest = 512" "ready_between dev \<longrightarrow> rest = disk drive (Suc (unat (lba + 2)))"
    using read_sector_first [OF ata(1-3), of 2 a s1] sb(1) by (auto simp: read_disk_sector_def s1)
  define full where "full = sb @ rest"
  let ?g = "gbinfo s" and ?M = "st_bytes a full m0"
  note rd = rd' [folded full_def]
  have len: "length full = 1024" "length sb = 512" using ata(4) rest(1) by (simp_all add: full_def sb(1))
  have whole: "ready_between dev \<longrightarrow> full = sectors disk drive (unat (lba + 2)) 2"
    using rest(2) by (simp add: full_def sb(1) sectors_def upt_rec)
  have own: "?M x = mem s1 x" if "x \<notin> payload (mem s1) a" for x
    using that a(5) len by (subst st_bytes_outside) (auto simp: s1)
  note w1 = kroom_write [OF a(4) insertI1 own]
  let ?bs = "push_bit (unat (le32 sb 24)) 1024 :: uint"
  let ?gd = "if ?bs = 1024 then 2 else if ?bs = 4096 then 6 else (2 :: uint)"
  let ?m = "st32 (?g + 4) ?gd (st32 ?g ?bs ?M)"
  have outg: "?m x = ?M x" if "x \<notin> region ?g 8" for x
  proof -
    have "region ?g 4 \<subseteq> region ?g 8" "region (?g + 4) 4 \<subseteq> region ?g 8"
      using region_mono [of 4 8 ?g] region_offset [of ?g 4 4] by auto
    then have "x \<notin> region ?g 4" "x \<notin> region (?g + 4) 4" using that by blast+
    then show ?thesis by (simp add: st32_outside)
  qed
  have out: "?m x = ?M x" if "x \<in> kernel_area" for x using g that by (intro outg) blast
  have w2: "kroom (s1\<lparr>mem := ?m\<rparr>) (insert a L) k" "\<And>c. c \<in> insert a L \<Longrightarrow> payload ?m c = payload ?M c"
    using kroom.room_elsewhere [OF w1(1), of ?m] out by auto
  have pa: "region a 1024 \<subseteq> payload ?m a" using w2(2) [of a] w1(2) [of a] a(5) by simp
  have fullM: "bytes_at ?M a full" using len by (simp add: bytes_at_st_bytes)
  have full: "bytes_at ?m a full"
  proof -
    have "region a (length full) \<subseteq> kernel_area" using kroom.usable_area [OF w2(1), of a] pa len by auto
    then have "bytes_at ?m a full \<longleftrightarrow> bytes_at ?M a full" using out by (intro bytes_at_cong) blast
    then show ?thesis using fullM by simp
  qed
  have sba: "bytes_at ?m a sb" using full [unfolded full_def bytes_at_append] unfolding full_def by (rule conjunct1)
  have all: "ready_between dev \<longrightarrow> bytes_at ?m a (sectors disk drive (unat (lba + 2)) 2)"
  proof
    assume "ready_between dev"
    with whole have "full = sectors disk drive (unat (lba + 2)) 2" by (rule mp)
    then show "bytes_at ?m a (sectors disk drive (unat (lba + 2)) 2)" using full by (rule subst)
  qed
  have bM: "bytes_at ?M a sb" using fullM by (simp add: full_def bytes_at_append)
  have ld: "ld16 ?M (a + 56) = EXT2_MAGIC" "ld32 ?M (a + 24) = le32 sb 24"
    using bytes_at_le [OF bM, of 56] bytes_at_le [OF bM, of 24] len sb(2) by (simp_all add: valid_super_def)
  have and31: "le32 sb 24 AND 31 = le32 sb 24" and bs3: "?bs \<in> {1024, 2048, 4096}"
    using sb(2) by (auto simp: valid_super_def)
  let ?s' = "s\<lparr>mem := ?m, io := h, heap_base := b, freep := f, ext2super := a\<rparr>"
  have run: "ext2_rd_superblock dev drive lba s = Some (SUCCESS, ?s')"
    using ld by (simp add: ext2_rd_superblock_def a(1) s1 rd [unfolded s1] sb_magic_def sb_log_block_size_def gb_bs_def gb_gdoffset_def Let_def and31)
  have kr: "kroom ?s' (insert a L) k" using w2(1) kroom_cong [of ?s' "s1\<lparr>mem := ?m\<rparr>"] by (simp add: s1)
  have vb: "ld32 ?m (gb_bs ?g) = ?bs" using two_words(2) [OF refl, of ?g ?gd "st32 ?g ?bs ?M"] by (simp add: gb_bs_def)
  have vg: "unat (ld32 ?m (gb_gdoffset ?g) + 2) = descriptor_sector (unat (ld32 ?m (gb_bs ?g)))"
    unfolding vb using bs3 by (auto simp: gb_gdoffset_def descriptor_sector_def)
  have fr: "payload ?m c = payload (mem s) c \<and> (\<forall>x \<in> payload (mem s) c. ?m x = mem s x)" if c: "c \<in> L" for c
  proof -
    have ca: "c \<noteq> a" using a(3) c by blast
    have p: "payload ?M c = payload (mem s) c" using w1(2) [of c] a(6) [OF c] c by simp
    moreover have "?m x = mem s x" if x: "x \<in> payload (mem s) c" for x
    proof -
      have "x \<in> kernel_area" using kroom.usable_area [OF w2(1), of c] w2(2) [of c] p c x by auto
      then have "?m x = ?M x" by (rule out)
      also have "\<dots> = mem s1 x" using w1(3) [of c x] c ca a(6) [OF c] x by simp
      finally show ?thesis using a(6) [OF c] x by simp
    qed
    ultimately show ?thesis using w2(2) [of c] c by simp
  qed
  have el: "\<forall>x. x \<in> kernel_area \<or> x \<in> region ?g 8 \<or> ?m x = mem s x"
  proof (intro allI disjCI)
    fix x assume x: "\<not> (x \<in> region ?g 8 \<or> ?m x = mem s x)"
    show "x \<in> kernel_area"
    proof (rule ccontr)
      assume n: "x \<notin> kernel_area"
      then have "?M x = mem s1 x" using own [of x] kroom.usable_area [OF a(4), of a] by blast
      then show False using outg [of x] kmalloc_outside [OF rm room(2) a(1) n] x by simp
    qed
  qed
  show ?thesis
    by (rule exI [of _ a], rule exI [of _ h], rule exI [of _ ?m], rule exI [of _ b], rule exI [of _ f])
      (intro conjI ballI run a(3) kr pa sba all vb vg el; insert fr; blast)
qed

section \<open>Properties\<close>

text \<open>
  C31: \<open>inode_to_lba\<close> and \<open>get_index\<close> agree with the layout of ext2. For an inode that is not the last of its group and
  lies in a group below 729 (the list of groups in the source ends there, see \<open>backup_group_729_missed\<close>), in a file system with
  block size 1024, 2048 or 4096 and superblock copies in the groups 0, 1 and the powers of 3, 5 and 7, whose group lies low
  enough that the driver's products stay below \<open>2 ^ 32\<close>, \<open>inode_to_lba\<close> is the sector of the inode table that holds the
  inode (less the two sectors that \<open>ext2_rd_block\<close> adds), and \<open>get_index\<close> its place among the four inodes of that sector.
\<close>

theorem inode_to_lba_reference:
  fixes s :: "'a ext2_scheme" and inode :: uint
  defines "ipg \<equiv> unat (ld32 (mem s) (sb_inodes_per_group (ext2super s)))"
    and "bpg \<equiv> unat (ld32 (mem s) (sb_blocks_per_group (ext2super s)))"
    and "t0 \<equiv> unat (ld32 (mem s) (gr_inode_table (grblock s)))" and "bs \<equiv> unat (bsize s)" and "I \<equiv> unat inode"
  assumes bs: "bs \<in> {1024, 2048, 4096}" and I: "I mod ipg \<noteq> 0" "I div ipg < 729" "0 < ipg" "ipg < 2147483648"
    and room: "(I div ipg * bpg + t0 + 2) * (bs div 128) + ipg < 4294967296"
  shows "map_option (\<lambda>x. x + SUPER_BLOCK_OFFSET) (inode_to_lba inode s) = Some (of_nat (inode_sector bs bpg ipg t0 I)) \<and>
    get_index inode s = Some (int ((I - 1) mod ipg mod 4))"
  using inode_to_lba_sector [of s inode] get_index_nth [of s inode] assms by auto

text \<open>
  the last inode of each group cannot be reached: its index comes out as -1, and \<open>ext2_load_file\<close> goes on with
  a pointer before its buffer.
\<close>

theorem last_inode_of_group_lost:
  fixes s :: "'a ext2_scheme" and inode :: uint
  defines "ipg \<equiv> unat (ld32 (mem s) (sb_inodes_per_group (ext2super s)))"
  assumes "0 < ipg" "ipg < 2147483648" "ipg dvd unat inode"
  shows "get_index inode s = Some (-1)"
  using get_index_nth [of s inode] assms by auto

text \<open>
  C32: \<open>ext2_rd_file\<close> of a file without indirect blocks, on a drive that meets the register-level contract: for every used
  pointer of the inode, in order, the block it names is stored at a distance of 4096 bytes from the one before, and apart from the blocks
  only the block buffer is written. The first sector of each block is right in any case; the others, which the driver reads without
  waiting for the drive, are right if the drive is ready between the sectors. With blocks of 4096 bytes this is then the contents of the
  file in one piece; with smaller blocks each is followed by what the buffer held before.
\<close>

theorem ext2_rd_file_direct:
  fixes s :: "'a ext2_scheme"
  assumes ata: "ata_reads dev disk" "\<And>k. length (disk 0 k) = 512"
    and bs: "bsize s \<in> {1024, 2048, 4096}" and "spb = unat (bsize s) div 512"
    and "bls = used_blocks (mem s) ino [0..<12]"
    and direct: "ld32 (mem s) (i_block ino 12) = 0" "ld32 (mem s) (i_block ino 13) = 0"
    and near: "\<forall>b \<in> set bls. unat lba + spb * unat b < 268435456" and room: "file_room B ino p (length bls) s"
  shows "\<exists>s'. ext2_rd_file dev B lba ino p s = Some (SUCCESS, s') \<and>
    (\<forall>i < length bls. bytes_at (mem s') (p + of_nat (4096 * i)) (disk 0 (unat lba + spb * unat (bls ! i)))) \<and>
    (ready_between dev \<longrightarrow> (\<forall>i < length bls. bytes_at (mem s') (p + of_nat (4096 * i)) (block_data disk lba spb (bls ! i)))) \<and>
    (ready_between dev \<and> bsize s = 4096 \<longrightarrow> bytes_at (mem s') p (concat (map (block_data disk lba 8) bls))) \<and>
    (\<forall>x. x \<in> region p (4096 * length bls) \<or> x \<in> region (databuf B) 4096 \<or> mem s' x = mem s x)"
proof -
  have w: "bsize s div 512 = of_nat spb" "0 < spb" "spb \<le> 8" using assms(3,4) by auto
  have n: "length bls \<le> 1000000"
    using length_filter_le [of "\<lambda>b. b \<noteq> 0" "map (\<lambda>k. ld32 (mem s) (i_block ino k)) [0..<12]"] assms(5) by (simp add: used_blocks_def)
  obtain h m where m: "rd_direct dev B lba ino [0..<12] p s = Some (p + of_nat (4096 * length bls), s\<lparr>io := h, mem := m\<rparr>)"
    "\<forall>i < length bls. block_at dev disk lba spb m (p + of_nat (4096 * i)) (bls ! i)"
    "\<forall>x. x \<in> region p (4096 * length bls) \<or> x \<in> region (databuf B) 4096 \<or> m x = mem s x"
    using rd_direct_ata [OF ata w(2,3,1), of "[0..<12]" ino lba "length bls" p B] near n room unfolding assms(5) file_room_def by auto
  have keep: "m x = mem s x" if "x \<in> region ino 128" for x using m(3) room that unfolding file_room_def by blast
  have "ld32 m (i_block ino 12) = 0" "ld32 m (i_block ino 13) = 0"
    using i_block_cong [of ino m "mem s" 12, OF keep] i_block_cong [of ino m "mem s" 13, OF keep] direct by simp_all
  then have "ext2_rd_file dev B lba ino p s = Some (SUCCESS, s\<lparr>io := h, mem := m\<rparr>)"
    by (simp add: ext2_rd_file_def m(1) del: upt_Suc upt_rec_numeral)
  moreover have "bytes_at m p (concat (map (block_data disk lba 8) bls))" if "ready_between dev" "bsize s = 4096"
  proof (rule bytes_at_concat)
    show "length (block_data disk lba 8 b) = 4096" for b using ata(2) by (simp add: block_data_def length_sectors)
    have "spb = 8" using that(2) assms(4) by simp
    then show "\<forall>i < length bls. bytes_at m (p + of_nat (4096 * i)) (block_data disk lba 8 (bls ! i))"
      using m(2) block_at_data(2) [OF _ that(1)] by blast
  qed
  ultimately show ?thesis using m(2,3) block_at_data by (intro exI [of _ "s\<lparr>io := h, mem := m\<rparr>"]) auto
qed

text \<open>
  mounting reads the superblock. On a drive that meets the register-level contract and holds an ext2 superblock with
  a block size of 1024, 2048 or 4096 in the third and fourth sector of the partition, \<open>ext2_rd_superblock\<close> returns
  \<open>SUCCESS\<close>, leaves the first half of the superblock, with all that the driver uses, in a fresh block behind \<open>ext2super\<close>, and
  the second half, too, if the drive is ready between the sectors, stores the block size and the place of the group
  descriptors, which is the block behind the one of the superblock, and touches no live block.
\<close>

theorem ext2_rd_superblock_loads:
  fixes s :: "'a ext2_scheme"
  assumes "ata_reads dev disk" "drive = 0 \<or> drive = 1" "unat (lba + 2) < 268435456" "\<And>k. length (disk drive k) = 512"
    and "sb = disk drive (unat (lba + 2))" "valid_super sb"
    and "kroom s L (129 + k)" "0 < k" and "region (gbinfo s) 8 \<inter> kernel_area = {}"
  shows "\<exists>a h m b f. ext2_rd_superblock dev drive lba s =
      Some (SUCCESS, s\<lparr>mem := m, io := h, heap_base := b, freep := f, ext2super := a\<rparr>) \<and> a \<notin> L \<and>
    kroom (s\<lparr>mem := m, io := h, heap_base := b, freep := f, ext2super := a\<rparr>) (insert a L) k \<and>
    region a 1024 \<subseteq> payload m a \<and> bytes_at m a sb \<and> (ready_between dev \<longrightarrow> bytes_at m a (sectors disk drive (unat (lba + 2)) 2)) \<and>
    ld32 m (gb_bs (gbinfo s)) = push_bit (unat (le32 sb 24)) 1024 \<and>
    unat (ld32 m (gb_gdoffset (gbinfo s)) + 2) = descriptor_sector (unat (ld32 m (gb_bs (gbinfo s)))) \<and>
    (\<forall>c \<in> L. payload m c = payload (mem s) c \<and> (\<forall>x \<in> payload (mem s) c. m x = mem s x))"
  using ext2_rd_superblock_ok [OF assms] by blast

section \<open>Witnesses\<close>

definition demo_ext2 :: ext2 where
  "demo_ext2 = kmalloc_init (fsys.extend (fsys.truncate (demo_fsys\<lparr>freep := NULL\<rparr>))
     \<lparr>ext2super = 0x1000, gbinfo = 0, grblock = 0x2000, intab = [0, 0, 0, 0], intab1 = [0, 0, 0, 0], direntry = 0, sind = 0,
      dind = 0, ext2_file_prop = 0, ext2_temp = 0, item_index = 0, nam_index = 0, prev_inode = 2\<rparr>)"

definition demo_bufs :: ext2_bufs where
  "demo_bufs = \<lparr>groupdescr = 0x90000, inodebuff = 0x91000, dirbuf = 0x92000, indbuf = 0x93000, databuf = 0x94000,
     indirectbuf = 0x95000, indirect2buf = 0x96000, load_inodebuff = 0x97000, path_argtable = 0x98000, path_sc = 0x99000\<rparr>"

lemma demo_ext2_room: "kroom demo_ext2 {} 0x1C0000"
  unfolding demo_ext2_def by (rule kroom_boot) (simp add: fsys.defs)

lemma demo_ext2_simps [simp]:
  "ext2super demo_ext2 = 0x1000" "gbinfo demo_ext2 = 0" "grblock demo_ext2 = 0x2000"
  by (simp_all add: demo_ext2_def kmalloc_init_def fsys.defs)

text \<open>A file system with blocks of 1024 bytes, 2048 inodes in a group of 8192 blocks, the first inode table in block 5.\<close>

definition demo_fs_mem :: memory where
  "demo_fs_mem = st32 0x2008 5 (st32 0x1028 2048 (st32 0x1020 8192 (st32 0 1024 (\<lambda>_. 0))))"

lemma demo_fs_mem:
  "ld32 demo_fs_mem 0x2008 = 5" "ld32 demo_fs_mem 0x1028 = 2048" "ld32 demo_fs_mem 0x1020 = 8192" "ld32 demo_fs_mem 0 = 1024"
  by (simp_all add: demo_fs_mem_def ld32_def st32_def)

lemma not_backup_2: "\<not> has_backup 2"
  using backup_groups_below [of 2] by (simp add: backup_groups_def)

theorem inode_to_lba_reference_witness:
  "map_option (\<lambda>x. x + 2) (inode_to_lba 5000 (demo_ext2\<lparr>mem := demo_fs_mem\<rparr>)) = Some 32999 \<and>
   get_index 5000 (demo_ext2\<lparr>mem := demo_fs_mem\<rparr>) = Some 3"
proof -
  let ?s = "demo_ext2\<lparr>mem := demo_fs_mem\<rparr>"
  have v: "ld32 (mem ?s) (sb_inodes_per_group (ext2super ?s)) = 2048" "ld32 (mem ?s) (sb_blocks_per_group (ext2super ?s)) = 8192"
    "ld32 (mem ?s) (gr_inode_table (grblock ?s)) = 5" "bsize ?s = 1024"
    by (simp_all add: ext2_offsets bsize_def demo_fs_mem)
  have "inode_sector 1024 8192 2048 5 5000 = 32999" by (simp add: inode_sector_def table_block_def not_backup_2)
  then show ?thesis using inode_to_lba_reference [of ?s 5000] unfolding v by simp
qed

text \<open>The bound on the groups is needed: the list in the source ends below \<open>3 ^ 6 = 729\<close>. In group 729 of this file system the
  driver looks for the inode table two blocks too early.\<close>

lemma backup_group_729_missed:
  "has_backup 729 \<and> 729 \<notin> set backup_groups \<and>
   inode_sector 1024 8192 2048 5 (729 * 2048 + 1) = 11943946 \<and>
   map_option (\<lambda>x. x + 2) (inode_to_lba (729 * 2048 + 1) (demo_ext2\<lparr>mem := demo_fs_mem\<rparr>)) = Some 11943942"
proof -
  have b: "has_backup 729" unfolding has_backup_def by (rule disjI2, rule exI [of _ 6]) simp
  then have "inode_sector 1024 8192 2048 5 (729 * 2048 + 1) = 11943946" by (simp add: inode_sector_def table_block_def)
  moreover have "(729 :: uint) \<notin> set backup_groups" by (simp add: backup_groups_def)
  moreover have "ld32 (mem s) (sb_inodes_per_group (ext2super s)) = 2048" "ld32 (mem s) (sb_blocks_per_group (ext2super s)) = 8192"
    "ld32 (mem s) (gr_inode_table (grblock s)) = 5" "bsize s = 1024" if "s = demo_ext2\<lparr>mem := demo_fs_mem\<rparr>" for s
    using that by (simp_all add: ext2_offsets bsize_def demo_fs_mem)
  ultimately show ?thesis using b by (simp add: inode_to_lba_def Let_def)
qed

theorem last_inode_of_group_lost_witness:
  "get_index 4096 (demo_ext2\<lparr>mem := demo_fs_mem\<rparr>) = Some (-1)"
  using last_inode_of_group_lost [of "demo_ext2\<lparr>mem := demo_fs_mem\<rparr>" 4096] by (simp add: ext2_offsets demo_fs_mem)

definition demo_sectors :: "int \<Rightarrow> nat \<Rightarrow> byte list" where
  "demo_sectors d k = replicate 512 (of_nat k)"

theorem ext2_rd_file_direct_witness:
  "\<exists>s'. ext2_rd_file (ata_dev demo_sectors) demo_bufs 63 0x3000 0x100000 (demo_ext2\<lparr>mem := st32 0x3028 20 (st32 0 4096 (\<lambda>_. 0))\<rparr>) =
      Some (SUCCESS, s') \<and> bytes_at (mem s') 0x100000 (concat (map (demo_sectors 0) [223..<231]))"
proof -
  let ?s = "demo_ext2\<lparr>mem := st32 0x3028 20 (st32 0 4096 (\<lambda>_. 0))\<rparr>"
  have ata: "ata_reads (ata_dev demo_sectors) demo_sectors" "\<And>k. length (demo_sectors 0 k) = 512"
    by (rule ata_dev_reads) (simp_all add: demo_sectors_def)
  have v: "bsize ?s = 4096" "ld32 (mem ?s) (i_block 0x3000 12) = 0" "ld32 (mem ?s) (i_block 0x3000 13) = 0"
    "used_blocks (mem ?s) 0x3000 [0..<12] = [20]"
    by (simp_all add: bsize_def ext2_offsets used_blocks_def ld32_def st32_def upt_rec)
  have d: "region 0x100000 4096 \<inter> region (0x94000 :: addr) 4096 = {}" "region 0x100000 4096 \<inter> region (0x3000 :: addr) 128 = {}"
    "region 0x100000 4096 \<inter> region (0 :: addr) 4 = {}" "region 0x94000 4096 \<inter> region (0x3000 :: addr) 128 = {}"
    "region 0x94000 4096 \<inter> region (0 :: addr) 4 = {}"
    by (auto simp: region_iff)
  have room: "file_room demo_bufs 0x3000 0x100000 (length [20 :: uint]) ?s"
    using d by (simp add: file_room_def demo_bufs_def Int_Un_distrib)
  have data: "block_data demo_sectors 63 8 20 = concat (map (demo_sectors 0) [223..<231])"
    by (simp add: block_data_def sectors_def del: upt_Suc upt_rec_numeral)
  have bs: "bsize ?s \<in> {1024, 2048, 4096}" "8 = unat (bsize ?s) div 512" using v(1) by simp_all
  have near: "\<forall>b \<in> set [20]. unat (63 :: uint) + 8 * unat (b :: uint) < 268435456" by simp
  obtain s' where "ext2_rd_file (ata_dev demo_sectors) demo_bufs 63 0x3000 0x100000 ?s = Some (SUCCESS, s')"
    "bsize ?s = 4096 \<longrightarrow> bytes_at (mem s') 0x100000 (concat (map (block_data demo_sectors 63 8) [20]))"
    using ext2_rd_file_direct [OF ata bs v(4) [symmetric] v(2,3) near room] ata_dev_ready [of demo_sectors] v(1) by blast
  then show ?thesis using v(1) data by (simp del: upt_Suc upt_rec_numeral)
qed

definition demo_super :: "byte list" where
  "demo_super = map (\<lambda>i. if i = 56 then 0x53 else if i = 57 then 0xEF else 0) [0..<1024]"

definition demo_super_disk :: "int \<Rightarrow> nat \<Rightarrow> byte list" where
  "demo_super_disk d k = (if k = 65 then take 512 demo_super else if k = 66 then drop 512 demo_super else replicate 512 0)"

theorem ext2_rd_superblock_loads_witness:
  "\<exists>s'. ext2_rd_superblock (ata_dev demo_super_disk) 0 63 demo_ext2 = Some (SUCCESS, s') \<and> bytes_at (mem s') (ext2super s') demo_super \<and>
     bsize s' = 1024"
proof -
  have len: "length demo_super = 1024" by (simp add: demo_super_def)
  have ata: "ata_reads (ata_dev demo_super_disk) demo_super_disk"
    by (rule ata_dev_reads) (simp add: demo_super_disk_def len)
  have u: "unat (63 + 2 :: uint) = 65" "unat (63 + 2 :: uint) < 268435456" by simp_all
  have k: "length (demo_super_disk 0 k) = 512" for k by (simp add: demo_super_disk_def len)
  have sb: "take 512 demo_super = demo_super_disk 0 (unat (63 + 2 :: uint))" and
    all: "sectors demo_super_disk 0 (unat (63 + 2 :: uint)) 2 = demo_super"
    unfolding u(1) by (simp_all add: sectors_def demo_super_disk_def upt_rec)
  have nth: "demo_super ! i = (if i = 56 then 0x53 else if i = 57 then 0xEF else 0)" if "i < 1024" for i
    using that by (simp add: demo_super_def del: upt_Suc)
  have v: "valid_super (take 512 demo_super)" "le32 (take 512 demo_super) 24 = 0"
    by (simp_all add: valid_super_def len le16_def le32_def ld16_def ld32_def nth)
  have g: "region (gbinfo demo_ext2) 8 \<inter> kernel_area = {}" by (auto simp: region_iff kernel_area_def)
  have "kroom demo_ext2 {} (129 + 1)" using demo_ext2_room by (rule kroom_mono) simp
  from ext2_rd_superblock_loads [OF ata _ u(2) k sb v(1) this _ g] obtain a h m b f where
    "ext2_rd_superblock (ata_dev demo_super_disk) 0 63 demo_ext2 =
      Some (SUCCESS, demo_ext2\<lparr>mem := m, io := h, heap_base := b, freep := f, ext2super := a\<rparr>)"
    "bytes_at m a demo_super" "ld32 m (gb_bs (gbinfo demo_ext2)) = push_bit (unat (le32 (take 512 demo_super) 24)) 1024"
    using ata_dev_ready [of demo_super_disk] unfolding all by auto
  then show ?thesis by (simp add: bsize_def v(2))
qed

end
