(* ===== verification/Fat32.thy ===== *)
theory Fat32
  imports Ext2
begin

text \<open>
  The FAT32 module, \<open>src/fs/vfat_module/fat32.c\<close>. The module is linked with its own copies of the disk, string and storage
  routines and of the variables they use (\<open>current_lba\<close>, \<open>current_drive\<close>, \<open>current_cluster\<close>); the record stands for those copies. Its storage allocator comes from an
  object file, \<open>dep/kmalloc.o\<close>, with bounds of its own, and is the parameter \<open>alloc\<close> here. Local arrays are their addresses on the stack,
  collected in \<open>fat_bufs\<close>; those of a function that calls itself depend on the depth of the call. A result of \<open>None\<close> inside a pair is that of
  a \<open>return\<close> without a value.
\<close>

section \<open>fat32.h\<close>

record fat = fsys +
  fat_item_count :: int
  fat_nam_index :: int
  fat_file_prop :: addr
  fat_temp :: addr
  fat32boot :: addr
  fat32dir :: addr
  fat32longdir :: addr
  d_time :: addr
  d_date :: addr
  FAT :: addr
  fat_begin_lba :: uint
  cluster_begin_lba :: uint
  sectors_per_cluster :: byte
  root_dir_first_cluster :: uint
  prev_cluster :: int

type_synonym 'a fat_alloc = "uint \<Rightarrow> 'a fat_scheme \<Rightarrow> (addr \<times> 'a fat_scheme) option"

record fat_bufs =
  FAT_entry :: addr
  bootsec :: addr
  cluster_direntry :: "nat \<Rightarrow> addr"
  mmap_data :: "nat \<Rightarrow> addr"
  fat_argtable :: addr
  fat_sc :: addr

abbreviation DIRENT_PER_SECTOR :: nat where "DIRENT_PER_SECTOR \<equiv> 16"
abbreviation LONG_NAME :: int where "LONG_NAME \<equiv> 1"
abbreviation SHORT_NAME :: int where "SHORT_NAME \<equiv> 0"
abbreviation FAT_ATTR_READ_ONLY :: byte where "FAT_ATTR_READ_ONLY \<equiv> 0x01"
abbreviation FAT_ATTR_HIDDEN :: byte where "FAT_ATTR_HIDDEN \<equiv> 0x02"
abbreviation FAT_ATTR_SYSTEM :: byte where "FAT_ATTR_SYSTEM \<equiv> 0x04"
abbreviation FAT_ATTR_VOLUME_ID :: byte where "FAT_ATTR_VOLUME_ID \<equiv> 0x08"
abbreviation FAT_ATTR_DIRECTORY :: byte where "FAT_ATTR_DIRECTORY \<equiv> 0x10"
abbreviation FAT_ATTR_ARCHIVE :: byte where "FAT_ATTR_ARCHIVE \<equiv> 0x20"
definition FAT_ATTR_FILE :: byte where
  "FAT_ATTR_FILE = (FAT_ATTR_READ_ONLY OR FAT_ATTR_HIDDEN OR FAT_ATTR_SYSTEM OR FAT_ATTR_ARCHIVE)"
abbreviation FAT_EOF_MARKER :: uint where "FAT_EOF_MARKER \<equiv> 0x0FFFFFFF"
abbreviation CLU_PER_FAT :: uint where "CLU_PER_FAT \<equiv> 0x80"

abbreviation BAD_FAT_BOOT_SECTOR :: int where "BAD_FAT_BOOT_SECTOR \<equiv> -11"

definition CLUSTER_TO_LBA :: "uint \<Rightarrow> 'a fat_scheme \<Rightarrow> uint" where
  "CLUSTER_TO_LBA e s = (e - 2) * ucast (sectors_per_cluster s) + cluster_begin_lba s"

abbreviation sizeof_fat_file_properties :: uint where "sizeof_fat_file_properties \<equiv> 272"

definition fa_st_clust :: "addr \<Rightarrow> addr" where "fa_st_clust p = p"
definition fa_size :: "addr \<Rightarrow> addr" where "fa_size p = p + 4"
definition fa_file_type :: "addr \<Rightarrow> addr" where "fa_file_type p = p + 8"
definition fa_filename :: "addr \<Rightarrow> addr" where "fa_filename p = p + 12"
definition fa_next :: "addr \<Rightarrow> addr" where "fa_next p = p + 268"

definition fb_sectors_per_cluster :: "addr \<Rightarrow> addr" where "fb_sectors_per_cluster b = b + 13"
definition fb_num_boot_sectors :: "addr \<Rightarrow> addr" where "fb_num_boot_sectors b = b + 14"
definition fb_num_fats :: "addr \<Rightarrow> addr" where "fb_num_fats b = b + 16"
definition fb_big_sectors_per_FAT :: "addr \<Rightarrow> addr" where "fb_big_sectors_per_FAT b = b + 36"
definition fb_root_directory_start :: "addr \<Rightarrow> addr" where "fb_root_directory_start b = b + 44"
definition fb_magic :: "addr \<Rightarrow> addr" where "fb_magic b = b + 510"

definition fd_name :: "addr \<Rightarrow> nat \<Rightarrow> addr" where "fd_name d j = d + of_nat j"
definition fd_ext :: "addr \<Rightarrow> nat \<Rightarrow> addr" where "fd_ext d j = d + 8 + of_nat j"
definition fd_attrib :: "addr \<Rightarrow> addr" where "fd_attrib d = d + 11"
definition fd_st_clust_msw :: "addr \<Rightarrow> addr" where "fd_st_clust_msw d = d + 20"
definition fd_mtime :: "addr \<Rightarrow> addr" where "fd_mtime d = d + 22"
definition fd_mdate :: "addr \<Rightarrow> addr" where "fd_mdate d = d + 24"
definition fd_st_clust :: "addr \<Rightarrow> addr" where "fd_st_clust d = d + 26"
definition fd_file_size :: "addr \<Rightarrow> addr" where "fd_file_size d = d + 28"

definition LDIR_Ord :: "addr \<Rightarrow> addr" where "LDIR_Ord d = d"
definition LDIR_Name1 :: "addr \<Rightarrow> nat \<Rightarrow> addr" where "LDIR_Name1 d j = d + 1 + of_nat j"
definition LDIR_Name2 :: "addr \<Rightarrow> nat \<Rightarrow> addr" where "LDIR_Name2 d j = d + 14 + of_nat j"
definition LDIR_Name3 :: "addr \<Rightarrow> nat \<Rightarrow> addr" where "LDIR_Name3 d j = d + 28 + of_nat j"

definition fat32bit :: "addr \<Rightarrow> uint \<Rightarrow> addr" where "fat32bit f k = f + 4 * k"

section \<open>Boot sector and table\<close>

definition fat_error :: "int \<Rightarrow> int" where
  "fat_error errcode = (if errcode \<le> FIL_NOT_FOUND \<and> errcode \<ge> NO_SUCH_PART then SUCCESS else FAILURE)"

definition fat32_rd_FAT :: "device \<Rightarrow> fat_bufs \<Rightarrow> int \<Rightarrow> uint \<Rightarrow> uint \<Rightarrow> 'a fat_scheme \<Rightarrow> (int \<times> 'a fat_scheme) option" where
  "fat32_rd_FAT dev B drive_num lba cluster s = do {
     let sec_no = cluster div CLU_PER_FAT;
     let offset = cluster mod CLU_PER_FAT;
     (r, s1) \<leftarrow> read_disk_sector dev (FAT_entry B) drive_num (fat_begin_lba s + sec_no) 1 s;
     if r = IDE_ERR_IO_ERROR then Some (DISK_READ_ERR, s1)
     else (let s2 = s1\<lparr>FAT := FAT_entry B\<rparr>; e = ld32 (mem s2) (fat32bit (FAT s2) offset)
           in Some (if e = FAT_EOF_MARKER then 0 else sint e, s2)) }"

definition fat32_rd_bootsec :: "device \<Rightarrow> fat_bufs \<Rightarrow> int \<Rightarrow> uint \<Rightarrow> 'a fat_scheme \<Rightarrow> (int \<times> 'a fat_scheme) option" where
  "fat32_rd_bootsec dev B drive_num lba s = do {
     (r, s1) \<leftarrow> read_disk_sector dev (bootsec B) drive_num lba 1 s;
     if r = IDE_ERR_IO_ERROR then Some (DISK_READ_ERR, s1)
     else (let b = bootsec B; s2 = s1\<lparr>fat32boot := b\<rparr>; m = mem s2 in
       if ld16 m (fb_magic b) \<noteq> 0xAA55 then Some (BAD_FAT_BOOT_SECTOR, s2)
       else Some (SUCCESS, s2\<lparr>
         fat_begin_lba := lba + ucast (ld16 m (fb_num_boot_sectors b)),
         cluster_begin_lba := ucast (ld16 m (fb_num_boot_sectors b)) + ucast (m (fb_num_fats b)) * ld32 m (fb_big_sectors_per_FAT b),
         root_dir_first_cluster := ld32 m (fb_root_directory_start b),
         sectors_per_cluster := m (fb_sectors_per_cluster b)\<rparr>)) }"

section \<open>Names\<close>

definition put_name :: "byte \<Rightarrow> 'a fat_scheme \<Rightarrow> 'a fat_scheme" where
  "put_name c s = s\<lparr>mem := (mem s)(fa_filename (fat_temp s) + word_of_int (fat_nam_index s) := c), fat_nam_index := fat_nam_index s + 1\<rparr>"

definition Check_char :: "byte \<Rightarrow> int \<Rightarrow> 'a fat_scheme \<Rightarrow> 'a fat_scheme" where
  "Check_char c lng s =
     (if lng = 0 then (if c \<noteq> 32 \<and> c \<noteq> 0 then put_name c s else s)
      else if c = 32 then put_name c (put_name 92 s) else put_name c s)"

text \<open>The structure at \<open>fat_temp\<close> gets an empty successor, which becomes \<open>fat_temp\<close>.\<close>

definition next_prop :: "'a fat_alloc \<Rightarrow> 'a fat_scheme \<Rightarrow> 'a fat_scheme option" where
  "next_prop alloc s = do {
     (a, s1) \<leftarrow> alloc sizeof_fat_file_properties s;
     Some (s1\<lparr>mem := st32 (fa_next a) NULL (st32 (fa_next (fat_temp s1)) a (mem s1)), fat_temp := a\<rparr>) }"

definition long_chars :: "'a fat_scheme \<Rightarrow> 'a fat_scheme" where
  "long_chars s =
     (let s1 = fold (\<lambda>n t. Check_char (mem t (LDIR_Name1 (fat32longdir t) n)) LONG_NAME t) [0, 2, 4, 6, 8] s;
          s2 = fold (\<lambda>n t. Check_char (mem t (LDIR_Name2 (fat32longdir t) n)) LONG_NAME t) [0, 2, 4, 6, 8, 10] s1
      in fold (\<lambda>n t. Check_char (mem t (LDIR_Name3 (fat32longdir t) n)) LONG_NAME t) [0, 2] s2)"

text \<open>The loop from \<open>do\<close> to \<open>while\<close>: an error, or the final \<open>flag\<close> and \<open>k\<close>.\<close>

partial_function (option) long_name_loop ::
    "device \<Rightarrow> int \<Rightarrow> uint \<Rightarrow> uint \<Rightarrow> addr \<Rightarrow> int \<Rightarrow> int \<Rightarrow> bool \<Rightarrow> 'a fat_scheme \<Rightarrow> ((int + bool \<times> int) \<times> 'a fat_scheme) option" where
  "long_name_loop dev drive_num lba cluster_no long_direntry i k flag s = do {
     (r, s1) \<leftarrow> (if i \<le> 0
        then read_disk_sector dev long_direntry drive_num (lba + CLUSTER_TO_LBA cluster_no s + word_of_int (k - 1)) 1 s
        else Some (IDE_ERR_NOERROR, s));
     if r = IDE_ERR_IO_ERROR then Some (Inl DISK_READ_ERR, s1)
     else do {
       let i1 = (if i \<le> 0 then int DIRENT_PER_SECTOR else i);
       let k1 = (if i \<le> 0 then k - 1 else k);
       let s2 = long_chars (s1\<lparr>fat32longdir := long_direntry + word_of_int ((i1 - 1) * 32)\<rparr>);
       if mem s2 (LDIR_Ord (fat32longdir s2)) AND 0x40 = 0 \<and> i1 - 1 \<ge> 0
       then long_name_loop dev drive_num lba cluster_no long_direntry (i1 - 1) k1 (flag \<or> i \<le> 0) s2
       else Some (Inr (flag \<or> i \<le> 0, k1), s2) } }"

definition Generate_Long_Name ::
    "device \<Rightarrow> 'a fat_alloc \<Rightarrow> int \<Rightarrow> uint \<Rightarrow> uint \<Rightarrow> addr \<Rightarrow> int \<Rightarrow> int \<Rightarrow> 'a fat_scheme \<Rightarrow> (int option \<times> 'a fat_scheme) option" where
  "Generate_Long_Name dev alloc drive_num lba cluster_no long_direntry i k s = do {
     (r, s1) \<leftarrow> long_name_loop dev drive_num lba cluster_no long_direntry i k False (s\<lparr>fat_nam_index := 0\<rparr>);
     case r of
       Inl e \<Rightarrow> Some (Some e, s1)
     | Inr (flag, k1) \<Rightarrow> do {
         (r2, s2) \<leftarrow> (if flag
            then read_disk_sector dev long_direntry drive_num (lba + CLUSTER_TO_LBA cluster_no s1 + word_of_int (k1 + 1)) 1 s1
            else Some (IDE_ERR_NOERROR, s1));
         if r2 = IDE_ERR_IO_ERROR then Some (Some DISK_READ_ERR, s2)
         else do {
           s3 \<leftarrow> next_prop alloc (s2\<lparr>mem := (mem s2)(fa_filename (fat_temp s2) + word_of_int (fat_nam_index s2) := 0)\<rparr>);
           Some (None, s3\<lparr>fat_item_count := fat_item_count s3 + 1\<rparr>) } } }"

section \<open>Directories\<close>

definition in_use :: "memory \<Rightarrow> addr \<Rightarrow> bool" where
  "in_use m d \<longleftrightarrow> m (fd_name d 0) \<noteq> 0 \<and> m (fd_name d 0) \<noteq> 0xE5 \<and> m (fd_name d 0) \<noteq> 0x20"

definition fill_props :: "'a fat_scheme \<Rightarrow> 'a fat_scheme" where
  "fill_props s =
     (let d = fat32dir s; a = mem s (fd_attrib d); t = fat_temp s;
          start = push_bit 16 (ucast (ld16 (mem s) (fd_st_clust_msw d))) + ucast (ld16 (mem s) (fd_st_clust d));
          start_cluster = (if start = 0 \<and> a = 0x10 then start + 2 else start);
          ft = (if a AND FAT_ATTR_DIRECTORY \<noteq> 0 \<or> a AND FAT_ATTR_VOLUME_ID \<noteq> 0 then DIRECTORY
                else if a AND FAT_ATTR_FILE \<noteq> 0 then REG_FILE else ucast a);
          m1 = st32 (fa_file_type t) ft (mem s);
          m2 = st32 (fa_st_clust t) start_cluster m1;
          m3 = st32 (fa_size t) (ld32 m2 (fd_file_size d)) m2
      in s\<lparr>mem := m3, d_date := fd_mdate d, d_time := fd_mtime d\<rparr>)"

definition short_name :: "'a fat_scheme \<Rightarrow> 'a fat_scheme" where
  "short_name s =
     (let s1 = fold (\<lambda>j t. Check_char (mem t (fd_name (fat32dir t) j)) SHORT_NAME t) [0..<8] (s\<lparr>fat_nam_index := 0\<rparr>);
          s2 = (if mem s1 (fd_ext (fat32dir s1) 0) \<noteq> 32 then put_name 46 s1 else s1);
          s3 = fold (\<lambda>j t. Check_char (mem t (fd_ext (fat32dir t) j)) SHORT_NAME t) [0..<3] s2
      in s3\<lparr>mem := (mem s3)(fa_filename (fat_temp s3) + word_of_int (fat_nam_index s3) := 0), fat_item_count := fat_item_count s3 + 1\<rparr>)"

text \<open>Entry \<open>i\<close> of sector \<open>k\<close>: an error, or the attribute byte \<open>prev\<close> of the last entry in use.\<close>

definition rd_entry ::
    "device \<Rightarrow> 'a fat_alloc \<Rightarrow> addr \<Rightarrow> int \<Rightarrow> uint \<Rightarrow> uint \<Rightarrow> nat \<Rightarrow> nat \<Rightarrow> byte \<Rightarrow> 'a fat_scheme \<Rightarrow> ((int + byte) \<times> 'a fat_scheme) option" where
  "rd_entry dev alloc dirbuf_a drive_num lba cluster_no k i prev s = do {
     let s1 = s\<lparr>fat32dir := dirbuf_a + of_nat (i * 32)\<rparr>;
     let a = mem s1 (fd_attrib (fat32dir s1));
     (r, s2) \<leftarrow> (if a \<noteq> 0x0F \<and> a \<noteq> 0x08 then do {
         let t = fill_props s1;
         if prev = 0x0F then
           (if i = 0 then do {
              (r1, t1) \<leftarrow> read_disk_sector dev dirbuf_a drive_num (lba + CLUSTER_TO_LBA cluster_no t + of_nat k - 1) 1 t;
              if r1 = IDE_ERR_IO_ERROR then Some (Inl DISK_READ_ERR, t1)
              else do {
                (_, t2) \<leftarrow> Generate_Long_Name dev alloc drive_num lba cluster_no dirbuf_a (int DIRENT_PER_SECTOR) (int k) t1;
                (r3, t3) \<leftarrow> read_disk_sector dev dirbuf_a drive_num (lba + CLUSTER_TO_LBA cluster_no t2 + of_nat k) 1 t2;
                Some (if r3 = IDE_ERR_IO_ERROR then Inl DISK_READ_ERR else Inr 0, t3) } }
            else do {
              (_, t1) \<leftarrow> Generate_Long_Name dev alloc drive_num lba cluster_no dirbuf_a (int i) (int k) t;
              Some (Inr 0, t1) })
         else if in_use (mem t) (fat32dir t) then do {
           t1 \<leftarrow> next_prop alloc (short_name t);
           Some (Inr prev, t1) }
         else Some (Inr prev, t) }
       else Some (Inr prev, s1));
     case r of
       Inl e \<Rightarrow> Some (Inl e, s2)
     | Inr p \<Rightarrow> Some (Inr (if in_use (mem s2) (fat32dir s2) then mem s2 (fd_attrib (fat32dir s2)) else p), s2) }"

fun rd_entries ::
    "device \<Rightarrow> 'a fat_alloc \<Rightarrow> addr \<Rightarrow> int \<Rightarrow> uint \<Rightarrow> uint \<Rightarrow> nat \<Rightarrow> nat list \<Rightarrow> byte \<Rightarrow> 'a fat_scheme \<Rightarrow> ((int + byte) \<times> 'a fat_scheme) option" where
  "rd_entries dev alloc dirbuf_a drive_num lba cluster_no k [] prev s = Some (Inr prev, s)"
| "rd_entries dev alloc dirbuf_a drive_num lba cluster_no k (i # is') prev s = do {
     (r, s1) \<leftarrow> rd_entry dev alloc dirbuf_a drive_num lba cluster_no k i prev s;
     case r of Inl e \<Rightarrow> Some (Inl e, s1)
     | Inr p \<Rightarrow> rd_entries dev alloc dirbuf_a drive_num lba cluster_no k is' p s1 }"

fun rd_sectors ::
    "device \<Rightarrow> 'a fat_alloc \<Rightarrow> addr \<Rightarrow> int \<Rightarrow> uint \<Rightarrow> uint \<Rightarrow> nat list \<Rightarrow> byte \<Rightarrow> 'a fat_scheme \<Rightarrow> ((int + byte) \<times> 'a fat_scheme) option" where
  "rd_sectors dev alloc dirbuf_a drive_num lba cluster_no [] prev s = Some (Inr prev, s)"
| "rd_sectors dev alloc dirbuf_a drive_num lba cluster_no (k # ks) prev s = do {
     (r, s1) \<leftarrow> read_disk_sector dev dirbuf_a drive_num (lba + CLUSTER_TO_LBA cluster_no s + of_nat k) 1 s;
     if r = IDE_ERR_IO_ERROR then Some (Inl DISK_READ_ERR, s1)
     else do {
       (q, s2) \<leftarrow> rd_entries dev alloc dirbuf_a drive_num lba cluster_no k [0..<DIRENT_PER_SECTOR] prev s1;
       case q of Inl e \<Rightarrow> Some (Inl e, s2)
       | Inr p \<Rightarrow> rd_sectors dev alloc dirbuf_a drive_num lba cluster_no ks p s2 } }"

partial_function (option) fat32_rd_cluster ::
    "device \<Rightarrow> 'a fat_alloc \<Rightarrow> fat_bufs \<Rightarrow> nat \<Rightarrow> int \<Rightarrow> uint \<Rightarrow> uint \<Rightarrow> 'a fat_scheme \<Rightarrow> (int \<times> 'a fat_scheme) option" where
  "fat32_rd_cluster dev alloc B depth drive_num lba cluster_no s = do {
     (r, s1) \<leftarrow> rd_sectors dev alloc (cluster_direntry B depth) drive_num lba cluster_no [0..<unat (sectors_per_cluster s)] 0 s;
     case r of
       Inl e \<Rightarrow> Some (e, s1)
     | Inr _ \<Rightarrow> do {
         (next_cluster, s2) \<leftarrow> fat32_rd_FAT dev B drive_num lba cluster_no s1;
         if fat_error next_cluster = 0 then do {
           s3 \<leftarrow> (if next_cluster \<noteq> 0
                  then do {
                    (_, t) \<leftarrow> fat32_rd_cluster dev alloc B (Suc depth) drive_num lba (word_of_int next_cluster) s2;
                    Some t }
                  else Some s2);
           Some (SUCCESS, s3\<lparr>mem := (mem s3)(fa_filename (fat_temp s3) := 0)\<rparr>) }
         else Some (next_cluster, s2) } }"

definition init_fat32 ::
    "device \<Rightarrow> 'a fat_alloc \<Rightarrow> fat_bufs \<Rightarrow> int \<Rightarrow> uint \<Rightarrow> uint \<Rightarrow> 'a fat_scheme \<Rightarrow> (int \<times> 'a fat_scheme) option" where
  "init_fat32 dev alloc B drive_num lba cluster s = do {
     (a, s1) \<leftarrow> alloc sizeof_fat_file_properties (s\<lparr>fat_item_count := 0\<rparr>);
     let s2 = s1\<lparr>fat_file_prop := a, fat_temp := a, mem := st32 (fa_next a) NULL (mem s1)\<rparr>;
     (e1, s3) \<leftarrow> fat32_rd_bootsec dev B drive_num lba s2;
     if fat_error e1 \<noteq> 0 then Some (e1, s3)
     else do {
       (e2, s4) \<leftarrow> fat32_rd_cluster dev alloc B 0 drive_num lba cluster s3;
       if fat_error e2 \<noteq> 0 then Some (e2, s4)
       else Some (fat_item_count s4, s4\<lparr>fat_temp := fat_file_prop s4\<rparr>) } }"

section \<open>Files\<close>

text \<open>The number of turns of the loop: a quotient of signed numbers is rounded towards 0.\<close>

definition mmap_count :: "int \<Rightarrow> nat" where
  "mmap_count fsize = nat (sgn (fsize - 1) * (\<bar>fsize - 1\<bar> div 512) + 1)"

fun mmap_sectors ::
    "device \<Rightarrow> addr \<Rightarrow> int \<Rightarrow> uint \<Rightarrow> uint \<Rightarrow> nat list \<Rightarrow> addr \<Rightarrow> 'a fat_scheme \<Rightarrow> ((int + addr) \<times> 'a fat_scheme) option" where
  "mmap_sectors dev buf drive_num lba cluster_no [] mem_loc s = Some (Inr mem_loc, s)"
| "mmap_sectors dev buf drive_num lba cluster_no (k # ks) mem_loc s = do {
     (r, s1) \<leftarrow> read_disk_sector dev buf drive_num (lba + CLUSTER_TO_LBA cluster_no s + of_nat k) 1 s;
     if r = IDE_ERR_IO_ERROR then Some (Inl DISK_READ_ERR, s1)
     else mmap_sectors dev buf drive_num lba cluster_no ks (mem_loc + 512) (s1\<lparr>mem := copy_bytes 512 mem_loc buf (mem s1)\<rparr>) }"

partial_function (option) fat32_mmap ::
    "device \<Rightarrow> fat_bufs \<Rightarrow> nat \<Rightarrow> int \<Rightarrow> uint \<Rightarrow> uint \<Rightarrow> addr \<Rightarrow> int \<Rightarrow> 'a fat_scheme \<Rightarrow> (int option \<times> 'a fat_scheme) option" where
  "fat32_mmap dev B depth drive_num lba cluster_no mem_loc fsize s = do {
     (r, s1) \<leftarrow> mmap_sectors dev (mmap_data B depth) drive_num lba cluster_no [0..<mmap_count fsize] mem_loc s;
     case r of
       Inl e \<Rightarrow> Some (Some e, s1)
     | Inr p \<Rightarrow> do {
         (next_cluster, s2) \<leftarrow> fat32_rd_FAT dev B drive_num lba cluster_no s1;
         if fat_error next_cluster = 0 then
           (if next_cluster \<noteq> 0 then do {
              (_, s3) \<leftarrow> fat32_mmap dev B (Suc depth) (current_drive s2) (current_lba s2) (word_of_int next_cluster) p (fsize - 512) s2;
              Some (None, s3) }
            else Some (None, s2))
         else Some (Some next_cluster, s2) } }"

partial_function (option) load_fat32_loop ::
    "device \<Rightarrow> 'a fat_alloc \<Rightarrow> fat_bufs \<Rightarrow> addr \<Rightarrow> addr \<Rightarrow> 'a fat_scheme \<Rightarrow> (addr \<times> 'a fat_scheme) option" where
  "load_fat32_loop dev alloc B c load_mem s =
     (if fat_temp s \<noteq> NULL then do {
        r \<leftarrow> strcmp (mem s) c (fa_filename (fat_temp s));
        if r = 0 then
          (if ld32 (mem s) (fa_file_type (fat_temp s)) \<noteq> DIRECTORY then do {
             (p, s1) \<leftarrow> (if load_mem = NULL then alloc (ld32 (mem s) (fa_size (fat_temp s))) s else Some (load_mem, s));
             (_, s2) \<leftarrow> fat32_mmap dev B 0 (current_drive s1) (current_lba s1) (ld32 (mem s1) (fa_st_clust (fat_temp s1))) p
               (sint (ld32 (mem s1) (fa_size (fat_temp s1)))) s1;
             Some (p, s2) }
           else Some (word_of_int NOT_REG_FILE, s))
        else load_fat32_loop dev alloc B c load_mem (s\<lparr>fat_temp := ld32 (mem s) (fa_next (fat_temp s))\<rparr>) }
      else Some (word_of_int FIL_NOT_FOUND, s))"

definition init_current :: "device \<Rightarrow> 'a fat_alloc \<Rightarrow> fat_bufs \<Rightarrow> 'a fat_scheme \<Rightarrow> 'a fat_scheme option" where
  "init_current dev alloc B s =
     map_option snd (init_fat32 dev alloc B (current_drive s) (current_lba s) (word_of_int (current_cluster s)) s)"

definition load_fat32 ::
    "device \<Rightarrow> 'a fat_alloc \<Rightarrow> fat_bufs \<Rightarrow> addr \<Rightarrow> addr \<Rightarrow> 'a fat_scheme \<Rightarrow> (addr \<times> 'a fat_scheme) option" where
  "load_fat32 dev alloc B c load_mem s = do {
     s1 \<leftarrow> init_current dev alloc B s;
     load_fat32_loop dev alloc B c load_mem s1 }"

section \<open>Paths\<close>

text \<open>The search for one name: \<open>Some True\<close> when it has been entered, \<open>Some False\<close> for a file that is no directory,
  \<open>None\<close> when there is none.\<close>

partial_function (option) chdir_fat32_find ::
    "device \<Rightarrow> 'a fat_alloc \<Rightarrow> fat_bufs \<Rightarrow> addr \<Rightarrow> 'a fat_scheme \<Rightarrow> (bool option \<times> 'a fat_scheme) option" where
  "chdir_fat32_find dev alloc B arg s =
     (if fat_temp s \<noteq> NULL then do {
        r \<leftarrow> strcmp (mem s) (fa_filename (fat_temp s)) arg;
        if r = 0 then
          (if ld32 (mem s) (fa_file_type (fat_temp s)) = DIRECTORY then do {
             s1 \<leftarrow> init_current dev alloc B
               (s\<lparr>prev_cluster := current_cluster s, current_cluster := sint (ld32 (mem s) (fa_st_clust (fat_temp s)))\<rparr>);
             Some (Some True, s1) }
           else Some (Some False, s))
        else chdir_fat32_find dev alloc B arg (s\<lparr>fat_temp := ld32 (mem s) (fa_next (fat_temp s))\<rparr>) }
      else Some (None, s))"

fun chdir_fat32_args ::
    "device \<Rightarrow> 'a fat_alloc \<Rightarrow> fat_bufs \<Rightarrow> nat list \<Rightarrow> 'a fat_scheme \<Rightarrow> (addr \<times> 'a fat_scheme) option" where
  "chdir_fat32_args dev alloc B [] s = Some (fat_file_prop s, s\<lparr>fat_item_count := 0\<rparr>)"
| "chdir_fat32_args dev alloc B (j # js) s =
     (let arg = ld32 (mem s) (fat_argtable B + 4 * of_nat j) in
      if mem s arg = 0 then chdir_fat32_args dev alloc B js s
      else do {
        (r, s1) \<leftarrow> chdir_fat32_find dev alloc B arg s;
        case r of
          Some True \<Rightarrow> chdir_fat32_args dev alloc B js s1
        | Some False \<Rightarrow> Some (word_of_int CD_ERR, s1)
        | None \<Rightarrow> do {
            s2 \<leftarrow> init_current dev alloc B s1;
            Some (word_of_int DIR_NOT_FOUND, s2) } })"

definition chdir_fat32 ::
    "device \<Rightarrow> 'a fat_alloc \<Rightarrow> fat_bufs \<Rightarrow> addr \<Rightarrow> 'a fat_scheme \<Rightarrow> (addr \<times> 'a fat_scheme) option" where
  "chdir_fat32 dev alloc B c s = do {
     (ccp, m) \<leftarrow> strcpy (fat_sc B) c (mem s);
     (r, m1) \<leftarrow> tokenize path_stop path_gap DIRECTORY_NUM (fat_argtable B) m ccp 0;
     case r of
       None \<Rightarrow> Some (word_of_int PAT_LEN_EXCEED, s\<lparr>mem := m1\<rparr>)
     | Some args \<Rightarrow> do {
         s1 \<leftarrow> init_current dev alloc B (s\<lparr>mem := st32 (fat_argtable B + 4 * of_nat args) NULL m1\<rparr>);
         n \<leftarrow> cstring (mem s1) c;
         if n = str ''.'' then do {
           s2 \<leftarrow> init_current dev alloc B s1;
           Some (fat_file_prop s2, s2) }
         else chdir_fat32_args dev alloc B [0..<args] s1 } }"

text \<open>\<open>slash\<close> is the address of the constant \<open>"/"\<close>.\<close>

definition root_fat32 ::
    "device \<Rightarrow> 'a fat_alloc \<Rightarrow> fat_bufs \<Rightarrow> addr \<Rightarrow> uint \<Rightarrow> int \<Rightarrow> int \<Rightarrow> 'a fat_scheme \<Rightarrow> (addr \<times> 'a fat_scheme) option" where
  "root_fat32 dev alloc B slash lba drive cluster_no s = do {
     (a, s1) \<leftarrow> chdir_fat32 dev alloc B slash (s\<lparr>current_lba := lba, current_drive := drive, current_cluster := cluster_no\<rparr>);
     Some (a, s1\<lparr>fat_file_prop := a\<rparr>) }"

section \<open>The allocation table\<close>

lemma CLUSTER_TO_LBA_cong:
  "sectors_per_cluster s' = sectors_per_cluster s \<Longrightarrow> cluster_begin_lba s' = cluster_begin_lba s \<Longrightarrow> CLUSTER_TO_LBA c s' = CLUSTER_TO_LBA c s"
  by (simp add: CLUSTER_TO_LBA_def)

text \<open>What the allocation table at \<open>fbl\<close> on \<open>drive\<close> says of a cluster.\<close>

definition fat_next :: "(int \<Rightarrow> nat \<Rightarrow> byte list) \<Rightarrow> int \<Rightarrow> uint \<Rightarrow> uint \<Rightarrow> uint" where
  "fat_next disk drive fbl c = le32 (disk drive (unat (fbl + c div CLU_PER_FAT))) (4 * unat (c mod CLU_PER_FAT))"

lemma fat32_rd_FAT_ata:
  assumes ata: "ata_reads dev disk" "\<And>k. length (disk drive k) = 512" "drive = 0 \<or> drive = 1"
    and near: "unat (fat_begin_lba s + c div CLU_PER_FAT) < 268435456"
  shows "\<exists>h m. fat32_rd_FAT dev B drive lba c s =
      Some (if fat_next disk drive (fat_begin_lba s) c = FAT_EOF_MARKER then 0 else sint (fat_next disk drive (fat_begin_lba s) c),
        s\<lparr>io := h, mem := m, FAT := FAT_entry B\<rparr>) \<and> (\<forall>x. x \<in> region (FAT_entry B) 512 \<or> m x = mem s x)"
proof -
  let ?l = "fat_begin_lba s + c div CLU_PER_FAT" and ?b = "FAT_entry B"
  let ?bs = "disk drive (unat ?l)"
  obtain h where h: "read_disk_sector dev ?b drive ?l 1 s = Some (IDE_ERR_NOERROR, s\<lparr>io := h, mem := st_bytes ?b ?bs (mem s)\<rparr>)"
    using read_sector_ata [OF ata(1,3) near, of ?b s] by (auto simp: read_disk_sector_def)
  have at: "bytes_at (st_bytes ?b ?bs (mem s)) ?b ?bs" using ata(2) by (intro bytes_at_st_bytes) simp
  have k: "unat (c mod CLU_PER_FAT) < 128" by (simp add: unat_mod)
  have "fat32bit ?b (c mod CLU_PER_FAT) = ?b + of_nat (4 * unat (c mod CLU_PER_FAT))" by (simp add: fat32bit_def word_of_nat_unat32)
  then have "ld32 (st_bytes ?b ?bs (mem s)) (fat32bit ?b (c mod CLU_PER_FAT)) = fat_next disk drive (fat_begin_lba s) c"
    using bytes_at_le(2) [OF at, of "4 * unat (c mod CLU_PER_FAT)"] ata(2) k by (simp add: fat_next_def del: of_nat_mult)
  moreover have "st_bytes ?b ?bs (mem s) x = mem s x" if "x \<notin> region ?b 512" for x
    using that ata(2) [of "unat ?l"] st_bytes_outside [of x ?b ?bs] by metis
  ultimately show ?thesis
    by (intro exI [of _ h] exI [of _ "st_bytes ?b ?bs (mem s)"]) (auto simp: fat32_rd_FAT_def h Let_def)
qed

section \<open>Files\<close>

definition clus_pos :: "uint \<Rightarrow> uint \<Rightarrow> 'a fat_scheme \<Rightarrow> nat" where
  "clus_pos lba c s = unat (lba + CLUSTER_TO_LBA c s)"

lemma mmap_sectors_ata:
  fixes s :: "'a fat_scheme"
  assumes ata: "ata_reads dev disk" "\<And>k. length (disk drive k) = 512" "drive = 0 \<or> drive = 1"
  shows "\<forall>k \<in> set ks. clus_pos lba c s + k < 268435456 \<Longrightarrow> 512 * length ks \<le> 4294967296 \<Longrightarrow> region p (512 * length ks) \<inter> region buf 512 = {} \<Longrightarrow>
    \<exists>h m. mmap_sectors dev buf drive lba c ks p s = Some (Inr (p + of_nat (512 * length ks)), s\<lparr>io := h, mem := m\<rparr>) \<and>
      bytes_at m p (concat (map (\<lambda>k. disk drive (clus_pos lba c s + k)) ks)) \<and>
      (\<forall>x. x \<in> region p (512 * length ks) \<or> x \<in> region buf 512 \<or> m x = mem s x)"
proof (induction ks arbitrary: p s)
  case Nil
  then show ?case by (intro exI [of _ "io s"] exI [of _ "mem s"]) simp
next
  case (Cons k ks)
  let ?l = "lba + CLUSTER_TO_LBA c s + of_nat k" and ?n = "512 * length ks"
  have u: "unat ?l = clus_pos lba c s + k" using Cons.prems(1) by (subst unat_add_of_nat) (auto simp: clus_pos_def)
  define bs where "bs = disk drive (clus_pos lba c s + k)"
  have bs: "length bs = 512" using ata(2) by (simp add: bs_def)
  define M where "M = st_bytes buf bs (mem s)"
  have "unat ?l < 268435456" using Cons.prems(1) u by simp
  then obtain h where h: "read_disk_sector dev buf drive ?l 1 s = Some (IDE_ERR_NOERROR, s\<lparr>io := h, mem := M\<rparr>)"
    using read_sector_ata [OF ata(1,3), of ?l buf s] by (auto simp: read_disk_sector_def M_def bs_def u)
  have split: "region p (512 * length (k # ks)) = region p 512 \<union> region (p + 512) ?n"
    using region_split [of p 512 ?n] by (simp add: add.commute del: region_simps)
  have "bytes_of M buf 512 = bs" using bytes_at_st_bytes [of bs buf "mem s"] bs by (simp add: bytes_at_bytes_of M_def)
  then have cp: "copy_bytes 512 p buf M = st_bytes p bs M"
    using copy_bytes_st_bytes [of p 512 buf M] Cons.prems(3) split by (simp add: Int_Un_distrib2 del: region_simps region_numeral)
  let ?s = "s\<lparr>io := h, mem := st_bytes p bs M\<rparr>"
  have ps: "clus_pos lba c ?s = clus_pos lba c s" by (simp add: clus_pos_def CLUSTER_TO_LBA_def)
  obtain h' m where m: "mmap_sectors dev buf drive lba c ks (p + 512) ?s = Some (Inr (p + 512 + of_nat ?n), ?s\<lparr>io := h', mem := m\<rparr>)"
    "bytes_at m (p + 512) (concat (map (\<lambda>k. disk drive (clus_pos lba c s + k)) ks))"
    "\<forall>x. x \<in> region (p + 512) ?n \<or> x \<in> region buf 512 \<or> m x = st_bytes p bs M x"
    using Cons.IH [of ?s "p + 512"] Cons.prems split unfolding ps by (auto simp del: region_simps region_numeral)
  have out: "st_bytes p bs M x = mem s x" if "x \<notin> region p 512" "x \<notin> region buf 512" for x
    using that bs by (simp add: st_bytes_outside M_def del: region_simps region_numeral)
  have "region p 512 \<inter> region (p + 512) ?n = {}"
    using region_offsets_disjoint [of 0 512 512 ?n p] Cons.prems(2) by (simp del: region_simps region_numeral)
  moreover have "region p 512 \<inter> region buf 512 = {}" using Cons.prems(3) split by blast
  ultimately have "m x = st_bytes p bs M x" if "x \<in> region p 512" for x using m(3) that by blast
  then have "bytes_at m p bs" using bytes_at_st_bytes [of bs p M] bs bytes_at_cong [of p bs m "st_bytes p bs M"] by simp
  then have all: "bytes_at m p (concat (map (\<lambda>k. disk drive (clus_pos lba c s + k)) (k # ks)))" using m(2) bs by (simp add: bytes_at_append bs_def)
  have "mmap_sectors dev buf drive lba c (k # ks) p s = Some (Inr (p + of_nat (512 * length (k # ks))), s\<lparr>io := h', mem := m\<rparr>)"
    using m(1) h [unfolded add.assoc] by (simp add: cp add.assoc)
  moreover have "\<forall>x. x \<in> region p (512 * length (k # ks)) \<or> x \<in> region buf 512 \<or> m x = mem s x"
    using m(3) out split by (metis UnCI)
  ultimately show ?case using all by blast
qed

text \<open>The clusters that follow \<open>c\<close>, up to the one whose entry is the end marker.\<close>

fun fat_chain :: "(uint \<Rightarrow> uint) \<Rightarrow> uint \<Rightarrow> uint list \<Rightarrow> bool" where
  "fat_chain nxt c [] \<longleftrightarrow> nxt c = FAT_EOF_MARKER"
| "fat_chain nxt c (d # ds) \<longleftrightarrow> nxt c = d \<and> d \<noteq> 0 \<and> unat d < 0x0FFFFFFF \<and> fat_chain nxt d ds"

text \<open>What \<open>fat32_mmap\<close> stores: for every cluster of the chain as many sectors from its start on as the rest of the file needs,
  where each cluster counts as one sector of the file.\<close>

fun mmap_image :: "(uint \<Rightarrow> nat \<Rightarrow> byte list) \<Rightarrow> int \<Rightarrow> uint list \<Rightarrow> byte list" where
  "mmap_image sec fsize [] = []"
| "mmap_image sec fsize (c # xs) = concat (map (sec c) [0..<mmap_count fsize]) @ mmap_image sec (fsize - 512) xs"

lemma mmap_count_pos: "0 < fsize \<Longrightarrow> mmap_count fsize = nat ((fsize - 1) div 512) + 1"
  by (cases "fsize = 1") (simp_all add: mmap_count_def nat_add_distrib pos_imp_zdiv_nonneg_iff)

lemma mmap_count_mono: "mmap_count (fsize - 512) \<le> mmap_count fsize"
proof (cases "fsize \<le> 512")
  case True
  have "mmap_count (fsize - 512) \<le> of_bool (- 510 \<le> fsize - 512)"
    using True by (auto simp: mmap_count_def sgn_if)
  moreover have "1 \<le> mmap_count fsize" if "2 \<le> fsize" using mmap_count_pos [of fsize] that by simp
  ultimately show ?thesis by (cases "2 \<le> fsize") auto
next
  case False
  then show ?thesis using mmap_count_pos [of fsize] mmap_count_pos [of "fsize - 512"] by (simp add: nat_mono zdiv_mono1)
qed

text \<open>The loop over the sectors of one cluster and the look into the allocation table.\<close>

lemma mmap_step:
  fixes s :: "'a fat_scheme"
  assumes ata: "ata_reads dev disk" "\<And>k. length (disk drive k) = 512" "drive = 0 \<or> drive = 1"
    and geo: "\<And>c. unat (fat_begin_lba s + c div CLU_PER_FAT) < 268435456"
    and near: "clus_pos lba c s + N \<le> 268435456" and len: "512 * N \<le> 4294967296"
    and dis: "region p (512 * N) \<inter> (region buf 512 \<union> region (FAT_entry B) 512) = {}"
  shows "\<exists>h m h' m'. mmap_sectors dev buf drive lba c [0..<N] p s = Some (Inr (p + of_nat (512 * N)), s\<lparr>io := h, mem := m\<rparr>) \<and>
    fat32_rd_FAT dev B drive lba c (s\<lparr>io := h, mem := m\<rparr>) =
      Some (if fat_next disk drive (fat_begin_lba s) c = FAT_EOF_MARKER then 0 else sint (fat_next disk drive (fat_begin_lba s) c),
        s\<lparr>io := h', mem := m', FAT := FAT_entry B\<rparr>) \<and>
    bytes_at m' p (concat (map (\<lambda>k. disk drive (clus_pos lba c s + k)) [0..<N])) \<and>
    (\<forall>x. x \<in> region p (512 * N) \<or> x \<in> region buf 512 \<or> x \<in> region (FAT_entry B) 512 \<or> m' x = mem s x)"
proof -
  have "\<forall>k \<in> set [0..<N]. clus_pos lba c s + k < 268435456" "512 * length [0..<N] \<le> 4294967296"
    "region p (512 * length [0..<N]) \<inter> region buf 512 = {}" using near len dis by auto
  from mmap_sectors_ata [OF ata this] obtain h m where m:
    "mmap_sectors dev buf drive lba c [0..<N] p s = Some (Inr (p + of_nat (512 * N)), s\<lparr>io := h, mem := m\<rparr>)"
    "bytes_at m p (concat (map (\<lambda>k. disk drive (clus_pos lba c s + k)) [0..<N]))"
    "\<forall>x. x \<in> region p (512 * N) \<or> x \<in> region buf 512 \<or> m x = mem s x" by auto
  let ?s = "s\<lparr>io := h, mem := m\<rparr>"
  obtain h' m' where m': "fat32_rd_FAT dev B drive lba c ?s =
      Some (if fat_next disk drive (fat_begin_lba s) c = FAT_EOF_MARKER then 0 else sint (fat_next disk drive (fat_begin_lba s) c),
        ?s\<lparr>io := h', mem := m', FAT := FAT_entry B\<rparr>)" "\<forall>x. x \<in> region (FAT_entry B) 512 \<or> m' x = m x"
    using fat32_rd_FAT_ata [OF ata, of ?s c B lba] geo [of c] by auto
  have "length (concat (map (\<lambda>k. disk drive (clus_pos lba c s + k)) [0..<N])) = 512 * N"
    using ata(2) by (simp add: length_concat o_def sum_list_triv)
  then have "bytes_at m' p (concat (map (\<lambda>k. disk drive (clus_pos lba c s + k)) [0..<N]))"
    using m(2) m'(2) dis bytes_at_cong [of p "concat (map (\<lambda>k. disk drive (clus_pos lba c s + k)) [0..<N])" m' m] by (metis IntI UnCI emptyE)
  moreover have "\<forall>x. x \<in> region p (512 * N) \<or> x \<in> region buf 512 \<or> x \<in> region (FAT_entry B) 512 \<or> m' x = mem s x"
    using m(3) m'(2) by metis
  ultimately show ?thesis using m(1) m'(1) by (intro exI [of _ h] exI [of _ m] exI [of _ h'] exI [of _ m']) simp
qed

lemma fat32_mmap_ata:
  fixes s :: "'a fat_scheme"
  assumes ata: "ata_reads dev disk" "\<And>k. length (disk drive k) = 512" "drive = 0 \<or> drive = 1"
    and geo: "\<And>c. unat (fbl + c div CLU_PER_FAT) < 268435456" "\<And>c k. sec c k = disk drive (unat (lba + ((c - 2) * spc + cbl)) + k)"
  shows "fat_chain (fat_next disk drive fbl) c xs \<Longrightarrow> current_drive s = drive \<Longrightarrow> current_lba s = lba \<Longrightarrow>
    fat_begin_lba s = fbl \<Longrightarrow> ucast (sectors_per_cluster s) = spc \<Longrightarrow> cluster_begin_lba s = cbl \<Longrightarrow>
    \<forall>d \<in> set (c # xs). unat (lba + ((d - 2) * spc + cbl)) + mmap_count fsize \<le> 268435456 \<Longrightarrow>
    length (mmap_image sec fsize (c # xs)) = n \<Longrightarrow> n \<le> 2147483648 \<Longrightarrow>
    \<forall>d. region p n \<inter> (region (mmap_data B d) 512 \<union> region (FAT_entry B) 512) = {} \<Longrightarrow>
    \<exists>h m. fat32_mmap dev B depth drive lba c p fsize s = Some (None, s\<lparr>io := h, mem := m, FAT := FAT_entry B\<rparr>) \<and>
      bytes_at m p (mmap_image sec fsize (c # xs)) \<and>
      (\<forall>x. x \<in> region p n \<or> x \<in> region (FAT_entry B) 512 \<or> (\<exists>d. x \<in> region (mmap_data B d) 512) \<or> m x = mem s x)"
proof (induction xs arbitrary: c p s n fsize depth)
  case Nil
  define N where "N = mmap_count fsize"
  have pos: "clus_pos lba c s = unat (lba + ((c - 2) * spc + cbl))" using Nil.prems(5,6) by (simp add: clus_pos_def CLUSTER_TO_LBA_def)
  have n: "n = 512 * N" using Nil.prems(8) ata(2) by (simp add: geo(2) length_concat o_def sum_list_triv N_def)
  obtain h m h' m' where m: "mmap_sectors dev (mmap_data B depth) drive lba c [0..<N] p s =
      Some (Inr (p + of_nat (512 * N)), s\<lparr>io := h, mem := m\<rparr>)"
    "fat32_rd_FAT dev B drive lba c (s\<lparr>io := h, mem := m\<rparr>) = Some (0, s\<lparr>io := h', mem := m', FAT := FAT_entry B\<rparr>)"
    "bytes_at m' p (concat (map (\<lambda>k. disk drive (clus_pos lba c s + k)) [0..<N]))"
    "\<forall>x. x \<in> region p (512 * N) \<or> x \<in> region (mmap_data B depth) 512 \<or> x \<in> region (FAT_entry B) 512 \<or> m' x = mem s x"
    using mmap_step [OF ata, of s lba c N p "mmap_data B depth" B] geo(1) Nil.prems(1,4,7,9,10) unfolding n pos N_def by auto
  have "fat32_mmap dev B depth drive lba c p fsize s = Some (None, s\<lparr>io := h', mem := m', FAT := FAT_entry B\<rparr>)"
    by (subst fat32_mmap.simps) (simp add: m(1,2) fat_error_def flip: N_def del: upt_Suc upt_rec_numeral)
  then show ?case using m(3,4) unfolding n by (intro exI [of _ h'] exI [of _ m']) (auto simp: geo(2) pos simp flip: N_def)
next
  case (Cons d ds)
  define N where "N = mmap_count fsize"
  define q where "q = p + of_nat (512 * N)"
  have pos: "clus_pos lba c s = unat (lba + ((c - 2) * spc + cbl))" using Cons.prems(5,6) by (simp add: clus_pos_def CLUSTER_TO_LBA_def)
  have ls: "length (concat (map (sec c) [0..<N])) = 512 * N" using ata(2) by (simp add: geo(2) length_concat o_def sum_list_triv)
  define n' where "n' = length (mmap_image sec (fsize - 512) (d # ds))"
  have n: "n = 512 * N + n'" "length (mmap_image sec (fsize - 512) (d # ds)) = n'"
    using Cons.prems(8) ls by (simp_all only: mmap_image.simps(2) [of sec fsize] length_append N_def n'_def)
  have split: "region p n = region p (512 * N) \<union> region q n'" unfolding n(1) q_def by (rule region_split)
  have nx: "fat_next disk drive fbl c = d" "d \<noteq> 0" "unat d < 268435455" using Cons.prems(1) by simp_all
  have sd: "sint d = int (unat d)" using sint_of_nat_small [of "unat d"] nx(3) by (simp add: word_of_nat_unat32)
  have pd: "0 < sint d" unfolding sd of_nat_0_less_iff using nx(2) by (rule unat_gt_0 [THEN iffD2])
  have g: "unat (fat_begin_lba s + c div CLU_PER_FAT) < 268435456" for c using geo(1) Cons.prems(4) by simp
  have pre: "clus_pos lba c s + N \<le> 268435456" "512 * N \<le> 4294967296"
    "region p (512 * N) \<inter> (region (mmap_data B depth) 512 \<union> region (FAT_entry B) 512) = {}"
    using Cons.prems(7,9) n(1) Cons.prems(10) split unfolding pos by (auto simp: N_def)
  have "d \<noteq> FAT_EOF_MARKER" using nx(3) by auto
  then obtain h m h' m' where m: "mmap_sectors dev (mmap_data B depth) drive lba c [0..<N] p s = Some (Inr q, s\<lparr>io := h, mem := m\<rparr>)"
    "fat32_rd_FAT dev B drive lba c (s\<lparr>io := h, mem := m\<rparr>) = Some (sint d, s\<lparr>io := h', mem := m', FAT := FAT_entry B\<rparr>)"
    "bytes_at m' p (concat (map (\<lambda>k. disk drive (clus_pos lba c s + k)) [0..<N]))"
    "\<forall>x. x \<in> region p (512 * N) \<or> x \<in> region (mmap_data B depth) 512 \<or> x \<in> region (FAT_entry B) 512 \<or> m' x = mem s x"
    using mmap_step [OF ata g pre] unfolding Cons.prems(4) nx(1) q_def [symmetric] by auto
  let ?s = "s\<lparr>io := h', mem := m', FAT := FAT_entry B\<rparr>"
  have "\<forall>e. region q n' \<inter> (region (mmap_data B e) 512 \<union> region (FAT_entry B) 512) = {}" using Cons.prems(10) split by blast
  moreover have "\<forall>e \<in> set (d # ds). unat (lba + ((e - 2) * spc + cbl)) + mmap_count (fsize - 512) \<le> 268435456"
    using Cons.prems(7) mmap_count_mono [of fsize] by (meson add_left_mono le_trans list.set_intros(2))
  ultimately obtain h2 m2 where m2: "fat32_mmap dev B (Suc depth) drive lba d q (fsize - 512) ?s =
      Some (None, ?s\<lparr>io := h2, mem := m2, FAT := FAT_entry B\<rparr>)" "bytes_at m2 q (mmap_image sec (fsize - 512) (d # ds))"
    "\<forall>x. x \<in> region q n' \<or> x \<in> region (FAT_entry B) 512 \<or> (\<exists>e. x \<in> region (mmap_data B e) 512) \<or> m2 x = m' x"
    using Cons.IH [of d ?s "fsize - 512" n' q "Suc depth"] Cons.prems(1-6,9) n by auto
  have "fat_error (sint d) = 0" "sint d \<noteq> 0" "word_of_int (sint d) = d" using pd by (simp_all add: fat_error_def)
  then have r: "fat32_mmap dev B depth drive lba c p fsize s = Some (None, s\<lparr>io := h2, mem := m2, FAT := FAT_entry B\<rparr>)"
    using Cons.prems(2,3) m2(1)
    by (subst fat32_mmap.simps) (simp add: m(1,2) flip: N_def del: upt_Suc upt_rec_numeral)
  have "region p (512 * N) \<inter> region q n' = {}"
    using region_offsets_disjoint [of 0 "512 * N" "512 * N" n' p] Cons.prems(9) n(1) by (simp add: q_def del: of_nat_mult)
  then have keep: "m2 x = m' x" if "x \<in> region p (512 * N)" for x using m2(3) Cons.prems(10) split that by blast
  have "sec c = (\<lambda>k. disk drive (clus_pos lba c s + k))" by (rule ext) (simp add: geo(2) pos)
  then have "bytes_at m2 p (concat (map (sec c) [0..<N]))"
    using m(3) keep bytes_at_cong [of p "concat (map (sec c) [0..<N])" m2 m'] ls by simp
  then have "bytes_at m2 p (mmap_image sec fsize (c # d # ds))"
    using m2(2) ls by (simp add: bytes_at_append q_def flip: N_def del: upt_Suc)
  moreover have "\<forall>x. x \<in> region p n \<or> x \<in> region (FAT_entry B) 512 \<or> (\<exists>d. x \<in> region (mmap_data B d) 512) \<or> m2 x = mem s x"
    using m(4) m2(3) split by (metis UnCI)
  ultimately show ?case using r by blast
qed

text \<open>The data of a file: the sectors of its clusters, as many bytes as its size says.\<close>

definition cluster_data :: "(int \<Rightarrow> nat \<Rightarrow> byte list) \<Rightarrow> int \<Rightarrow> uint \<Rightarrow> 'a fat_scheme \<Rightarrow> uint \<Rightarrow> byte list" where
  "cluster_data disk drive lba s c = sectors disk drive (clus_pos lba c s) (unat (sectors_per_cluster s))"

definition file_data :: "(int \<Rightarrow> nat \<Rightarrow> byte list) \<Rightarrow> int \<Rightarrow> uint \<Rightarrow> 'a fat_scheme \<Rightarrow> int \<Rightarrow> uint list \<Rightarrow> byte list" where
  "file_data disk drive lba s fsize xs = take (nat fsize) (concat (map (cluster_data disk drive lba s) xs))"

fun contiguous :: "uint \<Rightarrow> 'a fat_scheme \<Rightarrow> uint \<Rightarrow> uint list \<Rightarrow> bool" where
  "contiguous lba s c [] \<longleftrightarrow> True"
| "contiguous lba s c (d # ds) \<longleftrightarrow> clus_pos lba d s = clus_pos lba c s + unat (sectors_per_cluster s) \<and> contiguous lba s d ds"

lemma sectors_append: "sectors disk drive k (n + n') = sectors disk drive k n @ sectors disk drive (k + n) n'"
  using upt_add_eq_append [of k "k + n" n'] by (simp add: sectors_def add.assoc)

lemma contiguous_data:
  "contiguous lba s c xs \<Longrightarrow> concat (map (cluster_data disk drive lba s) (c # xs)) =
     sectors disk drive (clus_pos lba c s) (unat (sectors_per_cluster s) * (1 + length xs))"
proof (induction xs arbitrary: c)
  case (Cons d ds)
  let ?n = "unat (sectors_per_cluster s)"
  have "?n * (1 + length (d # ds)) = ?n + ?n * (1 + length ds)" by simp
  then have "sectors disk drive (clus_pos lba c s) (?n * (1 + length (d # ds))) =
      cluster_data disk drive lba s c @ sectors disk drive (clus_pos lba c s + ?n) (?n * (1 + length ds))"
    by (simp only: sectors_append cluster_data_def)
  with Cons show ?case by simp
qed (simp add: cluster_data_def)

lemma mmap_count_bounds:
  assumes "0 < fsize"
  shows "fsize \<le> 512 * int (mmap_count fsize)" "fsize \<le> 512 * int n \<Longrightarrow> mmap_count fsize \<le> n"
proof -
  have c: "int (mmap_count fsize) = (fsize - 1) div 512 + 1" using assms by (simp add: mmap_count_pos)
  note dm = mult_div_mod_eq [of 512 "fsize - 1"]
  show "fsize \<le> 512 * int (mmap_count fsize)"
    using dm pos_mod_bound [of 512 "fsize - 1", OF zero_less_numeral] unfolding c by simp
  assume "fsize \<le> 512 * int n"
  then have "int (mmap_count fsize) \<le> int n"
    using dm pos_mod_sign [of 512 "fsize - 1", OF zero_less_numeral] unfolding c by linarith
  then show "mmap_count fsize \<le> n" by simp
qed

lemma image_contiguous:
  assumes "\<And>k. length (disk drive k) = 512" "0 < fsize" "fsize \<le> 512 * int (unat (sectors_per_cluster s)) * (1 + int (length xs))"
    and "contiguous lba s c xs"
  shows "\<exists>t. mmap_image (\<lambda>d k. disk drive (clus_pos lba d s + k)) fsize (c # xs) = file_data disk drive lba s fsize (c # xs) @ t"
proof -
  let ?p = "clus_pos lba c s" and ?k = "unat (sectors_per_cluster s) * (1 + length xs)" and ?n = "mmap_count fsize"
  have "?n \<le> ?k" using mmap_count_bounds(2) [OF assms(2), of ?k] assms(3) by (simp add: algebra_simps)
  then have s: "sectors disk drive ?p ?k = sectors disk drive ?p ?n @ sectors disk drive (?p + ?n) (?k - ?n)"
    using sectors_append [of disk drive ?p ?n "?k - ?n"] by simp
  have l: "length (sectors disk drive ?p ?n) = 512 * ?n" using length_sectors assms(1) by blast
  have "nat fsize \<le> 512 * ?n" using mmap_count_bounds(1) [OF assms(2)] by simp
  then have "file_data disk drive lba s fsize (c # xs) = take (nat fsize) (sectors disk drive ?p ?n)"
    unfolding file_data_def contiguous_data [OF assms(4)] s using l by simp
  moreover have "concat (map (\<lambda>k. disk drive (?p + k)) [0..<?n]) = sectors disk drive ?p ?n"
    unfolding sectors_def by (rule arg_cong [where f = concat], rule nth_equalityI) simp_all
  ultimately show ?thesis
    by (intro exI [of _ "drop (nat fsize) (sectors disk drive ?p ?n) @ mmap_image (\<lambda>d k. disk drive (clus_pos lba d s + k)) (fsize - 512) xs"])
      (simp add: append_assoc [symmetric] del: append_assoc)
qed

section \<open>Short names\<close>

text \<open>A text behind what is already in the name, and the characters of a short name.\<close>

definition put_text :: "byte list \<Rightarrow> 'a fat_scheme \<Rightarrow> 'a fat_scheme" where
  "put_text w s = s\<lparr>mem := st_bytes (fa_filename (fat_temp s) + word_of_int (fat_nam_index s)) w (mem s),
     fat_nam_index := fat_nam_index s + int (length w)\<rparr>"

definition name_char :: "byte \<Rightarrow> bool" where "name_char c \<longleftrightarrow> c \<noteq> 32 \<and> c \<noteq> 0"

definition short_text :: "byte list \<Rightarrow> byte list \<Rightarrow> byte list" where
  "short_text nm ext = filter name_char nm @ (if ext ! 0 \<noteq> 32 then [46] else []) @ filter name_char ext"

lemma put_text_simps:
  "put_text [] s = s" "put_name c s = put_text [c] s" "put_text w (put_text v s) = put_text (v @ w) s"
  "fat_temp (put_text w s) = fat_temp s" "fat32dir (put_text w s) = fat32dir s"
  "fat_nam_index (put_text w s) = fat_nam_index s + int (length w)"
  by (simp_all add: put_text_def put_name_def st_bytes_append add.assoc)

lemma put_text_outside:
  assumes "x \<notin> region (fa_filename (fat_temp s)) n" "0 \<le> fat_nam_index s" "nat (fat_nam_index s) + length w \<le> n"
  shows "mem (put_text w s) x = mem s x"
proof -
  let ?f = "fa_filename (fat_temp s)" and ?i = "nat (fat_nam_index s)"
  have "word_of_int (fat_nam_index s) = (of_nat ?i :: addr)" using assms(2) by simp
  moreover have "x \<notin> region (?f + of_nat ?i) (length w)"
    using assms(1) region_offset [of ?f ?i "length w"] region_mono [OF assms(3), of ?f] by blast
  ultimately show ?thesis by (simp add: put_text_def st_bytes_outside)
qed

lemma Check_char_fold:
  assumes "\<forall>j \<in> set js. src (fat32dir s) j \<notin> region (fa_filename (fat_temp s)) n" "0 \<le> fat_nam_index s"
    "nat (fat_nam_index s) + length js \<le> n"
  shows "fold (\<lambda>j t. Check_char (mem t (src (fat32dir t) j)) SHORT_NAME t) js s = put_text (filter name_char (map (\<lambda>j. mem s (src (fat32dir s) j)) js)) s"
  using assms
proof (induction js arbitrary: s)
  case (Cons j js)
  let ?w = "filter name_char [mem s (src (fat32dir s) j)]"
  have c: "Check_char (mem s (src (fat32dir s) j)) SHORT_NAME s = put_text ?w s" by (simp add: Check_char_def name_char_def put_text_simps)
  have l: "length ?w \<le> 1" by simp
  have keep: "mem (put_text ?w s) (src (fat32dir s) i) = mem s (src (fat32dir s) i)" if "i \<in> set js" for i
    using put_text_outside [of "src (fat32dir s) i" s n ?w] Cons.prems l that by auto
  have "nat (fat_nam_index s + int (length ?w)) + length js \<le> n" using Cons.prems(2,3) l by simp
  then have "fold (\<lambda>j t. Check_char (mem t (src (fat32dir t) j)) SHORT_NAME t) js (put_text ?w s) =
      put_text (filter name_char (map (\<lambda>j. mem (put_text ?w s) (src (fat32dir s) j)) js)) (put_text ?w s)"
    using Cons.prems Cons.IH [of "put_text ?w s"] by (simp add: put_text_simps)
  also have "map (\<lambda>j. mem (put_text ?w s) (src (fat32dir s) j)) js = map (\<lambda>j. mem s (src (fat32dir s) j)) js" using keep by simp
  finally show ?case by (simp add: c put_text_simps)
qed (simp add: put_text_simps)

lemma short_name_text:
  fixes s :: "'a fat_scheme"
  defines "fn \<equiv> fa_filename (fat_temp s)" and "d \<equiv> fat32dir s"
  defines "w \<equiv> short_text (bytes_of (mem s) d 8) (bytes_of (mem s) (d + 8) 3)"
  assumes "region fn 13 \<inter> region d 11 = {}"
  shows "short_name s = s\<lparr>mem := st_bytes fn (w @ [0]) (mem s), fat_nam_index := int (length w), fat_item_count := fat_item_count s + 1\<rparr>"
    "length w \<le> 12"
proof -
  let ?s = "s\<lparr>fat_nam_index := 0\<rparr>" and ?w1 = "filter name_char (bytes_of (mem s) d 8)"
    and ?w3 = "filter name_char (bytes_of (mem s) (d + 8) 3)"
  define w2 :: "byte list" where "w2 = (if mem s (d + 8) \<noteq> 32 then [46] else [])"
  have src: "d + of_nat j \<notin> region fn 13" if "j < 11" for j using assms(4) regionI [OF that, of d] by blast
  have w: "w = ?w1 @ w2 @ ?w3" by (simp add: w_def short_text_def w2_def numeral_3_eq_3)
  have l: "length ?w1 \<le> 8" "length w2 \<le> 1" "length ?w3 \<le> 3"
    using length_filter_le [of name_char "bytes_of (mem s) d 8"] length_filter_le [of name_char "bytes_of (mem s) (d + 8) 3"]
    by (simp_all add: bytes_of_def w2_def)
  then show "length w \<le> 12" unfolding w by simp
  let ?s1 = "put_text ?w1 ?s" and ?s2 = "put_text (?w1 @ w2) ?s"
  have keep: "mem (put_text v ?s) (d + of_nat j) = mem s (d + of_nat j)" if "length v \<le> 13" "j < 11" for v j
    using put_text_outside [of "d + of_nat j" ?s 13 v] src [OF that(2)] that(1) by (simp add: fn_def)
  have f1: "fold (\<lambda>j t. Check_char (mem t (fd_name (fat32dir t) j)) SHORT_NAME t) [0..<8] ?s = ?s1"
    using Check_char_fold [of "[0..<8]" fd_name ?s 13] src
    by (simp add: fd_name_def d_def fn_def bytes_of_def del: upt_Suc upt_rec_numeral)
  have "mem ?s1 (fd_ext d 0) = mem s (d + 8)" using keep [of ?w1 8] l(1) by (simp add: fd_ext_def)
  then have f2: "(if mem ?s1 (fd_ext (fat32dir ?s1) 0) \<noteq> 32 then put_name 46 ?s1 else ?s1) = ?s2"
    by (simp add: put_text_simps w2_def d_def)
  have e: "mem ?s2 (fd_ext d j) = mem s (d + 8 + of_nat j)" if "j < 3" for j
    using keep [of "?w1 @ w2" "8 + j"] l that by (simp add: fd_ext_def add.assoc)
  have "fd_ext d j \<notin> region fn 13" if "j < 3" for j using src [of "8 + j"] that by (simp add: fd_ext_def add.assoc)
  then have "fold (\<lambda>j t. Check_char (mem t (fd_ext (fat32dir t) j)) SHORT_NAME t) [0..<3] ?s2 =
      put_text (filter name_char (map (\<lambda>j. mem ?s2 (fd_ext d j)) [0..<3])) ?s2"
    using Check_char_fold [of "[0..<3]" fd_ext ?s2 13] l by (simp add: put_text_simps d_def fn_def del: upt_Suc upt_rec_numeral)
  also have "map (\<lambda>j. mem ?s2 (fd_ext d j)) [0..<3] = bytes_of (mem s) (d + 8) 3"
    using e by (simp add: bytes_of_def del: upt_Suc upt_rec_numeral)
  finally have f3: "fold (\<lambda>j t. Check_char (mem t (fd_ext (fat32dir t) j)) SHORT_NAME t) [0..<3] ?s2 = put_text w ?s"
    by (simp add: put_text_simps w)
  show "short_name s = s\<lparr>mem := st_bytes fn (w @ [0]) (mem s), fat_nam_index := int (length w), fat_item_count := fat_item_count s + 1\<rparr>"
    unfolding short_name_def Let_def f1 f2 f3 by (simp add: put_text_def fn_def st_bytes_append)
qed

section \<open>Properties\<close>

text \<open>
  C35: loading a file. On a drive that meets the register-level contract, with a cluster chain that ends, \<open>fat32_mmap\<close> returns without an error
  and has stored, from the given address on, for every cluster of the chain the sectors that \<open>mmap_image\<close> says - from the start of the first
  cluster as many as the whole file needs, from the start of the second as many as the file less 512 bytes needs, and so on. A file whose
  clusters follow each other on the disk is there in one piece. Nothing else is written but the buffers.
\<close>

theorem fat32_mmap_follows_chain:
  fixes s :: "'a fat_scheme"
  defines "drive \<equiv> current_drive s" and "lba \<equiv> current_lba s"
  assumes "ata_reads dev disk" "\<And>k. length (disk drive k) = 512" "drive = 0 \<or> drive = 1"
    and "\<And>c. unat (fat_begin_lba s + c div CLU_PER_FAT) < 268435456" and "fat_chain (fat_next disk drive (fat_begin_lba s)) c xs"
    and "\<forall>d \<in> set (c # xs). clus_pos lba d s + mmap_count fsize \<le> 268435456"
    and "img = mmap_image (\<lambda>d k. disk drive (clus_pos lba d s + k)) fsize (c # xs)" "length img \<le> 2147483648"
    and "\<forall>d. region p (length img) \<inter> (region (mmap_data B d) 512 \<union> region (FAT_entry B) 512) = {}"
  shows "\<exists>s'. fat32_mmap dev B 0 drive lba c p fsize s = Some (None, s') \<and> bytes_at (mem s') p img \<and>
    (0 < fsize \<and> fsize \<le> 512 * int (unat (sectors_per_cluster s)) * (1 + int (length xs)) \<and> contiguous lba s c xs \<longrightarrow>
       bytes_at (mem s') p (file_data disk drive lba s fsize (c # xs))) \<and>
    (\<forall>x. x \<in> region p (length img) \<or> x \<in> region (FAT_entry B) 512 \<or> (\<exists>d. x \<in> region (mmap_data B d) 512) \<or> mem s' x = mem s x)"
proof -
  have "\<exists>h m. fat32_mmap dev B 0 drive lba c p fsize s = Some (None, s\<lparr>io := h, mem := m, FAT := FAT_entry B\<rparr>) \<and> bytes_at m p img \<and>
      (\<forall>x. x \<in> region p (length img) \<or> x \<in> region (FAT_entry B) 512 \<or> (\<exists>d. x \<in> region (mmap_data B d) 512) \<or> m x = mem s x)"
    unfolding assms(9)
    by (rule fat32_mmap_ata [OF assms(3-6) _ assms(7)]) (use assms in \<open>simp_all add: clus_pos_def CLUSTER_TO_LBA_def\<close>)
  then obtain h m where m: "fat32_mmap dev B 0 drive lba c p fsize s = Some (None, s\<lparr>io := h, mem := m, FAT := FAT_entry B\<rparr>)"
    "bytes_at m p img"
    "\<forall>x. x \<in> region p (length img) \<or> x \<in> region (FAT_entry B) 512 \<or> (\<exists>d. x \<in> region (mmap_data B d) 512) \<or> m x = mem s x"
    by blast
  have "bytes_at m p (file_data disk drive lba s fsize (c # xs))"
    if "0 < fsize" "fsize \<le> 512 * int (unat (sectors_per_cluster s)) * (1 + int (length xs))" "contiguous lba s c xs"
    using image_contiguous [of disk drive fsize s xs lba c] assms(4) that m(2) bytes_at_append unfolding assms(9) by metis
  then show ?thesis using m by (intro exI [of _ "s\<lparr>io := h, mem := m, FAT := FAT_entry B\<rparr>"]) simp
qed

text \<open>
  C36: the boot sector. On a drive that meets the register-level contract \<open>fat32_rd_bootsec\<close> takes the first sector of the partition: without
  the signature it returns \<open>BAD_FAT_BOOT_SECTOR\<close> and changes none of the variables of the driver; with it the allocation
  table begins behind the reserved sectors, the clusters behind all copies of the table, and the size of a cluster and the first
  cluster of the root directory are those of the boot sector.
\<close>

theorem fat32_rd_bootsec_loads:
  fixes s :: "'a fat_scheme"
  assumes "ata_reads dev disk" "\<And>k. length (disk drive k) = 512" "drive = 0 \<or> drive = 1" "unat lba < 268435456"
    and "bs = disk drive (unat lba)"
  shows "\<exists>h m. fat32_rd_bootsec dev B drive lba s = Some
      (if le16 bs 510 \<noteq> 0xAA55 then (BAD_FAT_BOOT_SECTOR, s\<lparr>io := h, mem := m, fat32boot := bootsec B\<rparr>)
       else (SUCCESS, s\<lparr>io := h, mem := m, fat32boot := bootsec B, fat_begin_lba := lba + ucast (le16 bs 14),
         cluster_begin_lba := ucast (le16 bs 14) + ucast (bs ! 16) * le32 bs 36, root_dir_first_cluster := le32 bs 44,
         sectors_per_cluster := bs ! 13\<rparr>)) \<and>
    (\<forall>x. x \<in> region (bootsec B) 512 \<or> m x = mem s x)"
proof -
  let ?b = "bootsec B"
  obtain h where h: "read_disk_sector dev ?b drive lba 1 s = Some (IDE_ERR_NOERROR, s\<lparr>io := h, mem := st_bytes ?b bs (mem s)\<rparr>)"
    using read_sector_ata [OF assms(1,3,4), of ?b s] assms(5) by (auto simp: read_disk_sector_def)
  have l: "length bs = 512" using assms(2,5) by simp
  then have at: "bytes_at (st_bytes ?b bs (mem s)) ?b bs" by (intro bytes_at_st_bytes) simp
  note r = bytes_at_le [OF at, unfolded l, simplified]
  have v: "ld16 (st_bytes ?b bs (mem s)) (?b + 510) = le16 bs 510" "ld16 (st_bytes ?b bs (mem s)) (?b + 14) = le16 bs 14"
    "ld32 (st_bytes ?b bs (mem s)) (?b + 36) = le32 bs 36" "ld32 (st_bytes ?b bs (mem s)) (?b + 44) = le32 bs 44"
    "st_bytes ?b bs (mem s) (?b + 16) = bs ! 16" "st_bytes ?b bs (mem s) (?b + 13) = bs ! 13"
    using r(1) [of 510] r(1) [of 14] r(2) [of 36] r(2) [of 44] bytes_at_nth [OF at, of 16] bytes_at_nth [OF at, of 13] l by simp_all
  have "st_bytes ?b bs (mem s) x = mem s x" if "x \<notin> region ?b 512" for x using that st_bytes_outside [of x ?b bs] l by metis
  then show ?thesis
    by (intro exI [of _ h] exI [of _ "st_bytes ?b bs (mem s)"])
      (auto simp: fat32_rd_bootsec_def h Let_def v fb_magic_def fb_num_boot_sectors_def fb_num_fats_def fb_big_sectors_per_FAT_def
        fb_root_directory_start_def fb_sectors_per_cluster_def simp del: region_numeral)
qed

text \<open>
  C37: a short name. The name of the structure \<open>fat_temp\<close> becomes the eight characters of the entry without blanks, a dot unless the extension starts with a
  blank, and the extension without blanks, terminated; nothing else of memory changes and the entry is counted.
\<close>

theorem short_name_decodes:
  fixes s :: "'a fat_scheme"
  defines "fn \<equiv> fa_filename (fat_temp s)" and "d \<equiv> fat32dir s"
  assumes "region fn 13 \<inter> region d 11 = {}"
  shows "cstr (mem (short_name s)) fn (short_text (bytes_of (mem s) d 8) (bytes_of (mem s) (d + 8) 3)) \<and>
    fat_item_count (short_name s) = fat_item_count s + 1 \<and> fat_temp (short_name s) = fat_temp s \<and>
    (\<forall>x. x \<in> region fn 13 \<or> mem (short_name s) x = mem s x)"
proof -
  let ?w = "short_text (bytes_of (mem s) d 8) (bytes_of (mem s) (d + 8) 3)"
  have w: "short_name s = s\<lparr>mem := st_bytes fn (?w @ [0]) (mem s), fat_nam_index := int (length ?w), fat_item_count := fat_item_count s + 1\<rparr>"
    "length ?w \<le> 12" using short_name_text [of s] assms by simp_all
  have "0 \<notin> set ?w" by (auto simp: short_text_def name_char_def)
  then have c: "cstr (st_bytes fn (?w @ [0]) (mem s)) fn ?w" using w(2) by (intro cstr_st_bytes) simp_all
  have "st_bytes fn (?w @ [0]) (mem s) x = mem s x" if "x \<notin> region fn 13" for x
    using that w(2) region_mono [of "length (?w @ [0])" 13 fn] by (intro st_bytes_outside) (auto simp del: region_numeral)
  then show ?thesis unfolding w(1) using c by (simp del: region_numeral) blast
qed

section \<open>Witnesses\<close>

text \<open>A partition at sector 63 whose table begins at sector 100: cluster 5 is followed by cluster 6, the last one; one sector to the cluster.\<close>

definition demo_fat :: fat where
  "demo_fat = fsys.extend (fsys.truncate (demo_fsys\<lparr>mem := (\<lambda>_. 0), current_drive := 0, current_lba := 63\<rparr>))
     \<lparr>fat_item_count = 0, fat_nam_index = 0, fat_file_prop = 0, fat_temp = 0x3000, fat32boot = 0, fat32dir = 0x4000, fat32longdir = 0,
      d_time = 0, d_date = 0, FAT = 0, fat_begin_lba = 100, cluster_begin_lba = 200, sectors_per_cluster = 1,
      root_dir_first_cluster = 2, prev_cluster = 2\<rparr>"

lemma demo_fat_simps [simp]:
  "mem demo_fat = (\<lambda>_. 0)" "current_drive demo_fat = 0" "current_lba demo_fat = 63" "fat_begin_lba demo_fat = 100" "cluster_begin_lba demo_fat = 200"
  "sectors_per_cluster demo_fat = 1" "fat_temp demo_fat = 0x3000" "fat32dir demo_fat = 0x4000"
  by (simp_all add: demo_fat_def fsys.defs)

definition demo_fat_bufs :: fat_bufs where
  "demo_fat_bufs = \<lparr>FAT_entry = 0x90000, bootsec = 0x91000, cluster_direntry = (\<lambda>_. 0x92000), mmap_data = (\<lambda>_. 0x93000),
     fat_argtable = 0x94000, fat_sc = 0x95000\<rparr>"

definition demo_fat_disk :: "int \<Rightarrow> nat \<Rightarrow> byte list" where
  "demo_fat_disk d k =
     (if k = 100 then replicate 20 0 @ [6, 0, 0, 0, 0xFF, 0xFF, 0xFF, 0x0F] @ replicate 484 0
      else if k = 63 then replicate 13 0 @ [1, 32, 0, 2] @ replicate 19 0 @ [16, 0, 0, 0] @ replicate 4 0 @ [2, 0, 0, 0] @ replicate 462 0 @ [0x55, 0xAA]
      else replicate 512 (of_nat k))"

lemma demo_fat_reads: "ata_reads (ata_dev demo_fat_disk) demo_fat_disk" "length (demo_fat_disk d k) = 512"
  by (rule ata_dev_reads) (simp_all add: demo_fat_disk_def)

lemma demo_fat_next: "fat_next demo_fat_disk 0 100 5 = 6" "fat_next demo_fat_disk 0 100 6 = FAT_EOF_MARKER"
  by (simp_all add: fat_next_def demo_fat_disk_def le32_def ld32_def nth_append)

theorem fat32_mmap_follows_chain_witness:
  "\<exists>s'. fat32_mmap (ata_dev demo_fat_disk) demo_fat_bufs 0 0 63 5 0x100000 1000 demo_fat = Some (None, s') \<and>
     bytes_at (mem s') 0x100000 (demo_fat_disk 0 266 @ take 488 (demo_fat_disk 0 267))"
proof -
  let ?sec = "\<lambda>d k. demo_fat_disk 0 (clus_pos 63 d demo_fat + k)"
  have p: "clus_pos 63 5 demo_fat = 266" "clus_pos 63 6 demo_fat = 267" by (simp_all add: clus_pos_def CLUSTER_TO_LBA_def)
  have c: "mmap_count 1000 = 2" "mmap_count 488 = 1" by (simp_all add: mmap_count_def)
  have len: "length (mmap_image ?sec 1000 [5, 6]) = 1536"
    by (simp add: c demo_fat_reads(2) upt_rec)
  have dis: "region 0x100000 1536 \<inter> (region (mmap_data demo_fat_bufs d) 512 \<union> region (FAT_entry demo_fat_bufs) 512) = {}" for d
    by (auto simp: demo_fat_bufs_def region_iff)
  have fbl: "unat (100 + e div CLU_PER_FAT) < 268435456" for e :: uint
  proof -
    have "unat (e div CLU_PER_FAT) < 33554432" using unat_uint_less [of e] by (simp add: unat_div less_mult_imp_div_less)
    then show ?thesis using unat_add_small [of 100 "e div CLU_PER_FAT"] by simp
  qed
  obtain s' where s': "fat32_mmap (ata_dev demo_fat_disk) demo_fat_bufs 0 0 63 5 0x100000 1000 demo_fat = Some (None, s')"
    "bytes_at (mem s') 0x100000 (file_data demo_fat_disk 0 63 demo_fat 1000 [5, 6])"
    using fat32_mmap_follows_chain [of "ata_dev demo_fat_disk" demo_fat_disk demo_fat 5 "[6]" 1000 "mmap_image ?sec 1000 [5, 6]"
        "0x100000" demo_fat_bufs] demo_fat_reads len dis fbl demo_fat_next p by (auto simp: c)
  have "file_data demo_fat_disk 0 63 demo_fat 1000 [5, 6] = demo_fat_disk 0 266 @ take 488 (demo_fat_disk 0 267)"
    by (simp add: file_data_def cluster_data_def sectors_def p demo_fat_reads(2) upt_rec)
  with s' show ?thesis by auto
qed

theorem fat32_rd_bootsec_loads_witness:
  "\<exists>s'. fat32_rd_bootsec (ata_dev demo_fat_disk) demo_fat_bufs 0 63 demo_fat = Some (SUCCESS, s') \<and> fat_begin_lba s' = 95 \<and>
     cluster_begin_lba s' = 64 \<and> sectors_per_cluster s' = 1 \<and> root_dir_first_cluster s' = 2"
proof -
  let ?bs = "demo_fat_disk 0 63"
  have v: "le16 ?bs 510 = 0xAA55" "le16 ?bs 14 = 32" "?bs ! 16 = 2" "le32 ?bs 36 = 16" "le32 ?bs 44 = 2" "?bs ! 13 = 1"
    by (simp_all add: demo_fat_disk_def le16_def le32_def ld16_def ld32_def nth_append)
  have u: "?bs = demo_fat_disk 0 (unat (63 :: uint))" by simp
  show ?thesis using fat32_rd_bootsec_loads [OF demo_fat_reads _ _ u, of demo_fat_bufs demo_fat] by (auto simp: v)
qed

theorem short_name_decodes_witness:
  "cstr (mem (short_name (demo_fat\<lparr>mem := st_bytes 0x4000 (str ''HELLO   C  '') (\<lambda>_. 0)\<rparr>))) 0x300C (str ''HELLO.C'')"
proof -
  let ?s = "demo_fat\<lparr>mem := st_bytes 0x4000 (str ''HELLO   C  '') (\<lambda>_. 0)\<rparr>"
  have d: "region (fa_filename (fat_temp ?s)) 13 \<inter> region (fat32dir ?s) 11 = {}" by (auto simp: fa_filename_def region_iff)
  have "short_text (bytes_of (mem ?s) 0x4000 8) (bytes_of (mem ?s) 0x4008 3) = str ''HELLO.C''"
    by (simp add: bytes_of_numeral short_text_def name_char_def)
  then show ?thesis using short_name_decodes [OF d] by (simp add: fa_filename_def del: str_simps)
qed

end
