(* ===== verification/Ext2_Dir.thy ===== *)
theory Ext2_Dir
  imports Ext2
begin

text \<open>
  What reading an ext2 directory leaves in memory: a list of \<open>file_properties\<close> structures, one live block each, for the
  entries of the blocks of the directory as the disk has them. The reference is a directory block as a list of
  bytes with the chain of its records (\<open>dir_chain\<close>, \<open>dir_entry\<close>) and \<open>listing\<close>, which says what becomes of the entries
  of several blocks. The loops of \<open>ext2_rd_dir\<close> are shown to build the list entry by entry and block by block.
\<close>

section \<open>Directory blocks\<close>

text \<open>A name as the shell wants it: a blank gets a backslash in front.\<close>

definition escaped :: "byte list \<Rightarrow> byte list" where
  "escaped nm = concat (map (\<lambda>c. if c = 32 then [92, 32] else [c]) nm)"

lemma escaped_simps [simp]:
  "escaped [] = []"
  "escaped (c # nm) = (if c = 32 then [92, 32] else [c]) @ escaped nm"
  by (simp_all add: escaped_def)

text \<open>The record at offset \<open>off\<close> of the block \<open>b\<close>.\<close>

definition rec_len :: "byte list \<Rightarrow> nat \<Rightarrow> nat" where "rec_len b off = unat (le16 b (off + 4))"
definition name_len :: "byte list \<Rightarrow> nat \<Rightarrow> nat" where "name_len b off = unat (b ! (off + 6))"
definition rec_name :: "byte list \<Rightarrow> nat \<Rightarrow> byte list" where "rec_name b off = take (name_len b off) (drop (off + 8) b)"

text \<open>The offsets of the records of a block, from \<open>off\<close> to its end.\<close>

primrec dir_chain :: "byte list \<Rightarrow> nat \<Rightarrow> nat list \<Rightarrow> bool" where
  "dir_chain b off [] = False"
| "dir_chain b off (p # ps) \<longleftrightarrow> p = off \<and> off + 8 + name_len b off \<le> length b \<and> length (escaped (rec_name b off)) < 256 \<and>
     (if off + rec_len b off < length b then 0 < rec_len b off \<and> dir_chain b (off + rec_len b off) ps else ps = [])"

text \<open>What a directory says about a file: its inode, size, type and name.\<close>

type_synonym file_entry = "uint \<times> uint \<times> byte \<times> byte list"

text \<open>\<open>isize\<close> gives the size that an inode holds.\<close>

definition dir_entry :: "(uint \<Rightarrow> uint) \<Rightarrow> byte list \<Rightarrow> nat \<Rightarrow> file_entry" where
  "dir_entry isize b off = (le32 b off, isize (le32 b off), b ! (off + 7), rec_name b off)"

text \<open>A structure with these properties.\<close>

definition file_props :: "memory \<Rightarrow> addr \<Rightarrow> file_entry \<Rightarrow> bool" where
  "file_props m p e = (case e of (ino, sz, ty, nm) \<Rightarrow> ld32 m (fp_inode p) = ino \<and> ld32 m (fp_size p) = sz \<and>
     ld32 m (fp_file_type p) = ucast ty \<and> length (escaped nm) < 256 \<and>
     bytes_at m (fp_filename p) (escaped nm @ [0]))"

section \<open>One entry\<close>

lemma copy_name_bytes:
  assumes nl: "nl = unat (m (de_name_len de))" and d: "region fn (length (escaped nm)) \<inter> region de (8 + nl) = {}"
    and nm: "nm = bytes_of m (de_name de) nl" and len: "8 + nl < 4294967296"
  shows "j \<le> nl \<Longrightarrow> i + length (escaped (drop j nm)) = length (escaped nm) \<Longrightarrow>
    (\<And>x. x \<in> region de (8 + nl) \<Longrightarrow> m' x = m x) \<Longrightarrow>
    copy_name fn de j (of_nat i) m' =
      Some (of_nat (length (escaped nm)), st_bytes (fn + of_nat i) (escaped (drop j nm)) m')"
proof (induction "nl - j" arbitrary: j i m')
  case 0
  have "de_name_len de \<in> region de (8 + nl)" using regionI [of 6 "8 + nl" de] by (simp add: de_name_len_def)
  then have "unat (m' (de_name_len de)) = nl" using 0 nl by simp
  moreover have "j = nl" "drop j nm = []" using 0 nm by (simp_all add: bytes_of_def)
  ultimately show ?case using "0.prems"(2) by (subst copy_name.simps) simp
next
  case (Suc n)
  then have j: "j < nl" by simp
  have ln: "length nm = nl" by (simp add: nm bytes_of_def)
  let ?c = "nm ! j"
  have reg: "de_name_len de \<in> region de (8 + nl)" "de_name de + of_nat j \<in> region de (8 + nl)"
    using regionI [of 6 "8 + nl" de] regionI [of "8 + j" "8 + nl" de] j by (simp_all add: de_name_len_def de_name_def add.assoc)
  have c: "m' (de_name de + of_nat j) = ?c" using Suc.prems(3) [OF reg(2)] j by (simp add: nm bytes_of_def)
  have l: "unat (m' (de_name_len de)) = nl" using Suc.prems(3) [OF reg(1)] nl by simp
  have dr: "drop j nm = ?c # drop (Suc j) nm" using j ln by (simp add: Cons_nth_drop_Suc)
  have out: "x \<noteq> fn + of_nat k" if "x \<in> region de (8 + nl)" "k < length (escaped nm)" for x k
    using d that regionI [of k "length (escaped nm)" fn] by blast
  show ?case
  proof (cases "?c = 32")
    case True
    then have e: "escaped (drop j nm) = [92, 32] @ escaped (drop (Suc j) nm)" by (simp add: dr)
    have i: "i + 1 < length (escaped nm)" "i < length (escaped nm)" using Suc.prems(2) e by simp_all
    let ?m1 = "m'(fn + of_nat i := 92)"
    let ?m2 = "?m1(fn + (of_nat i + 1) := 32)"
    have c1: "?m1 (de_name de + of_nat j) = 32" using c True out [OF reg(2) i(2)] by auto
    have k: "?m2 x = m x" if "x \<in> region de (8 + nl)" for x
      using Suc.prems(3) [OF that] out [OF that i(1)] out [OF that i(2)] by auto
    have "copy_name fn de (Suc j) (of_nat (i + 2)) ?m2 =
        Some (of_nat (length (escaped nm)), st_bytes (fn + of_nat (i + 2)) (escaped (drop (Suc j) nm)) ?m2)"
      using Suc.hyps(2) j Suc.prems(2) e k by (intro Suc.hyps(1)) simp_all
    then show ?thesis using j l c c1 True by (subst copy_name.simps) (simp add: e Let_def add_ac)
  next
    case False
    then have e: "escaped (drop j nm) = ?c # escaped (drop (Suc j) nm)" by (simp add: dr)
    have i: "i < length (escaped nm)" using Suc.prems(2) e by simp
    let ?m1 = "m'(fn + of_nat i := ?c)"
    have k: "?m1 x = m x" if "x \<in> region de (8 + nl)" for x using Suc.prems(3) [OF that] out [OF that i] by auto
    have "copy_name fn de (Suc j) (of_nat (i + 1)) ?m1 =
        Some (of_nat (length (escaped nm)), st_bytes (fn + of_nat (i + 1)) (escaped (drop (Suc j) nm)) ?m1)"
      using Suc.hyps(2) j Suc.prems(2) e k by (intro Suc.hyps(1)) simp_all
    then show ?thesis using j l c False by (subst copy_name.simps) (simp add: e add_ac)
  qed
qed

text \<open>The numbers of the superblock and the descriptor that say where the inodes are: block size, blocks and inodes per
  group, first block of the inode table. \<open>meta\<close> is where they lie.\<close>

type_synonym geometry = "nat \<times> nat \<times> nat \<times> nat"

definition geometry :: "'a ext2_scheme \<Rightarrow> geometry" where
  "geometry s = (unat (bsize s), unat (ld32 (mem s) (sb_blocks_per_group (ext2super s))),
     unat (ld32 (mem s) (sb_inodes_per_group (ext2super s))), unat (ld32 (mem s) (gr_inode_table (grblock s))))"

definition meta :: "'a ext2_scheme \<Rightarrow> addr set" where
  "meta s = region (gbinfo s) 4 \<union> region (ext2super s) 44 \<union> region (grblock s) 12"

lemma geometry_cong:
  assumes "gbinfo s' = gbinfo s" "ext2super s' = ext2super s" "grblock s' = grblock s" "\<And>x. x \<in> meta s \<Longrightarrow> mem s' x = mem s x"
  shows "geometry s' = geometry s" "bsize s' = bsize s" "meta s' = meta s"
proof -
  have "region (a + of_nat k) 4 \<subseteq> region a (k + 4)" for a k by (rule region_offset)
  from this [of "ext2super s" 32] this [of "ext2super s" 40] this [of "grblock s" 8] region_mono [of 36 44 "ext2super s"]
  have "region (ext2super s + 32) 4 \<subseteq> meta s" "region (ext2super s + 40) 4 \<subseteq> meta s" "region (grblock s + 8) 4 \<subseteq> meta s"
    by (auto simp: meta_def)
  then show "geometry s' = geometry s"
    using assms bsize_cong [OF assms(1)] ld32_cong [of _ "mem s'" "mem s"]
    by (simp add: geometry_def ext2_offsets subset_iff meta_def)
  show "bsize s' = bsize s" using assms(4) by (intro bsize_cong [OF assms(1)]) (auto simp: meta_def)
  show "meta s' = meta s" using assms(1-3) by (simp add: meta_def)
qed

definition inode_sec :: "geometry \<Rightarrow> uint \<Rightarrow> nat" where
  "inode_sec g ino = (case g of (bs, bpg, ipg, t0) \<Rightarrow> inode_sector bs bpg ipg t0 (unat ino))"

definition inode_nth :: "geometry \<Rightarrow> uint \<Rightarrow> nat" where
  "inode_nth g ino = (case g of (bs, bpg, ipg, t0) \<Rightarrow> (unat ino - 1) mod ipg mod 4)"

text \<open>The inodes the driver finds: none is the last one of its group, and the sectors are in reach.\<close>

definition inode_ok :: "geometry \<Rightarrow> uint \<Rightarrow> uint \<Rightarrow> bool" where
  "inode_ok g lba ino = (case g of (bs, bpg, ipg, t0) \<Rightarrow> let I = unat ino in
     bs \<in> {1024, 2048, 4096} \<and> 0 < ipg \<and> ipg < 2147483648 \<and> I mod ipg \<noteq> 0 \<and> I div ipg < 729 \<and>
     (I div ipg * bpg + t0 + 2) * (bs div 128) + ipg < 4294967296 \<and> unat lba + inode_sec g ino < 268435456)"

definition inode_bytes :: "(int \<Rightarrow> nat \<Rightarrow> byte list) \<Rightarrow> int \<Rightarrow> uint \<Rightarrow> geometry \<Rightarrow> uint \<Rightarrow> byte list" where
  "inode_bytes disk drive lba g ino = take 128 (drop (128 * inode_nth g ino) (disk drive (unat lba + inode_sec g ino)))"

definition inode_size :: "(int \<Rightarrow> nat \<Rightarrow> byte list) \<Rightarrow> int \<Rightarrow> uint \<Rightarrow> geometry \<Rightarrow> uint \<Rightarrow> uint" where
  "inode_size disk drive lba g ino = le32 (inode_bytes disk drive lba g ino) 4"

lemma inode_ok_place:
  assumes "inode_ok (geometry s) lba ino"
  shows "\<exists>x. inode_to_lba ino s = Some x \<and> unat (lba + x + 2) = unat lba + inode_sec (geometry s) ino"
    "get_index ino s = Some (int (inode_nth (geometry s) ino))" "inode_nth (geometry s) ino < 4"
    "unat lba + inode_sec (geometry s) ino < 268435456"
proof -
  note a = assms [unfolded inode_ok_def geometry_def Let_def prod.case]
  obtain x where x: "inode_to_lba ino s = Some x" "x + 2 = of_nat (inode_sec (geometry s) ino)"
    using inode_to_lba_sector [of s ino] a by (auto simp: inode_sec_def geometry_def)
  have l: "unat lba + inode_sec (geometry s) ino < 268435456" using a by (simp add: geometry_def)
  have w: "lba + x + 2 = lba + of_nat (inode_sec (geometry s) ino)" using x(2) by (simp add: add.assoc)
  have "unat (lba + x + 2) = unat lba + inode_sec (geometry s) ino"
    unfolding w using l by (intro unat_add_of_nat) simp
  then show "\<exists>x. inode_to_lba ino s = Some x \<and> unat (lba + x + 2) = unat lba + inode_sec (geometry s) ino" using x(1) by blast
  show "get_index ino s = Some (int (inode_nth (geometry s) ino))"
    using get_index_nth [of s ino] a by (simp add: inode_nth_def geometry_def)
  show "inode_nth (geometry s) ino < 4" by (simp add: inode_nth_def geometry_def)
  show "unat lba + inode_sec (geometry s) ino < 268435456" by (rule l)
qed

lemma bytes_at_slice: "bytes_at m a bs \<Longrightarrow> k \<le> length bs \<Longrightarrow> bytes_at m (a + of_nat k) (take n (drop k bs))"
proof -
  assume "bytes_at m a bs" "k \<le> length bs"
  then have "bytes_at m (a + of_nat k) (take n (drop k bs) @ drop n (drop k bs))"
    using bytes_at_append [of m a "take k bs" "drop k bs"] by (simp del: drop_drop)
  then show ?thesis unfolding bytes_at_append by blast
qed

text \<open>A record in memory, as the block says it.\<close>

lemma record_at:
  assumes b: "bytes_at m d b" "length b \<le> 4096" and o: "off + 8 + name_len b off \<le> length b"
  defines "de \<equiv> d + of_nat off"
  shows "ld32 m (de_inode de) = le32 b off" "ld16 m (de_rec_len de) = le16 b (off + 4)" "m (de_name_len de) = b ! (off + 6)"
    "m (de_file_type de) = b ! (off + 7)" "bytes_of m (de_name de) (name_len b off) = rec_name b off"
    "region de (8 + name_len b off) \<subseteq> region d 4096"
proof -
  have l: "length b < 65536" using b(2) by simp
  have e: "de_inode de = d + of_nat off" "de_rec_len de = d + of_nat (off + 4)" "de_name_len de = d + of_nat (off + 6)"
    "de_file_type de = d + of_nat (off + 7)" "de_name de = d + of_nat (off + 8)"
    by (simp_all add: ext2_offsets de_def add_ac)
  show "ld32 m (de_inode de) = le32 b off" unfolding e using bytes_at_le(2) [OF b(1) l] o by simp
  show "ld16 m (de_rec_len de) = le16 b (off + 4)" unfolding e using bytes_at_le(1) [OF b(1) l, of "off + 4"] o by simp
  show "m (de_name_len de) = b ! (off + 6)" "m (de_file_type de) = b ! (off + 7)"
    unfolding e using bytes_at_nth [OF b(1), of "off + 6"] bytes_at_nth [OF b(1), of "off + 7"] o by simp_all
  have "bytes_at m (d + of_nat (off + 8)) (rec_name b off)" using bytes_at_slice [OF b(1)] o by (simp add: rec_name_def del: of_nat_add)
  moreover have "length (rec_name b off) = name_len b off" using o by (simp add: rec_name_def)
  ultimately show "bytes_of m (de_name de) (name_len b off) = rec_name b off" unfolding e by (simp add: bytes_at_bytes_of)
  show "region de (8 + name_len b off) \<subseteq> region d 4096"
    unfolding de_def using region_offset [of d off "8 + name_len b off"] region_mono [of "off + (8 + name_len b off)" 4096 d] o b(2) by auto
qed

lemma name_len_less: "name_len b off < 256"
  using unsigned_less [of "b ! (off + 6)"] by (simp add: name_len_def)

text \<open>Filling in a structure.\<close>

definition put_props :: "addr \<Rightarrow> file_entry \<Rightarrow> memory \<Rightarrow> memory" where
  "put_props t e m = (case e of (ino, sz, ty, nm) \<Rightarrow> st32 (fp_file_type t) (ucast ty) (st32 (fp_inode t) ino (st32 (fp_size t) sz m)))"

lemma put_props_outside: "x \<notin> region t 12 \<Longrightarrow> put_props t e m x = m x"
proof -
  assume x: "x \<notin> region t 12"
  have "x \<notin> region (t + of_nat k) 4" if "k \<le> 8" for k
    using region_offset [of t k 4] region_mono [of "k + 4" 12 t] that x by auto
  from this [of 0] this [of 4] this [of 8] show ?thesis
    by (cases e) (simp add: put_props_def ext2_offsets st32_outside)
qed

lemma put_props_ok:
  assumes nm: "bytes_at m (fp_filename t) (escaped (snd (snd (snd e))) @ [0])" "length (escaped (snd (snd (snd e)))) < 256"
  shows "file_props (put_props t e m) t e"
proof -
  obtain ino sz ty nm where e: "e = (ino, sz, ty, nm)" using prod_cases4 by blast
  have "region (t + of_nat 12) 256 \<inter> region (t + of_nat 0) 12 = {}"
    using offsets_disjoint [of 0 12 12 256 t] by (simp add: Int_commute)
  moreover have "region (fp_filename t) (length (escaped nm @ [0])) \<subseteq> region (t + of_nat 12) 256"
    using region_mono [of "length (escaped nm @ [0])" 256 "t + 12"] assms(2) by (simp add: fp_filename_def e)
  ultimately have "bytes_at (put_props t e m) (fp_filename t) (escaped nm @ [0]) = bytes_at m (fp_filename t) (escaped nm @ [0])"
    by (intro bytes_at_cong put_props_outside) auto
  then show ?thesis
    using nm ld32_field [of 0 8 t] ld32_field [of 4 0 t] ld32_field [of 4 8 t]
    by (simp add: file_props_def e put_props_def ext2_offsets)
qed

text \<open>The buffers on the stack keep clear of the heap, of each other and of what says where the inodes are.\<close>

definition dir_room :: "ext2_bufs \<Rightarrow> 'a ext2_scheme \<Rightarrow> bool" where
  "dir_room B s \<longleftrightarrow> region (indbuf B) 512 \<inter> (region (dirbuf B) 4096 \<union> meta s) = {} \<and>
     region (dirbuf B) 4096 \<inter> meta s = {} \<and> (region (indbuf B) 512 \<union> region (dirbuf B) 4096) \<inter> kernel_area = {}"

lemma rd_dir_entry_ok:
  fixes s :: "'a ext2_scheme"
  assumes ata: "ata_reads dev disk" "drive = 0 \<or> drive = 1" "\<And>k. length (disk drive k) = 512"
    and b: "bytes_at (mem s) (dirbuf B) b" "length b \<le> 4096" "off + 8 + name_len b off \<le> length b" "length (escaped (rec_name b off)) < 256"
    and ni: "nam_index s = 0" and ino: "inode_ok (geometry s) lba (le32 b off)"
    and room: "dir_room B s" "region (ext2_temp s) 268 \<inter> (region (indbuf B) 512 \<union> region (dirbuf B) 4096 \<union> meta s) = {}"
  shows "\<exists>h i m. rd_dir_entry dev B drive lba (dirbuf B + of_nat off) s =
      Some (s\<lparr>direntry := dirbuf B + of_nat off, nam_index := 0, io := h, intab1 := i, mem := m\<rparr>) \<and>
    file_props m (ext2_temp s) (dir_entry (inode_size disk drive lba (geometry s)) b off) \<and>
    (\<forall>x. x \<in> region (ext2_temp s) 268 \<or> x \<in> region (indbuf B) 512 \<or> m x = mem s x)"
proof -
  let ?t = "ext2_temp s" and ?de = "dirbuf B + of_nat off" and ?nm = "rec_name b off" and ?i = "le32 b off" and ?g = "geometry s"
  let ?e = "escaped ?nm" and ?fn = "fp_filename ?t"
  have nl: "name_len b off < 256" by (rule name_len_less)
  note r0 = record_at [OF b(1-3)]
  have fn: "region (fp_filename ?t) 256 \<subseteq> region ?t 268" using region_offset [of ?t 12 256] by (simp add: fp_filename_def)
  have en: "region (fp_filename ?t) (length (escaped ?nm)) \<subseteq> region ?t 268"
    using fn region_mono [of "length (escaped ?nm)" 256 "fp_filename ?t"] b(4) by auto
  have dis: "region (fp_filename ?t) (length (escaped ?nm)) \<inter> region ?de (8 + name_len b off) = {}" using en r0(6) room(2) by blast
  have dj: "y \<notin> region ?t 268 \<and> y \<notin> region (indbuf B) 512" if "y \<in> meta s \<union> region (dirbuf B) 4096" for y
    using that room unfolding dir_room_def by blast
  have nle: "name_len b off = unat (mem s (de_name_len ?de))" by (simp add: name_len_def r0(3))
  have c: "copy_name ?fn ?de 0 0 (mem s) = Some (of_nat (length ?e), st_bytes ?fn ?e (mem s))"
    using copy_name_bytes [OF nle dis r0(5) [symmetric], of 0 0 "mem s"] nl by simp
  define m0 where "m0 = st_bytes ?fn (?e @ [0]) (mem s)"
  have sub: "region ?fn (length (?e @ [0])) \<subseteq> region ?t 268" using fn region_mono [of "length (?e @ [0])" 256 ?fn] b(4) by auto
  have k0: "m0 x = mem s x" if "x \<notin> region ?t 268" for x
    unfolding m0_def using that sub by (intro st_bytes_outside) blast
  let ?s1 = "s\<lparr>direntry := ?de, mem := m0, nam_index := 0\<rparr>"
  have g1: "geometry ?s1 = ?g" using k0 dj by (intro geometry_cong) simp_all
  obtain x where x: "inode_to_lba ?i ?s1 = Some x" "unat (lba + x + 2) = unat lba + inode_sec ?g ?i"
    using inode_ok_place(1) [of ?s1 lba ?i] ino unfolding g1 by blast
  note place = inode_ok_place(3,4) [OF ino]
  let ?sec = "disk drive (unat lba + inode_sec ?g ?i)"
  obtain h where h: "ext2_rd_block dev drive (lba + x) 1 (indbuf B) ?s1 = Some (?s1\<lparr>io := h, mem := st_bytes (indbuf B) ?sec m0\<rparr>)"
    using ext2_rd_block_ata [OF ata(1,2), of "lba + x" "indbuf B" ?s1] x(2) place(2) by auto
  define M where "M = st_bytes (indbuf B) ?sec m0"
  have kM: "M y = m0 y" if "y \<notin> region (indbuf B) 512" for y unfolding M_def using that ata(3) by (intro st_bytes_outside) simp
  let ?s2 = "?s1\<lparr>io := h, mem := M\<rparr>"
  have g2: "geometry ?s2 = ?g" using k0 kM dj by (intro geometry_cong) simp_all
  have ix: "get_index ?i ?s2 = Some (int (inode_nth ?g ?i))" using inode_ok_place(2) [of ?s2 lba ?i] ino unfolding g2 by blast
  let ?p = "indbuf B + of_nat (128 * inode_nth ?g ?i)"
  have "bytes_at M (indbuf B) ?sec" unfolding M_def using ata(3) by (intro bytes_at_st_bytes) simp
  then have "bytes_at M ?p (inode_bytes disk drive lba ?g ?i)"
    unfolding inode_bytes_def using place(1) ata(3) by (intro bytes_at_slice) simp_all
  then have sz: "ld32 M (i_size ?p) = inode_size disk drive lba ?g ?i"
    using bytes_at_le(2) [of M ?p _ 4] place(1) ata(3) by (simp add: inode_bytes_def inode_size_def i_size_def)
  have at: "bytes_at m' (dirbuf B) b" if "\<And>y. y \<in> region (dirbuf B) 4096 \<Longrightarrow> m' y = mem s y" for m'
    using that b(1) region_mono [OF b(2), of "dirbuf B"] bytes_at_cong [of "dirbuf B" b m' "mem s"] by blast
  have kd: "M y = mem s y" if "y \<in> region (dirbuf B) 4096" for y using that k0 kM dj by simp
  note rM = record_at(1) [OF at [OF kd] b(2,3)]
  let ?m1 = "st32 (fp_size ?t) (inode_size disk drive lba ?g ?i) M"
  have w: "y \<notin> region (?t + of_nat k) 4" if "k \<le> 8" "y \<in> region (dirbuf B) 4096" for k y
    using region_offset [of ?t k 4] region_mono [of "k + 4" 268 ?t] that dj [of y] by auto
  have d1: "?m1 y = mem s y" if "y \<in> region (dirbuf B) 4096" for y
    using st32_outside [of y "fp_size ?t"] w [of 4, OF _ that] kd [OF that] by (simp add: fp_size_def)
  note r1 = record_at(1) [OF at [OF d1] b(2,3)]
  have d2: "st32 (fp_inode ?t) ?i ?m1 y = mem s y" if "y \<in> region (dirbuf B) 4096" for y
    using st32_outside [of y "fp_inode ?t"] w [of 0, OF _ that] d1 [OF that] by (simp add: fp_inode_def)
  note r2 = record_at(4) [OF at [OF d2] b(2,3)]
  have m0u: "(st_bytes ?fn ?e (mem s))(?fn + of_nat (length ?e) := 0) = m0" by (simp add: m0_def st_bytes_append)
  have "m0 y = mem s y" if "y \<in> region (dirbuf B) 4096" for y using k0 dj that by simp
  note r0' = record_at(1) [OF at [OF this] b(2,3)]
  let ?ent = "dir_entry (inode_size disk drive lba ?g) b off"
  have "rd_dir_entry dev B drive lba ?de s =
      Some (s\<lparr>direntry := ?de, nam_index := 0, io := h, intab1 := (intab1 s)[inode_nth ?g ?i := ?p], mem := put_props ?t ?ent M\<rparr>)"
    using c x(1) h [folded M_def] ix rM sz r1 r2 r0'
    by (simp add: rd_dir_entry_def Let_def ni m0u put_props_def dir_entry_def)
  moreover have "file_props (put_props ?t ?ent M) ?t ?ent"
  proof (rule put_props_ok)
    have "bytes_at m0 ?fn (?e @ [0])" unfolding m0_def using b(4) by (intro bytes_at_st_bytes) simp
    then show "bytes_at M ?fn (escaped (snd (snd (snd ?ent))) @ [0])"
      using kM sub room(2) bytes_at_cong [of ?fn "?e @ [0]" M m0] by (auto simp: dir_entry_def)
  qed (simp add: dir_entry_def b(4))
  moreover have "put_props ?t ?ent M y = mem s y" if "y \<notin> region ?t 268" "y \<notin> region (indbuf B) 512" for y
  proof -
    have "y \<notin> region ?t 12" using that(1) region_mono [of 12 268 ?t] by auto
    then show ?thesis using that k0 kM put_props_outside by simp
  qed
  ultimately show ?thesis by blast
qed

section \<open>The list grows\<close>

text \<open>Writing a block of one's own and memory outside the heap at the same time: the memory with the second part alone.\<close>

lemma kroom_write_both:
  assumes r: "kroom s L k" "p \<in> L" and D: "D \<inter> kernel_area = {}"
    and m: "\<And>x. x \<notin> payload (mem s) p \<Longrightarrow> x \<notin> D \<Longrightarrow> m x = mem s x"
  obtains mA where "kroom (s\<lparr>mem := mA\<rparr>) L k" "\<And>x. x \<notin> D \<Longrightarrow> mA x = mem s x"
    "\<And>c. c \<in> L \<Longrightarrow> payload mA c = payload (mem s) c" "\<And>x. x \<notin> payload mA p \<Longrightarrow> m x = mA x"
proof -
  define mA where "mA = (\<lambda>x. if x \<in> D then m x else mem s x)"
  have k: "mA x = mem s x" if "x \<in> kernel_area" for x using that D by (auto simp: mA_def)
  note e = kroom.room_elsewhere [OF r(1), of mA, OF k]
  show thesis
  proof (rule that [of mA])
    show "kroom (s\<lparr>mem := mA\<rparr>) L k" "\<And>c. c \<in> L \<Longrightarrow> payload mA c = payload (mem s) c" using e by auto
    show "m x = mA x" if "x \<notin> payload mA p" for x using that e r(2) m [of x] by (auto simp: mA_def)
  qed (simp add: mA_def)
qed

lemma units_file_properties: "unat (nunits_of sizeof_file_properties) = 35"
  by (simp add: unat_nunits)

lemma file_props_cong:
  assumes "\<And>x. x \<in> region p 268 \<Longrightarrow> m' x = m x"
  shows "file_props m' p e = file_props m p e"
proof -
  obtain ino sz ty nm where e: "e = (ino, sz, ty, nm)" using prod_cases4 by blast
  have "region (p + of_nat k) n \<subseteq> region p 268" if "k + n \<le> 268" for k n
    using region_offset [of p k n] region_mono [of "k + n" 268 p] that by auto
  note sub = this [of 0 4] this [of 4 4] this [of 8 4] this [of 12 "length (escaped nm @ [0])"]
  have "bytes_at m' (p + 12) (escaped nm @ [0]) = bytes_at m (p + 12) (escaped nm @ [0])" if "length (escaped nm) < 256"
    using sub(4) that by (intro bytes_at_cong assms(1)) (auto simp: e simp del: region_simps)
  moreover have "ld32 m' (p + of_nat k) = ld32 m (p + of_nat k)" if "k \<in> {0, 4, 8}" for k
    using sub(1-3) that by (intro ld32_cong assms(1)) auto
  from this [of 0] this [of 4] this [of 8] have "ld32 m' p = ld32 m p" "ld32 m' (p + 4) = ld32 m (p + 4)" "ld32 m' (p + 8) = ld32 m (p + 8)"
    by simp_all
  ultimately show ?thesis by (auto simp: file_props_def e ext2_offsets)
qed

text \<open>What reading a directory leaves alone in the state, and what the reading of its blocks leaves alone in addition.\<close>

definition same_sys :: "'a ext2_scheme \<Rightarrow> 'a ext2_scheme \<Rightarrow> bool" where
  "same_sys s s' \<longleftrightarrow> gbinfo s' = gbinfo s \<and> prev_inode s' = prev_inode s \<and>
     current_drive s' = current_drive s \<and> current_lba s' = current_lba s \<and> current_inode s' = current_inode s \<and>
     cursor_x s' = cursor_x s \<and> cursor_y s' = cursor_y s \<and> partition s' = partition s \<and> part_temp s' = part_temp s \<and>
     fs_drv_list s' = fs_drv_list s \<and> drv_root s' = drv_root s \<and> drv_chdir s' = drv_chdir s \<and> drv_loadfile s' = drv_loadfile s"

definition same_fs :: "'a ext2_scheme \<Rightarrow> 'a ext2_scheme \<Rightarrow> bool" where
  "same_fs s s' \<longleftrightarrow> same_sys s s' \<and> ext2super s' = ext2super s \<and> grblock s' = grblock s \<and> ext2_file_prop s' = ext2_file_prop s"

text \<open>The structure \<open>ext2_temp\<close> is a live block, the last of its list; the superblock is another one; the stack is elsewhere.\<close>

definition dir_heap :: "ext2_bufs \<Rightarrow> 'a ext2_scheme \<Rightarrow> addr set \<Rightarrow> nat \<Rightarrow> bool" where
  "dir_heap B s L k \<longleftrightarrow> kroom s L k \<and> ext2_temp s \<in> L \<and> ext2_temp s \<noteq> NULL \<and>
     region (ext2_temp s) 272 \<subseteq> payload (mem s) (ext2_temp s) \<and> ld32 (mem s) (fp_next (ext2_temp s)) = NULL \<and>
     ext2super s \<in> L \<and> ext2super s \<noteq> ext2_temp s \<and> region (ext2super s) 44 \<subseteq> payload (mem s) (ext2super s) \<and>
     (region (gbinfo s) 4 \<union> region (grblock s) 12) \<inter> kernel_area = {} \<and> dir_room B s"

lemma dir_heap_temp:
  assumes "dir_heap B s L k"
  shows "region (ext2_temp s) 268 \<inter> (region (indbuf B) 512 \<union> region (dirbuf B) 4096 \<union> meta s) = {}"
proof -
  have h: "kroom s L k" "ext2_temp s \<in> L" "region (ext2_temp s) 272 \<subseteq> payload (mem s) (ext2_temp s)" "ext2super s \<in> L"
    "ext2super s \<noteq> ext2_temp s" "region (ext2super s) 44 \<subseteq> payload (mem s) (ext2super s)"
    "(region (gbinfo s) 4 \<union> region (grblock s) 12) \<inter> kernel_area = {}"
    "(region (indbuf B) 512 \<union> region (dirbuf B) 4096) \<inter> kernel_area = {}" using assms by (simp_all add: dir_heap_def dir_room_def)
  have "region (ext2_temp s) 268 \<subseteq> payload (mem s) (ext2_temp s)" using h(3) region_mono [of 268 272 "ext2_temp s"] by auto
  moreover have "payload (mem s) (ext2_temp s) \<inter> payload (mem s) (ext2super s) = {}"
    using kowns_disjoint [OF kroom_own [OF h(1)] h(2,4)] h(5) by auto
  ultimately show ?thesis
    using h(6-8) kroom.usable_area [OF h(1,2)] unfolding meta_def by blast
qed

lemma dir_heap_meta:
  assumes "dir_heap B s L k" "x \<in> meta s \<union> region (dirbuf B) 4096"
  shows "x \<notin> region (ext2_temp s) 268" "x \<notin> region (indbuf B) 512"
  using dir_heap_temp [OF assms(1)] assms unfolding dir_heap_def dir_room_def by blast+

text \<open>Growing by the block that the next entry will use. \<open>s1\<close> is the state with the structure filled in.\<close>

lemma dir_heap_grow:
  fixes s :: "'a ext2_scheme"
  assumes h: "dir_heap B s L (35 + k)" "0 < k" and m1: "\<And>x. x \<notin> region (ext2_temp s) 268 \<Longrightarrow> x \<notin> region (indbuf B) 512 \<Longrightarrow> m1 x = mem s x"
    and s1: "s1 = s\<lparr>direntry := de, nam_index := 0, io := hs, intab1 := ii, mem := m1, item_index := it\<rparr>"
  shows "\<exists>a s2 m. kmalloc sizeof_file_properties s1 = Some (a, s2) \<and> m = st32 (fp_next a) NULL (st32 (fp_next (ext2_temp s)) a (mem s2)) \<and>
    dir_heap B (s2\<lparr>mem := m, ext2_temp := a\<rparr>) (insert a L) k \<and> a \<notin> L \<and> ld32 m (fp_next (ext2_temp s)) = a \<and>
    (\<forall>x \<in> region (ext2_temp s) 268. m x = m1 x) \<and> (\<forall>c \<in> L. payload m c = payload (mem s) c) \<and>
    (\<forall>c \<in> L - {ext2_temp s}. \<forall>x \<in> payload (mem s) c. m x = mem s x) \<and>
    (\<forall>x. x \<in> kernel_area \<or> x \<in> region (indbuf B) 512 \<or> m x = mem s x) \<and>
    same_fs s s2 \<and> ext2_temp s2 = ext2_temp s \<and> direntry s2 = de \<and> nam_index s2 = 0"
proof -
  let ?t = "ext2_temp s"
  have d: "kroom s L (35 + k)" "?t \<in> L" "region ?t 272 \<subseteq> payload (mem s) ?t" "region (indbuf B) 512 \<inter> kernel_area = {}"
    using h(1) by (auto simp: dir_heap_def dir_room_def)
  have t268: "region ?t 268 \<subseteq> region ?t 272" by (rule region_mono) simp
  have out: "m1 x = mem s x" if "x \<notin> payload (mem s) ?t" "x \<notin> region (indbuf B) 512" for x using m1 [of x] that d(3) t268 by blast
  obtain mA where A: "kroom (s\<lparr>mem := mA\<rparr>) L (35 + k)" "\<And>x. x \<notin> region (indbuf B) 512 \<Longrightarrow> mA x = mem s x"
    "\<And>c. c \<in> L \<Longrightarrow> payload mA c = payload (mem s) c" "\<And>x. x \<notin> payload mA ?t \<Longrightarrow> m1 x = mA x"
    by (rule kroom_write_both [OF d(1,2,4), of m1]) (use out in auto)
  obtain a s2 m where g: "kmalloc sizeof_file_properties s1 = Some (a, s2)" "a \<notin> L" "a \<noteq> NULL"
    "m = st32 (a + 268) NULL (st32 (?t + 268) a (mem s2))" "kroom (s2\<lparr>mem := m\<rparr>) (insert a L) k"
    "region a 272 \<subseteq> payload m a" "grown (s\<lparr>mem := mA\<rparr>) L m1 268 ?t a m"
    using kmalloc_grow [of "s\<lparr>mem := mA\<rparr>" L sizeof_file_properties k 268 ?t s1] A d h(2) by (auto simp: s1 units_file_properties)
  have s2: "same_fs s s2" "ext2_temp s2 = ?t" "direntry s2 = de" "nam_index s2 = 0"
    using kmalloc_upd [OF g(1)] by (auto simp: s1 same_fs_def same_sys_def)
  have pay: "payload m c = payload (mem s) c" if "c \<in> L" for c using g(7) A(3) that by (simp add: grown_def)
  have keep: "m x = mem s x" if "c \<in> L - {?t}" "x \<in> payload (mem s) c" for c x
  proof -
    have "m x = mA x" using g(7) A(3) [of c] that by (auto simp: grown_def)
    moreover have "x \<in> kernel_area" using kroom.usable_area [OF d(1), of c] that by auto
    ultimately show ?thesis using A(2) d(4) by auto
  qed
  have own: "m x = m1 x" if "x \<in> region ?t 268" for x
  proof -
    have "region (?t + of_nat 0) 268 \<inter> region (?t + of_nat 268) 4 = {}" by (rule offsets_disjoint) simp_all
    then have "x \<notin> region (?t + 268) 4" using that by auto
    moreover have "x \<in> payload mA ?t" using A(3) [OF d(2)] d(3) t268 that by blast
    ultimately show ?thesis using g(7) by (auto simp: grown_def)
  qed
  have nx: "ld32 m (fp_next ?t) = a" "ld32 m (fp_next a) = NULL" using g(7) by (simp_all add: grown_def fp_next_def)
  have k1: "kroom s1 L (35 + k)"
    using kroom_write(1) [OF A(1) d(2), of m1] A(4) kroom_cong [of s1 "s\<lparr>mem := m1\<rparr>"] by (simp add: s1)
  have link: "region (q + 268) 4 \<subseteq> kernel_area" if "q \<in> insert a L" "region q 272 \<subseteq> payload m q" for q
    using region_offset [of q 268 4] kroom.usable_area [OF g(5) that(1)] that(2) by auto
  have el: "x \<in> kernel_area \<or> x \<in> region (indbuf B) 512 \<or> m x = mem s x" for x
  proof (rule ccontr)
    assume n: "\<not> (x \<in> kernel_area \<or> x \<in> region (indbuf B) 512 \<or> m x = mem s x)"
    then have "x \<notin> region (?t + 268) 4" "x \<notin> region (a + 268) 4" using link [of ?t] link [of a] pay [of ?t] d(2,3) g(6) by auto
    then have "m x = mem s2 x" unfolding g(4) by (simp add: st32_outside)
    also have "\<dots> = m1 x" using kmalloc_outside [OF _ h(2) g(1), of L x] k1 n by (simp add: s1 units_file_properties)
    also have "\<dots> = mem s x" using out [of x] n kroom.usable_area [OF d(1,2)] by auto
    finally show False using n by simp
  qed
  let ?s3 = "s2\<lparr>mem := m, ext2_temp := a\<rparr>"
  have "dir_heap B ?s3 (insert a L) k"
    using h(1) s2 g(2,3,5,6) nx(2) pay kroom_cong [of ?s3 "s2\<lparr>mem := m\<rparr>"]
    by (auto simp: dir_heap_def same_fs_def same_sys_def dir_room_def meta_def)
  then show ?thesis
    using g(1,2,4) nx(1) own pay keep el s2 by (intro exI [of _ a] exI [of _ s2] exI [of _ m]) (simp add: fp_next_def)
qed

section \<open>One block\<close>

text \<open>
  The list starting at the structure that was the last one in \<open>s\<close> has been filled with the entries \<open>es\<close>, in \<open>ext2_temp s\<close>
  and the new blocks \<open>ps\<close>; the other live blocks and the memory outside are as they were.
\<close>

definition dir_listed :: "ext2_bufs \<Rightarrow> 'a ext2_scheme \<Rightarrow> addr set \<Rightarrow> nat \<Rightarrow> 'a ext2_scheme \<Rightarrow> addr list \<Rightarrow> addr set \<Rightarrow> file_entry list \<Rightarrow> bool" where
  "dir_listed B s L k s' ps W es \<longleftrightarrow>
     dir_heap B s' (L \<union> set ps) k \<and> ext2_temp s' = last (ext2_temp s # ps) \<and>
     set ps \<inter> L = {} \<and> distinct ps \<and> NULL \<notin> set ps \<and>
     lseg 268 (mem s') (ext2_temp s) (ext2_temp s # ps) NULL \<and> list_all2 (file_props (mem s')) (ext2_temp s # ps) es \<and>
     (\<forall>p \<in> set ps. region p 272 \<subseteq> payload (mem s') p) \<and> (\<forall>c \<in> L. payload (mem s') c = payload (mem s) c) \<and>
     (\<forall>c \<in> L - {ext2_temp s}. \<forall>x \<in> payload (mem s) c. mem s' x = mem s x) \<and>
     (\<forall>x. x \<in> kernel_area \<or> x \<in> W \<or> mem s' x = mem s x) \<and> same_fs s s' \<and> nam_index s' = 0"

lemma dir_heap_entry:
  assumes "dir_heap B s L k"
    and m: "\<And>x. x \<notin> region (ext2_temp s) 268 \<Longrightarrow> x \<notin> region (indbuf B) 512 \<Longrightarrow> m x = mem s x"
    and s1_def: "s1 = s\<lparr>direntry := de, nam_index := 0, io := hs, intab1 := ii, mem := m\<rparr>"
  shows "dir_heap B s1 L k" "\<And>c. c \<in> L \<Longrightarrow> payload m c = payload (mem s) c"
    "\<And>c x. c \<in> L - {ext2_temp s} \<Longrightarrow> x \<in> payload (mem s) c \<Longrightarrow> m x = mem s x"
    "x \<in> kernel_area \<or> x \<in> region (indbuf B) 512 \<or> m x = mem s x" "geometry s1 = geometry s"
proof -
  let ?t = "ext2_temp s"
  have d: "kroom s L k" "?t \<in> L" "region ?t 272 \<subseteq> payload (mem s) ?t" "region (indbuf B) 512 \<inter> kernel_area = {}"
    "ld32 (mem s) (fp_next ?t) = NULL" using assms(1) by (auto simp: dir_heap_def dir_room_def)
  have t268: "region ?t 268 \<subseteq> region ?t 272" by (rule region_mono) simp
  have out: "m x = mem s x" if "x \<notin> payload (mem s) ?t" "x \<notin> region (indbuf B) 512" for x using m [of x] that d(3) t268 by blast
  obtain mA where A: "kroom (s\<lparr>mem := mA\<rparr>) L k" "\<And>x. x \<notin> region (indbuf B) 512 \<Longrightarrow> mA x = mem s x"
    "\<And>c. c \<in> L \<Longrightarrow> payload mA c = payload (mem s) c" "\<And>x. x \<notin> payload mA ?t \<Longrightarrow> m x = mA x"
    by (rule kroom_write_both [OF d(1,2,4), of m]) (use out in auto)
  note w = kroom_write [OF A(1) d(2), of m, simplified, OF A(4)]
  have area: "payload (mem s) c \<inter> region (indbuf B) 512 = {}" if "c \<in> L" for c using kroom.usable_area [OF d(1) that] d(4) by blast
  show pay: "payload m c = payload (mem s) c" if "c \<in> L" for c using w(2) A(3) that by simp
  show "m x = mem s x" if "c \<in> L - {?t}" "x \<in> payload (mem s) c" for c x
  proof -
    have "x \<notin> region (indbuf B) 512" using area [of c] that by blast
    then show ?thesis using w(3) [of c x] A(2) [of x] A(3) [of c] that by simp
  qed
  show "x \<in> kernel_area \<or> x \<in> region (indbuf B) 512 \<or> m x = mem s x"
    using out [of x] kroom.usable_area [OF d(1,2)] by blast
  have "m x = mem s x" if "x \<in> meta s" for x
    using m [of x] dir_heap_meta [OF assms(1), of x] that by simp
  then show "geometry s1 = geometry s" by (intro geometry_cong) (simp_all add: s1_def)
  have "region (?t + of_nat 0) 268 \<inter> region (?t + of_nat 268) 4 = {}" by (rule offsets_disjoint) simp_all
  moreover have "region (?t + 268) 4 \<subseteq> payload (mem s) ?t" using region_offset [of ?t 268 4] d(3) by auto
  ultimately have "ld32 m (fp_next ?t) = NULL"
    using m area [OF d(2)] d(5) ld32_cong [of "?t + 268" m "mem s"] by (auto simp: fp_next_def)
  moreover have "kroom s1 L k" using w(1) kroom_cong [of s1 "s\<lparr>mem := m\<rparr>"] by (simp add: s1_def)
  ultimately show "dir_heap B s1 L k"
    using assms(1) pay by (auto simp: dir_heap_def s1_def dir_room_def meta_def)
qed

lemma dir_listed_one:
  assumes h: "dir_heap B s L k" and m: "\<And>x. x \<notin> region (ext2_temp s) 268 \<Longrightarrow> x \<notin> region (indbuf B) 512 \<Longrightarrow> m x = mem s x"
    and e: "file_props m (ext2_temp s) e"
  shows "dir_listed B s L k (s\<lparr>direntry := de, nam_index := 0, io := hs, intab1 := ii, mem := m\<rparr>) [] (region (indbuf B) 512) [e]"
proof -
  note d = dir_heap_entry [where de = de and hs = hs and ii = ii, OF h m refl]
  have "ld32 m (ext2_temp s + 268) = NULL" using d(1) by (simp add: dir_heap_def fp_next_def)
  then show ?thesis using d(1-4) e by (auto simp: dir_listed_def same_fs_def same_sys_def)
qed

text \<open>An entry in front of the others.\<close>

lemma dir_listed_Cons:
  assumes h: "dir_heap B s L n" and s3: "dir_heap B s3 (insert a L) k2" "ext2_temp s3 = a" "a \<notin> L" "a \<noteq> NULL"
    and e: "file_props (mem s3) (ext2_temp s) e" and link: "ld32 (mem s3) (fp_next (ext2_temp s)) = a"
    and keep: "\<forall>c \<in> L. payload (mem s3) c = payload (mem s) c" "\<forall>c \<in> L - {ext2_temp s}. \<forall>x \<in> payload (mem s) c. mem s3 x = mem s x"
      "\<forall>x. x \<in> kernel_area \<or> x \<in> W \<or> mem s3 x = mem s x" "same_fs s s3"
    and l: "dir_listed B s3 (insert a L) k s' ps W es"
  shows "dir_listed B s L k s' (a # ps) W (e # es)"
proof -
  let ?t = "ext2_temp s"
  have t: "?t \<in> L" "region ?t 272 \<subseteq> payload (mem s) ?t" "?t \<noteq> a" using h s3(3) by (auto simp: dir_heap_def)
  have ts: "mem s' x = mem s3 x" if "x \<in> region ?t 272" for x
    using l keep(1) t s3(2) that by (auto simp: dir_listed_def)
  have sub: "region ?t 268 \<subseteq> region ?t 272" "region (?t + 268) 4 \<subseteq> region ?t 272"
    using region_mono [of 268 272 ?t] region_offset [of ?t 268 4] by simp_all
  have "file_props (mem s') ?t e" using file_props_cong [of ?t "mem s'" "mem s3" e] ts sub(1) e by auto
  moreover have "ld32 (mem s') (?t + 268) = a" using ld32_cong [of "?t + 268" "mem s'" "mem s3"] ts sub(2) link by (auto simp: fp_next_def)
  moreover have "region a 272 \<subseteq> payload (mem s') a" using l s3(1,2) by (auto simp: dir_listed_def dir_heap_def)
  moreover have "\<forall>x. x \<in> kernel_area \<or> x \<in> W \<or> mem s' x = mem s x" using l keep(3) unfolding dir_listed_def by metis
  moreover have "\<forall>c \<in> L - {?t}. \<forall>x \<in> payload (mem s) c. mem s' x = mem s x"
    using l keep(1,2) s3(2,3) unfolding dir_listed_def by (metis Diff_iff insertCI singletonD)
  moreover have "same_fs s s'" using l keep(4) by (simp add: dir_listed_def same_fs_def same_sys_def)
  moreover have "\<forall>c \<in> L. payload (mem s') c = payload (mem s) c" using l keep(1) by (simp add: dir_listed_def)
  ultimately show ?thesis
    using l s3(2-4) unfolding dir_listed_def by auto
qed

lemma geometry_keeps:
  assumes h: "dir_heap B s L k" and same: "same_fs s s'"
    and keep: "\<forall>c \<in> L - {ext2_temp s}. \<forall>x \<in> payload (mem s) c. mem s' x = mem s x"
      "\<forall>x. x \<in> kernel_area \<or> x \<in> W \<or> mem s' x = mem s x" and W: "W \<inter> meta s = {}"
  shows "geometry s' = geometry s" "bsize s' = bsize s" "meta s' = meta s"
proof -
  have d: "ext2super s \<in> L - {ext2_temp s}" "region (ext2super s) 44 \<subseteq> payload (mem s) (ext2super s)"
    "(region (gbinfo s) 4 \<union> region (grblock s) 12) \<inter> kernel_area = {}" using h by (auto simp: dir_heap_def)
  have "mem s' x = mem s x" if x: "x \<in> meta s" for x
  proof (cases "x \<in> region (ext2super s) 44")
    case True
    then show ?thesis using keep(1) d(1,2) by blast
  next
    case False
    then have "x \<in> region (gbinfo s) 4 \<union> region (grblock s) 12" using x by (simp add: meta_def)
    then show ?thesis using keep(2) d(3) W x by blast
  qed
  then show "geometry s' = geometry s" "bsize s' = bsize s" "meta s' = meta s"
    using geometry_cong [of s' s] same by (simp_all add: same_fs_def same_sys_def)
qed

lemma next_record:
  assumes "bytes_at m (dirbuf B) b" "length b \<le> 4096" "off + 8 + name_len b off \<le> length b"
  shows "ucast (ld16 m (de_rec_len (dirbuf B + of_nat off))) + of_nat off = (of_nat (off + rec_len b off) :: uint)"
    "ld16 m (de_rec_len (dirbuf B + of_nat off)) > 0 \<longleftrightarrow> 0 < rec_len b off"
    "unat (of_nat (off + rec_len b off) :: uint) = off + rec_len b off"
proof -
  note r = record_at(2) [OF assms]
  have "(ucast (le16 b (off + 4)) :: uint) = of_nat (unat (le16 b (off + 4)))" by simp
  then show "ucast (ld16 m (de_rec_len (dirbuf B + of_nat off))) + of_nat off = (of_nat (off + rec_len b off) :: uint)"
    unfolding r by (simp add: rec_len_def)
  show "ld16 m (de_rec_len (dirbuf B + of_nat off)) > 0 \<longleftrightarrow> 0 < rec_len b off"
    unfolding r by (simp add: rec_len_def word_less_nat_alt)
  have "rec_len b off < 65536" using unsigned_less [of "le16 b (off + 4)"] by (simp add: rec_len_def)
  then show "unat (of_nat (off + rec_len b off) :: uint) = off + rec_len b off" using assms(2,3) by (intro unat_of_nat_small) simp
qed

lemma rd_dir_loop_ok:
  fixes s :: "'a ext2_scheme"
  assumes ata: "ata_reads dev disk" "drive = 0 \<or> drive = 1" "\<And>k. length (disk drive k) = 512"
  shows "dir_chain b off os \<Longrightarrow> bytes_at (mem s) (dirbuf B) b \<Longrightarrow> length b = unat (bsize s) \<Longrightarrow> length b \<le> 4096 \<Longrightarrow>
    \<forall>p \<in> set os. inode_ok (geometry s) lba (le32 b p) \<Longrightarrow> dir_heap B s L (35 * (length os - 1) + k) \<Longrightarrow> 0 < k \<Longrightarrow> nam_index s = 0 \<Longrightarrow>
    \<exists>s' ps. rd_dir_loop dev B drive lba (of_nat off) s = Some s' \<and>
      dir_listed B s L k s' ps (region (indbuf B) 512) (map (dir_entry (inode_size disk drive lba (geometry s)) b) os)"
proof (induction os arbitrary: off s L)
  case (Cons p os)
  let ?W = "region (indbuf B) 512" and ?ent = "dir_entry (inode_size disk drive lba (geometry s)) b"
  have c: "p = off" "off + 8 + name_len b off \<le> length b" "length (escaped (rec_name b off)) < 256" using Cons.prems(1) by auto
  note h = Cons.prems(6) and k = Cons.prems(7)
  have dr: "dir_room B s" "nam_index s = 0" using h Cons.prems(8) by (simp_all add: dir_heap_def)
  have "inode_ok (geometry s) lba (le32 b off)" using Cons.prems(5) c(1) by simp
  from rd_dir_entry_ok [OF ata Cons.prems(2,4) c(2,3) dr(2) this dr(1) dir_heap_temp [OF h]]
  obtain hs ii m where e: "rd_dir_entry dev B drive lba (dirbuf B + of_nat off) s =
      Some (s\<lparr>direntry := dirbuf B + of_nat off, nam_index := 0, io := hs, intab1 := ii, mem := m\<rparr>)"
    "file_props m (ext2_temp s) (?ent off)" "\<And>x. x \<notin> region (ext2_temp s) 268 \<Longrightarrow> x \<notin> ?W \<Longrightarrow> m x = mem s x" by blast
  let ?s1 = "s\<lparr>direntry := dirbuf B + of_nat off, nam_index := 0, io := hs, intab1 := ii, mem := m\<rparr>"
  note d = dir_heap_entry [where de = "dirbuf B + of_nat off" and hs = hs and ii = ii, OF h e(3) refl]
  have "unat (bsize ?s1) = unat (bsize s)" using d(5) by (simp add: geometry_def)
  then have bs: "unat (bsize ?s1) = length b" using Cons.prems(3) by simp
  have at: "bytes_at m' (dirbuf B) b" if "\<And>x. x \<in> region (dirbuf B) 4096 \<Longrightarrow> m' x = mem s x" for m'
    using that Cons.prems(2) region_mono [OF Cons.prems(4), of "dirbuf B"] bytes_at_cong [of "dirbuf B" b m' "mem s"] by blast
  have dm: "m x = mem s x" if "x \<in> region (dirbuf B) 4096" for x using dir_heap_meta [OF h, of x] e(3) that by simp
  define nx where "nx = (of_nat (off + rec_len b off) :: uint)"
  note n1 = next_record [OF at [OF dm] Cons.prems(4) c(2), folded nx_def]
  show ?case
  proof (cases "off + rec_len b off < length b")
    case False
    then have os: "os = []" using Cons.prems(1) by simp
    have "rd_dir_loop dev B drive lba (of_nat off) s = Some ?s1"
      using False n1 bs by (subst rd_dir_loop.simps) (simp add: e(1) Let_def word_le_nat_alt)
    moreover have "dir_listed B s L k ?s1 [] ?W [?ent off]" using dir_listed_one [OF _ e(3) e(2)] h os by simp
    ultimately show ?thesis using os c(1) by auto
  next
    case True
    then have r: "0 < rec_len b off" "dir_chain b (off + rec_len b off) os" using Cons.prems(1) by auto
    then obtain o2 os2 where os: "os = o2 # os2" by (cases os) auto
    have h35: "dir_heap B s L (35 + (35 * (length os - 1) + k))" using h os by (simp add: algebra_simps)
    have k': "0 < 35 * (length os - 1) + k" using k by simp
    from dir_heap_grow [where de = "dirbuf B + of_nat off" and hs = hs and ii = ii and it = "item_index s + 1", OF h35 k' e(3) refl]
    obtain a s2 m3 where g: "kmalloc sizeof_file_properties (?s1\<lparr>item_index := item_index s + 1\<rparr>) = Some (a, s2)"
      "m3 = st32 (fp_next a) NULL (st32 (fp_next (ext2_temp s)) a (mem s2))"
      "dir_heap B (s2\<lparr>mem := m3, ext2_temp := a\<rparr>) (insert a L) (35 * (length os - 1) + k)" "a \<notin> L"
      "ld32 m3 (fp_next (ext2_temp s)) = a" "\<forall>x \<in> region (ext2_temp s) 268. m3 x = m x" "\<forall>c \<in> L. payload m3 c = payload (mem s) c"
      "\<forall>c \<in> L - {ext2_temp s}. \<forall>x \<in> payload (mem s) c. m3 x = mem s x" "\<forall>x. x \<in> kernel_area \<or> x \<in> ?W \<or> m3 x = mem s x"
      "same_fs s s2" "ext2_temp s2 = ext2_temp s" "direntry s2 = dirbuf B + of_nat off" "nam_index s2 = 0" by auto
    let ?s3 = "s2\<lparr>mem := m3, ext2_temp := a\<rparr>"
    have same: "same_fs s ?s3" using g(10) by (simp add: same_fs_def same_sys_def)
    have W: "?W \<inter> meta s = {}" using dr(1) by (auto simp: dir_room_def)
    have g3: "geometry ?s3 = geometry s" "bsize ?s3 = bsize s"
      using geometry_keeps [OF h same _ _ W] g(8,9) by simp_all
    have db: "m3 x = mem s x" if "x \<in> region (dirbuf B) 4096" for x
      using g(9) dr(1) that unfolding dir_room_def by blast
    note at3 = at [OF db]
    have "rd_dir_loop dev B drive lba (of_nat off) s = rd_dir_loop dev B drive lba nx ?s3"
      using True n1 bs g(1,2,11,12) next_record(2) [OF at3 Cons.prems(4) c(2)] r(1)
      by (subst rd_dir_loop.simps) (simp add: e(1) Let_def word_le_nat_alt)
    moreover obtain s' ps where l: "rd_dir_loop dev B drive lba nx ?s3 = Some s'"
      "dir_listed B ?s3 (insert a L) k s' ps ?W (map ?ent os)"
      using Cons.IH [OF r(2), of ?s3 "insert a L"] at3 Cons.prems(3-5) g(3,13) g3 k unfolding nx_def by auto
    moreover have f: "file_props (mem ?s3) (ext2_temp s) (?ent off)"
      using file_props_cong [of "ext2_temp s" m3 m "?ent off"] g(6) e(2) by simp
    moreover have "a \<noteq> NULL" using g(3) by (simp add: dir_heap_def)
    then have "dir_listed B s L k s' (a # ps) ?W (?ent off # map ?ent os)"
      using dir_listed_Cons [OF h g(3) _ g(4) _ f _ _ _ _ same l(2)] g(5,7-9) by simp
    ultimately show ?thesis using c(1) by auto
  qed
qed simp

section \<open>All blocks\<close>

text \<open>
  What becomes of the entries of several blocks: the first entry of a block goes to the structure that holds the last
  one of the block before.
\<close>

fun listing :: "file_entry list list \<Rightarrow> file_entry list" where
  "listing [] = []"
| "listing [es] = es"
| "listing (es # es2 # ess) = butlast es @ listing (es2 # ess)"

lemma dir_listed_temp: "dir_listed B s L k s' ps W es \<Longrightarrow> es \<noteq> [] \<and> length es = Suc (length ps)"
  by (auto simp: dir_listed_def dest: list_all2_lengthD)

lemma dir_listed_append:
  assumes h: "dir_heap B s L n" and l1: "dir_listed B s L k1 s2 ps1 W es1" and l2: "dir_listed B s2 (L \<union> set ps1) k s' ps2 W es2"
  shows "dir_listed B s L k s' (ps1 @ ps2) W (butlast es1 @ es2)"
proof -
  let ?t = "ext2_temp s" and ?t1 = "ext2_temp s2"
  have t: "?t \<in> L" "region ?t 272 \<subseteq> payload (mem s) ?t" using h by (auto simp: dir_heap_def)
  obtain us where us: "?t # ps1 = us @ [?t1]" using l1 unfolding dir_listed_def by (metis append_butlast_last_id list.distinct(1))
  have dist: "distinct (us @ [?t1])" unfolding us [symmetric] using l1 t(1) by (auto simp: dir_listed_def)
  have usL: "set us \<subseteq> (L \<union> set ps1) - {?t1}" using us dist t(1) by (cases us) auto
  have reg: "region p 272 \<subseteq> payload (mem s2) p" if "p \<in> set us" for p
  proof -
    have "p \<in> insert ?t (set ps1)" using that us by (metis UnCI list.simps(15) set_append)
    then show ?thesis using l1 t by (auto simp: dir_listed_def)
  qed
  have keep: "mem s' x = mem s2 x" if "p \<in> set us" "x \<in> region p 272" for p x
    using l2 usL reg [OF that(1)] that unfolding dir_listed_def by blast
  have s268: "region p 268 \<subseteq> region p 272" for p by (rule region_mono) simp
  have "region (p + 268) 4 \<subseteq> region p 272" for p using region_offset [of p 268 4] by simp
  then have "lseg 268 (mem s') ?t us ?t1 = lseg 268 (mem s2) ?t us ?t1" using keep by (intro lseg_cong ld32_cong) blast
  moreover have "lseg 268 (mem s2) ?t us ?t1" using l1 unfolding dir_listed_def us lseg_append by auto
  moreover have "(?t # ps1 @ ps2) = us @ ?t1 # ps2" using us by (metis append.assoc append_Cons append_Nil)
  ultimately have seg: "lseg 268 (mem s') ?t (?t # ps1 @ ps2) NULL"
    using l2 unfolding dir_listed_def by (simp only: lseg_append) blast
  obtain e0 e1 where es1: "es1 = e0 @ [e1]" "butlast es1 = e0" using dir_listed_temp [OF l1] by (cases es1 rule: rev_cases) auto
  have f0: "list_all2 (file_props (mem s2)) (us @ [?t1]) (e0 @ [e1])" using l1 unfolding dir_listed_def us es1(1) by blast
  have "list_all2 (file_props (mem s2)) us e0"
    using f0 list_all2_lengthD [OF f0] by (simp add: list_all2_append)
  moreover have "file_props (mem s') p e = file_props (mem s2) p e" if "p \<in> set us" for p e
    using keep [OF that] s268 by (intro file_props_cong) blast
  ultimately have "list_all2 (file_props (mem s')) us e0" by (auto elim!: list.rel_mono_strong)
  then have props: "list_all2 (file_props (mem s')) (?t # ps1 @ ps2) (butlast es1 @ es2)"
    using l2 us es1(2) unfolding dir_listed_def by (metis append.assoc append_Cons append_Nil list_all2_appendI)
  have p: "payload (mem s') c = payload (mem s) c" if "c \<in> L" for c using l1 l2 that by (simp add: dir_listed_def)
  have c: "mem s' x = mem s x" if "c \<in> L - {?t}" "x \<in> payload (mem s) c" for c x
  proof -
    have "?t1 \<in> insert ?t (set ps1)" using l1 by (metis dir_listed_def last_in_set list.distinct(1) list.simps(15))
    then have "c \<noteq> ?t1" using l1 that(1) by (auto simp: dir_listed_def)
    moreover have "x \<in> payload (mem s2) c" using l1 that by (simp add: dir_listed_def)
    ultimately have "mem s' x = mem s2 x" using l2 that(1) unfolding dir_listed_def by blast
    then show ?thesis using l1 that by (auto simp: dir_listed_def)
  qed
  have o: "x \<in> kernel_area \<or> x \<in> W \<or> mem s' x = mem s x" for x using l1 l2 unfolding dir_listed_def by metis
  have r: "region q 272 \<subseteq> payload (mem s') q" if "q \<in> set (ps1 @ ps2)" for q
    using l1 l2 that unfolding dir_listed_def by (metis UnCI Un_iff set_append)
  have "dir_heap B s' (L \<union> set (ps1 @ ps2)) k" "set (ps1 @ ps2) \<inter> L = {}" "distinct (ps1 @ ps2)" "NULL \<notin> set (ps1 @ ps2)"
    "same_fs s s'" "ext2_temp s' = last (?t # ps1 @ ps2)" "nam_index s' = 0"
    using l1 l2 by (auto simp: dir_listed_def Un_assoc same_fs_def same_sys_def)
  then show ?thesis unfolding dir_listed_def using seg props p c o r by blast
qed

text \<open>The state before the first block differs from the one after its reading by the buffer.\<close>

lemma dir_heap_elsewhere:
  assumes h: "dir_heap B s L k" and m: "\<And>x. x \<notin> D \<Longrightarrow> m x = mem s x" and D: "D \<inter> kernel_area = {}"
  shows "dir_heap B (s\<lparr>io := hs, mem := m\<rparr>) L k" "\<And>c. c \<in> L \<Longrightarrow> payload m c = payload (mem s) c"
    "\<And>c x. c \<in> L \<Longrightarrow> x \<in> payload (mem s) c \<Longrightarrow> m x = mem s x"
proof -
  let ?s1 = "s\<lparr>io := hs, mem := m\<rparr>"
  have r: "kroom s L k" using h by (simp add: dir_heap_def)
  have ka: "m x = mem s x" if "x \<in> kernel_area" for x using m D that by blast
  show pay: "payload m c = payload (mem s) c" if "c \<in> L" for c using kroom.room_elsewhere [OF r ka] that by simp
  show keep: "m x = mem s x" if "c \<in> L" "x \<in> payload (mem s) c" for c x using kroom.usable_area [OF r that(1)] ka that(2) by blast
  have "kroom ?s1 L k" using kroom.room_elsewhere [OF r ka] kroom_cong [of ?s1 "s\<lparr>mem := m\<rparr>"] by simp
  moreover have "ld32 m (fp_next (ext2_temp s)) = ld32 (mem s) (fp_next (ext2_temp s))"
  proof (rule ld32_cong)
    fix x assume "x \<in> region (fp_next (ext2_temp s)) 4"
    then have "x \<in> payload (mem s) (ext2_temp s)"
      using h region_offset [of "ext2_temp s" 268 4] by (auto simp: dir_heap_def fp_next_def)
    then show "m x = mem s x" using keep h by (auto simp: dir_heap_def)
  qed
  ultimately show "dir_heap B ?s1 L k" using h pay by (auto simp: dir_heap_def dir_room_def meta_def)
qed

lemma geometry_elsewhere:
  assumes "\<And>x. x \<notin> D \<Longrightarrow> m x = mem s x" "D \<inter> meta s = {}"
  shows "geometry (s\<lparr>io := hs, mem := m\<rparr>) = geometry s" "bsize (s\<lparr>io := hs, mem := m\<rparr>) = bsize s"
proof -
  have "m x = mem s x" if "x \<in> meta s" for x using assms that by blast
  then show "geometry (s\<lparr>io := hs, mem := m\<rparr>) = geometry s" "bsize (s\<lparr>io := hs, mem := m\<rparr>) = bsize s"
    using geometry_cong [of "s\<lparr>io := hs, mem := m\<rparr>" s] by simp_all
qed

lemma dir_listed_elsewhere:
  assumes l: "dir_listed B (s\<lparr>io := hs, mem := m\<rparr>) L k s' ps W es" and h: "dir_heap B s L n"
    and m: "\<And>x. x \<notin> D \<Longrightarrow> m x = mem s x" and D: "D \<inter> kernel_area = {}"
  shows "dir_listed B s L k s' ps (W \<union> D) es"
proof -
  note e = dir_heap_elsewhere(2,3) [OF h m D]
  have "mem s' x = mem s x" if "c \<in> L - {ext2_temp s}" "x \<in> payload (mem s) c" for c x
    using l e that by (auto simp: dir_listed_def)
  moreover have "x \<in> kernel_area \<or> x \<in> W \<union> D \<or> mem s' x = mem s x" for x
  proof -
    have "x \<in> kernel_area \<or> x \<in> W \<or> mem s' x = m x" using l by (simp add: dir_listed_def)
    then show ?thesis using m [of x] by (cases "x \<in> D") auto
  qed
  ultimately show ?thesis using l e(1) by (auto simp: dir_listed_def same_fs_def same_sys_def)
qed

text \<open>A block that says \<open>es\<close>; and one all of whose inodes the driver finds.\<close>

definition dir_block :: "(uint \<Rightarrow> uint) \<Rightarrow> byte list \<Rightarrow> file_entry list \<Rightarrow> bool" where
  "dir_block isize b es \<longleftrightarrow> (\<exists>os. dir_chain b 0 os \<and> es = map (dir_entry isize b) os)"

definition found_block :: "(uint \<Rightarrow> bool) \<Rightarrow> (uint \<Rightarrow> uint) \<Rightarrow> byte list \<Rightarrow> file_entry list \<Rightarrow> bool" where
  "found_block ok isize b es \<longleftrightarrow> (\<exists>os. dir_chain b 0 os \<and> es = map (dir_entry isize b) os \<and> (\<forall>p \<in> set os. ok (le32 b p)))"

lemma found_blocks:
  "list_all2 (dir_block isize) bs ess \<Longrightarrow> \<forall>e \<in> set (concat ess). ok (fst e) \<Longrightarrow> list_all2 (found_block ok isize) bs ess"
proof (induction bs ess rule: list_all2_induct)
  case (Cons b bs es ess)
  obtain os where os: "dir_chain b 0 os" "es = map (dir_entry isize b) os" using Cons.hyps(1) by (auto simp: dir_block_def)
  moreover have "ok (le32 b q)" if "q \<in> set os" for q
  proof -
    have "dir_entry isize b q \<in> set (concat (es # ess))" using that os(2) by simp
    then have "ok (fst (dir_entry isize b q))" using Cons.prems by blast
    then show ?thesis by (simp add: dir_entry_def)
  qed
  ultimately have "found_block ok isize b es" unfolding found_block_def by blast
  then show ?case using Cons.IH Cons.prems by simp
qed simp

lemma le32_nth:
  assumes "i + 4 \<le> 65536"
  shows "le32 bs i = ucast (bs ! i) OR push_bit 8 (ucast (bs ! (i + 1))) OR push_bit 16 (ucast (bs ! (i + 2))) OR
    push_bit 24 (ucast (bs ! (i + 3)))"
proof -
  have "unat (of_nat i + of_nat j :: addr) = i + j" if "j < 4" for j
    using assms that unat_of_nat_small [of "i + j"] by simp
  from this [of 0] this [of 1] this [of 2] this [of 3] show ?thesis by (simp add: le32_def ld32_def)
qed

lemma le16_nth: "i + 2 \<le> 65536 \<Longrightarrow> le16 bs i = ucast (bs ! i) OR push_bit 8 (ucast (bs ! (i + 1)))"
proof -
  assume i: "i + 2 \<le> 65536"
  have "unat (of_nat i + of_nat j :: addr) = i + j" if "j < 2" for j
    using i that unat_of_nat_small [of "i + j"] by simp
  from this [of 0] this [of 1] show ?thesis by (simp add: le16_def ld16_def)
qed

text \<open>The records of a block that lie in its first sector are all that is needed of it.\<close>

definition in_first_sector :: "byte list \<Rightarrow> bool" where
  "in_first_sector b \<longleftrightarrow> (\<forall>os. dir_chain b 0 os \<longrightarrow> (\<forall>p \<in> set os. p + 8 + name_len b p \<le> 512))"

lemma record_cong:
  assumes "take 512 b' = take 512 b" "length b' = length b" "off + 8 + name_len b off \<le> 512"
  shows "rec_len b' off = rec_len b off" "name_len b' off = name_len b off" "rec_name b' off = rec_name b off"
    "le32 b' off = le32 b off" "dir_entry isize b' off = dir_entry isize b off"
proof -
  have n: "b' ! i = b ! i" if "i < 512" for i using assms(1) that by (metis nth_take)
  show nl: "name_len b' off = name_len b off" using n assms(3) by (simp add: name_len_def)
  show "rec_len b' off = rec_len b off" using n assms(3) by (simp add: rec_len_def le16_nth)
  show l: "le32 b' off = le32 b off" using n assms(3) by (simp add: le32_nth)
  show r: "rec_name b' off = rec_name b off"
    unfolding rec_name_def nl using n assms(2,3)
    by (cases "off + 8 \<le> length b") (auto intro!: nth_equalityI)
  show "dir_entry isize b' off = dir_entry isize b off" using n assms(3) by (simp add: dir_entry_def l r)
qed

lemma dir_chain_cong:
  assumes "take 512 b' = take 512 b" "length b' = length b"
  shows "dir_chain b off os \<Longrightarrow> \<forall>p \<in> set os. p + 8 + name_len b p \<le> 512 \<Longrightarrow> dir_chain b' off os"
proof (induction os arbitrary: off)
  case (Cons p os)
  then have o: "p = off" "off + 8 + name_len b off \<le> 512" by auto
  show ?case using Cons o(1) record_cong [OF assms o(2)] assms(2) by (auto split: if_splits)
qed simp

lemma found_block_read:
  assumes "found_block ok isize b es" "take 512 b' = take 512 b" "length b' = length b" "b' = b \<or> in_first_sector b"
  shows "found_block ok isize b' es"
proof (cases "b' = b")
  case False
  obtain os where os: "dir_chain b 0 os" "es = map (dir_entry isize b) os" "\<forall>p \<in> set os. ok (le32 b p)"
    using assms(1) by (auto simp: found_block_def)
  have f: "\<forall>p \<in> set os. p + 8 + name_len b p \<le> 512" using assms(4) False os(1) by (auto simp: in_first_sector_def)
  have "dir_chain b' 0 os" by (rule dir_chain_cong [OF assms(2,3) os(1) f])
  moreover have "es = map (dir_entry isize b') os" using os(2) f record_cong(5) [OF assms(2,3)] by simp
  moreover have "\<forall>p \<in> set os. ok (le32 b' p)" using os(3) f record_cong(4) [OF assms(2,3)] by simp
  ultimately show ?thesis by (auto simp: found_block_def)
qed (use assms(1) in simp)

definition disk_block :: "(int \<Rightarrow> nat \<Rightarrow> byte list) \<Rightarrow> int \<Rightarrow> uint \<Rightarrow> nat \<Rightarrow> uint \<Rightarrow> byte list" where
  "disk_block disk drive lba spb blk = sectors disk drive (unat lba + spb * unat blk) spb"

text \<open>The inode of the directory is on the stack, too.\<close>

definition inode_room :: "ext2_bufs \<Rightarrow> addr \<Rightarrow> bool" where
  "inode_room B ino \<longleftrightarrow> region ino 128 \<inter> (kernel_area \<union> region (indbuf B) 512 \<union> region (dirbuf B) 4096) = {}"

lemma rd_dir_blocks_none: "used_blocks (mem s) ino ks = [] \<Longrightarrow> rd_dir_blocks dev B drive lba ino ks s = Some s"
  by (induction ks) (auto simp: used_blocks_Cons split: if_splits)

lemma rd_dir_block_ok:
  fixes s :: "'a ext2_scheme" and blk :: uint
  defines "spb \<equiv> unat (bsize s) div 512"
  defines "data disk drive lba \<equiv> disk_block disk drive lba spb blk"
  assumes ata: "ata_reads dev disk" "drive = 0 \<or> drive = 1" "\<And>k. length (disk drive k) = 512" and k: "0 < k"
    and bs: "bsize s \<in> {1024, 2048, 4096}" and near: "unat lba + spb * unat blk < 268435456"
    and es: "found_block (inode_ok (geometry s) lba) (inode_size disk drive lba (geometry s)) (data disk drive lba) es"
    and fit: "ready_between dev \<or> in_first_sector (data disk drive lba)"
    and h: "dir_heap B s L (35 * (length es - 1) + k)" "nam_index s = 0"
  shows "\<exists>s1 s' ps. ext2_rd_block dev drive (blk_lba lba blk s) (bsize s div 512) (dirbuf B) s = Some s1 \<and>
    rd_dir_loop dev B drive lba 0 s1 = Some s' \<and>
    dir_listed B s L k s' ps (region (indbuf B) 512 \<union> region (dirbuf B) 4096) es"
proof -
  let ?d = "dirbuf B" and ?disk = "data disk drive lba"
  have spb: "bsize s div 512 = of_nat spb" "0 < spb" "spb \<le> 8" "unat (bsize s) = 512 * spb" using bs by (auto simp: spb_def)
  have w: "blk_lba lba blk s + 2 = of_nat (unat lba + spb * unat blk)" by (simp add: blk_lba_def spb(1))
  then have u: "unat (blk_lba lba blk s + 2) = unat lba + spb * unat blk" using near by (simp add: unat_of_nat_small del: of_nat_add of_nat_mult)
  have n: "unat (bsize s div 512) = spb" unfolding spb(1) using spb(3) by (simp add: unat_of_nat_small)
  let ?sec = "disk drive (unat lba + spb * unat blk)"
  obtain hs rest where hs': "ext2_rd_block dev drive (blk_lba lba blk s) (bsize s div 512) ?d s =
      Some (s\<lparr>io := hs, mem := st_bytes ?d (?sec @ rest) (mem s)\<rparr>)" and rest: "length rest = 512 * (spb - 1)"
      "ready_between dev \<longrightarrow> ?sec @ rest = ?disk"
    using ext2_rd_block_first [OF ata(1,2), of "blk_lba lba blk s" "bsize s div 512" ?d s] n near spb
    unfolding u n data_def disk_block_def by auto
  define b where "b = ?sec @ rest"
  note hs = hs' [folded b_def]
  have len: "length b = 512 * spb" using rest(1) ata(3) spb(2) by (cases spb) (simp_all add: b_def)
  have first: "take 512 ?disk = ?sec" "length ?disk = 512 * spb"
    using ata(3) spb(2) by (simp add: data_def disk_block_def sectors_def upt_conv_Cons) (simp add: ata(3) data_def disk_block_def length_sectors)
  have "found_block (inode_ok (geometry s) lba) (inode_size disk drive lba (geometry s)) b es"
    using found_block_read [OF es, of b] rest(2) fit first len ata(3) by (auto simp: b_def)
  note es = this
  define m where "m = st_bytes ?d b (mem s)"
  have m: "m x = mem s x" if "x \<notin> region ?d 4096" for x
    using that region_mono [of "512 * spb" 4096 ?d] spb(3) len unfolding m_def by (intro st_bytes_outside) auto
  have D: "region ?d 4096 \<inter> kernel_area = {}" "region ?d 4096 \<inter> meta s = {}" using h(1) by (auto simp: dir_heap_def dir_room_def)
  let ?s1 = "s\<lparr>io := hs, mem := m\<rparr>"
  note e1 = dir_heap_elsewhere [OF h(1) m D(1)] and g1 = geometry_elsewhere [OF m D(2)]
  obtain os where os: "dir_chain b 0 os" "es = map (dir_entry (inode_size disk drive lba (geometry s)) b) os"
    "\<forall>p \<in> set os. inode_ok (geometry s) lba (le32 b p)" using es by (auto simp: found_block_def)
  have at: "bytes_at (mem ?s1) ?d b" using len spb(3) by (simp add: m_def bytes_at_st_bytes)
  have g: "geometry ?s1 = geometry s" "length b = unat (bsize ?s1)" "length b \<le> 4096"
    using g1 len spb(3,4) by simp_all
  have "dir_heap B ?s1 L (35 * (length os - 1) + k)" using e1(1) os(2) by simp
  from rd_dir_loop_ok [OF ata os(1) at g(2,3) _ this k, of lba, unfolded g(1), OF os(3)] h(2)
  obtain s' ps where l: "rd_dir_loop dev B drive lba 0 ?s1 = Some s'"
    "dir_listed B ?s1 L k s' ps (region (indbuf B) 512) es" using os(2) by auto
  have "dir_listed B s L k s' ps (region (indbuf B) 512 \<union> region ?d 4096) es"
    by (rule dir_listed_elsewhere [OF l(2) h(1) m D(1)])
  then show ?thesis using hs l(1) unfolding m_def by blast
qed

lemma listing_ne: "ess \<noteq> [] \<Longrightarrow> \<forall>es \<in> set ess. es \<noteq> [] \<Longrightarrow> listing ess \<noteq> []"
  by (induction ess rule: listing.induct) auto

lemma listing_Cons: "ess \<noteq> [] \<Longrightarrow> listing (es # ess) = butlast es @ listing ess"
  by (cases ess) auto

lemma found_block_ne: "list_all2 (found_block ok isize) bs ess \<Longrightarrow> \<forall>es \<in> set ess. es \<noteq> []"
  by (induction bs ess rule: list_all2_induct) (auto simp: found_block_def)

lemma rd_dir_blocks_ok:
  fixes s :: "'a ext2_scheme"
  assumes ata: "ata_reads dev disk" "drive = 0 \<or> drive = 1" "\<And>k. length (disk drive k) = 512"
    and ir: "inode_room B ino" and k: "0 < k"
  shows "bsize s \<in> {1024, 2048, 4096} \<Longrightarrow> \<forall>k \<in> set ks. k < 15 \<Longrightarrow>
    \<forall>b \<in> set (used_blocks (mem s) ino ks). unat lba + unat (bsize s) div 512 * unat b < 268435456 \<Longrightarrow>
    used_blocks (mem s) ino ks \<noteq> [] \<Longrightarrow>
    list_all2 (found_block (inode_ok (geometry s) lba) (inode_size disk drive lba (geometry s)))
      (map (disk_block disk drive lba (unat (bsize s) div 512)) (used_blocks (mem s) ino ks)) ess \<Longrightarrow>
    ready_between dev \<or> list_all in_first_sector (map (disk_block disk drive lba (unat (bsize s) div 512)) (used_blocks (mem s) ino ks)) \<Longrightarrow>
    dir_heap B s L (35 * (length (listing ess) - 1) + k) \<Longrightarrow> nam_index s = 0 \<Longrightarrow>
    \<exists>s' ps. rd_dir_blocks dev B drive lba ino ks s = Some s' \<and>
      dir_listed B s L k s' ps (region (indbuf B) 512 \<union> region (dirbuf B) 4096) (listing ess)"
proof (induction ks arbitrary: s L ess)
  case (Cons i ks)
  let ?b = "ld32 (mem s) (i_block ino i)" and ?W = "region (indbuf B) 512 \<union> region (dirbuf B) 4096"
  let ?ok = "inode_ok (geometry s) lba" and ?isize = "inode_size disk drive lba (geometry s)"
  let ?blk = "disk_block disk drive lba (unat (bsize s) div 512)"
  show ?case
  proof (cases "?b = 0")
    case True
    then show ?thesis using Cons by (simp add: used_blocks_Cons)
  next
    case False
    note h = Cons.prems(7)
    have u: "used_blocks (mem s) ino (i # ks) = ?b # used_blocks (mem s) ino ks" using False by (simp add: used_blocks_Cons)
    obtain es ess' where ess: "ess = es # ess'" "found_block ?ok ?isize (?blk ?b) es"
      "list_all2 (found_block ?ok ?isize) (map ?blk (used_blocks (mem s) ino ks)) ess'"
      using Cons.prems(5) unfolding u by (auto simp: list_all2_Cons1)
    define k1 where "k1 = (if ess' = [] then k else 35 * (length (listing ess') - 1) + k)"
    have "35 * (length (listing ess) - 1) + k = 35 * (length es - 1) + k1"
      using listing_ne [of ess'] found_block_ne [OF ess(3)] listing_Cons [of ess' es]
      by (cases "listing ess'") (auto simp: ess(1) k1_def)
    then have h1: "dir_heap B s L (35 * (length es - 1) + k1)" using h by simp
    have k1: "0 < k1" and near: "unat lba + unat (bsize s) div 512 * unat ?b < 268435456"
      using k Cons.prems(3) u by (simp_all add: k1_def)
    have fit: "ready_between dev \<or> in_first_sector (?blk ?b)" using Cons.prems(6) u by auto
    from rd_dir_block_ok [OF ata k1 Cons.prems(1) near ess(2) fit h1 Cons.prems(8)]
    obtain s1 s2 ps where b: "ext2_rd_block dev drive (blk_lba lba ?b s) (bsize s div 512) (dirbuf B) s = Some s1"
      "rd_dir_loop dev B drive lba 0 s1 = Some s2" "dir_listed B s L k1 s2 ps ?W es" by blast
    then have run: "rd_dir_blocks dev B drive lba ino (i # ks) s = rd_dir_blocks dev B drive lba ino ks s2" using False by simp
    have "?W \<inter> meta s = {}" using h by (auto simp: dir_heap_def dir_room_def)
    then have g: "geometry s2 = geometry s" "bsize s2 = bsize s"
      using geometry_keeps [OF h, of s2 ?W] b(3) by (simp_all add: dir_listed_def)
    have "mem s2 x = mem s x" if "x \<in> region ino 128" for x using b(3) ir that unfolding dir_listed_def inode_room_def by blast
    then have u2: "used_blocks (mem s2) ino ks = used_blocks (mem s) ino ks" using Cons.prems(2) by (intro used_blocks_cong) auto
    show ?thesis
    proof (cases "ess' = []")
      case True
      then have "used_blocks (mem s2) ino ks = []" using ess(3) u2 by auto
      then show ?thesis using run b(3) rd_dir_blocks_none [of s2 ino ks dev B drive lba] True unfolding ess(1) k1_def by auto
    next
      case False
      have "dir_heap B s2 (L \<union> set ps) (35 * (length (listing ess') - 1) + k)" "nam_index s2 = 0"
        using b(3) False by (simp_all add: dir_listed_def k1_def)
      moreover have "used_blocks (mem s2) ino ks \<noteq> []" using ess(3) False u2 by auto
      ultimately obtain s' qs where l: "rd_dir_blocks dev B drive lba ino ks s2 = Some s'" "dir_listed B s2 (L \<union> set ps) k s' qs ?W (listing ess')"
        using Cons.IH [of s2 ess' "L \<union> set ps"] Cons.prems(1-3,6) ess(3) u g u2 by auto
      show ?thesis using run l(1) dir_listed_append [OF h b(3) l(2)] listing_Cons [OF False, of es] by (auto simp: ess(1))
    qed
  qed
qed (simp add: used_blocks_def)

section \<open>From an inode to the list\<close>

text \<open>Superblock and first group descriptor as the disk has them - the first sector of each, which holds all that is used -, and
  the geometry they give.\<close>

definition super_bytes :: "(int \<Rightarrow> nat \<Rightarrow> byte list) \<Rightarrow> int \<Rightarrow> uint \<Rightarrow> byte list" where
  "super_bytes disk drive lba = disk drive (unat (lba + SUPER_BLOCK_OFFSET))"

definition group_bytes :: "(int \<Rightarrow> nat \<Rightarrow> byte list) \<Rightarrow> int \<Rightarrow> uint \<Rightarrow> nat \<Rightarrow> byte list" where
  "group_bytes disk drive lba bs = disk drive (unat lba + descriptor_sector bs)"

definition disk_geometry :: "(int \<Rightarrow> nat \<Rightarrow> byte list) \<Rightarrow> int \<Rightarrow> uint \<Rightarrow> geometry" where
  "disk_geometry disk drive lba =
     (let sb = super_bytes disk drive lba; bs = unat (push_bit (unat (le32 sb 24)) 1024 :: uint) in
      (bs, unat (le32 sb 32), unat (le32 sb 40), unat (le32 (group_bytes disk drive lba bs) 8)))"

definition inode_blocks :: "byte list \<Rightarrow> uint list" where
  "inode_blocks ib = filter (\<lambda>b. b \<noteq> 0) (map (\<lambda>k. le32 ib (40 + 4 * k)) [0..<12])"

lemma inode_at:
  assumes "bytes_at m ino ib" "length ib = 128"
  shows "ld16 m (i_mode ino) = le16 ib 0" "used_blocks m ino [0..<12] = inode_blocks ib"
proof -
  have l: "length ib < 65536" using assms(2) by simp
  show "ld16 m (i_mode ino) = le16 ib 0" using bytes_at_le(1) [OF assms(1) l, of 0] assms(2) by (simp add: i_mode_def)
  have "ld32 m (i_block ino k) = le32 ib (40 + 4 * k)" if "k < 12" for k
    using bytes_at_le(2) [OF assms(1) l, of "40 + 4 * k"] assms(2) that by (simp add: i_block_def add.assoc)
  then have "map (\<lambda>k. ld32 m (i_block ino k)) [0..<12] = map (\<lambda>k. le32 ib (40 + 4 * k)) [0..<12]"
    by (intro map_cong refl) (simp del: upt_Suc upt_rec_numeral)
  then show "used_blocks m ino [0..<12] = inode_blocks ib" by (simp only: used_blocks_def inode_blocks_def)
qed

text \<open>The buffers on the stack, the place of \<open>gbinfo\<close> and the heap are apart.\<close>

definition stack_room :: "ext2_bufs \<Rightarrow> addr \<Rightarrow> bool" where
  "stack_room B g \<longleftrightarrow> sorted_wrt (\<lambda>X Y. X \<inter> Y = {})
     [region g 8, region (groupdescr B) 1024, region (inodebuff B) 512, region (indbuf B) 512, region (dirbuf B) 4096, kernel_area]"

abbreviation dir_stack :: "ext2_bufs \<Rightarrow> addr set" where
  "dir_stack B \<equiv> region (indbuf B) 512 \<union> region (dirbuf B) 4096 \<union> region (inodebuff B) 512 \<union> region (groupdescr B) 1024"

lemma rd_inode_dir:
  fixes s :: "'a ext2_scheme" and B :: ext2_bufs
  defines "t \<equiv> s\<lparr>grblock := groupdescr B\<rparr>"
  assumes ata: "ata_reads dev disk" "drive = 0 \<or> drive = 1" "\<And>k. length (disk drive k) = 512"
    and h: "dir_heap B t L (35 * (length (listing ess) - 1) + k)" "0 < k" and st: "stack_room B (gbinfo s)"
    and g: "g = (unat (bsize s), unat (ld32 (mem s) (sb_blocks_per_group (ext2super s))),
        unat (ld32 (mem s) (sb_inodes_per_group (ext2super s))), unat (le32 (group_bytes disk drive lba (unat (bsize s))) 8))"
    and gd: "unat (ld32 (mem s) (gb_gdoffset (gbinfo s)) + 2) = descriptor_sector (unat (bsize s))"
      "unat lba + descriptor_sector (unat (bsize s)) < 268435456"
    and ino: "inode_ok g lba inode" "S_ISDIR (le16 (inode_bytes disk drive lba g inode) 0)"
    and bls: "bls = inode_blocks (inode_bytes disk drive lba g inode)" "bls \<noteq> []"
      "\<forall>b \<in> set bls. unat lba + fst g div 512 * unat b < 268435456"
      "list_all2 (found_block (inode_ok g lba) (inode_size disk drive lba g)) (map (disk_block disk drive lba (fst g div 512)) bls) ess"
      "ready_between dev \<or> list_all in_first_sector (map (disk_block disk drive lba (fst g div 512)) bls)"
  shows "\<exists>s' ps. ext2_rd_inode dev B drive lba inode s = Some s' \<and> dir_listed B t L k s' ps (dir_stack B) (listing ess)"
proof -
  let ?bs = "unat (bsize s)" and ?G = "groupdescr B" and ?gb = "group_bytes disk drive lba (unat (bsize s))"
  let ?K = "35 * (length (listing ess) - 1) + k"
  note sr = st [unfolded stack_room_def, simplified]
  have lg: "length ?gb = 512" using ata(3) by (simp add: group_bytes_def)
  have w: "lba + ld32 (mem s) (gb_gdoffset (gbinfo s)) + 2 = lba + of_nat (descriptor_sector ?bs)"
    using gd(1) by (metis add.assoc word_of_nat_unat32)
  have u: "unat (lba + ld32 (mem s) (gb_gdoffset (gbinfo s)) + 2) = unat lba + descriptor_sector ?bs"
    unfolding w using gd(2) by (intro unat_add_of_nat) simp
  obtain h1 rest where r1: "ext2_rd_block dev drive (lba + ld32 (mem s) (gb_gdoffset (gbinfo s))) 2 ?G s =
      Some (s\<lparr>io := h1, mem := st_bytes ?G (?gb @ rest) (mem s)\<rparr>)" and rest: "length rest = 512"
    using ext2_rd_block_first [OF ata(1,2), of "lba + ld32 (mem s) (gb_gdoffset (gbinfo s))" 2 ?G s] u gd(2)
    by (auto simp: group_bytes_def)
  define m1 where "m1 = st_bytes ?G (?gb @ rest) (mem s)"
  have m1: "m1 x = mem t x" if "x \<notin> region ?G 1024" for x using that lg rest by (simp add: m1_def t_def st_bytes_outside)
  have D1: "region ?G 1024 \<inter> kernel_area = {}" using sr by auto
  let ?s2 = "t\<lparr>io := h1, mem := m1\<rparr>"
  note e1 = dir_heap_elsewhere [OF h(1) m1 D1]
  have sup: "region (ext2super s) 44 \<subseteq> kernel_area"
    using h(1) kroom.usable_area [of t L ?K "ext2super s"] unfolding dir_heap_def by (auto simp: t_def)
  have keep: "m1 x = mem s x" if "x \<in> region (gbinfo s) 8 \<union> region (ext2super s) 44" for x
  proof -
    have "region (gbinfo s) 8 \<inter> region ?G 1024 = {}" "region ?G 1024 \<inter> kernel_area = {}" using sr by simp_all
    then have "x \<notin> region ?G 1024" using sup that by blast
    then show ?thesis using m1 [of x] by (simp add: t_def)
  qed
  have w1: "ld32 m1 (a + of_nat k) = ld32 (mem s) (a + of_nat k)"
    if "k + 4 \<le> n" "region a n \<subseteq> region (gbinfo s) 8 \<union> region (ext2super s) 44" for a k n
  proof (rule ld32_cong)
    fix x assume "x \<in> region (a + of_nat k) 4"
    then have "x \<in> region a n" using subset_trans [OF region_offset region_mono [OF that(1)]] by (rule rev_subsetD)
    then show "m1 x = mem s x" using that(2) by (intro keep) (rule subsetD)
  qed
  have "bytes_at m1 ?G (?gb @ rest)" unfolding m1_def using lg rest by (intro bytes_at_st_bytes) simp
  then have "bytes_at m1 ?G ?gb" by (simp add: bytes_at_append)
  then have "ld32 m1 (gr_inode_table ?G) = le32 ?gb 8" using bytes_at_le(2) [of m1 ?G ?gb 8] lg by (simp add: gr_inode_table_def)
  then have g2: "geometry ?s2 = g"
    using w1 [of 0 8 "gbinfo s"] w1 [of 32 44 "ext2super s"] w1 [of 40 44 "ext2super s"]
    by (simp add: g geometry_def bsize_def gb_bs_def t_def sb_blocks_per_group_def sb_inodes_per_group_def)
  obtain x where x: "inode_to_lba inode ?s2 = Some x" "unat (lba + x + 2) = unat lba + inode_sec g inode"
    using inode_ok_place(1) [of ?s2 lba inode] ino(1) unfolding g2 by blast
  note place = inode_ok_place(3,4) [of ?s2 lba inode, unfolded g2, OF ino(1)]
  let ?I = "inodebuff B" and ?sec = "disk drive (unat lba + inode_sec g inode)"
  obtain h2 where r2: "ext2_rd_block dev drive (lba + x) 1 ?I ?s2 = Some (?s2\<lparr>io := h2, mem := st_bytes ?I ?sec m1\<rparr>)"
    using ext2_rd_block_ata [OF ata(1,2), of "lba + x" ?I ?s2] x(2) place(2) by auto
  define m2 where "m2 = st_bytes ?I ?sec m1"
  have m2: "m2 x = mem ?s2 x" if "x \<notin> region ?I 512" for x using that ata(3) by (simp add: m2_def st_bytes_outside)
  have D2: "region ?I 512 \<inter> kernel_area = {}" "region ?I 512 \<inter> meta ?s2 = {}"
  proof -
    have "region (gbinfo s) 4 \<subseteq> region (gbinfo s) 8" "region ?G 12 \<subseteq> region ?G 1024" by (simp_all add: region_mono)
    then show "region ?I 512 \<inter> kernel_area = {}" "region ?I 512 \<inter> meta ?s2 = {}"
      using sr sup unfolding meta_def by (auto simp: t_def)
  qed
  let ?s3 = "?s2\<lparr>io := h2, mem := m2\<rparr>"
  note e2 = dir_heap_elsewhere [OF e1(1) m2 D2(1)]
  have g3: "geometry ?s3 = g" using geometry_elsewhere(1) [OF m2 D2(2)] unfolding g2 by blast
  have ix: "get_index inode ?s3 = Some (int (inode_nth g inode))"
    using inode_ok_place(2) [of ?s3 lba inode] ino(1) unfolding g3 by blast
  let ?p = "?I + of_nat (128 * inode_nth g inode)"
  have "bytes_at m2 ?I ?sec" unfolding m2_def using ata(3) by (intro bytes_at_st_bytes) simp
  then have ib: "bytes_at m2 ?p (inode_bytes disk drive lba g inode)" "length (inode_bytes disk drive lba g inode) = 128"
    unfolding inode_bytes_def using place(1) ata(3) by (auto intro!: bytes_at_slice simp del: of_nat_mult)
  note at = inode_at [OF ib]
  let ?s4 = "?s3\<lparr>intab := (intab s)[inode_nth g inode := ?p]\<rparr>" and ?s5 = "?s3\<lparr>intab := (intab s)[inode_nth g inode := ?p], item_index := 0, nam_index := 0\<rparr>"
  have g5: "geometry ?s5 = g" "unat (bsize ?s5) = fst g"
    using g3 geometry_cong(1) [of ?s5 ?s3] by (auto simp: geometry_def)
  have s2: "s\<lparr>io := h1, mem := m1, grblock := ?G\<rparr> = ?s2" and ti: "intab t = intab s" by (simp_all add: t_def)
  have run: "ext2_rd_inode dev B drive lba inode s = rd_dir_blocks dev B drive lba ?p [0..<12] ?s5"
    using r1 [folded m1_def] r2 [folded m2_def] x(1) ix at(1) ino(2)
    by (simp add: ext2_rd_inode_def Let_def s2 ti ext2_rd_dir_def del: upt_Suc upt_rec_numeral)
  have h5: "dir_heap B ?s5 L ?K"
    using e2(1) [of h2] kroom_cong [of ?s5 ?s3] unfolding dir_heap_def by (simp add: dir_room_def meta_def)
  have bs: "bsize ?s5 \<in> {1024, 2048, 4096}"
  proof -
    have "unat (bsize ?s5) \<in> {1024, 2048, 4096}" using ino(1) g5(2) by (auto simp: inode_ok_def Let_def split: prod.splits)
    then show ?thesis using word_unat_eq_iff [of "bsize ?s5"] by auto
  qed
  have "region ?p 128 \<subseteq> region ?I 512"
    using region_offset [of ?I "128 * inode_nth g inode" 128] region_mono [of "128 * inode_nth g inode + 128" 512 ?I] place(1) by auto
  moreover have "region ?I 512 \<inter> kernel_area = {}" "region ?I 512 \<inter> region (indbuf B) 512 = {}"
    "region ?I 512 \<inter> region (dirbuf B) 4096 = {}" using sr by simp_all
  ultimately have ir: "inode_room B ?p" unfolding inode_room_def by blast
  have ub: "used_blocks (mem ?s5) ?p [0..<12] = bls" using at(2) bls(1) by simp
  have kl: "\<forall>k \<in> set [0..<12]. k < 15" by (simp only: set_upt) auto
  from rd_dir_blocks_ok [OF ata ir h(2) bs kl, unfolded ub g5, OF bls(3,2,4,5) h5]
  obtain s' ps where l: "rd_dir_blocks dev B drive lba ?p [0..<12] ?s5 = Some s'"
    "dir_listed B ?s5 L k s' ps (region (indbuf B) 512 \<union> region (dirbuf B) 4096) (listing ess)" by auto
  have "dir_listed B ?s3 L k s' ps (region (indbuf B) 512 \<union> region (dirbuf B) 4096) (listing ess)"
    using l(2) by (simp add: dir_listed_def same_fs_def same_sys_def)
  from dir_listed_elsewhere [OF dir_listed_elsewhere [OF this e1(1) m2 D2(1)] h(1) m1 D1]
  show ?thesis using run l(1) by auto
qed

text \<open>A directory on disk: a valid superblock, an inode of a directory and blocks with chains of records.\<close>

definition disk_dir :: "(int \<Rightarrow> nat \<Rightarrow> byte list) \<Rightarrow> int \<Rightarrow> uint \<Rightarrow> uint \<Rightarrow> file_entry list list \<Rightarrow> bool" where
  "disk_dir disk drive lba inode ess \<longleftrightarrow>
     (let g = disk_geometry disk drive lba; ib = inode_bytes disk drive lba g inode; bls = inode_blocks ib in
      unat (lba + 2) < 268435456 \<and> valid_super (super_bytes disk drive lba) \<and> unat lba + descriptor_sector (fst g) < 268435456 \<and>
      S_ISDIR (le16 ib 0) \<and> bls \<noteq> [] \<and> (\<forall>b \<in> set bls. unat lba + fst g div 512 * unat b < 268435456) \<and>
      list_all2 (dir_block (inode_size disk drive lba g)) (map (disk_block disk drive lba (fst g div 512)) bls) ess)"

text \<open>The inodes of the directory and of all its entries, those of deleted files and files of no interest included, are ones
  that the driver finds: none is 0 or the last one of its group, and the groups are below 729.\<close>

definition inodes_found :: "(int \<Rightarrow> nat \<Rightarrow> byte list) \<Rightarrow> int \<Rightarrow> uint \<Rightarrow> uint \<Rightarrow> file_entry list list \<Rightarrow> bool" where
  "inodes_found disk drive lba inode ess \<longleftrightarrow>
     (\<forall>ino \<in> insert inode (fst ` set (concat ess)). inode_ok (disk_geometry disk drive lba) lba ino)"

text \<open>A directory all of whose records lie in the first sectors of its blocks.\<close>

definition short_dir :: "(int \<Rightarrow> nat \<Rightarrow> byte list) \<Rightarrow> int \<Rightarrow> uint \<Rightarrow> uint \<Rightarrow> bool" where
  "short_dir disk drive lba inode \<longleftrightarrow>
     (let g = disk_geometry disk drive lba in
      list_all in_first_sector (map (disk_block disk drive lba (fst g div 512)) (inode_blocks (inode_bytes disk drive lba g inode))))"

text \<open>The list of the files of a directory, in blocks of their own.\<close>

definition file_list :: "'a ext2_scheme \<Rightarrow> addr set \<Rightarrow> addr list \<Rightarrow> file_entry list \<Rightarrow> bool" where
  "file_list s L ps es \<longleftrightarrow> set ps \<subseteq> L \<and> distinct ps \<and> NULL \<notin> set ps \<and> (\<forall>p \<in> set ps. region p 272 \<subseteq> payload (mem s) p) \<and>
     lseg 268 (mem s) (ext2_file_prop s) ps NULL \<and> list_all2 (file_props (mem s)) ps es"

lemma super_geometry:
  assumes "bytes_at m a sb" "length sb = 512"
  shows "ld32 m (sb_blocks_per_group a) = le32 sb 32" "ld32 m (sb_inodes_per_group a) = le32 sb 40"
  using bytes_at_le(2) [OF assms(1), of 32] bytes_at_le(2) [OF assms(1), of 40] assms(2)
  by (simp_all add: sb_blocks_per_group_def sb_inodes_per_group_def)

lemma init_ext2_ok:
  fixes s :: "'a ext2_scheme"
  assumes ata: "ata_reads dev disk" "drive = 0 \<or> drive = 1" "\<And>k. length (disk drive k) = 512"
    and dir: "disk_dir disk drive lba inode ess" "inodes_found disk drive lba inode ess"
      "ready_between dev \<or> short_dir disk drive lba inode" and st: "stack_room B (gbinfo s)"
    and room: "kroom s L (35 + (129 + (35 * (length (listing ess) - 1) + k)))" "0 < k"
  shows "\<exists>s' ps. init_ext2 dev B drive lba inode s = Some (item_index s', s') \<and> ext2super s' \<notin> L \<and>
    kroom s' (insert (ext2super s') (L \<union> set ps)) k \<and> file_list s' (set ps) ps (listing ess) \<and> set ps \<inter> insert (ext2super s') L = {} \<and>
    (\<forall>c \<in> L. payload (mem s') c = payload (mem s) c \<and> (\<forall>x \<in> payload (mem s) c. mem s' x = mem s x)) \<and>
    (\<forall>x. x \<notin> kernel_area \<union> region (gbinfo s) 8 \<union> dir_stack B \<longrightarrow> mem s' x = mem s x) \<and> same_sys s s'"
proof -
  let ?g = "disk_geometry disk drive lba" and ?sb = "super_bytes disk drive lba" and ?K = "35 * (length (listing ess) - 1) + k"
  note d = dir(1) [unfolded disk_dir_def Let_def]
  note sr = st [unfolded stack_room_def, simplified]
  have n: "unat sizeof_file_properties + 7 < 4294967296" by simp
  obtain a s1 where a: "kmalloc sizeof_file_properties s = Some (a, s1)" "a \<noteq> NULL" "a \<notin> L" "kroom s1 (insert a L) (129 + ?K)"
    "region a 272 \<subseteq> payload (mem s1) a" "\<forall>b \<in> L. payload (mem s1) b = payload (mem s) b \<and> (\<forall>x \<in> payload (mem s) b. mem s1 x = mem s x)"
    using kroom.new_block [of s L sizeof_file_properties "129 + ?K", unfolded units_file_properties, OF room(1) _ n] room(2) by auto
  define m1 where "m1 = st32 (fp_next a) NULL (mem s1)"
  have fn: "region (fp_next a) 4 \<subseteq> payload (mem s1) a" using region_offset [of a 268 4] a(5) by (simp add: fp_next_def)
  have m1o: "m1 x = mem s1 x" if "x \<notin> payload (mem s1) a" for x
    unfolding m1_def using that fn by (intro st32_outside) blast
  note w1 = kroom_write [OF a(4) insertI1 m1o]
  let ?s2 = "s1\<lparr>ext2_file_prop := a, ext2_temp := a, mem := m1\<rparr>"
  have gb: "gbinfo s1 = gbinfo s" using kmalloc_upd [OF a(1)] by auto
  have k2: "kroom ?s2 (insert a L) (129 + ?K)" using w1(1) kroom_cong [of ?s2 "s1\<lparr>mem := m1\<rparr>"] by simp
  have g8: "region (gbinfo ?s2) 8 \<inter> kernel_area = {}" using sr by (simp add: gb)
  have K: "0 < ?K" using room(2) by simp
  obtain sup h m b f where sp: "ext2_rd_superblock dev drive lba ?s2 =
      Some (SUCCESS, ?s2\<lparr>mem := m, io := h, heap_base := b, freep := f, ext2super := sup\<rparr>)" "sup \<notin> insert a L"
    "kroom (?s2\<lparr>mem := m, io := h, heap_base := b, freep := f, ext2super := sup\<rparr>) (insert sup (insert a L)) ?K"
    "region sup 1024 \<subseteq> payload m sup" "bytes_at m sup ?sb"
    "ld32 m (gb_bs (gbinfo s)) = push_bit (unat (le32 ?sb 24)) 1024"
    "unat (ld32 m (gb_gdoffset (gbinfo s)) + 2) = descriptor_sector (unat (ld32 m (gb_bs (gbinfo s))))"
    "\<forall>c \<in> insert a L. payload m c = payload m1 c \<and> (\<forall>x \<in> payload m1 c. m x = m1 x)"
    "\<forall>x. x \<in> kernel_area \<or> x \<in> region (gbinfo s) 8 \<or> m x = m1 x"
    using ext2_rd_superblock_ok [where disk = disk and drive = drive and lba = lba, OF ata(1,2) _ ata(3) super_bytes_def [of disk drive lba] _ k2 K g8] d by (auto simp: gb)
  let ?s3 = "?s2\<lparr>mem := m, io := h, heap_base := b, freep := f, ext2super := sup\<rparr>" and ?L = "insert sup (insert a L)"
  have sb: "length ?sb = 512" using ata(3) by (simp add: super_bytes_def)
  have bs: "bsize ?s3 = push_bit (unat (le32 ?sb 24)) 1024" using sp(6) by (simp add: bsize_def gb)
  have pa: "payload m a = payload (mem s1) a" "payload m1 a = payload (mem s1) a" using sp(8) w1(2) by simp_all
  have "ld32 m (fp_next a) = ld32 m1 (fp_next a)" using sp(8) fn pa by (intro ld32_cong) auto
  then have na: "ld32 m (fp_next a) = NULL" by (simp add: m1_def)
  have sup: "region sup 44 \<subseteq> payload m sup" "region sup 44 \<subseteq> kernel_area"
    using sp(4) region_mono [of 44 1024 sup] kroom.usable_area [OF sp(3), of sup] by auto
  have h3: "dir_heap B (?s3\<lparr>grblock := groupdescr B\<rparr>) ?L ?K"
  proof -
    have r: "kroom (?s3\<lparr>grblock := groupdescr B\<rparr>) ?L ?K" using sp(3) kroom_cong [of "?s3\<lparr>grblock := groupdescr B\<rparr>" ?s3] by simp
    have s4: "region (gbinfo s) 4 \<subseteq> region (gbinfo s) 8" "region (groupdescr B) 12 \<subseteq> region (groupdescr B) 1024"
      by (simp_all add: region_mono)
    have "region (gbinfo s) 4 \<inter> kernel_area = {}" "region (groupdescr B) 12 \<inter> kernel_area = {}" using s4 sr by auto
    moreover have "region (indbuf B) 512 \<inter> region (dirbuf B) 4096 = {}" "(region (indbuf B) 512 \<union> region (dirbuf B) 4096) \<inter> kernel_area = {}"
      "(region (indbuf B) 512 \<union> region (dirbuf B) 4096) \<inter> region (gbinfo s) 4 = {}"
      "(region (indbuf B) 512 \<union> region (dirbuf B) 4096) \<inter> region (groupdescr B) 12 = {}"
      using s4 sr by auto
    moreover from this(2) have "(region (indbuf B) 512 \<union> region (dirbuf B) 4096) \<inter> region sup 44 = {}" using sup(2) by blast
    ultimately show ?thesis
      using r a(2,5) sp(2) na sup(1) pa by (auto simp: dir_heap_def dir_room_def meta_def gb Int_Un_distrib Int_Un_distrib2)
  qed
  have g: "?g = (unat (bsize ?s3), unat (ld32 (mem ?s3) (sb_blocks_per_group (ext2super ?s3))),
      unat (ld32 (mem ?s3) (sb_inodes_per_group (ext2super ?s3))), unat (le32 (group_bytes disk drive lba (unat (bsize ?s3))) 8))"
    using super_geometry [OF sp(5) sb] bs by (simp add: disk_geometry_def Let_def)
  have fg: "fst ?g = unat (bsize ?s3)" unfolding g by simp
  have "stack_room B (gbinfo ?s3)" using st by (simp add: gb)
  moreover have "unat (ld32 (mem ?s3) (gb_gdoffset (gbinfo ?s3)) + 2) = descriptor_sector (unat (bsize ?s3))"
    using sp(7) bs sp(6) by (simp add: gb)
  moreover have "unat lba + descriptor_sector (unat (bsize ?s3)) < 268435456" using d unfolding fg by (elim conjE)
  moreover have "inode_ok ?g lba inode" "\<forall>e \<in> set (concat ess). inode_ok ?g lba (fst e)" using dir(2) by (simp_all add: inodes_found_def)
  moreover have "S_ISDIR (le16 (inode_bytes disk drive lba ?g inode) 0)" "inode_blocks (inode_bytes disk drive lba ?g inode) \<noteq> []"
    "\<forall>b \<in> set (inode_blocks (inode_bytes disk drive lba ?g inode)). unat lba + fst ?g div 512 * unat b < 268435456"
    "list_all2 (dir_block (inode_size disk drive lba ?g))
      (map (disk_block disk drive lba (fst ?g div 512)) (inode_blocks (inode_bytes disk drive lba ?g inode))) ess"
    using d by - (elim conjE, assumption)+
  moreover have "ready_between dev \<or> list_all in_first_sector (map (disk_block disk drive lba (fst ?g div 512)) (inode_blocks (inode_bytes disk drive lba ?g inode)))"
    using dir(3) by (simp add: short_dir_def Let_def)
  ultimately obtain s' ps where l: "ext2_rd_inode dev B drive lba inode ?s3 = Some s'"
    "dir_listed B (?s3\<lparr>grblock := groupdescr B\<rparr>) ?L k s' ps (dir_stack B) (listing ess)"
    using rd_inode_dir [OF ata h3 room(2) _ g _ _ _ _ refl] found_blocks by blast
  have run: "init_ext2 dev B drive lba inode s = Some (item_index s', s')"
    using a(1) sp(1) l(1) by (simp add: init_ext2_def m1_def)
  have same: "ext2super s' = sup" "ext2_file_prop s' = a" using l(2) by (simp_all add: dir_listed_def same_fs_def same_sys_def)
  have "file_list s' (set (a # ps)) (a # ps) (listing ess)"
    using l(2) a(2,5) pa by (auto simp: dir_listed_def file_list_def same)
  moreover have "set (a # ps) \<inter> insert (ext2super s') L = {}" using l(2) a(3) sp(2) by (auto simp: dir_listed_def same)
  moreover have "kroom s' (insert (ext2super s') (L \<union> set (a # ps))) k"
    using l(2) by (simp add: dir_listed_def dir_heap_def same insert_commute Un_commute)
  moreover have "payload (mem s') c = payload (mem s) c \<and> (\<forall>x \<in> payload (mem s) c. mem s' x = mem s x)" if c: "c \<in> L" for c
  proof -
    have ne: "c \<in> ?L - {a}" "c \<noteq> a" using c a(3) by auto
    have p: "payload m c = payload (mem s) c" using sp(8) w1(2) a(6) c by simp
    have "mem s' x = mem s x" if "x \<in> payload (mem s) c" for x
    proof -
      have "mem s' x = m x" using l(2) ne(1) p that by (auto simp: dir_listed_def)
      also have "\<dots> = m1 x" using sp(8) c w1(2) [of c] a(6) that by auto
      also have "\<dots> = mem s1 x" using w1(3) [of c x] c ne(2) a(6) that by auto
      finally show ?thesis using a(6) c that by simp
    qed
    moreover have "payload (mem s') c = payload m c" using l(2) c by (simp add: dir_listed_def)
    ultimately show ?thesis using p by simp
  qed
  moreover have "mem s' x = mem s x" if x: "x \<notin> kernel_area \<union> region (gbinfo s) 8 \<union> dir_stack B" for x
  proof -
    have "x \<in> kernel_area \<or> x \<in> dir_stack B \<or> mem s' x = m x" using l(2) unfolding dir_listed_def by simp
    then have "mem s' x = m x" using x by blast
    also have "m x = m1 x" using sp(9) x by blast
    also have "m1 x = mem s1 x" using m1o [of x] kroom.usable_area [OF a(4), of a] x by blast
    also have "mem s1 x = mem s x"
      using kmalloc_outside [of s L sizeof_file_properties "129 + ?K", unfolded units_file_properties, OF room(1) _ a(1)] room(2) x by simp
    finally show ?thesis .
  qed
  moreover have "same_sys s s'"
    using l(2) kmalloc_upd [OF a(1)] by (auto simp: dir_listed_def same_fs_def same_sys_def)
  ultimately show ?thesis using run sp(2) same(1) by (intro exI [of _ s'] exI [of _ "a # ps"]) auto
qed

section \<open>Properties\<close>

text \<open>
  C29: \<open>init_ext2\<close> refines the listing of a directory. On a drive that meets the register-level contract and
  holds an ext2 file system with blocks of 1024, 2048 or 4096 bytes and a directory at \<open>inode\<close>, with room on the heap
  for the superblock and the structures, it returns with a linked list behind \<open>ext2_file_prop\<close>: fresh,
  disjoint blocks, one for each entry that \<open>listing\<close> leaves of the blocks of the directory, in their order, with inode, size
  as the inode of the file has it, type and name, blanks escaped. Of every block but the last the last entry is lost.
  No live block changes. The inodes of the directory and of every entry must be ones that the driver finds (\<open>inodes_found\<close>):
  no entry is unused, that is has inode 0, none has the last inode of a group, the groups are below 729, and all sectors
  are in reach of a 28-bit address. Each block is read with one command whose first sector only is waited for: either the records of
  the directory lie in the first sectors of its blocks (\<open>short_dir\<close>), or the drive must be ready between the sectors.
\<close>

theorem init_ext2_lists_directory:
  fixes s :: "'a ext2_scheme"
  assumes "ata_reads dev disk" "drive = 0 \<or> drive = 1" "\<And>k. length (disk drive k) = 512"
    and "disk_dir disk drive lba inode ess" "inodes_found disk drive lba inode ess"
      "ready_between dev \<or> short_dir disk drive lba inode" and "stack_room B (gbinfo s)"
    and "kroom s L (35 + (129 + (35 * (length (listing ess) - 1) + k)))" "0 < k"
  shows "\<exists>s' ps. init_ext2 dev B drive lba inode s = Some (item_index s', s') \<and> ext2super s' \<notin> L \<and>
    kroom s' (insert (ext2super s') (L \<union> set ps)) k \<and> file_list s' (set ps) ps (listing ess) \<and> set ps \<inter> insert (ext2super s') L = {} \<and>
    (\<forall>c \<in> L. payload (mem s') c = payload (mem s) c \<and> (\<forall>x \<in> payload (mem s) c. mem s' x = mem s x))"
  using init_ext2_ok [OF assms] by metis

section \<open>Witnesses\<close>

definition sector_of :: "(nat \<times> byte) list \<Rightarrow> byte list" where
  "sector_of vs = map (\<lambda>i. case map_of vs i of None \<Rightarrow> 0 | Some v \<Rightarrow> v) [0..<512]"

lemma sector_of: "length (sector_of vs) = 512" "i < 512 \<Longrightarrow> sector_of vs ! i = (case map_of vs i of None \<Rightarrow> 0 | Some v \<Rightarrow> v)"
  by (simp_all add: sector_of_def del: upt_Suc upt_rec_numeral)

text \<open>The directory is read from a drive that is not ready between sectors. A file system with blocks of 1024 bytes, 2048 inodes to the group, the inode table in block 5, the root directory
  in block 20 with the entries \<open>.\<close> and \<open>a b\<close>.\<close>

definition demo_dir_disk :: "int \<Rightarrow> nat \<Rightarrow> byte list" where
  "demo_dir_disk d k = sector_of
     (if k = 65 then [(33, 0x20), (41, 8), (56, 0x53), (57, 0xEF)] else if k = 67 then [(8, 5)]
      else if k = 73 then [(128, 0xED), (129, 0x41), (133, 4), (168, 20)] else if k = 75 then [(388, 0xD2), (389, 4)]
      else if k = 103 then [(0, 2), (4, 12), (6, 1), (7, 2), (8, 46), (12, 12), (16, 0xF4), (17, 3), (18, 3), (19, 1), (20, 97), (21, 32), (22, 98)]
      else [])"

lemma demo_dir_disk_length: "length (demo_dir_disk d k) = 512"
  by (simp add: demo_dir_disk_def sector_of(1))

lemma demo_geometry: "disk_geometry demo_dir_disk 0 63 = (1024, 8192, 2048, 5)" "valid_super (super_bytes demo_dir_disk 0 63)"
proof -
  have u: "unat (63 + 2 :: uint) = 65" "unat (63 :: uint) = 63" by simp_all
  have sb: "super_bytes demo_dir_disk 0 63 = demo_dir_disk 0 65" unfolding super_bytes_def u by simp
  have gr: "group_bytes demo_dir_disk 0 63 1024 = demo_dir_disk 0 67" unfolding group_bytes_def u descriptor_sector_def by simp
  have l: "le32 (demo_dir_disk 0 65) 24 = 0" "le32 (demo_dir_disk 0 65) 32 = 8192"
    "le32 (demo_dir_disk 0 65) 40 = 2048" "le16 (demo_dir_disk 0 65) 56 = EXT2_MAGIC" "le32 (demo_dir_disk 0 67) 8 = 5"
    by (simp_all add: le32_def le16_def ld32_def ld16_def) (simp_all add: demo_dir_disk_def sector_of)
  show "disk_geometry demo_dir_disk 0 63 = (1024, 8192, 2048, 5)"
    unfolding disk_geometry_def sb l Let_def by (simp add: gr l)
  show "valid_super (super_bytes demo_dir_disk 0 63)" unfolding sb valid_super_def l by (simp add: demo_dir_disk_length)
qed

lemma take_drop_nth: "k + n \<le> length bs \<Longrightarrow> take n (drop k bs) = map (\<lambda>i. bs ! (k + i)) [0..<n]"
  by (rule nth_equalityI) simp_all

lemma demo_inodes:
  defines "g \<equiv> (1024, 8192, 2048, 5) :: geometry"
  shows "inode_ok g 63 2" "inode_ok g 63 12" "inode_size demo_dir_disk 0 63 g 2 = 1024" "inode_size demo_dir_disk 0 63 g 12 = 1234"
    "S_ISDIR (le16 (inode_bytes demo_dir_disk 0 63 g 2) 0)" "inode_blocks (inode_bytes demo_dir_disk 0 63 g 2) = [20]"
proof -
  have s: "inode_sec g 2 = 10" "inode_sec g 12 = 12" "inode_nth g 2 = 1" "inode_nth g 12 = 3"
    by (simp_all add: g_def inode_sec_def inode_nth_def inode_sector_def table_block_def has_backup_def)
  have b: "inode_bytes demo_dir_disk 0 63 g 2 = take 128 (drop 128 (demo_dir_disk 0 73))"
    "inode_bytes demo_dir_disk 0 63 g 12 = take 128 (drop 384 (demo_dir_disk 0 75))"
    unfolding inode_bytes_def s by simp_all
  have n: "take 128 (drop 128 (demo_dir_disk 0 73)) ! i = demo_dir_disk 0 73 ! (128 + i)"
    "take 128 (drop 384 (demo_dir_disk 0 75)) ! i = demo_dir_disk 0 75 ! (384 + i)" if "i < 128" for i
    using that by (simp_all add: demo_dir_disk_length)
  show "inode_ok g 63 2" "inode_ok g 63 12" unfolding inode_ok_def s by (simp_all add: g_def)
  show "inode_size demo_dir_disk 0 63 g 2 = 1024" "inode_size demo_dir_disk 0 63 g 12 = 1234"
    unfolding inode_size_def b by (simp_all add: le32_def ld32_def n) (simp_all add: demo_dir_disk_def sector_of)
  show "S_ISDIR (le16 (inode_bytes demo_dir_disk 0 63 g 2) 0)"
    unfolding b S_ISDIR_def by (simp add: le16_def ld16_def n) (simp add: demo_dir_disk_def sector_of)
  let ?ib = "inode_bytes demo_dir_disk 0 63 g 2"
  have "demo_dir_disk 0 73 ! i = 0" if "171 < i" "i < 512" for i
    using that by (simp add: demo_dir_disk_def sector_of(2))
  then have "le32 ?ib (40 + 4 * k) = 0" if "0 < k" "k < 12" for k
    using that by (simp add: le32_nth b demo_dir_disk_length n)
  then have "filter (\<lambda>b. b \<noteq> 0) (map (\<lambda>k. le32 ?ib (40 + 4 * k)) [1..<12]) = []"
    by (simp add: filter_empty_conv del: upt_Suc upt_rec_numeral)
  moreover have "le32 ?ib 40 = 20" unfolding b by (simp add: le32_def ld32_def n) (simp add: demo_dir_disk_def sector_of)
  moreover have "[0..<12] = 0 # [1..<12 :: nat]" by (simp add: upt_conv_Cons del: upt_Suc upt_rec_numeral)
  ultimately show "inode_blocks ?ib = [20]" by (simp add: inode_blocks_def del: upt_Suc upt_rec_numeral)
qed

lemma demo_disk_dir:
  "disk_dir demo_dir_disk 0 63 2 [[(2, 1024, 2, str ''.''), (12, 1234, 1, str ''a b'')]]" "short_dir demo_dir_disk 0 63 2"
proof -
  let ?g = "(1024, 8192, 2048, 5) :: geometry" and ?b = "disk_block demo_dir_disk 0 63 2 20"
  have b: "?b = demo_dir_disk 0 103 @ demo_dir_disk 0 104" by (simp add: disk_block_def sectors_def upt_rec)
  have at: "?b ! i = demo_dir_disk 0 103 ! i" if "i < 512" for i using that by (simp add: b nth_append demo_dir_disk_length)
  have len: "length ?b = 1024" by (simp add: b demo_dir_disk_length)
  have v: "le32 ?b 0 = 2" "rec_len ?b 0 = 12" "name_len ?b 0 = 1" "?b ! 7 = 2" "le32 ?b 12 = 12" "rec_len ?b 12 = 1012" "name_len ?b 12 = 3" "?b ! 19 = 1"
    by (simp_all add: rec_len_def name_len_def le32_def le16_def ld32_def ld16_def at) (simp_all add: demo_dir_disk_def sector_of)
  have nm: "rec_name ?b 0 = str ''.''" "rec_name ?b 12 = str ''a b''"
    unfolding rec_name_def v by (simp_all add: take_drop_nth len upt_rec at) (simp_all add: demo_dir_disk_def sector_of)
  have "dir_chain ?b 0 [0, 12]" by (simp add: v nm len)
  moreover have "map (dir_entry (inode_size demo_dir_disk 0 63 ?g) ?b) [0, 12] = [(2, 1024, 2, str ''.''), (12, 1234, 1, str ''a b'')]"
    by (simp add: dir_entry_def v nm demo_inodes del: str_simps)
  ultimately have "dir_block (inode_size demo_dir_disk 0 63 ?g) ?b [(2, 1024, 2, str ''.''), (12, 1234, 1, str ''a b'')]"
    unfolding dir_block_def by metis
  then show "disk_dir demo_dir_disk 0 63 2 [[(2, 1024, 2, str ''.''), (12, 1234, 1, str ''a b'')]]"
    using demo_geometry demo_inodes by (simp add: disk_dir_def Let_def descriptor_sector_def del: str_simps)
  have os: "os = [0, 12]" if "dir_chain ?b 0 os" for os
    using that by (cases os; cases "tl os") (simp_all add: v nm len del: str_simps)
  then have "in_first_sector ?b" unfolding in_first_sector_def by (intro allI impI ballI) (drule os, auto simp: v)
  then show "short_dir demo_dir_disk 0 63 2"
    using demo_geometry demo_inodes by (simp add: short_dir_def Let_def)
qed

lemma demo_inodes_found: "inodes_found demo_dir_disk 0 63 2 [[(2, 1024, 2, str ''.''), (12, 1234, 1, str ''a b'')]]"
  using demo_inodes(1,2) by (simp add: inodes_found_def demo_geometry(1) del: str_simps)

theorem init_ext2_lists_directory_witness:
  "\<exists>s' ps. init_ext2 (slow_dev demo_dir_disk) demo_bufs 0 63 2 demo_ext2 = Some (item_index s', s') \<and>
     file_list s' (set ps) ps [(2, 1024, 2, str ''.''), (12, 1234, 1, str ''a b'')]"
proof -
  have ata: "ata_reads (slow_dev demo_dir_disk) demo_dir_disk" by (rule slow_dev_reads) (rule demo_dir_disk_length)
  have st: "stack_room demo_bufs (gbinfo demo_ext2)"
    by (auto simp: stack_room_def demo_bufs_def region_iff kernel_area_def)
  have "kroom demo_ext2 {} (35 + (129 + (35 * (length (listing [[(2, 1024, 2, str ''.''), (12, 1234, 1, str ''a b'')]]) - 1) + 1)))"
    using demo_ext2_room by (rule kroom_mono) simp
  from init_ext2_lists_directory [OF ata _ demo_dir_disk_length demo_disk_dir(1) demo_inodes_found disjI2 [OF demo_disk_dir(2)] st this] show ?thesis by (auto simp del: str_simps)
qed

end
