(* ===== verification/Ext2_Path.thy ===== *)
theory Ext2_Path
  imports Ext2_Dir
begin

text \<open>
  How \<open>ext2_chdir\<close> and \<open>ext2_root\<close> resolve a path. The reference is \<open>walk\<close>: a path as the list of its pieces, directories
  as the lists of their entries. The pieces come from the interface \<open>token_rules\<close>, the lists in memory from \<open>init_ext2_ok\<close>.
\<close>

section \<open>Walking\<close>

interpretation path: token_rules path_stop path_gap
  by unfold_locales (auto simp: path_stop_def path_gap_def)

definition path_pieces :: "byte list \<Rightarrow> byte list list" where
  "path_pieces p = tokens path_stop path_gap 0 p"

lemma path_pieces_any: "tokens path_stop path_gap b p = path_pieces p"
proof -
  have "split_token path_stop b p = split_token path_stop 0 p" by (cases p) (simp_all add: path_stop_def)
  then show ?thesis by (simp add: path_pieces_def tokens.simps [of _ _ b] tokens.simps [of _ _ 0])
qed

datatype walk_end = Found | Not_directory | Missing

definition lookup :: "byte list \<Rightarrow> file_entry list \<Rightarrow> file_entry option" where
  "lookup c es = find (\<lambda>(_, _, _, nm). escaped nm = c) es"

text \<open>The inodes whose directories are read on the way, and how it ends; an empty piece stays where it is. The
  directory in which a piece is missing is read again.\<close>

fun walk :: "(uint \<Rightarrow> file_entry list) \<Rightarrow> uint \<Rightarrow> byte list list \<Rightarrow> uint list \<times> walk_end" where
  "walk dir i [] = ([], Found)"
| "walk dir i (w # ws) =
     (if w = [] then walk dir i ws
      else (case lookup w (dir i) of
              None \<Rightarrow> ([i], Missing)
            | Some (ino, _, ty, _) \<Rightarrow>
                if ty = 2 then (let (inos, e) = walk dir ino ws in (ino # inos, e)) else ([], Not_directory)))"

definition report :: "walk_end \<Rightarrow> 'a console_scheme \<Rightarrow> 'a console_scheme" where
  "report e s = (case e of Found \<Rightarrow> s | Not_directory \<Rightarrow> snd (shell_panic CD_ERR s) | Missing \<Rightarrow> snd (shell_panic DIR_NOT_FOUND s))"

section \<open>Reading a directory\<close>

text \<open>\<open>es\<close> is the list that the driver makes of the directory at the inode \<open>i\<close>; no name has a zero byte. Reading it
  takes this number of units.\<close>

definition reads_as :: "device \<Rightarrow> (int \<Rightarrow> nat \<Rightarrow> byte list) \<Rightarrow> int \<Rightarrow> uint \<Rightarrow> uint \<Rightarrow> file_entry list \<Rightarrow> bool" where
  "reads_as dev disk drive lba i es \<longleftrightarrow> (\<exists>ess. disk_dir disk drive lba i ess \<and> inodes_found disk drive lba i ess \<and> es = listing ess) \<and>
     (ready_between dev \<or> short_dir disk drive lba i) \<and> (\<forall>(_, _, _, nm) \<in> set es. 0 \<notin> set nm)"

definition dir_units :: "file_entry list \<Rightarrow> nat" where
  "dir_units es = 164 + 35 * (length es - 1)"

text \<open>The directory \<open>i\<close> is the current one and its list is in memory.\<close>

definition in_dir :: "ext2_bufs \<Rightarrow> int \<Rightarrow> uint \<Rightarrow> addr set \<Rightarrow> nat \<Rightarrow> uint \<Rightarrow> file_entry list \<Rightarrow> 'a ext2_scheme \<Rightarrow> bool" where
  "in_dir B drive lba L k i es s \<longleftrightarrow> kroom s L k \<and> (\<exists>ps. file_list s L ps es) \<and> current_inode s = sint i \<and>
     current_lba s = lba \<and> current_drive s = drive \<and> stack_room B (gbinfo s) \<and> cursor_ok s"

text \<open>What stays: the live blocks, and the memory outside \<open>W\<close>.\<close>

definition kept :: "addr set \<Rightarrow> addr set \<Rightarrow> 'a ext2_scheme \<Rightarrow> 'a ext2_scheme \<Rightarrow> bool" where
  "kept W L s s' \<longleftrightarrow> gbinfo s' = gbinfo s \<and> (\<forall>x. x \<notin> W \<longrightarrow> mem s' x = mem s x) \<and>
     (\<forall>c \<in> L. payload (mem s') c = payload (mem s) c \<and> (\<forall>x \<in> payload (mem s) c. mem s' x = mem s x))"

lemma kept_refl: "kept W L s s" "kept W L s (s\<lparr>ext2_temp := a\<rparr>)" "kept W L s (s\<lparr>ext2_temp := a, prev_inode := i, current_inode := j\<rparr>)"
  by (simp_all add: kept_def)

lemma keptD:
  assumes "kept W L s s'"
  shows "gbinfo s' = gbinfo s" "x \<notin> W \<Longrightarrow> mem s' x = mem s x" "c \<in> L \<Longrightarrow> payload (mem s') c = payload (mem s) c"
    "c \<in> L \<Longrightarrow> x \<in> payload (mem s) c \<Longrightarrow> mem s' x = mem s x"
  using assms by (simp_all add: kept_def)

lemma keptI:
  assumes "gbinfo s' = gbinfo s" "\<And>x. x \<notin> W \<Longrightarrow> mem s' x = mem s x" "\<And>c. c \<in> L \<Longrightarrow> payload (mem s') c = payload (mem s) c"
    "\<And>c x. c \<in> L \<Longrightarrow> x \<in> payload (mem s) c \<Longrightarrow> mem s' x = mem s x"
  shows "kept W L s s'"
  using assms by (simp add: kept_def)

lemma kept_trans:
  assumes "kept W L s t" "kept W L' t u" "L \<subseteq> L'"
  shows "kept W L s u"
proof (rule keptI)
  show "gbinfo u = gbinfo s" using keptD(1) [OF assms(1)] keptD(1) [OF assms(2)] by simp
  show "mem u x = mem s x" if "x \<notin> W" for x using keptD(2) [OF assms(1) that] keptD(2) [OF assms(2) that] by simp
  fix c assume "c \<in> L"
  moreover from this have "c \<in> L'" using assms(3) by (rule subsetD [rotated])
  ultimately show "payload (mem u) c = payload (mem s) c" "x \<in> payload (mem s) c \<Longrightarrow> mem u x = mem s x" for x
    using keptD(3,4) [OF assms(1)] keptD(3,4) [OF assms(2)] by simp_all
qed

abbreviation driver_area :: "ext2_bufs \<Rightarrow> 'a ext2_scheme \<Rightarrow> addr set" where
  "driver_area B s \<equiv> kernel_area \<union> region (gbinfo s) 8 \<union> dir_stack B \<union> screen"

lemma file_list_cong:
  assumes "file_list s L ps es" "ext2_file_prop t = ext2_file_prop s"
    and "\<And>c. c \<in> L \<Longrightarrow> payload (mem t) c = payload (mem s) c" "\<And>c x. c \<in> L \<Longrightarrow> x \<in> payload (mem s) c \<Longrightarrow> mem t x = mem s x"
  shows "file_list t L ps es"
proof -
  have r: "p \<in> L" "region p 272 \<subseteq> payload (mem s) p" if "p \<in> set ps" for p using assms(1) that by (auto simp: file_list_def)
  have eq: "mem t x = mem s x" if "p \<in> set ps" "x \<in> region p 272" for p x using assms(4) [OF r(1) [OF that(1)]] r(2) [OF that(1)] that(2) by blast
  have "ld32 (mem t) (p + 268) = ld32 (mem s) (p + 268)" if "p \<in> set ps" for p
    using eq [OF that] region_offset [of p 268 4] by (intro ld32_cong) auto
  then have "lseg 268 (mem t) (ext2_file_prop s) ps NULL = lseg 268 (mem s) (ext2_file_prop s) ps NULL" by (rule lseg_cong)
  moreover have "file_props (mem t) p e = file_props (mem s) p e" if "p \<in> set ps" for p e
    using eq [OF that] region_mono [of 268 272 p] by (intro file_props_cong) auto
  then have "list_all2 (file_props (mem t)) ps es"
    using assms(1) by (auto simp: file_list_def elim: list.rel_mono_strong)
  ultimately show ?thesis using assms(1-3) r(1) by (auto simp: file_list_def)
qed

lemma same_temp: "ext2_temp s = a \<Longrightarrow> s\<lparr>ext2_temp := a\<rparr> = s"
  by (drule sym) simp

text \<open>Output on the screen.\<close>

lemma kputs_fields:
  fixes s :: "'a ext2_scheme"
  shows "freep (kputs xs s) = freep s" "ext2_file_prop (kputs xs s) = ext2_file_prop s" "current_inode (kputs xs s) = current_inode s"
    "current_lba (kputs xs s) = current_lba s" "current_drive (kputs xs s) = current_drive s" "gbinfo (kputs xs s) = gbinfo s"
  using outputs_kputs [of s xs] by (auto simp: outputs_def)

lemma kputs_in_dir:
  fixes s :: "'a ext2_scheme"
  assumes "cursor_ok s" "kroom s L k"
  shows "kept screen L s (kputs xs s)" "in_dir B drive lba L k i es s \<Longrightarrow> in_dir B drive lba L k i es (kputs xs s)"
proof -
  note out = kputs_ok(2) [OF assms(1), of _ xs]
  have area: "mem (kputs xs s) x = mem s x" if "x \<in> kernel_area" for x using out [of x] kernel_off_screen that by blast
  note e = kroom.room_elsewhere [OF assms(2) area]
  have live: "mem (kputs xs s) x = mem s x" if "c \<in> L" "x \<in> payload (mem s) c" for c x
    using area kroom.usable_area [OF assms(2) that(1)] that(2) by blast
  have pay: "payload (mem (kputs xs s)) c = payload (mem s) c" if "c \<in> L" for c using e that by simp
  show "kept screen L s (kputs xs s)" using out live pay by (intro keptI) (simp_all add: kputs_fields)
  assume d: "in_dir B drive lba L k i es s"
  have "kroom (kputs xs s) L k"
    using kroom.room_elsewhere [OF _ area, of L k] kroom_cong [of "kputs xs s" "s\<lparr>mem := mem (kputs xs s)\<rparr>"] d
    by (simp add: in_dir_def kputs_fields)
  moreover obtain ps where "file_list s L ps es" using d by (auto simp: in_dir_def)
  then have "file_list (kputs xs s) L ps es"
    by (rule file_list_cong) (rule kputs_fields, erule pay, erule (1) live)
  ultimately show "in_dir B drive lba L k i es (kputs xs s)"
    using d kputs_ok(1) [OF assms(1), of xs] unfolding in_dir_def kputs_fields by blast
qed

lemma shell_panic_kputs: "\<exists>xs. snd (shell_panic msg s) = kputs xs s"
proof (cases "panic_text msg")
  case None
  then have "snd (shell_panic msg s) = kputs [] s" by (simp add: shell_panic_def)
  then show ?thesis by (rule exI)
next
  case (Some t)
  then have "snd (shell_panic msg s) = kputs (str t @ [10]) s" by (simp only: shell_panic_def option.case snd_conv)
  then show ?thesis by (rule exI)
qed

lemma report_kputs: "\<exists>xs. report e s = kputs xs s"
proof (cases e)
  case Found
  then have "report e s = kputs [] s" by (simp add: report_def)
  then show ?thesis by (rule exI)
qed (simp_all only: report_def walk_end.case shell_panic_kputs)

lemma reread_ok:
  fixes s :: "'a ext2_scheme"
  assumes ata: "ata_reads dev disk" "drive = 0 \<or> drive = 1" "\<And>k. length (disk drive k) = 512"
    and es: "reads_as dev disk drive lba i es" and room: "kroom s L (dir_units es + k)" "0 < k"
    and s: "current_inode s = sint i" "current_lba s = lba" "current_drive s = drive" "stack_room B (gbinfo s)" "cursor_ok s"
  shows "\<exists>s' L'. reread dev B s = Some s' \<and> L \<subseteq> L' \<and> in_dir B drive lba L' k i es s' \<and> ext2_temp s' = ext2_file_prop s' \<and>
    kept (driver_area B s) L s s'"
proof -
  obtain ess where d: "disk_dir disk drive lba i ess" "inodes_found disk drive lba i ess" "ready_between dev \<or> short_dir disk drive lba i"
    "es = listing ess" using es by (auto simp: reads_as_def)
  have "kroom s L (35 + (129 + (35 * (length (listing ess) - 1) + k)))" using room(1) by (simp add: dir_units_def d(4) add.assoc)
  from init_ext2_ok [OF ata d(1-3) s(4) this room(2)] obtain s1 ps where g:
    "init_ext2 dev B drive lba i s = Some (item_index s1, s1)" "kroom s1 (insert (ext2super s1) (L \<union> set ps)) k"
    "file_list s1 (set ps) ps es"
    "\<forall>c \<in> L. payload (mem s1) c = payload (mem s) c \<and> (\<forall>x \<in> payload (mem s) c. mem s1 x = mem s x)"
    "\<forall>x. x \<notin> kernel_area \<union> region (gbinfo s) 8 \<union> dir_stack B \<longrightarrow> mem s1 x = mem s x" "same_sys s s1"
    by (auto simp: d(4))
  let ?s = "s1\<lparr>ext2_temp := ext2_file_prop s1\<rparr>" and ?L = "insert (ext2super s1) (L \<union> set ps)"
  have "reread dev B s = Some ?s" using g(1) s(1-3) by (simp add: reread_def)
  moreover have "in_dir B drive lba ?L k i es ?s"
  proof -
    have "file_list ?s ?L ps es" using g(3) unfolding file_list_def by auto
    moreover have "kroom ?s ?L k" using g(2) kroom_cong [of ?s s1] by simp
    moreover have "cursor_ok ?s" using s(5) g(6) by (simp add: same_sys_def cursor_ok_def)
    ultimately show ?thesis using s g(6) unfolding in_dir_def same_sys_def by auto
  qed
  moreover have "kept (driver_area B s) L s ?s" using g(4,5,6) by (intro keptI) (simp_all add: same_sys_def)
  moreover have "L \<subseteq> ?L" by auto
  ultimately show ?thesis by (intro exI [of _ ?s] exI [of _ ?L]) simp
qed

section \<open>Looking for a name\<close>

lemma file_name_cstr: "file_props m p (ino, sz, ty, nm) \<Longrightarrow> 0 \<notin> set nm \<Longrightarrow> cstr m (fp_filename p) (escaped nm)"
  by (auto simp: file_props_def cstr_bytes_at escaped_def split: if_splits)

lemma map_option_bind_Pair: "x \<bind> (\<lambda>s. Some (a, s)) = map_option (Pair a) x"
  by (cases x) simp_all

text \<open>What the search does when it has stopped at the structure \<open>p\<close> for the entry \<open>r\<close>.\<close>

definition enter :: "device \<Rightarrow> ext2_bufs \<Rightarrow> addr \<Rightarrow> file_entry option \<Rightarrow> 'a ext2_scheme \<Rightarrow> (bool option \<times> 'a ext2_scheme) option" where
  "enter dev B p r s =
    (case r of
       None \<Rightarrow> Some (None, s\<lparr>ext2_temp := p\<rparr>)
     | Some (ino, _, ty, _) \<Rightarrow>
         if ty = 2 then map_option (Pair (Some True)) (reread dev B (s\<lparr>ext2_temp := p, prev_inode := current_inode s, current_inode := sint ino\<rparr>))
         else Some (Some False, s\<lparr>ext2_temp := p\<rparr>))"

lemma enter_temp: "enter dev B p r (s\<lparr>ext2_temp := a\<rparr>) = enter dev B p r s"
  by (simp add: enter_def split: option.split)

lemma chdir_find_lookup:
  assumes "lseg 268 (mem s) (ext2_temp s) ps NULL" "NULL \<notin> set ps" "list_all2 (file_props (mem s)) ps es"
    and "\<forall>(_, _, _, nm) \<in> set es. 0 \<notin> set nm" "cstr (mem s) arg c"
  shows "\<exists>p. chdir_find dev B arg s = enter dev B p (lookup c es) s"
  using assms
proof (induction ps arbitrary: s es)
  case Nil
  then have "ext2_temp s = NULL" "lookup c es = None" by (simp_all add: lookup_def)
  then have "chdir_find dev B arg s = Some (None, s\<lparr>ext2_temp := NULL\<rparr>)" "lookup c es = None"
    by (simp_all add: chdir_find.simps same_temp)
  then show ?case by (auto simp: enter_def)
next
  case (Cons p ps)
  obtain ino sz ty nm es' where es: "es = (ino, sz, ty, nm) # es'" and f: "file_props (mem s) p (ino, sz, ty, nm)"
    and fs: "list_all2 (file_props (mem s)) ps es'" using Cons.prems(3) by (auto simp: list_all2_Cons1)
  have p: "ext2_temp s = p" "p \<noteq> NULL" using Cons.prems(1,2) by auto
  have z: "0 \<notin> set nm" "\<forall>(_, _, _, nm) \<in> set es'. 0 \<notin> set nm" using Cons.prems(4) by (auto simp: es)
  obtain r where r: "strcmp (mem s) (fp_filename p) arg = Some r" "r = 0 \<longleftrightarrow> escaped nm = c"
    using strcmp_returns [OF file_name_cstr [OF f z(1)] Cons.prems(5)] by blast
  have w: "ld32 (mem s) (fp_file_type p) = ucast ty" "ld32 (mem s) (fp_inode p) = ino" using f by (simp_all add: file_props_def)
  have "unat ty < 2 ^ 32" by (rule order.strict_trans [OF unsigned_less]) simp
  then have t: "(ucast ty :: uint) = DIRECTORY \<longleftrightarrow> ty = 2"  by (simp add: word_unat_eq_iff unsigned_ucast_eq take_bit_nat_eq_self)
  show ?case
  proof (cases "escaped nm = c")
    case True
    then have "lookup c es = Some (ino, sz, ty, nm)" by (simp add: es lookup_def)
    moreover have "chdir_find dev B arg s =
        (if ty = 2 then map_option (Pair (Some True)) (reread dev B (s\<lparr>prev_inode := current_inode s, current_inode := sint ino\<rparr>))
         else Some (Some False, s))"
      using True p r w t by (simp add: chdir_find.simps map_option_bind_Pair)
    moreover have "s\<lparr>ext2_temp := p\<rparr> = s" using p(1) by (rule same_temp)
    ultimately show ?thesis by (intro exI [of _ p]) (simp only: enter_def option.case prod.case)
  next
    case False
    let ?s = "s\<lparr>ext2_temp := ld32 (mem s) (fp_next p)\<rparr>"
    have "chdir_find dev B arg s = chdir_find dev B arg ?s" using False p r by (subst chdir_find.simps) simp
    moreover have "lookup c es = lookup c es'" using False by (simp add: es lookup_def)
    ultimately show ?thesis using Cons.IH [of ?s es'] Cons.prems fs z(2) by (simp add: fp_next_def enter_temp)
  qed
qed

section \<open>Walking the pieces\<close>

text \<open>The pieces \<open>ws\<close> of a path, at the entries \<open>js\<close> of the table, all of it inside \<open>A\<close>.\<close>

definition pieces_at :: "memory \<Rightarrow> ext2_bufs \<Rightarrow> addr set \<Rightarrow> nat list \<Rightarrow> byte list list \<Rightarrow> bool" where
  "pieces_at m B A = list_all2 (\<lambda>j w. region (path_argtable B + 4 * of_nat j) 4 \<subseteq> A \<and>
     cstr m (ld32 m (path_argtable B + 4 * of_nat j)) w \<and> region (ld32 m (path_argtable B + 4 * of_nat j)) (Suc (length w)) \<subseteq> A)"

lemma pieces_at_keep:
  assumes "pieces_at m B A js ws" "\<And>x. x \<in> A \<Longrightarrow> m' x = m x"
  shows "pieces_at m' B A js ws"
proof -
  have "cstr m' (ld32 m' a) w \<and> ld32 m' a = ld32 m a" if "region a 4 \<subseteq> A" "cstr m (ld32 m a) w" "region (ld32 m a) (Suc (length w)) \<subseteq> A" for a w
  proof -
    have "ld32 m' a = ld32 m a" using assms(2) that(1) by (intro ld32_cong) blast
    moreover have "cstr m' (ld32 m a) w = cstr m (ld32 m a) w" using assms(2) that(3) by (intro cstr_cong) blast
    ultimately show ?thesis using that(2) by simp
  qed
  then show ?thesis using assms(1) unfolding pieces_at_def by (elim list.rel_mono_strong) auto
qed

text \<open>Reading the directory \<open>j\<close> in a step: the current one again, or one that has been entered.\<close>

lemma reread_step:
  fixes s :: "'a ext2_scheme"
  assumes ata: "ata_reads dev disk" "drive = 0 \<or> drive = 1" "\<And>k. length (disk drive k) = 512"
    and es: "reads_as dev disk drive lba j es'" and d: "in_dir B drive lba L (dir_units es' + k) i es s" "0 < k"
    and t: "t = s\<lparr>ext2_temp := p\<rparr> \<and> j = i \<or> t = s\<lparr>ext2_temp := p, prev_inode := current_inode s, current_inode := sint j\<rparr>"
  shows "\<exists>s' L'. reread dev B t = Some s' \<and> L \<subseteq> L' \<and> in_dir B drive lba L' k j es' s' \<and> ext2_temp s' = ext2_file_prop s' \<and>
    kept (driver_area B s) L s s'"
proof -
  have "kroom t L (dir_units es' + k)" "current_inode t = sint j" "current_lba t = lba" "current_drive t = drive" "stack_room B (gbinfo t)"
    using t d(1) kroom_cong [of t s] by (auto simp: in_dir_def)
  moreover have "cursor_ok s" using d(1) by (simp add: in_dir_def)
  then have "cursor_ok t" using t by (elim disjE conjE) (simp_all add: cursor_ok_def)
  moreover have st: "kept (driver_area B s) L s t" "gbinfo t = gbinfo s" using t by (elim disjE conjE; simp add: kept_refl)+
  ultimately obtain s' L' where "reread dev B t = Some s'" "L \<subseteq> L'" "in_dir B drive lba L' k j es' s'" "ext2_temp s' = ext2_file_prop s'"
    "kept (driver_area B s) L t s'" using reread_ok [OF ata es, of t L k B] d(2) by auto
  then show ?thesis using kept_trans [OF st(1) _ order_refl, of s'] by blast
qed

lemma chdir_args_walk:
  fixes s :: "'a ext2_scheme"
  assumes ata: "ata_reads dev disk" "drive = 0 \<or> drive = 1" "\<And>k. length (disk drive k) = 512"
    and A: "A \<inter> (kernel_area \<union> region g 8 \<union> dir_stack B \<union> screen) = {}" and k: "0 < k"
  shows "pieces_at (mem s) B A js ws \<Longrightarrow> walk dir i ws = (inos, e) \<Longrightarrow> \<forall>j \<in> set (i # inos). reads_as dev disk drive lba j (dir j) \<Longrightarrow>
    in_dir B drive lba L (sum_list (map (\<lambda>j. dir_units (dir j)) inos) + k) i (dir i) s \<Longrightarrow> ext2_temp s = ext2_file_prop s \<Longrightarrow> gbinfo s = g \<Longrightarrow>
    \<exists>s' t L'. chdir_args dev B js s = Some (ext2_file_prop s', s') \<and> s' = report e t \<and> L \<subseteq> L' \<and>
      in_dir B drive lba L' k (last (i # inos)) (dir (last (i # inos))) t \<and> kept (driver_area B s) L s t"
proof (induction ws arbitrary: s js i inos L)
  case Nil
  then show ?case by (auto simp: pieces_at_def report_def intro!: exI [of _ s] exI [of _ L] kept_refl)
next
  case (Cons w ws)
  obtain j js' where js: "js = j # js'" using Cons.prems(1) by (auto simp: pieces_at_def list_all2_Cons2)
  let ?a = "ld32 (mem s) (path_argtable B + 4 * of_nat j)"
  have w: "cstr (mem s) ?a w" and ws: "pieces_at (mem s) B A js' ws" using Cons.prems(1) by (auto simp: js pieces_at_def)
  note d = Cons.prems(4)
  show ?case
  proof (cases "w = []")
    case True
    then have "chdir_args dev B js s = chdir_args dev B js' s" using w by (simp add: js)
    then show ?thesis using Cons.IH [OF ws] Cons.prems(2-) True by simp
  next
    case False
    then have ne: "mem s ?a \<noteq> 0" using w by (cases w) auto
    obtain ps where fl: "file_list s L ps (dir i)" using d by (auto simp: in_dir_def)
    have nz: "\<forall>(_, _, _, nm) \<in> set (dir i). 0 \<notin> set nm" using Cons.prems(3) by (simp add: reads_as_def)
    obtain p where f: "chdir_find dev B ?a s = enter dev B p (lookup w (dir i)) s"
      using chdir_find_lookup [OF _ _ _ nz w, of ps dev B] fl Cons.prems(5) by (auto simp: file_list_def)
    consider (missing) "lookup w (dir i) = None"
      | (plain) ino sz ty nm where "lookup w (dir i) = Some (ino, sz, ty, nm)" "ty \<noteq> 2"
      | (down) ino sz nm where "lookup w (dir i) = Some (ino, sz, 2, nm)" by (metis option.exhaust prod_cases4)
    then show ?thesis
    proof cases
      case missing
      then have io: "inos = [i]" "e = Missing" using False Cons.prems(2) by auto
      obtain s' L' where "reread dev B (s\<lparr>ext2_temp := p\<rparr>) = Some s'" "L \<subseteq> L'" "in_dir B drive lba L' k i (dir i) s'" "kept (driver_area B s) L s s'"
        using reread_step [where p = p and s = s and j = i and lba = lba and es' = "dir i" and B = B and L = L and es = "dir i", OF ata _ _ k disjI1 [OF conjI [OF refl refl]]]
          d Cons.prems(3) by (auto simp: io)
      moreover from this(1) have "chdir_args dev B js s = Some (ext2_file_prop (report e s'), report e s')"
        using f ne missing by (simp add: js enter_def Let_def io report_def)
      ultimately show ?thesis unfolding io by (intro exI conjI) auto
    next
      case plain
      then have io: "inos = []" "e = Not_directory" using False Cons.prems(2) by auto
      let ?t = "s\<lparr>ext2_temp := p\<rparr>"
      have "chdir_args dev B js s = Some (ext2_file_prop (report e ?t), report e ?t)"
        using f ne plain by (simp add: js enter_def Let_def io report_def)
      moreover have "in_dir B drive lba L k i (dir i) ?t"
        using d kroom_cong [of ?t s] by (auto simp: in_dir_def file_list_def cursor_ok_def io)
      ultimately show ?thesis unfolding io using kept_refl(2) by fastforce
    next
      case down
      obtain inos' where wk: "walk dir ino ws = (inos', e)" and io: "inos = ino # inos'"
        using down False Cons.prems(2) by (auto split: prod.splits)
      let ?K = "sum_list (map (\<lambda>j. dir_units (dir j)) inos') + k"
      obtain s1 L1 where s1: "reread dev B (s\<lparr>ext2_temp := p, prev_inode := current_inode s, current_inode := sint ino\<rparr>) = Some s1"
        "L \<subseteq> L1" "in_dir B drive lba L1 ?K ino (dir ino) s1" "ext2_temp s1 = ext2_file_prop s1" "kept (driver_area B s) L s s1"
        using reread_step [where p = p and s = s and j = ino and lba = lba and es' = "dir ino" and B = B and L = L and k = ?K and i = i and es = "dir i", OF ata _ _ _ disjI2 [OF refl]]
          d Cons.prems(3) k by (auto simp: io add.assoc)
      have run: "chdir_args dev B js s = chdir_args dev B js' s1" using f ne down s1(1) by (simp add: js enter_def Let_def)
      have g: "gbinfo s1 = g" using keptD(1) [OF s1(5)] Cons.prems(6) by simp
      have "pieces_at (mem s1) B A js' ws"
        using A keptD(2) [OF s1(5)] Cons.prems(6) by (intro pieces_at_keep [OF ws]) blast
      from Cons.IH [OF this wk _ s1(3,4) g] Cons.prems(3) io obtain s' t L' where
        "chdir_args dev B js' s1 = Some (ext2_file_prop s', s')" "s' = report e t" "L1 \<subseteq> L'"
        "in_dir B drive lba L' k (last (ino # inos')) (dir (last (ino # inos'))) t" "kept (driver_area B s1) L1 s1 t" by auto
      moreover have "kept (driver_area B s) L s t"
        using kept_trans [OF s1(5) _ s1(2), of t] calculation(5) g Cons.prems(6) by simp
      ultimately show ?thesis using run s1(2) by (intro exI [of _ s'] exI [of _ t] exI [of _ L']) (auto simp: io)
    qed
  qed
qed

section \<open>The path\<close>

text \<open>The static arrays, the driver's memory and the screen are apart.\<close>

definition path_room :: "ext2_bufs \<Rightarrow> addr \<Rightarrow> bool" where
  "path_room B g \<longleftrightarrow> region (path_sc B - 1) (PATH_LEN + 2) \<inter> region (path_argtable B) (4 * (DIRECTORY_NUM + 1)) = {} \<and>
     (region (path_sc B) (PATH_LEN + 1) \<union> region (path_argtable B) (4 * (DIRECTORY_NUM + 1))) \<inter>
       (kernel_area \<union> region g 8 \<union> dir_stack B \<union> screen) = {}"

abbreviation path_area :: "ext2_bufs \<Rightarrow> addr set" where
  "path_area B \<equiv> region (path_sc B) (PATH_LEN + 1) \<union> region (path_argtable B) (4 * (DIRECTORY_NUM + 1))"

lemma cut_at_pieces:
  assumes "cut_at m (path_argtable B) (path_sc B) PATH_LEN ws" "length ws \<le> DIRECTORY_NUM"
  shows "pieces_at m B (path_area B) [0..<length ws] ws"
proof -
  let ?t = "\<lambda>j. path_argtable B + 4 * of_nat j"
  have "region (?t i) 4 \<subseteq> path_area B \<and> cstr m (ld32 m (?t i)) (ws ! i) \<and> region (ld32 m (?t i)) (Suc (length (ws ! i))) \<subseteq> path_area B"
    if i: "i < length ws" for i
  proof -
    obtain k where k: "k + length (ws ! i) \<le> PATH_LEN" "ld32 m (?t i) = path_sc B + of_nat k" "cstr m (path_sc B + of_nat k) (ws ! i)"
      using assms(1) i unfolding cut_at_def by blast
    have "region (path_argtable B + of_nat (4 * i)) 4 \<subseteq> region (path_argtable B) (4 * (DIRECTORY_NUM + 1))"
      using i assms(2) by (intro order_trans [OF region_offset region_mono]) simp
    moreover have "region (path_sc B + of_nat k) (Suc (length (ws ! i))) \<subseteq> region (path_sc B) (PATH_LEN + 1)"
      using k(1) by (intro order_trans [OF region_offset region_mono]) simp
    ultimately show ?thesis using k(2,3) by (simp del: region_simps) blast
  qed
  then show ?thesis by (simp add: pieces_at_def list_all2_conv_all_nth del: region_simps)
qed

lemma ext2_chdir_walk:
  fixes s :: "'a ext2_scheme"
  assumes ata: "ata_reads dev disk" "drive = 0 \<or> drive = 1" "\<And>k. length (disk drive k) = 512"
    and path: "cstr (mem s) c path" "length path \<le> PATH_LEN" "length (path_pieces path) \<le> DIRECTORY_NUM"
      "region (path_sc B) (PATH_LEN + 1) \<inter> region c (Suc (length path)) = {}" "path_room B (gbinfo s)"
    and wk: "walk dir i (path_pieces path) = (inos, e)" and rd: "\<forall>j \<in> set (i # inos). reads_as dev disk drive lba j (dir j)"
    and room: "kroom s L (sum_list (map (\<lambda>j. dir_units (dir j)) (i # inos)) + k)" "0 < k"
    and s: "current_inode s = sint i" "current_lba s = lba" "current_drive s = drive" "stack_room B (gbinfo s)" "cursor_ok s"
  shows "\<exists>s' t L'. ext2_chdir dev B c s = Some (ext2_file_prop s', s') \<and> s' = report e t \<and> L \<subseteq> L' \<and>
    in_dir B drive lba L' k (last (i # inos)) (dir (last (i # inos))) t \<and> kept (path_area B \<union> driver_area B s) L s t"
proof -
  let ?ws = "path_pieces path" and ?A = "path_area B"
  note pr = path(5) [unfolded path_room_def]
  obtain m1 m where m: "strcpy (path_sc B) c (mem s) = Some (path_sc B, st_bytes (path_sc B) (path @ [0]) (mem s))"
    "tokenize path_stop path_gap DIRECTORY_NUM (path_argtable B) (st_bytes (path_sc B) (path @ [0]) (mem s)) (path_sc B) 0 = Some (Some (length ?ws), m1)"
    "m = st32 (path_argtable B + 4 * of_nat (length ?ws)) NULL m1" "cut_at m (path_argtable B) (path_sc B) PATH_LEN ?ws"
    "\<And>x. x \<notin> ?A \<Longrightarrow> m x = mem s x"
    using path.copy_and_cut [OF path(1,2) _ path_pieces_any path(3) _ conjunct1 [OF pr] path(4)] by (auto simp del: region_simps)
  let ?s = "s\<lparr>mem := m\<rparr>"
  have "m x = mem s x" if "x \<in> kernel_area" for x using pr that by (intro m(5)) blast
  note el = kroom.room_elsewhere [OF room(1) this]
  have live: "m x = mem s x" if "a \<in> L" "x \<in> payload (mem s) a" for a x
    using kroom.usable_area [OF room(1) that(1)] that(2) pr by (intro m(5)) blast
  have "kroom ?s L (dir_units (dir i) + (sum_list (map (\<lambda>j. dir_units (dir j)) inos) + k))"
    using el by (simp add: add.assoc)
  moreover have "cursor_ok ?s" using s(5) by (simp add: cursor_ok_def)
  ultimately obtain s1 L1 where s1: "reread dev B ?s = Some s1" "L \<subseteq> L1"
    "in_dir B drive lba L1 (sum_list (map (\<lambda>j. dir_units (dir j)) inos) + k) i (dir i) s1"
    "ext2_temp s1 = ext2_file_prop s1" "kept (driver_area B s) L ?s s1"
    using reread_ok [OF ata, of lba i "dir i" ?s L "sum_list (map (\<lambda>j. dir_units (dir j)) inos) + k" B] rd room(2) s by auto
  have g: "gbinfo s1 = gbinfo s" using keptD(1) [OF s1(5)] by simp
  have A: "?A \<inter> (kernel_area \<union> region (gbinfo s) 8 \<union> dir_stack B \<union> screen) = {}" using pr by blast
  have "pieces_at (mem s1) B ?A [0..<length ?ws] ?ws"
    using A keptD(2) [OF s1(5)] by (intro pieces_at_keep [OF cut_at_pieces [OF m(4) path(3)]]) auto
  from chdir_args_walk [OF ata A room(2) this wk rd s1(3,4) g] obtain s' t L' where r:
    "chdir_args dev B [0..<length ?ws] s1 = Some (ext2_file_prop s', s')" "s' = report e t" "L1 \<subseteq> L'"
    "in_dir B drive lba L' k (last (i # inos)) (dir (last (i # inos))) t" "kept (driver_area B s1) L1 s1 t" by auto
  have "ext2_chdir dev B c s = Some (ext2_file_prop s', s')"
    using m(1-3) s1(1) r(1) by (simp add: ext2_chdir_def)
  moreover have "kept (driver_area B s) L ?s t" using kept_trans [OF s1(5) _ s1(2), of t] r(5) g by simp
  then have "kept (?A \<union> driver_area B s) L s t"
    using m(5) live el by (intro keptI) (auto dest: keptD)
  ultimately show ?thesis using r(2-4) s1(2) by blast
qed

text \<open>The state after the report is one in that directory too.\<close>

lemma ext2_chdir_ok:
  fixes s :: "'a ext2_scheme"
  assumes ata: "ata_reads dev disk" "drive = 0 \<or> drive = 1" "\<And>k. length (disk drive k) = 512"
    and path: "cstr (mem s) c path" "length path \<le> PATH_LEN" "length (path_pieces path) \<le> DIRECTORY_NUM"
      "region (path_sc B) (PATH_LEN + 1) \<inter> region c (Suc (length path)) = {}" "path_room B (gbinfo s)"
    and wk: "walk dir i (path_pieces path) = (inos, e)" and rd: "\<forall>j \<in> set (i # inos). reads_as dev disk drive lba j (dir j)"
    and room: "kroom s L (sum_list (map (\<lambda>j. dir_units (dir j)) (i # inos)) + k)" "0 < k"
    and s: "current_inode s = sint i" "current_lba s = lba" "current_drive s = drive" "stack_room B (gbinfo s)" "cursor_ok s"
  shows "\<exists>s' t L'. ext2_chdir dev B c s = Some (ext2_file_prop s', s') \<and> s' = report e t \<and> L \<subseteq> L' \<and>
    in_dir B drive lba L' k (last (i # inos)) (dir (last (i # inos))) s' \<and> kept (path_area B \<union> driver_area B s) L s s'"
proof -
  let ?j = "last (i # inos)"
  obtain s' t L' where r: "ext2_chdir dev B c s = Some (ext2_file_prop s', s')" "s' = report e t" "L \<subseteq> L'"
    "in_dir B drive lba L' k ?j (dir ?j) t" "kept (path_area B \<union> driver_area B s) L s t"
    using ext2_chdir_walk [OF assms] by blast
  obtain xs where xs: "s' = kputs xs t" using report_kputs [of e t] r(2) by auto
  have t: "cursor_ok t" "kroom t L' k" using r(4) by (simp_all add: in_dir_def)
  have "kept screen L' t s'" "in_dir B drive lba L' k ?j (dir ?j) s'" using kputs_in_dir [OF t] r(4) by (simp_all add: xs)
  moreover from this(1) have "kept (path_area B \<union> driver_area B s) L' t s'" by (simp add: kept_def)
  from kept_trans [OF r(5) this r(3)] have "kept (path_area B \<union> driver_area B s) L s s'" .
  ultimately show ?thesis using r(1-3) by blast
qed

lemma path_pieces_root: "path_pieces (str ''/'') = [[]]"
  by (simp add: path_pieces_def tokens.simps [of _ _ 0] tokens.simps [of _ _ _ "[]"] path_stop_def path_gap_def)

text \<open>\<open>ext2_root\<close> comes up in the directory it is given, with its list.\<close>

lemma ext2_root_ok:
  fixes s :: "'a ext2_scheme"
  assumes ata: "ata_reads dev disk" "drive = 0 \<or> drive = 1" "\<And>k. length (disk drive k) = 512"
    and path: "cstr (mem s) slash (str ''/'')" "region (path_sc B) (PATH_LEN + 1) \<inter> region slash 2 = {}" "path_room B (gbinfo s)"
    and rd: "reads_as dev disk drive lba i es" and room: "kroom s L (dir_units es + k)" "0 < k" and s: "stack_room B (gbinfo s)" "cursor_ok s"
  shows "\<exists>s' L'. ext2_root dev B slash lba drive (sint i) s = Some (ext2_file_prop s', s') \<and> L \<subseteq> L' \<and>
    in_dir B drive lba L' k i es s' \<and> kept (path_area B \<union> driver_area B s) L s s'"
proof -
  let ?s = "s\<lparr>current_lba := lba, current_drive := drive, current_inode := sint i\<rparr>" and ?dir = "\<lambda>_ :: uint. es"
  have w: "walk ?dir i (path_pieces (str ''/'')) = ([], Found)" by (simp add: path_pieces_root del: str_simps)
  have k: "kroom ?s L (sum_list (map (\<lambda>j. dir_units (?dir j)) [i]) + k)" using room(1) kroom_cong [of ?s s] by simp
  have p: "cstr (mem ?s) slash (str ''/'')" "length (str ''/'') \<le> PATH_LEN" "length (path_pieces (str ''/'')) \<le> DIRECTORY_NUM"
    using path(1) by (simp, simp, simp add: path_pieces_root del: str_simps)
  have "Suc (length (str ''/'')) = 2" by simp
  then have d: "region (path_sc B) (PATH_LEN + 1) \<inter> region slash (Suc (length (str ''/''))) = {}" "path_room B (gbinfo ?s)"
    using path(2,3) by (simp_all add: numeral_2_eq_2 del: region_simps)
  have o: "current_inode ?s = sint i" "current_lba ?s = lba" "current_drive ?s = drive" "stack_room B (gbinfo ?s)" "cursor_ok ?s"
    using s by (simp_all add: cursor_ok_def)
  have rd': "\<forall>j \<in> set [i]. reads_as dev disk drive lba j (?dir j)" using rd by simp
  obtain s' L' where r: "ext2_chdir dev B slash ?s = Some (ext2_file_prop s', s')" "L \<subseteq> L'" "in_dir B drive lba L' k i es s'"
    "kept (path_area B \<union> driver_area B s) L ?s s'"
    using ext2_chdir_ok [OF ata p d w rd' k room(2) o] by auto
  moreover have "kept (path_area B \<union> driver_area B s) L s s'" using r(4) by (simp add: kept_def)
  moreover have "s'\<lparr>ext2_file_prop := ext2_file_prop s'\<rparr> = s'" by simp
  ultimately show ?thesis by (intro exI [of _ s'] exI [of _ L']) (simp add: ext2_root_def)
qed

section \<open>Properties\<close>

text \<open>
  C30: \<open>ext2_chdir\<close> refines walking a path. On a drive that meets the register-level contract, with \<open>dirs j\<close> the blocks of entries of the directory at every inode \<open>j\<close> that \<open>walk\<close> reads, all of whose entries have inodes
  that the driver finds (none is 0 or the last one of its group, and the groups are below 729) and names without zero bytes, and
  which either have their records in the first sectors of their blocks or lie on a drive that is ready between sectors,
  and room on the heap for their lists, a path of at most 100 characters and ten
  pieces leads where \<open>walk\<close> says: the call returns the list of the directory that was entered last, in fresh blocks; that
  directory is the current one; a file on the way or a name that is not there stops the walk, with its message as the last
  thing that happens; live blocks and the memory outside the driver's arrays, the heap and the screen stay.
\<close>

theorem ext2_chdir_resolves:
  fixes s :: "'a ext2_scheme"
  assumes "ata_reads dev disk" "drive = 0 \<or> drive = 1" "\<And>k. length (disk drive k) = 512"
    and "cstr (mem s) c path" "length path \<le> PATH_LEN" "length (path_pieces path) \<le> DIRECTORY_NUM"
      "region (path_sc B) (PATH_LEN + 1) \<inter> region c (Suc (length path)) = {}" "path_room B (gbinfo s)"
    and "dir = (\<lambda>j. listing (dirs j))" "walk dir i (path_pieces path) = (inos, e)"
    and "\<forall>j \<in> set (i # inos). disk_dir disk drive lba j (dirs j) \<and> inodes_found disk drive lba j (dirs j) \<and>
      (ready_between dev \<or> short_dir disk drive lba j) \<and> (\<forall>(_, _, _, nm) \<in> set (dir j). 0 \<notin> set nm)"
    and "kroom s L (sum_list (map (\<lambda>j. dir_units (dir j)) (i # inos)) + k)" "0 < k"
    and "current_inode s = sint i" "current_lba s = lba" "current_drive s = drive" "stack_room B (gbinfo s)" "cursor_ok s"
  shows "\<exists>s' t L'. ext2_chdir dev B c s = Some (ext2_file_prop s', s') \<and> s' = report e t \<and> L \<subseteq> L' \<and>
    in_dir B drive lba L' k (last (i # inos)) (dir (last (i # inos))) s' \<and> kept (path_area B \<union> driver_area B s) L s s'"
proof -
  have rd: "\<forall>j \<in> set (i # inos). reads_as dev disk drive lba j (dir j)"
    unfolding reads_as_def using assms(9,11) by blast
  show ?thesis using ext2_chdir_ok [OF assms(1-8,10) rd assms(12-)] .
qed

section \<open>Witness\<close>

definition demo_path_ext2 :: ext2 where
  "demo_path_ext2 = demo_ext2\<lparr>mem := st_bytes 0x9A000 (str ''/./x'' @ [0]) (mem demo_ext2), current_inode := 2, current_lba := 63,
     current_drive := 0, cursor_x := 0, cursor_y := 0\<rparr>"

lemma demo_path_room: "path_room demo_bufs 0" "stack_room demo_bufs 0"
proof -
  have "region 0x99000 101 \<inter> screen = {}" "region 0x98000 44 \<inter> screen = {}" by (rule low_screen, simp)+
  moreover have "region (0x99000 - 1) 102 \<inter> region 0x98000 44 = {}"
    "(region 0x99000 101 \<union> region 0x98000 44) \<inter> (kernel_area \<union> region 0 8 \<union> dir_stack demo_bufs) = {}"
    by (auto simp: demo_bufs_def region_iff kernel_area_def)
  ultimately show "path_room demo_bufs 0" unfolding path_room_def by (simp add: demo_bufs_def Int_Un_distrib Int_Un_distrib2 del: region_simps)
  show "stack_room demo_bufs 0" by (auto simp: stack_room_def demo_bufs_def region_iff kernel_area_def)
qed

theorem ext2_chdir_resolves_witness:
  "\<exists>s' t L. ext2_chdir (slow_dev demo_dir_disk) demo_bufs 0x9A000 demo_path_ext2 = Some (ext2_file_prop s', s') \<and>
     s' = report Missing t \<and> in_dir demo_bufs 0 63 L 1 2 [(2, 1024, 2, str ''.''), (12, 1234, 1, str ''a b'')] s'"
proof -
  define es :: "file_entry list" where "es = [(2, 1024, 2, str ''.''), (12, 1234, 1, str ''a b'')]"
  have ata: "ata_reads (slow_dev demo_dir_disk) demo_dir_disk" by (rule slow_dev_reads) (rule demo_dir_disk_length)
  have es: "(\<lambda>_. es) = (\<lambda>j :: uint. listing [es])" by simp
  have path: "cstr (mem demo_path_ext2) 0x9A000 (str ''/./x'')" by (simp add: demo_path_ext2_def)
  have ws: "path_pieces (str ''/./x'') = [[], str ''.'', str ''x'']"
    by (simp add: path_pieces_def tokens.simps [of _ _ 0] path_stop_def path_gap_def)
  have "lookup (str ''.'') es = Some (2, 1024, 2, str ''.'')" "lookup (str ''x'') es = None" by (simp_all add: lookup_def es_def)
  then have w: "walk (\<lambda>_. es) 2 (path_pieces (str ''/./x'')) = ([2, 2], Missing)" unfolding ws by simp
  have out: "mem demo_path_ext2 x = mem demo_ext2 x" if "x \<in> kernel_area" for x
    using that unfolding demo_path_ext2_def by (auto simp: kernel_area_def region_iff intro!: st_bytes_outside)
  have "kroom demo_ext2 {} (sum_list (map (\<lambda>j. dir_units es) [2 :: uint, 2, 2]) + 1)"
    using demo_ext2_room by (rule kroom_mono) (simp add: dir_units_def es_def)
  from conjunct1 [OF kroom.room_elsewhere [OF this, of "mem demo_path_ext2"]] out
  have "kroom (demo_ext2\<lparr>mem := mem demo_path_ext2\<rparr>) {} (sum_list (map (\<lambda>j. dir_units es) [2 :: uint, 2, 2]) + 1)" by blast
  moreover have "freep demo_path_ext2 = freep (demo_ext2\<lparr>mem := mem demo_path_ext2\<rparr>)" "mem demo_path_ext2 = mem (demo_ext2\<lparr>mem := mem demo_path_ext2\<rparr>)"
    by (simp_all add: demo_path_ext2_def)
  ultimately have room: "kroom demo_path_ext2 {} (sum_list (map (\<lambda>j. dir_units es) [2 :: uint, 2, 2]) + 1)" using kroom_cong by blast
  have pr: "path_room demo_bufs (gbinfo demo_path_ext2)" "stack_room demo_bufs (gbinfo demo_path_ext2)"
    "region (path_sc demo_bufs) (PATH_LEN + 1) \<inter> region 0x9A000 (Suc (length (str ''/./x''))) = {}"
    using demo_path_room by (simp_all add: demo_path_ext2_def demo_bufs_def region_iff)
  have v: "current_inode demo_path_ext2 = sint (2 :: uint)" "current_lba demo_path_ext2 = 63" "current_drive demo_path_ext2 = 0"
    "cursor_ok demo_path_ext2"
    by (simp_all add: demo_path_ext2_def cursor_ok_def)
  have rd: "\<forall>j \<in> set [2, 2, 2]. disk_dir demo_dir_disk 0 63 j [es] \<and> inodes_found demo_dir_disk 0 63 j [es] \<and>
      (ready_between (slow_dev demo_dir_disk) \<or> short_dir demo_dir_disk 0 63 j) \<and> (\<forall>(_, _, _, nm) \<in> set es. 0 \<notin> set nm)"
    using demo_disk_dir demo_inodes_found by (simp add: es_def)
  have l: "length (str ''/./x'') \<le> PATH_LEN" "length (path_pieces (str ''/./x'')) \<le> DIRECTORY_NUM" unfolding ws by simp_all
  from ext2_chdir_resolves [OF ata _ demo_dir_disk_length path l pr(3,1) es w rd room _ v(1-3) pr(2) v(4)]
  show ?thesis unfolding es_def by auto
qed

end
