(* ===== verification/Gdt.thy ===== *)
theory Gdt
  imports Shell
begin

text \<open>
  The two routines of \<open>src/kernel/idt.c\<close> about the global descriptor table, \<open>init_gdt\<close> and \<open>load_gdt\<close>; nothing
  calls them. Both store the register of the table through a pointer that is never set: its value \<open>gdtr_base1\<close> is
  a parameter, and so is the address of their local text buffer. The register is a field of the state, the limit
  and the base, and \<open>gdt_reg\<close> the address of the array of that name.
\<close>

section \<open>Model\<close>

record gdt = shell +
  gdtr :: "half \<times> addr"
  gdt_reg :: addr

text \<open>The instructions: six bytes, the limit first.\<close>

definition sgdt :: "addr \<Rightarrow> 'a gdt_scheme \<Rightarrow> 'a gdt_scheme" where
  "sgdt a s = s\<lparr>mem := st32 (a + 2) (snd (gdtr s)) (st16 a (fst (gdtr s)) (mem s))\<rparr>"

definition lgdt :: "addr \<Rightarrow> 'a gdt_scheme \<Rightarrow> 'a gdt_scheme" where
  "lgdt a s = s\<lparr>gdtr := (ld16 (mem s) a, ld32 (mem s) (a + 2))\<rparr>"

text \<open>\<open>snprintf\<close> into the local buffer of 50 bytes, which it may overrun since it ignores the size: that is
  undefined, \<open>None\<close>. The text is then printed as a format; it has no percent sign.\<close>

definition sprint_show :: "device \<Rightarrow> addr \<Rightarrow> item list \<Rightarrow> varg list \<Rightarrow> 'a kbd_scheme \<Rightarrow> 'a kbd_scheme option" where
  "sprint_show dev buff its vs s = do {
     out \<leftarrow> renders its vs;
     if length out < 50 then do {
       s1 \<leftarrow> kprint (map Lit out) [] (s\<lparr>mem := st_bytes buff (out @ [0]) (mem s)\<rparr>);
       (_, s2) \<leftarrow> getch dev s1;
       Some s2 }
     else None }"

definition hex4 :: "item list" where
  "hex4 = pct CHR ''x'' # concat (replicate 3 [Lit 32, pct CHR ''x''])"

definition words4 :: "memory \<Rightarrow> addr \<Rightarrow> varg list" where
  "words4 m p = map (\<lambda>k. Num (ucast (ld16 m (p + of_nat (2 * k))))) [0..<4]"

definition init_items :: "item list" where
  "init_items = lits ''gdtr_base1 '' @ [pct CHR ''x''] @ lits '' reg : '' @ [pct CHR ''x''] @ lits '' value1:'' @ hex4"

definition load_items :: "string \<Rightarrow> item list" where
  "load_items t = lits t @ [pct CHR ''x''] @ lits '' value1:'' @ hex4"

text \<open>The loop copies 21 groups of four halfwords.\<close>

definition gdt_copy1 :: "addr \<Rightarrow> addr \<Rightarrow> nat \<Rightarrow> memory \<Rightarrow> memory" where
  "gdt_copy1 p r i m = st16 (r + of_nat (2 * i)) (ld16 m (p + of_nat (2 * i))) m"

definition gdt_copy :: "addr \<Rightarrow> addr \<Rightarrow> memory \<Rightarrow> memory" where
  "gdt_copy p r m = fold (\<lambda>g m. fold (\<lambda>k. gdt_copy1 p r (4 * g + k)) [0..<4] m) [0..<21] m"

definition init_gdt :: "device \<Rightarrow> addr \<Rightarrow> addr \<Rightarrow> 'a gdt_scheme \<Rightarrow> 'a gdt_scheme option" where
  "init_gdt dev gdtr_base1 buff s = do {
     let s1 = sgdt gdtr_base1 s;
     s2 \<leftarrow> sprint_show dev buff init_items (Num gdtr_base1 # Num (gdt_reg s) # words4 (mem s1) gdtr_base1) s1;
     Some (s2\<lparr>mem := gdt_copy gdtr_base1 (gdt_reg s) (mem s2)\<rparr>) }"

definition load_gdt :: "device \<Rightarrow> addr \<Rightarrow> addr \<Rightarrow> 'a gdt_scheme \<Rightarrow> 'a gdt_scheme option" where
  "load_gdt dev gdtr_base1 buff s = do {
     let s1 = lgdt (gdt_reg s) (sgdt gdtr_base1 s);
     s2 \<leftarrow> sprint_show dev buff (load_items ''base1 : '' @ [Lit 10]) (Num (gdt_reg s) # words4 (mem s1) (gdt_reg s)) s1;
     sprint_show dev buff (load_items ''old gdt : '') (Num gdtr_base1 # words4 (mem s2) gdtr_base1) s2 }"

section \<open>The copy\<close>

lemma gdt_copy_flat: "gdt_copy p r m = fold (gdt_copy1 p r) [0..<84] m"
proof -
  have "fold (\<lambda>g m. fold (\<lambda>k. gdt_copy1 p r (4 * g + k)) [0..<4] m) [0..<n] m = fold (gdt_copy1 p r) [0..<4 * n] m" for n
  proof (induction n)
    case (Suc n)
    have "[0..<4 * Suc n] = [0..<4 * n] @ map (\<lambda>k. 4 * n + k) [0..<4]"
      using upt_add_eq_append [of 0 "4 * n" 4] map_add_upt [of "4 * n" 4] by (simp add: add.commute)
    moreover have "[0..<Suc n] = [0..<n] @ [n]" by simp
    ultimately show ?case by (simp only: fold_append comp_def fold_simps Suc.IH fold_map)
  qed simp
  from this [of 21] show ?thesis by (simp add: gdt_copy_def)
qed

text \<open>A copy that does not overlap its source is one byte by byte.\<close>

lemma st16_ld16: "st16 a (ld16 m b) m' = m'(a := m b, a + 1 := m (b + 1))"
proof -
  have "(ucast (ld16 m b) :: byte) = m b" "(ucast (drop_bit 8 (ld16 m b)) :: byte) = m (b + 1)"
    by (rule bit_word_eqI, auto simp: ld16_def bit_simps dest: bit_imp_le_length)+
  then show ?thesis by (simp add: st16_def)
qed

lemma gdt_copy_bytes:
  assumes "region p 168 \<inter> region r 168 = {}"
  shows "n \<le> 84 \<Longrightarrow> (\<forall>j < 2 * n. fold (gdt_copy1 p r) [0..<n] m (r + of_nat j) = m (p + of_nat j)) \<and>
    (\<forall>x. x \<notin> region r (2 * n) \<longrightarrow> fold (gdt_copy1 p r) [0..<n] m x = m x)"
proof (induction n)
  case (Suc n)
  let ?m = "fold (gdt_copy1 p r) [0..<n] m"
  have n: "2 * n < 168" "2 * n + 1 < 168" "n < 84" and IH: "\<And>j. j < 2 * n \<Longrightarrow> ?m (r + of_nat j) = m (p + of_nat j)"
    "\<And>x. x \<notin> region r (2 * n) \<Longrightarrow> ?m x = m x"
    using Suc by auto
  have src: "?m (p + of_nat j) = m (p + of_nat j)" if "j < 168" for j
    using that n assms regionI [OF that, of p] region_mono [of "2 * n" 168 r] by (intro IH(2)) auto
  have st: "fold (gdt_copy1 p r) [0..<Suc n] m =
      ?m(r + of_nat (2 * n) := m (p + of_nat (2 * n)), r + of_nat (2 * n + 1) := m (p + of_nat (2 * n + 1)))"
  proof -
    have e: "x + of_nat (2 * n) + 1 = x + of_nat (2 * n + 1)" for x :: addr by simp
    have "[0..<Suc n] = [0..<n] @ [n]" by simp
    then show ?thesis
      using src [OF n(1)] src [OF n(2)]
      by (simp only: fold_append comp_def fold_simps gdt_copy1_def st16_ld16 e)
  qed
  have ne: "r + of_nat j \<noteq> r + of_nat k" if "j < k" "k < 168" for j k using that by (simp add: of_nat_inj_small)
  have "fold (gdt_copy1 p r) [0..<Suc n] m (r + of_nat j) = m (p + of_nat j)" if lt: "j < 2 * Suc n" for j
  proof -
    consider "j < 2 * n" | "j = 2 * n" | "j = 2 * n + 1" using lt by atomize_elim arith
    then show ?thesis
      unfolding st using IH(1) [of j] ne [of j "2 * n"] ne [of j "2 * n + 1"] ne [of "2 * n" "2 * n + 1"] n
      by cases (simp_all del: of_nat_add of_nat_mult)
  qed
  moreover have "fold (gdt_copy1 p r) [0..<Suc n] m x = m x" if "x \<notin> region r (2 * Suc n)" for x
    unfolding st using that regionI [of "2 * n" "2 * Suc n" r] regionI [of "2 * n + 1" "2 * Suc n" r]
      region_mono [of "2 * n" "2 * Suc n" r] IH(2) [of x] by (auto simp del: of_nat_add of_nat_mult)
  ultimately show ?case by blast
qed simp

text \<open>The six bytes of a register value.\<close>

definition holds_gdtr :: "memory \<Rightarrow> addr \<Rightarrow> half \<times> addr \<Rightarrow> bool" where
  "holds_gdtr m a v \<longleftrightarrow> ld16 m a = fst v \<and> ld32 m (a + 2) = snd v"

lemma holds_gdtr_moved: "(\<And>j. j < 6 \<Longrightarrow> m' (b + of_nat j) = m (a + of_nat j)) \<Longrightarrow> holds_gdtr m' b v = holds_gdtr m a v"
proof -
  assume b: "\<And>j. j < 6 \<Longrightarrow> m' (b + of_nat j) = m (a + of_nat j)"
  from b [of 0] b [of 1] b [of 2] b [of 3] b [of 4] b [of 5] show ?thesis
    by (simp add: holds_gdtr_def ld16_def ld32_def add.assoc)
qed

lemma holds_gdtr_cong: "(\<And>x. x \<in> region a 6 \<Longrightarrow> m' x = m x) \<Longrightarrow> holds_gdtr m' a v = holds_gdtr m a v"
  using regionI [of _ 6 a] by (intro holds_gdtr_moved) blast

lemma sgdt_holds: "holds_gdtr (mem (sgdt a s)) a (gdtr s)" "x \<notin> region a 6 \<Longrightarrow> mem (sgdt a s) x = mem s x"
proof -
  have d: "region (a + 2) 4 \<inter> region a 2 = {}" using region_offsets_disjoint [of 0 2 2 4 a] by auto
  then have "ld16 (st32 (a + 2) v m) a = ld16 m a" for v m
    by (intro ld16_cong st32_outside) blast
  then show "holds_gdtr (mem (sgdt a s)) a (gdtr s)" by (simp add: holds_gdtr_def sgdt_def)
  assume x: "x \<notin> region a 6"
  then have "x \<notin> region a 2" "x \<notin> region (a + 2) 4" using region_mono [of 2 6 a] region_offset [of a 2 4] by auto
  then show "mem (sgdt a s) x = mem s x" by (simp add: sgdt_def st16_outside st32_outside)
qed

section \<open>The texts\<close>

text \<open>Showing a text changes the screen, the buffer, the cursor and the keyboard.\<close>

lemma sprint_show_ok:
  assumes "sprint_show dev buff its vs s = Some s'" "cursor_ok s"
  shows "cursor_ok s'" "x \<notin> region buff 50 \<Longrightarrow> x \<notin> screen \<Longrightarrow> mem s' x = mem s x"
    "\<exists>m h sh x y. s' = s\<lparr>mem := m, io := h, cursor_x := x, cursor_y := y, shift := sh\<rparr>"
proof -
  obtain out where out: "renders its vs = Some out" "length out < 50"
    using assms(1) by (auto simp: sprint_show_def split: bind_splits if_splits)
  define s1 where "s1 = s\<lparr>mem := st_bytes buff (out @ [0]) (mem s)\<rparr>"
  obtain b where b: "getch dev (kputs out s1) = Some (b, s')"
    using assms(1) out
    by (auto simp: sprint_show_def kprint_def s1_def renders_lits [of _ "[]", simplified] split: bind_splits if_splits)
  obtain h sh where g: "s' = (kputs out s1)\<lparr>io := h, shift := sh\<rparr>"
    using getch_reads [OF b] by (auto simp: reads_def)
  have ok: "cursor_ok s1" using assms(2) by (simp add: s1_def cursor_ok_def)
  show "cursor_ok s'" using kputs_ok(1) [OF ok, of out] by (simp add: g cursor_ok_def)
  show "mem s' x = mem s x" if "x \<notin> region buff 50" "x \<notin> screen"
    using kputs_ok(2) [OF ok that(2), of out] that(1) out(2) region_mono [of "length (out @ [0])" 50 buff]
      st_bytes_outside [of x buff "out @ [0]" "mem s"] by (auto simp: g s1_def)
  obtain m h' x y where "kputs out s1 = s1\<lparr>mem := m, io := h', cursor_x := x, cursor_y := y\<rparr>"
    using outputs_kputs [of s1 out] by (auto simp: outputs_def)
  then have "s' = s\<lparr>mem := m, io := h, cursor_x := x, cursor_y := y, shift := sh\<rparr>"
    by (simp add: g s1_def)
  then show "\<exists>m h sh x y. s' = s\<lparr>mem := m, io := h, cursor_x := x, cursor_y := y, shift := sh\<rparr>" by blast
qed

text \<open>The array holds the value of the register after \<open>init_gdt\<close>, and \<open>load_gdt\<close> loads it from there: the two
  together leave the register as it was, wherever the pointers point that are not set.\<close>

lemma init_gdt_saves:
  assumes "init_gdt dev p buff s = Some s'" "cursor_ok s"
    and d: "region p 168 \<inter> region (gdt_reg s) 168 = {}" "region p 6 \<inter> (region buff 50 \<union> screen) = {}"
  shows "holds_gdtr (mem s') (gdt_reg s) (gdtr s)" "gdtr s' = gdtr s" "gdt_reg s' = gdt_reg s" "cursor_ok s'"
proof -
  let ?vs = "Num p # Num (gdt_reg s) # words4 (mem (sgdt p s)) p"
  obtain s2 where s2: "sprint_show dev buff init_items ?vs (sgdt p s) = Some s2"
    and s': "s' = s2\<lparr>mem := gdt_copy p (gdt_reg s) (mem s2)\<rparr>"
    using assms(1) by (auto simp: init_gdt_def Let_def split: bind_splits)
  have ok: "cursor_ok (sgdt p s)" using assms(2) by (simp add: sgdt_def cursor_ok_def)
  note sh = sprint_show_ok [OF s2 ok]
  have "holds_gdtr (mem s2) p (gdtr s) = holds_gdtr (mem (sgdt p s)) p (gdtr s)"
    using d(2) by (intro holds_gdtr_cong sh(2)) blast+
  then have "holds_gdtr (mem s2) p (gdtr s)" by (simp add: sgdt_holds)
  then show "holds_gdtr (mem s') (gdt_reg s) (gdtr s)"
    using gdt_copy_bytes [OF d(1), of 84 "mem s2"] holds_gdtr_moved [of "mem s'" "gdt_reg s" "mem s2" p]
    by (simp add: s' gdt_copy_flat del: upt_rec_numeral)
  show "gdtr s' = gdtr s" "gdt_reg s' = gdt_reg s" using sh(3) by (auto simp: s' sgdt_def)
  show "cursor_ok s'" using sh(1) by (simp add: s' cursor_ok_def)
qed

lemma load_gdt_loads:
  assumes "load_gdt dev p buff s = Some s'" "holds_gdtr (mem s) (gdt_reg s) v" "region p 6 \<inter> region (gdt_reg s) 6 = {}"
    and "cursor_ok s"
  shows "gdtr s' = v"
proof -
  have "holds_gdtr (mem (sgdt p s)) (gdt_reg s) v"
    using assms(2,3) holds_gdtr_cong [of "gdt_reg s" "mem (sgdt p s)" "mem s" v] sgdt_holds(2) [of _ p s] by blast
  then have l: "gdtr (lgdt (gdt_reg s) (sgdt p s)) = v" by (auto simp: holds_gdtr_def lgdt_def)
  define s1 where "s1 = lgdt (gdt_reg s) (sgdt p s)"
  have ok: "cursor_ok s1" using assms(4) by (simp add: s1_def sgdt_def lgdt_def cursor_ok_def)
  obtain s2 its1 vs1 its2 vs2 where "sprint_show dev buff its1 vs1 s1 = Some s2" "sprint_show dev buff its2 vs2 s2 = Some s'"
    using assms(1) by (auto simp: load_gdt_def Let_def s1_def split: bind_splits)
  then show ?thesis
    using sprint_show_ok(1,3) [of dev buff its1 vs1 s1 s2] sprint_show_ok(3) [of dev buff its2 vs2 s2 s'] ok l
    by (auto simp: s1_def)
qed

text \<open>The first text is 29 characters longer than its six numbers: \<open>init_gdt\<close> overruns its buffer of 50 bytes
  when they have 21 digits or more.\<close>

definition hex_digits :: "varg \<Rightarrow> nat" where
  "hex_digits v = (case v of Num w \<Rightarrow> length (numeral_of False 16 (unat w)) | Str t \<Rightarrow> length t)"

lemma render_hex: "render (pct CHR ''x'') (Num w) = Some (numeral_of False 16 (unat w))"
  by (simp add: conv_value_def num_convs_def conv_radix_def field_def)

lemma renders_hex: "renders (Dir False False [] [] 120 # its) (Num w # vs) =
    map_option ((@) (numeral_of False 16 (unat w))) (renders its vs)"
  using render_hex [of w] by (cases "renders its vs") simp_all

lemma init_gdt_overruns:
  assumes "21 \<le> sum_list (map hex_digits (Num p # Num (gdt_reg s) # words4 (mem (sgdt p s)) p))"
  shows "init_gdt dev p buff s = None"
proof -
  have w: "words4 m a = [Num (ucast (ld16 m (a + of_nat 0))), Num (ucast (ld16 m (a + of_nat 2))),
      Num (ucast (ld16 m (a + of_nat 4))), Num (ucast (ld16 m (a + of_nat 6)))]" for m a
    by (simp add: words4_def upt_rec)
  have "\<exists>out. renders init_items (Num a # Num b # words4 m c) = Some out \<and>
      length out = 29 + sum_list (map hex_digits (Num a # Num b # words4 m c))" for a b c m
    unfolding init_items_def hex4_def w
    by (simp add: renders_text renders_hex hex_digits_def numeral_3_eq_3 del: renders.simps(4,5)) 
  then obtain out where "renders init_items (Num p # Num (gdt_reg s) # words4 (mem (sgdt p s)) p) = Some out" "\<not> length out < 50"
    using assms by fastforce
  then show ?thesis by (simp only: init_gdt_def sprint_show_def Let_def bind.simps if_False)
qed

end
