(* ===== verification/Builtin.thy ===== *)
theory Builtin
  imports Fs
begin

text \<open>
  The commands of the shell, \<open>src/utils/shell_builtin.c\<close>. What they call through function pointers, the assembly routine
  \<open>pto_rmode\<close>, the device, and what uninitialised variables hold are collected in \<open>cmd_env\<close>. The first component of a
  result is the value a command returns, \<open>None\<close> when it ends without a \<open>return\<close>; \<open>shell_exec\<close> ignores it.
\<close>

section \<open>Surroundings\<close>

text \<open>\<open>e_dot\<close> is the address of the constant \<open>"."\<close>, \<open>e_val\<close>, \<open>e_size\<close> and \<open>e_ch\<close> are the contents of uninitialised locals
  of \<open>atoi\<close>, \<open>cmd_more\<close> and the serial line.\<close>

record 'a cmd_env =
  e_dev :: device
  e_root :: "addr \<Rightarrow> uint \<Rightarrow> int \<Rightarrow> int \<Rightarrow> 'a fsys_scheme \<Rightarrow> (addr \<times> 'a fsys_scheme) option"
  e_chdir :: "addr \<Rightarrow> addr \<Rightarrow> 'a fsys_scheme \<Rightarrow> (addr \<times> 'a fsys_scheme) option"
  e_load :: "addr \<Rightarrow> addr \<Rightarrow> addr \<Rightarrow> 'a fsys_scheme \<Rightarrow> (uint \<times> 'a fsys_scheme) option"
  e_rmode :: "'a fsys_scheme \<Rightarrow> 'a fsys_scheme option"
  e_dot :: addr
  e_val :: uint
  e_size :: uint
  e_ch :: byte

definition arg_at_index :: "memory \<Rightarrow> addr \<Rightarrow> nat \<Rightarrow> addr" where
  "arg_at_index m argv i = ld32 m (argv + 4 * of_nat i)"

definition fsp_start :: "addr \<Rightarrow> addr" where "fsp_start p = p"
definition fsp_size :: "addr \<Rightarrow> addr" where "fsp_size p = p + 4"
definition fsp_file_type :: "addr \<Rightarrow> addr" where "fsp_file_type p = p + 8"
definition fsp_filename :: "addr \<Rightarrow> addr" where "fsp_filename p = p + 12"
definition fsp_next :: "addr \<Rightarrow> addr" where "fsp_next p = p + 268"

definition file_type :: "string list" where
  "file_type = ['' Unknown'', '' File'', '' Directory'', '' Char Device'', '' Blk Device'', '' Pipe'', '' Socket'', '' Sym Link'']"

text \<open>\<open>strcmp\<close> of an argument with a constant.\<close>

definition strcmp_arg :: "memory \<Rightarrow> addr \<Rightarrow> string \<Rightarrow> int option" where
  "strcmp_arg m a t = map_option (\<lambda>x. strcmp_spec x (str t)) (cstring m a)"

section \<open>help, ls, cd\<close>

primrec help_names :: "nat \<Rightarrow> 'a console_scheme \<Rightarrow> 'a console_scheme option" where
  "help_names 0 s = Some s"
| "help_names (Suc n) s = do {
     s1 \<leftarrow> kprint [pct CHR ''s'', Lit 10] [Str (str (fst (cmdtab ! n)))] s;
     help_names n s1 }"

primrec help_find :: "nat \<Rightarrow> memory \<Rightarrow> addr \<Rightarrow> nat option option" where
  "help_find 0 m a = Some None"
| "help_find (Suc bar) m a = do {
     r \<leftarrow> strcmp_arg m a (fst (cmdtab ! bar));
     if r = 0 then Some (Some bar) else help_find bar m a }"

primrec help_args :: "nat \<Rightarrow> addr \<Rightarrow> 'a console_scheme \<Rightarrow> 'a console_scheme option" where
  "help_args 0 argv s = Some s"
| "help_args (Suc foo) argv s = do {
     let a = arg_at_index (mem s) argv (Suc foo);
     good \<leftarrow> help_find (nat (fst shell_cmdtab)) (mem s) a;
     s1 \<leftarrow> (case good of
         Some bar \<Rightarrow> kprint [pct CHR ''s'', Lit 10] [Str (str (snd (cmdtab ! bar)))] s
       | None \<Rightarrow> do {
           t \<leftarrow> cstring (mem s) a;
           kprint (lits ''Command \"'' @ [pct CHR ''s''] @ lits ''\" not found.'' @ [Lit 10]) [Str t] s });
     help_args foo argv s1 }"

definition cmd_help :: "nat \<Rightarrow> addr \<Rightarrow> 'a console_scheme \<Rightarrow> (int option \<times> 'a console_scheme) option" where
  "cmd_help argc argv s =
     (let elements = fst shell_cmdtab in
      if argc \<le> 1 then do {
        s1 \<leftarrow> kprint (pct CHR ''d'' # lits '' commands:'' @ [Lit 10]) [Num (word_of_int elements)] s;
        s2 \<leftarrow> help_names (nat elements) s1;
        Some (Some 0, s2) }
      else map_option (Pair (Some 0)) (help_args (argc - 1) argv s))"

partial_function (option) ls_loop :: "'a fsys_scheme \<Rightarrow> 'a fsys_scheme option" where
  "ls_loop s =
     (if fs_temp s \<noteq> NULL then do {
        nm \<leftarrow> cstring (mem s) (fsp_filename (fs_temp s));
        s1 \<leftarrow> kprint [pct CHR ''s'', Lit 32] [Str nm] s;
        ls_loop (s1\<lparr>fs_temp := ld32 (mem s1) (fsp_next (fs_temp s1))\<rparr>) }
      else Some s)"

partial_function (option) ls_long_loop :: "'a fsys_scheme \<Rightarrow> 'a fsys_scheme option" where
  "ls_long_loop s =
     (if fs_temp s \<noteq> NULL then do {
        let t = fs_temp s;
        nm \<leftarrow> cstring (mem s) (fsp_filename t);
        s1 \<leftarrow> (if nm \<noteq> [] then
                (let k = unat (ld32 (mem s) (fsp_file_type t)) in
                 if k < length file_type then
                   kprint [Dir True False (str ''15'') [] (ch CHR ''s''), Lit 32, Dir True False (str ''10'') [] (ch CHR ''d''), Lit 32,
                       Dir True True (str ''6'') [] (ch CHR ''d''), Lit 32, Dir True False (str ''20'') [] (ch CHR ''s''), Lit 10]
                     [Str (str (file_type ! k)), Num (ld32 (mem s) (fsp_size t)), Num (ld32 (mem s) (fsp_start t)), Str nm] s
                 else None)
              else Some s);
        ls_long_loop (s1\<lparr>fs_temp := ld32 (mem s1) (fsp_next (fs_temp s1))\<rparr>) }
      else Some s)"

definition cmd_ls :: "nat \<Rightarrow> addr \<Rightarrow> 'a fsys_scheme \<Rightarrow> (int option \<times> 'a fsys_scheme) option" where
  "cmd_ls argc argv s0 = map_option (Pair None)
     (let s = s0\<lparr>fs_temp := fs_prop s0\<rparr> in
      if fs_temp s = NULL then Some (kputs (str ''Partition not supported'' @ [10]) s)
      else if argc = 1 then map_option (kputs [10, 32]) (ls_loop s)
      else if argc = 2 then
        (let c = arg_at_index (mem s) argv 1 in
         if mem s c = ch CHR ''-'' then
           (if mem s (c + 1) = ch CHR ''l'' then ls_long_loop s
            else Some (kputs (str ''Wrong switch used: See help ls'' @ [10]) s))
         else Some (kputs (str ''Wrong usage of command : See help ls'' @ [10]) s))
      else Some (kputs (str ''Wrong usage of command : See help ls'' @ [10]) s))"

definition cmd_clear :: "nat \<Rightarrow> addr \<Rightarrow> 'a console_scheme \<Rightarrow> (int option \<times> 'a console_scheme) option" where
  "cmd_clear argc argv s = Some (None, kclear_screen s)"

definition cmd_reboot :: "'a cmd_env \<Rightarrow> nat \<Rightarrow> addr \<Rightarrow> 'a fsys_scheme \<Rightarrow> (int option \<times> 'a fsys_scheme) option" where
  "cmd_reboot E argc argv s = map_option (Pair None) (reboot (e_dev E) s)"

text \<open>\<open>shell_panic\<close> takes the pointer for an error code.\<close>

definition cmd_cd :: "'a cmd_env \<Rightarrow> nat \<Rightarrow> addr \<Rightarrow> 'a fsys_scheme \<Rightarrow> (int option \<times> 'a fsys_scheme) option" where
  "cmd_cd E argc argv s =
     (if argc = 2 then do {
        (p, s1) \<leftarrow> fs_chdir (e_chdir E) (arg_at_index (mem s) argv 1) s;
        let s2 = s1\<lparr>fs_temp := p\<rparr>;
        let (r, s3) = shell_panic (sint (fs_temp s2)) s2;
        if r \<noteq> 0 then do {
          (q, s4) \<leftarrow> fs_chdir (e_chdir E) (e_dot E) s3;
          Some (Some FAILURE, s4\<lparr>fs_temp := q\<rparr>) }
        else Some (None, s3\<lparr>fs_prop := fs_temp s3\<rparr>) }
      else Some (None, kputs (str ''Wrong switch used: See help cd'' @ [10]) s))"

section \<open>ppart, more\<close>

definition ppart_row :: "item list" where
  "ppart_row = lits ''   '' @ [pct CHR ''d''] @ lits ''     '' @ [Dir False False (str ''10'') [] (ch CHR ''s'')] @ lits ''            '' @
     [Dir True False (str ''10'') [] (ch CHR ''d'')] @ lits ''          '' @ [Dir True False (str ''6'') [] (ch CHR ''d'')] @ lits ''Mb'' @
     [Lit 10, Lit 32]"

partial_function (option) ppart_loop :: "'a dio_scheme \<Rightarrow> 'a dio_scheme option" where
  "ppart_loop s =
     (let p = part_temp s in
      if ld32 (mem s) (pp_next p) \<noteq> NULL then do {
        t \<leftarrow> cstring (mem s) (pp_type p);
        s1 \<leftarrow> kprint ppart_row [Num (ld32 (mem s) (pp_name p)), Str t, Num (ld32 (mem s) (pp_st_lba p)), Num (ld32 (mem s) (pp_part_size p))] s;
        ppart_loop (s1\<lparr>part_temp := ld32 (mem s1) (pp_next (part_temp s1))\<rparr>) }
      else Some s)"

definition ppart_header :: "byte list" where
  "ppart_header = str ''Partition      Type          Starting LBA         Patition Size'' @ [10, 32]"

definition cmd_ppart :: "'a dio_scheme \<Rightarrow> (int option \<times> 'a dio_scheme) option" where
  "cmd_ppart s = map_option (Pair (Some SUCCESS)) (ppart_loop (kputs ppart_header (s\<lparr>part_temp := partition s\<rparr>)))"

text \<open>The size of the file \<open>name\<close>, when the list has it with a type.\<close>

partial_function (option) more_find :: "addr \<Rightarrow> 'a fsys_scheme \<Rightarrow> (uint option \<times> 'a fsys_scheme) option" where
  "more_find name s =
     (if fs_temp s \<noteq> NULL then do {
        r \<leftarrow> strcmp (mem s) (fsp_filename (fs_temp s)) name;
        if r = 0 \<and> ld32 (mem s) (fsp_file_type (fs_temp s)) \<noteq> 0 then Some (Some (ld32 (mem s) (fsp_size (fs_temp s))), s)
        else more_find name (s\<lparr>fs_temp := ld32 (mem s) (fsp_next (fs_temp s))\<rparr>) }
      else Some (None, s))"

primrec put_chars :: "nat \<Rightarrow> addr \<Rightarrow> 'a console_scheme \<Rightarrow> 'a console_scheme" where
  "put_chars 0 p s = s"
| "put_chars (Suc n) p s = put_chars n (p + 1) (kputc (mem s p) s)"

definition cmd_more :: "'a cmd_env \<Rightarrow> nat \<Rightarrow> addr \<Rightarrow> 'a fsys_scheme \<Rightarrow> (int option \<times> 'a fsys_scheme) option" where
  "cmd_more E argc argv s = do {
     let s1 = (if argc > 2 then kputs (str ''Wrong usage of the command: See help more'' @ [10]) s else s);
     (load_mem, s2) \<leftarrow> fs_loadfile (e_load E) (arg_at_index (mem s1) argv 1) 0 s1;
     let (r, s3) = shell_panic (sint load_mem) s2;
     if r \<noteq> 0 then Some (Some FAILURE, s3)
     else do {
       (p, s4) \<leftarrow> fs_chdir (e_chdir E) (e_dot E) s3;
       (found, s5) \<leftarrow> more_find (arg_at_index (mem s4) argv 1) (s4\<lparr>fs_more := p, fs_temp := p\<rparr>);
       let size = (case found of Some n \<Rightarrow> n | None \<Rightarrow> e_size E);
       Some (Some SUCCESS, put_chars (nat (sint size)) load_mem s5) } }"

section \<open>load, ldmod, root, lsdrv, rmdrv, chload\<close>

partial_function (option) load_part :: "'a cmd_env \<Rightarrow> addr \<Rightarrow> 'a fsys_scheme \<Rightarrow> 'a fsys_scheme option" where
  "load_part E c s =
     (let p = part_temp s in
      if ld32 (mem s) (pp_next p) \<noteq> NULL then do {
        n \<leftarrow> atoi (e_val E) (mem s) c;
        if ld32 (mem s) (pp_name p) = n then do {
          (_, s1) \<leftarrow> read_disk_sector (e_dev E) 0x7C00 (current_drive s) (ld32 (mem s) (pp_st_lba p)) 1 s;
          Some (s1\<lparr>part_temp := ld32 (mem s1) (pp_next (part_temp s1))\<rparr>) }
        else load_part E c (s\<lparr>part_temp := ld32 (mem s) (pp_next p)\<rparr>) }
      else Some s)"

definition cmd_load :: "'a cmd_env \<Rightarrow> nat \<Rightarrow> addr \<Rightarrow> 'a fsys_scheme \<Rightarrow> (int option \<times> 'a fsys_scheme) option" where
  "cmd_load E argc argv s =
     (let c = arg_at_index (mem s) argv 1 in
      if mem s c = ch CHR ''p'' then
        map_option (Pair (Some SUCCESS)) (load_part E (c + 1) (s\<lparr>part_temp := partition s\<rparr>))
      else if mem s c = ch CHR ''-'' then do {
        (_, m) \<leftarrow> strcat (arg_at_index (mem s) argv 1) (arg_at_index (mem s) argv 2) (mem s);
        let s1 = s\<lparr>mem := m\<rparr>;
        if m (c + 1) = ch CHR ''s'' then do {
          load_mem \<leftarrow> atoi (e_val E) m (arg_at_index m argv 3);
          lba \<leftarrow> atoi (e_val E) m (c + 2);
          (r, s2) \<leftarrow> read_disk_sector (e_dev E) load_mem (current_drive s1) lba 1 s1;
          let s3 = (if r = IDE_ERR_IO_ERROR then snd (shell_panic DISK_READ_ERR s2) else s2);
          n \<leftarrow> atoi (e_val E) (mem s3) (c + 2);
          s4 \<leftarrow> (if n = 0 then e_rmode E s3 else Some s3);
          Some (Some SUCCESS, s4) }
        else if m (c + 1) = ch CHR ''f'' then do {
          load_mem \<leftarrow> atoi (e_val E) m (arg_at_index m argv 3);
          (p, s2) \<leftarrow> fs_loadfile (e_load E) (c + 2) load_mem s1;
          let (r, s3) = shell_panic (sint p) s2;
          Some (Some (if r \<noteq> 0 then FAILURE else SUCCESS), s3) }
        else Some (Some SUCCESS, kputs (str ''Wrong usage of switch: See help load'' @ [10]) s1) }
      else Some (Some SUCCESS, s))"

definition cmd_ldmod :: "'a cmd_env \<Rightarrow> nat \<Rightarrow> addr \<Rightarrow> 'a fsys_scheme \<Rightarrow> (int option \<times> 'a fsys_scheme) option" where
  "cmd_ldmod E argc argv s = do {
     load_mem \<leftarrow> atoi (e_val E) (mem s) (arg_at_index (mem s) argv 2);
     (p, s1) \<leftarrow> fs_loadfile (e_load E) (arg_at_index (mem s) argv 1) load_mem s;
     (r, s2) \<leftarrow> register_module p s1;
     let (q, s3) = shell_panic r s2;
     Some (if q \<noteq> 0 then Some FAILURE else None, s3) }"

definition cmd_root :: "'a cmd_env \<Rightarrow> nat \<Rightarrow> addr \<Rightarrow> 'a fsys_scheme \<Rightarrow> (int option \<times> 'a fsys_scheme) option" where
  "cmd_root E argc argv s =
     (let c = arg_at_index (mem s) argv 1 in
      if mem s c = ch CHR ''p'' \<and> argc \<le> 2 then do {
        n \<leftarrow> atoi (e_val E) (mem s) (c + 1);
        (r, s1) \<leftarrow> fs_root (e_root E) n s;
        Some (None, if r = FS_DRV_NOT_FOUND then kputs (str ''Filesystem not supported'' @ [10]) s1 else s1) }
      else Some (None, kputs (str ''Wrong usage of command : see help root'' @ [10]) s))"

definition cmd_lsdrv :: "'a fsys_scheme \<Rightarrow> (int option \<times> 'a fsys_scheme) option" where
  "cmd_lsdrv s = map_option (Pair None) (list_drivers s)"

text \<open>\<open>prev0\<close> is the uninitialised \<open>prev_drv\<close> of \<open>unregister_module\<close>.\<close>

definition cmd_rmdrv :: "addr \<Rightarrow> nat \<Rightarrow> addr \<Rightarrow> 'a fsys_scheme \<Rightarrow> (int option \<times> 'a fsys_scheme) option" where
  "cmd_rmdrv prev0 argc argv s =
     (if argc = 2 then do {
        (ret, s1) \<leftarrow> unregister_module prev0 (arg_at_index (mem s) argv 1) s;
        s2 \<leftarrow> (if ret = FS_MODULE_NOT_FOUND then do {
                 t \<leftarrow> cstring (mem s1) (arg_at_index (mem s1) argv 1);
                 kprint (lits ''Module '' @ [pct CHR ''s''] @ lits '' not found'' @ [Lit 10]) [Str t] s1 }
               else Some s1);
        Some (None, s2) }
      else Some (None, kputs (str ''Wrong usage of command : see help rmdrv'' @ [10]) s))"

definition cmd_chload :: "'a cmd_env \<Rightarrow> 'a fsys_scheme \<Rightarrow> (int option \<times> 'a fsys_scheme) option" where
  "cmd_chload E s = map_option (Pair None) (e_rmode E s)"

section \<open>dump, send, receive\<close>

text \<open>The loop of \<open>dump -x\<close> from turn \<open>i\<close> on; \<open>n\<close> turns are left.\<close>

primrec dump_hex :: "nat \<Rightarrow> nat \<Rightarrow> addr \<Rightarrow> 'a console_scheme \<Rightarrow> 'a console_scheme option" where
  "dump_hex 0 i p s = Some s"
| "dump_hex (Suc n) i p s = do {
     s1 \<leftarrow> kprint [Dir False True (str ''2'') [] (ch CHR ''x'')] [Num (ucast (mem s p))] s;
     let s2 = (if i mod 4 = 0 then kputs [32] s1 else s1);
     let s3 = (if i mod 32 = 0 then kputs [10] s2 else s2);
     dump_hex n (Suc i) (p + 1) s3 }"

definition cmd_dump :: "'a cmd_env \<Rightarrow> nat \<Rightarrow> addr \<Rightarrow> 'a fsys_scheme \<Rightarrow> (int option \<times> 'a fsys_scheme) option" where
  "cmd_dump E argc argv s = do {
     (c, m) \<leftarrow> strcat (arg_at_index (mem s) argv 1) (arg_at_index (mem s) argv 2) (mem s);
     let s1 = s\<lparr>mem := m\<rparr>;
     if m c = ch CHR ''-'' then
       (if m (c + 1) = ch CHR ''x'' then do {
          dump_mem \<leftarrow> atoi (e_val E) m (c + 2);
          s2 \<leftarrow> dump_hex 512 1 dump_mem (kputs [10] s1);
          Some (None, kputs [10] s2) }
        else if m (c + 1) = ch CHR ''c'' then do {
          dump_mem \<leftarrow> atoi (e_val E) m (c + 2);
          Some (None, kputs [10] (put_chars 512 dump_mem (kputs [10] s1))) }
        else Some (None, kputs (str ''Wrong usage of command : See help dump'' @ [10]) s1))
     else Some (None, s1) }"

definition cmd_send :: "'a cmd_env \<Rightarrow> 'a fsys_scheme \<Rightarrow> (int option \<times> 'a fsys_scheme) option" where
  "cmd_send E s = map_option (Pair None) (send (e_dev E) (e_ch E) s)"

definition cmd_receive :: "'a cmd_env \<Rightarrow> 'a fsys_scheme \<Rightarrow> (int option \<times> 'a fsys_scheme) option" where
  "cmd_receive E s = map_option (Pair None) (receive (e_dev E) (e_ch E) s)"

text \<open>The function pointers of \<open>cmdtab\<close>.\<close>

definition run_cmd :: "'a cmd_env \<Rightarrow> addr \<Rightarrow> nat \<Rightarrow> nat \<Rightarrow> addr \<Rightarrow> 'a fsys_scheme \<Rightarrow> 'a fsys_scheme option" where
  "run_cmd E prev0 x argc argv s = map_option snd
     (if x = 0 then cmd_help argc argv s else if x = 1 then cmd_ls argc argv s else if x = 2 then cmd_cd E argc argv s
      else if x = 3 then cmd_reboot E argc argv s else if x = 4 then cmd_clear argc argv s else if x = 5 then cmd_ppart s
      else if x = 6 then cmd_more E argc argv s else if x = 7 then cmd_load E argc argv s else if x = 8 then cmd_ldmod E argc argv s
      else if x = 9 then cmd_root E argc argv s else if x = 10 then cmd_lsdrv s else if x = 11 then cmd_rmdrv prev0 argc argv s
      else if x = 12 then cmd_chload E s else cmd_dump E argc argv s)"

section \<open>What the commands print\<close>

text \<open>A byte as two hexadecimal digits, and the layout of \<open>dump -x\<close>.\<close>

definition hex2 :: "byte \<Rightarrow> byte list" where
  "hex2 b = [pr_digit False (of_nat (unat b div 16)), pr_digit False (of_nat (unat b mod 16))]"

lemma hex2_field: "field False True 2 False (numeral_of False 16 (unat (b :: byte))) = hex2 b"
proof -
  have "unat b < 2 ^ LENGTH(8)" by (rule unsigned_less)
  then have d: "unat b div 16 < 16" by (simp add: less_mult_imp_div_less)
  show ?thesis
  proof (cases "unat b < 16")
    case True
    then show ?thesis by (simp add: numeral_of.simps [of False 16 "unat b"] field_def hex2_def pr_digit_def)
  next
    case False
    then have "numeral_of False 16 (unat b div 16) = [pr_digit False (of_nat (unat b div 16))]"
      using d by (simp add: numeral_of.simps [of False 16 "unat b div 16"])
    then show ?thesis using False by (simp add: numeral_of.simps [of False 16 "unat b"] field_def hex2_def Let_def)
  qed
qed

lemma kprint_hex2:
  "kprint [Dir False True (str ''2'') [] (ch CHR ''x'')] [Num (ucast (b :: byte))] s = Some (kputs (hex2 b) s)"
proof -
  have w: "dec_value (str ''2'') = 2" "ch CHR ''x'' \<noteq> ch CHR ''X''" by (simp_all add: digit_value_def)
  have "uint (ucast b :: uint) = uint b" by transfer simp
  then have "conv_value [] (ch CHR ''x'') (ucast b) = uint b" "conv_radix (ch CHR ''x'') = 16" "ch CHR ''x'' \<in> num_convs"
    by (simp_all add: conv_value_def conv_radix_def num_convs_def)
  then have "render (Dir False True (str ''2'') [] (ch CHR ''x'')) (Num (ucast b)) = Some (hex2 b)"
    using hex2_field [of b] by (simp add: w del: str_simps ch_Char)
  moreover have "length (hex2 b) = 2" by (simp add: hex2_def)
  ultimately show ?thesis by (simp add: kprint_def del: render.simps)
qed

primrec dump_text :: "nat \<Rightarrow> nat \<Rightarrow> memory \<Rightarrow> addr \<Rightarrow> byte list" where
  "dump_text 0 i m p = []"
| "dump_text (Suc n) i m p = hex2 (m p) @ (if i mod 4 = 0 then [32] else []) @ (if i mod 32 = 0 then [10] else []) @
     dump_text n (Suc i) m (p + 1)"

lemma dump_text_cong: "(\<And>x. x \<in> region p n \<Longrightarrow> m' x = m x) \<Longrightarrow> dump_text n i m' p = dump_text n i m p"
  by (induction n arbitrary: i p) auto

text \<open>
  \<open>dump -x\<close> prints the 512 bytes from the address on, each as two hexadecimal digits, with a blank after every
  fourth and a new line after every thirty-second, if they do not lie in the video memory the output changes.
\<close>

theorem dump_hex_prints:
  assumes "cursor_ok s" "region p n \<inter> screen = {}"
  shows "dump_hex n i p s = Some (kputs (dump_text n i (mem s) p) s)"
  using assms
proof (induction n arbitrary: i p s)
  case 0
  show ?case by simp
next
  case (Suc n)
  let ?t = "hex2 (mem s p) @ (if i mod 4 = 0 then [32] else []) @ (if i mod 32 = 0 then [10] else [])"
  let ?s = "kputs ?t s"
  have step: "dump_hex (Suc n) i p s = dump_hex n (Suc i) (p + 1) ?s"
    by (simp add: kprint_hex2 kputs_append del: kputs.simps(2) str_simps ch_Char)
  have "region (p + 1) n \<inter> screen = {}" using Suc.prems(2) by auto
  with Suc.IH have "dump_hex n (Suc i) (p + 1) ?s = Some (kputs (dump_text n (Suc i) (mem ?s) (p + 1)) ?s)"
    using kputs_ok(1) [OF Suc.prems(1)] by blast
  moreover have "dump_text n (Suc i) (mem ?s) (p + 1) = dump_text n (Suc i) (mem s) (p + 1)"
    using Suc.prems kputs_ok(2) [OF Suc.prems(1)] by (intro dump_text_cong) auto
  ultimately show ?case unfolding step by (simp add: kputs_append)
qed

text \<open>A row of \<open>ppart\<close>.\<close>

definition ppart_text :: "uint \<Rightarrow> byte list \<Rightarrow> uint \<Rightarrow> uint \<Rightarrow> byte list" where
  "ppart_text n t lba sz =
     (let dec = (\<lambda>l w v. field l False w (sint (v :: uint) < 0) (numeral_of False 10 (nat \<bar>sint v\<bar>))) in
      str ''   '' @ dec False 0 n @ str ''     '' @ field False False 10 False t @ str ''            '' @ dec True 10 lba @
      str ''          '' @ dec True 6 sz @ str ''Mb'' @ [10, 32])"

lemma decimal_field:
  "length (field l False w (sint (v :: uint) < 0) (numeral_of False 10 (nat \<bar>sint v\<bar>))) \<le> max w 11"
proof -
  have "nat \<bar>sint v\<bar> < 10 ^ 10" using sint_bounds32 [of v] by simp
  then have "length (numeral_of False 10 (nat \<bar>sint v\<bar>)) \<le> 10" by (intro numeral_of_length) simp_all
  then show ?thesis by (auto simp: length_field)
qed

lemma render_decimal:
  "render (Dir l False w [] (ch CHR ''d'')) (Num v) =
     Some (field l False (dec_value w mod 2 ^ 32) (sint v < 0) (numeral_of False 10 (nat \<bar>sint v\<bar>)))"
proof -
  have "ch CHR ''d'' \<in> num_convs" "conv_value [] (ch CHR ''d'') v = sint v" "conv_radix (ch CHR ''d'') = 10"
    "ch CHR ''d'' \<noteq> ch CHR ''X''" by (simp_all add: conv_value_def conv_radix_def num_convs_def)
  then show ?thesis by (simp add: Let_def del: ch_Char)
qed

lemma kprint_ppart_row:
  assumes "length t \<le> 13"
  shows "kprint ppart_row [Num n, Str t, Num lba, Num sz] s = Some (kputs (ppart_text n t lba sz) s)"
proof -
  have d: "dec_value (str ''10'') = 10" "dec_value (str ''6'') = 6" "dec_value [] = 0" by (simp_all add: digit_value_def)
  have s: "render (Dir False False (str ''10'') [] (ch CHR ''s'')) (Str t) = Some (field False False 10 False t)"
    using d by (simp del: str_simps)
  have "renders ppart_row [Num n, Str t, Num lba, Num sz] = Some (ppart_text n t lba sz)"
    unfolding ppart_row_def append_assoc renders_text
    by (simp add: renders_text render_decimal s d ppart_text_def Let_def del: str_simps ch_Char render.simps)
  moreover have "length (field False False 10 False t) \<le> 13" using assms by (simp add: length_field)
  then have "length (ppart_text n t lba sz) < 100"
    using decimal_field [of False 0 n] decimal_field [of True 10 lba] decimal_field [of True 6 sz]
    by (simp add: ppart_text_def Let_def)
  ultimately show ?thesis by (simp add: kprint_def)
qed

text \<open>The rows of the list, and the list after output: the elements do not lie in the video memory.\<close>

definition ppart_rows :: "memory \<Rightarrow> addr list \<Rightarrow> byte list list \<Rightarrow> byte list" where
  "ppart_rows m ps nms = concat (map (\<lambda>(p, t). ppart_text (ld32 m (pp_name p)) t (ld32 m (pp_st_lba p)) (ld32 m (pp_part_size p))) (zip ps nms))"

lemma element_fields:
  assumes "\<And>x. x \<in> region p 28 \<Longrightarrow> m' x = m x"
  shows "ld32 m' (pp_name p) = ld32 m (pp_name p)" "ld32 m' (pp_st_lba p) = ld32 m (pp_st_lba p)"
    "ld32 m' (pp_part_size p) = ld32 m (pp_part_size p)" "ld32 m' (pp_next p) = ld32 m (pp_next p)"
    "length t \<le> 13 \<Longrightarrow> cstr m' (pp_type p) t = cstr m (pp_type p) t"
proof -
  have sub: "region (p + of_nat k) n \<subseteq> region p 28" if "k + n \<le> 28" for k n
    using region_offset [of p k n] region_mono [OF that, of p] by blast
  have w: "ld32 m' (p + of_nat k) = ld32 m (p + of_nat k)" if "k + 4 \<le> 28" for k
    using assms sub [OF that] by (intro ld32_cong) blast
  show "ld32 m' (pp_name p) = ld32 m (pp_name p)" "ld32 m' (pp_st_lba p) = ld32 m (pp_st_lba p)"
    "ld32 m' (pp_part_size p) = ld32 m (pp_part_size p)" "ld32 m' (pp_next p) = ld32 m (pp_next p)"
    using w [of 0] w [of 16] w [of 20] w [of 24] by (simp_all add: offset_defs)
  assume "length t \<le> 13"
  then have "region (p + 5) (Suc (length t)) \<subseteq> region p 28" using sub [of 5 "Suc (length t)"] by simp
  then show "cstr m' (pp_type p) t = cstr m (pp_type p) t"
    using assms unfolding pp_type_def by (intro cstr_cong) blast
qed

lemma kputs_part_temp: "kputs xs (v\<lparr>part_temp := a\<rparr>) = (kputs xs v)\<lparr>part_temp := a\<rparr>"
proof (induction xs arbitrary: v)
  case (Cons x xs)
  have "newline (v\<lparr>part_temp := a\<rparr>) = map_prod id (\<lambda>v. v\<lparr>part_temp := a\<rparr>) (newline v)"
    by (simp add: newline_def kscroll_display_def set_cursor_position_def outportb_def Let_def cell_def)
  moreover have "put_cell x k (v\<lparr>part_temp := a\<rparr>) = map_prod id (\<lambda>v. v\<lparr>part_temp := a\<rparr>) (put_cell x k v)" for k
    by (simp add: put_cell_def kscroll_display_def set_cursor_position_def outportb_def Let_def)
  ultimately show ?case using Cons.IH by (simp add: cell_def)
qed simp

lemma ppart_loop_rows:
  "cursor_ok s \<Longrightarrow> lseg 24 (mem s) (part_temp s) ps t0 \<Longrightarrow> NULL \<notin> set (ps @ [t0]) \<Longrightarrow> ld32 (mem s) (pp_next t0) = NULL \<Longrightarrow>
   \<forall>p \<in> set (ps @ [t0]). region p 28 \<inter> screen = {} \<Longrightarrow> list_all2 (\<lambda>p nm. length nm \<le> 13 \<and> cstr (mem s) (pp_type p) nm) ps nms \<Longrightarrow>
   ppart_loop s = Some ((kputs (ppart_rows (mem s) ps nms) s)\<lparr>part_temp := t0\<rparr>)"
proof (induction ps arbitrary: s nms)
  case Nil
  then show ?case by (subst ppart_loop.simps) (simp add: ppart_rows_def)
next
  case (Cons p ps)
  obtain nm ns where n: "nms = nm # ns" "length nm \<le> 13" "cstr (mem s) (pp_type p) nm"
    "list_all2 (\<lambda>p nm. length nm \<le> 13 \<and> cstr (mem s) (pp_type p) nm) ps ns"
    using Cons.prems(6) by (auto simp: list_all2_Cons1)
  have p: "part_temp s = p" "lseg 24 (mem s) (ld32 (mem s) (pp_next p)) ps t0" using Cons.prems(2) by (simp_all add: pp_next_def)
  then have nz: "ld32 (mem s) (pp_next p) \<noteq> NULL" using Cons.prems(3) by (cases ps) auto
  let ?r = "ppart_text (ld32 (mem s) (pp_name p)) nm (ld32 (mem s) (pp_st_lba p)) (ld32 (mem s) (pp_part_size p))"
  let ?s = "kputs ?r s"
  have keep: "mem ?s x = mem s x" if "q \<in> set (p # ps @ [t0])" "x \<in> region q 28" for q x
    using kputs_ok(2) [OF Cons.prems(1), of x ?r] Cons.prems(5) that by auto
  have f: "ld32 (mem ?s) (pp_name q) = ld32 (mem s) (pp_name q)" "ld32 (mem ?s) (pp_st_lba q) = ld32 (mem s) (pp_st_lba q)"
    "ld32 (mem ?s) (pp_part_size q) = ld32 (mem s) (pp_part_size q)" "ld32 (mem ?s) (pp_next q) = ld32 (mem s) (pp_next q)"
    "length t \<le> 13 \<Longrightarrow> cstr (mem ?s) (pp_type q) t = cstr (mem s) (pp_type q) t" if "q \<in> set (p # ps @ [t0])" for q t
    using element_fields [of q "mem ?s" "mem s"] keep that by blast+
  have o: "part_temp ?s = p" using outputs_kputs [of s ?r] p(1) by (auto simp: outputs_def)
  have step: "ppart_loop s = ppart_loop (?s\<lparr>part_temp := ld32 (mem s) (pp_next p)\<rparr>)"
    using nz kprint_ppart_row [OF n(2), of _ _ _ s] f(4) [of p] o
    by (subst ppart_loop.simps) (simp add: p(1) cstring_cstr [OF n(3)] Let_def)
  let ?u = "?s\<lparr>part_temp := ld32 (mem s) (pp_next p)\<rparr>"
  have l: "lseg 24 (mem ?u) (part_temp ?u) ps t0"
    using p(2) f(4) lseg_cong [of ps "mem ?s" 24 "mem s"] by (simp add: pp_next_def)
  have a: "list_all2 (\<lambda>p nm. length nm \<le> 13 \<and> cstr (mem ?u) (pp_type p) nm) ps ns"
    using n(4) f(5) by (simp add: list_all2_conv_all_nth)
  have r: "ppart_rows (mem ?u) ps ns = ppart_rows (mem s) ps ns"
    using f(1-3) by (auto simp: ppart_rows_def dest!: set_zip_leftD intro!: arg_cong [where f = concat] map_cong)
  have "cursor_ok ?u" using kputs_ok(1) [OF Cons.prems(1), of ?r] by (simp add: cursor_ok_def)
  then have "ppart_loop ?u = Some ((kputs (ppart_rows (mem s) ps ns) ?u)\<lparr>part_temp := t0\<rparr>)"
    using Cons.IH [OF _ l _ _ _ a] Cons.prems(3-5) f(4) [of t0] r by simp
  then show ?case unfolding step by (simp add: n(1) ppart_rows_def kputs_append kputs_part_temp)
qed

text \<open>
  C33: \<open>ppart\<close> prints the partition table: a header, then for every element of the list that \<open>read_disk_partitions\<close> has
  built a row with its number, the name of its type, its first sector and its size in megabytes, when every name is
  terminated before the size that is stored behind it; it leaves the list and everything else but the screen as it is.
\<close>

theorem cmd_ppart_prints:
  fixes s :: "'a dio_scheme"
  assumes "cursor_ok s" "part_list s L k ps" "list_all2 (\<lambda>p nm. length nm \<le> 13 \<and> cstr (mem s) (pp_type p) nm) ps nms"
  shows "cmd_ppart s = Some (Some SUCCESS, kputs (ppart_header @ ppart_rows (mem s) ps nms) s)"
proof -
  have l: "lseg 24 (mem s) (partition s) ps (part_temp s)" "ld32 (mem s) (pp_next (part_temp s)) = NULL" "kroom s L k"
    "\<forall>p \<in> set (ps @ [part_temp s]). p \<in> L \<and> region p 28 \<subseteq> payload (mem s) p" using assms(2) by (auto simp: part_list_def)
  note kernel_off_screen
  then have off: "region p 28 \<inter> screen = {}" if "p \<in> set (ps @ [part_temp s])" for p
    using region_area [OF _ l(3), of p 28] l(4) that by blast
  let ?s = "kputs ppart_header (s\<lparr>part_temp := partition s\<rparr>)"
  have ok: "cursor_ok (s\<lparr>part_temp := partition s\<rparr>)" using assms(1) by (simp add: cursor_ok_def)
  have keep: "mem ?s x = mem s x" if "q \<in> set (ps @ [part_temp s])" "x \<in> region q 28" for q x
    using kputs_ok(2) [OF ok, of x ppart_header] off that by auto
  have f: "ld32 (mem ?s) (pp_name q) = ld32 (mem s) (pp_name q)" "ld32 (mem ?s) (pp_st_lba q) = ld32 (mem s) (pp_st_lba q)"
    "ld32 (mem ?s) (pp_part_size q) = ld32 (mem s) (pp_part_size q)" "ld32 (mem ?s) (pp_next q) = ld32 (mem s) (pp_next q)"
    "length t \<le> 13 \<Longrightarrow> cstr (mem ?s) (pp_type q) t = cstr (mem s) (pp_type q) t" if "q \<in> set (ps @ [part_temp s])" for q t
    using element_fields [of q "mem ?s" "mem s"] keep that by blast+
  have pt: "part_temp ?s = partition s" by (simp add: kputs_part_temp)
  have "lseg 24 (mem ?s) (part_temp ?s) ps (part_temp s)"
    unfolding pt using l(1) f(4) lseg_cong [of ps "mem ?s" 24 "mem s"] by (simp add: pp_next_def)
  moreover have "list_all2 (\<lambda>p nm. length nm \<le> 13 \<and> cstr (mem ?s) (pp_type p) nm) ps nms"
    using assms(3) f(5) by (auto simp: list_all2_conv_all_nth)
  ultimately have "ppart_loop ?s = Some ((kputs (ppart_rows (mem ?s) ps nms) ?s)\<lparr>part_temp := part_temp s\<rparr>)"
    using kputs_ok(1) [OF ok] part_list_nonnull [OF assms(2)] f(4) [of "part_temp s"] l(2) off
    by (intro ppart_loop_rows) simp_all
  moreover have "ppart_rows (mem ?s) ps nms = ppart_rows (mem s) ps nms"
    using f(1-3) by (auto simp: ppart_rows_def dest!: set_zip_leftD intro!: arg_cong [where f = concat] map_cong)
  moreover have "(kputs xs s)\<lparr>part_temp := part_temp s\<rparr> = kputs xs s" for xs using kputs_part_temp [where xs = xs and v = s and a = "part_temp s"] by simp
  ultimately show ?thesis by (simp add: cmd_ppart_def kputs_part_temp kputs_append [symmetric])
qed

section \<open>Witnesses\<close>

theorem dump_hex_prints_witness:
  "dump_hex 4 1 0x1000 (demo_console (st_bytes 0x1000 [0x0A, 0xFF, 0x42, 0x00] (\<lambda>_. 0)) 0 3) =
     Some (kputs (str ''0aff4200 '') (demo_console (st_bytes 0x1000 [0x0A, 0xFF, 0x42, 0x00] (\<lambda>_. 0)) 0 3))"
proof -
  let ?s = "demo_console (st_bytes 0x1000 [0x0A, 0xFF, 0x42, 0x00] (\<lambda>_. 0)) 0 3"
  have ok: "cursor_ok ?s" by (simp add: demo_console_def cursor_ok_def)
  have "region 0x1000 4 \<inter> screen = {}" by (rule screen_low) (auto simp: region_iff)
  note d = dump_hex_prints [OF ok this, of 1]
  have "dump_text (Suc (Suc (Suc (Suc 0)))) 1 (mem ?s) 0x1000 = str ''0aff4200 ''"
    by (simp add: hex2_def pr_digit_def demo_console_def)
  then have "dump_text 4 1 (mem ?s) 0x1000 = str ''0aff4200 ''" by (simp only: eval_nat_numeral BitM.simps)
  with d show ?thesis by (simp only:)
qed

theorem cmd_ppart_prints_witness:
  "\<exists>(s :: dio) p. cmd_ppart s = Some (Some SUCCESS, kputs (ppart_header @ ppart_rows (mem s) [p] [str ''LINUX'']) s) \<and>
     ld32 (mem s) (pp_st_lba p) = 63"
proof -
  obtain s :: dio and L where s: "part_list s L (5 + 71) []" "boot_block s L []" "has_table (mem s) (bs_temp s) (demo_drive 0 0)"
    using demo_boot by auto
  let ?e = "sector_entry (demo_drive 0 0) 0"
  have e: "ld_entry (mem s) (bs_part (bs_temp s) 0) = ?e" "pe_type ?e = 0x83" "start_lba ?e = 63"
    using s(3) by (simp_all add: has_table_def demo_drive_def demo_table_at ld_entry_def demo_entry_def ld32_def)
  have b: "bs_temp s \<in> L" "bs_temp s \<noteq> part_temp s" "region (bs_part (bs_temp s) 0) 16 \<subseteq> payload (mem s) (bs_temp s)"
    using s(2) bs_part_own [of 0 "bs_temp s"] by (auto simp: boot_block_def)
  obtain s' :: dio where s': "part_list s' (insert (part_temp s') L) 71 [part_temp s]" "props_at (mem s') (part_temp s) (part_in s) ?e 0"
    using save_part_props_ok [OF s(1) _ b, of 0] unfolding e(1) by auto
  let ?p = "part_temp s" and ?t = "s'\<lparr>cursor_x := 0, cursor_y := 3\<rparr>"
  have "cursor_ok ?t" by (simp add: cursor_ok_def)
  moreover have "part_list ?t (insert (part_temp s') L) 71 [?p]"
    using s'(1) kroom_cong [of ?t s'] unfolding part_list_def by auto
  moreover have "bytes_at (mem s') (pp_type ?p) (str ''LINUX'' @ [0])"
    using s'(2) e(2) by (simp add: props_at_def part_type_name_def)
  then have "list_all2 (\<lambda>p nm. length nm \<le> 13 \<and> cstr (mem ?t) (pp_type p) nm) [?p] [str ''LINUX'']"
    by (simp add: cstr_bytes_at)
  ultimately have "cmd_ppart ?t = Some (Some SUCCESS, kputs (ppart_header @ ppart_rows (mem ?t) [?p] [str ''LINUX'']) ?t)"
    by (rule cmd_ppart_prints)
  moreover have "ld32 (mem ?t) (pp_st_lba ?p) = 63" using s'(2) e(3) by (simp add: props_at_def)
  ultimately show ?thesis by blast
qed

end
