(* ===== verification/Boot.thy ===== *)
theory Boot
  imports Builtin
begin

text \<open>
  The way up: \<open>src/kernel/janus86.c\<close> and \<open>bootinfo.c\<close>. \<open>k_boot\<close> is \<open>k_main\<close> up to the call of \<open>shell_main\<close>, which never returns; the states the kernel
  runs through from there are \<open>k_main\<close>. The register-level contract of the drives is completed by what they answer to the probe.
\<close>

section \<open>bootinfo.c\<close>

record boot = fsys +
  mem_lower :: uint
  mem_upper :: uint

definition mb_mem_lower :: "addr \<Rightarrow> addr" where "mb_mem_lower p = p + 4"
definition mb_mem_upper :: "addr \<Rightarrow> addr" where "mb_mem_upper p = p + 8"

definition set_mem_info :: "addr \<Rightarrow> 'a boot_scheme \<Rightarrow> 'a boot_scheme" where
  "set_mem_info boot_info s =
     s\<lparr>mem_lower := ld32 (mem s) (mb_mem_lower boot_info), mem_upper := ld32 (mem s) (mb_mem_upper boot_info)\<rparr>"

section \<open>janus86.c\<close>

text \<open>\<open>r\<close>, \<open>c\<close> and \<open>l\<close> are the addresses of the three functions of the ext2 driver, \<open>buf\<close> and \<open>bufs\<close> the sector buffers on the stack.\<close>

definition k_boot ::
    "device \<Rightarrow> addr \<Rightarrow> addr \<Rightarrow> addr \<Rightarrow> addr \<Rightarrow> (nat \<Rightarrow> addr) \<Rightarrow> 'a fsys_scheme \<Rightarrow> 'a fsys_scheme option" where
  "k_boot dev r c l buf bufs s = do {
     s1 \<leftarrow> mem_init (kclear_screen s);
     (_, s2) \<leftarrow> init_fs_modules r c l s1;
     (_, s3) \<leftarrow> probe_ide_drives dev s2;
     read_disk_partitions dev buf bufs s3 }"

text \<open>\<open>shell_main\<close> sets its variables once and then takes turns for ever.\<close>

inductive k_main ::
    "'a cmd_env \<Rightarrow> addr \<Rightarrow> addr \<Rightarrow> addr \<Rightarrow> addr \<Rightarrow> (nat \<Rightarrow> addr) \<Rightarrow> addr \<Rightarrow> addr \<Rightarrow> addr \<Rightarrow> addr \<Rightarrow> 'a fsys_scheme \<Rightarrow> 'a fsys_scheme \<Rightarrow> bool"
  for E r c l buf bufs buf0 argtable sc prev0 s where
  enters: "k_boot (e_dev E) r c l buf bufs s = Some s' \<Longrightarrow> k_main E r c l buf bufs buf0 argtable sc prev0 s (shell_start s')"
| turn: "k_main E r c l buf bufs buf0 argtable sc prev0 s s' \<Longrightarrow> shell_turn (e_dev E) buf0 argtable sc (run_cmd E prev0) s' = Some s'' \<Longrightarrow>
    k_main E r c l buf bufs buf0 argtable sc prev0 s s''"

section \<open>Probing\<close>

definition select_ident :: "nat \<Rightarrow> byte \<Rightarrow> io_event list" where
  "select_ident drive cmd = [Out8 0x1F6 (if drive = 0 then 0xE0 else 0xF0), Out8 0x1F7 cmd]"

text \<open>
  What the drives answer to \<open>IDENTIFY DEVICE\<close>: they are busy for a while, and a drive that is there then offers data; a place without one
  does not, and gets ready again after \<open>IDENTIFY PACKET DEVICE\<close>.
\<close>

definition ata_idents :: "device \<Rightarrow> (nat \<Rightarrow> bool) \<Rightarrow> bool" where
  "ata_idents dev present \<longleftrightarrow> (\<forall>h. \<forall>drive \<in> {0, 1}. \<exists>vs w st.
     list_all (\<lambda>v. v AND 0x80 \<noteq> 0) vs \<and> w AND 0x80 = 0 \<and> (st AND 0x08 \<noteq> 0 \<longleftrightarrow> present drive) \<and>
     answers dev (h @ select_ident drive 0xEC) (map (In8 0x1F7) (vs @ [w]) @ [In8 0x1F7 st]) \<and>
     (\<not> present drive \<longrightarrow> (\<forall>h. \<exists>us u. list_all (\<lambda>v. v AND 0x80 \<noteq> 0) us \<and> u AND 0x80 = 0 \<and>
        answers dev (h @ Out8 0x1F1 0 # select_ident drive 0xA1) (map (In8 0x1F7) (us @ [u])))))"

lemma ident_words_io: "\<exists>h. snd (ident_words dev n s) = s\<lparr>io := h\<rparr>"
proof (induction n arbitrary: s)
  case 0
  then show ?case by (intro exI [of _ "io s"]) simp
next
  case (Suc n)
  obtain v s1 where v: "inportw dev IDE_DATA_PORT s = (v, s1)" by fastforce
  then obtain h where "s1 = s\<lparr>io := h\<rparr>" by (auto simp: inportw_def Let_def)
  with Suc.IH [of s1] v show ?case by (auto simp: Let_def split_def)
qed

lemma probe_drive_contract:
  fixes s :: "'a disk_scheme"
  assumes "ata_idents dev present" "drive \<in> {0, 1}"
  shows "\<exists>h ds. probe_drive dev drive s =
    Some (s\<lparr>io := h, ide_drive := ds, num_ide_drives := num_ide_drives s + of_bool (present drive)\<rparr>)"
proof -
  let ?b = "select_ident drive 0xEC"
  obtain vs w st where a: "list_all (\<lambda>v. v AND 0x80 \<noteq> 0) vs" "w AND 0x80 = 0" "st AND 0x08 \<noteq> 0 \<longleftrightarrow> present drive"
    "answers dev (io s @ ?b) (map (In8 0x1F7) (vs @ [w]) @ [In8 0x1F7 st])"
    using assms unfolding ata_idents_def by meson
  define h1 where "h1 = io s @ ?b @ map (In8 0x1F7) (vs @ [w])"
  let ?s0 = "s\<lparr>io := io s @ ?b\<rparr>" and ?head = "if drive = 0 then IDE_DRIVE0 else IDE_DRIVE1"
  have o: "outportb IDE_COMMAND IDE_CMD_IDENT_DRIVE (outportb IDE_DRIVE_HEAD ?head s) = ?s0"
    by (simp add: outportb_def select_ident_def)
  have p: "ide_wait dev ?s0 = Some (s\<lparr>io := h1\<rparr>)"
    unfolding ide_wait_def h1_def using poll_trace [of dev ?s0 "0x1F7" vs w "\<lambda>v. v AND 0x80 \<noteq> 0"] a by simp
  define s2 where "s2 = s\<lparr>io := h1 @ [In8 0x1F7 st]\<rparr>"
  have i: "inportb dev IDE_STATUS (s\<lparr>io := h1\<rparr>) = (st, s2)"
    using a(4) by (simp add: inportb_def Let_def h1_def s2_def)
  note start = probe_drive_def [of dev drive s, unfolded Let_def o p i Option.bind.simps prod.case]
  show ?thesis
  proof (cases "present drive")
    case True
    obtain h where h: "snd (ident_words dev 256 s2) = s\<lparr>io := h\<rparr>" using ident_words_io [of dev 256 s2] by (auto simp: s2_def)
    show ?thesis unfolding start using True a(3) h by (auto simp: split_def)
  next
    case False
    then obtain us u where u: "list_all (\<lambda>v. v AND 0x80 \<noteq> 0) us" "u AND 0x80 = 0"
      "answers dev (io s2 @ Out8 0x1F1 0 # select_ident drive 0xA1) (map (In8 0x1F7) (us @ [u]))"
      using assms unfolding ata_idents_def by meson
    let ?s3 = "s2\<lparr>io := io s2 @ Out8 0x1F1 0 # select_ident drive 0xA1\<rparr>"
    have o': "outportb IDE_COMMAND IDE_CMD_ATAPI_IDENT_DRIVE (outportb IDE_DRIVE_HEAD ?head (outportb IDE_FEATURE_REG 0 s2)) = ?s3"
      by (simp add: outportb_def select_ident_def)
    define h3 where "h3 = io ?s3 @ map (In8 0x1F7) (us @ [u])"
    have p': "ide_wait dev ?s3 = Some (?s3\<lparr>io := h3\<rparr>)"
      unfolding ide_wait_def h3_def using poll_trace [of dev ?s3 "0x1F7" us u "\<lambda>v. v AND 0x80 \<noteq> 0"] u by simp
    show ?thesis unfolding start o' p' using False a(3)
      by (intro exI [of _ "h3 @ [In8 0x1F7 (dev h3 0x1F7)]"] exI [of _ "ide_drive s"]) (simp add: inportb_def Let_def s2_def)
  qed
qed

lemma probe_ide_drives_contract:
  fixes s :: "'a disk_scheme"
  assumes "ata_idents dev present"
  shows "\<exists>h ds. probe_ide_drives dev s =
    Some (if present 0 \<or> present 1 then 0 else IDE_ERR_DRIVE_NOT_FOUND,
      s\<lparr>io := h, ide_drive := ds, num_ide_drives := of_bool (present 0) + of_bool (present 1)\<rparr>)"
proof -
  obtain h ds where "probe_drive dev 0 (s\<lparr>num_ide_drives := 0\<rparr>) =
      Some (s\<lparr>io := h, ide_drive := ds, num_ide_drives := of_bool (present 0)\<rparr>)"
    using probe_drive_contract [OF assms, of 0 "s\<lparr>num_ide_drives := 0\<rparr>"] by auto
  moreover obtain h' ds' where "probe_drive dev 1 (s\<lparr>io := h, ide_drive := ds, num_ide_drives := of_bool (present 0)\<rparr>) =
      Some (s\<lparr>io := h', ide_drive := ds', num_ide_drives := of_bool (present 0) + of_bool (present 1)\<rparr>)"
    using probe_drive_contract [OF assms, of 1 "s\<lparr>io := h, ide_drive := ds, num_ide_drives := of_bool (present 0)\<rparr>"] by auto
  ultimately show ?thesis by (auto simp: probe_ide_drives_def)
qed

section \<open>After boot\<close>

lemma init_fs_modules_boots: "init_fs_modules r c l s = init_fs_modules r c l (kmalloc_init s)"
  by (simp add: init_fs_modules_def kmalloc_def kmalloc_init_idem)

lemma k_boot_ok:
  fixes s :: "'a fsys_scheme"
  assumes "freep s = NULL" "ata_reads dev disk" "ata_idents dev (\<lambda>d. d < length xs)" "length xs \<le> 2"
    and "region buf 512 \<inter> kernel_area = {}" "\<And>j. region (bufs j) 512 \<inter> kernel_area = {}"
    and "drives_ok disk 0 xs" "11 + drive_units xs < 0x1C0000"
  shows "\<exists>s' tmp ps L k. k_boot dev r c l buf bufs s = Some s' \<and> part_list s' L k ps \<and> 0 < k \<and>
    listed (mem s') 1 (partitions_of disk 0 xs) ps \<and> drv_list s' L [tmp] [str ''ext2''] \<and>
    mem s' (reg_type_byte tmp) = PART_LINUX_NATIVE \<and> ld32 (mem s') (reg_sym_root tmp) = r \<and>
    ld32 (mem s') (reg_sym_chdir tmp) = c \<and> ld32 (mem s') (reg_sym_loadfile tmp) = l"
proof -
  obtain m where m: "page_init (mem (kclear_screen s)) = Some m" using mem_init_frame [of "kclear_screen s"] by (auto simp: mem_init_def split: bind_splits)
  define s1 where "s1 = kclear_screen s\<lparr>mem := m, cr3 := PAGE_TABLE_ADDR, cr0 := cr0 s OR 0x80000000\<rparr>"
  have s1: "mem_init (kclear_screen s) = Some s1" "freep s1 = NULL" using m assms(1) by (simp_all add: mem_init_def s1_def kclear_screen_def)
  define k where "k = 0x1C0000 - (11 + drive_units xs)"
  have "kroom (kmalloc_init s1) {} (6 + (5 + (drive_units xs + k)))" using kroom_boot [OF s1(2)] by (rule kroom_mono) (use assms(8) in \<open>simp add: k_def\<close>)
  then obtain tmp s2 where s2: "init_fs_modules r c l (kmalloc_init s1) = Some (0, s2)" "fs_drv_list s2 = tmp" "drv_list s2 {tmp} [tmp] [str ''ext2'']"
    "kroom s2 {tmp} (5 + (drive_units xs + k))" "mem s2 (reg_type_byte tmp) = PART_LINUX_NATIVE" "ld32 (mem s2) (reg_sym_root tmp) = r"
    "ld32 (mem s2) (reg_sym_chdir tmp) = c" "ld32 (mem s2) (reg_sym_loadfile tmp) = l"
    using init_fs_modules_ok [of "kmalloc_init s1" "{}" "5 + (drive_units xs + k)" r c l] by auto
  obtain h ds where p: "probe_ide_drives dev s2 = Some (if 0 < length xs \<or> 1 < length xs then 0 else IDE_ERR_DRIVE_NOT_FOUND,
      s2\<lparr>io := h, ide_drive := ds, num_ide_drives := of_bool (0 < length xs) + of_bool (1 < length xs)\<rparr>)"
    using probe_ide_drives_contract [OF assms(3), of s2] by blast
  define s3 where "s3 = s2\<lparr>io := h, ide_drive := ds, num_ide_drives := of_bool (0 < length xs) + of_bool (1 < length xs)\<rparr>"
  have n: "num_ide_drives s3 = int (length xs)" using assms(4) by (cases xs; cases "tl xs") (auto simp: s3_def)
  have k: "kroom s3 {tmp} (5 + (drive_units xs + k))" "0 < k" using s2(4) kroom_cong [of s3 s2] assms(8) by (simp_all add: s3_def k_def)
  obtain s' ps L where s': "read_disk_partitions dev buf bufs s3 = Some s'" "part_list s' L k ps"
    "listed (mem s') 1 (partitions_of disk 0 xs) ps" "{tmp} \<subseteq> L" "keeps_blocks {tmp} s3 s'"
    using read_disk_partitions_ok [where bufs = bufs, OF assms(2,5,6,7) n k] by auto
  have dl3: "drv_list s3 {tmp} [tmp] [str ''ext2'']" using s2(3) kroom_own [OF k(1)] by (simp add: drv_list_def s3_def drv_names_def)
  have "kowns s' L" using s'(2) kroom_own by (auto simp: part_list_def)
  moreover have "fs_drv_list s' = fs_drv_list s3" using read_disk_partitions_more [OF s'(1)] by (cases s'; cases s3) simp
  ultimately have dl: "drv_list s' L [tmp] [str ''ext2'']" "\<And>x. x \<in> region tmp 36 \<Longrightarrow> mem s' x = mem s3 x"
    using drv_list_survives [OF dl3 _ _ s'(4,5)] by simp_all
  have "k_boot dev r c l buf bufs s = Some s'"
    using s1(1) s2(1) p s'(1) by (simp add: k_boot_def init_fs_modules_boots [of r c l s1] s3_def)
  then show ?thesis
    using s'(2,3) dl(1) k(2) s2(5-8) drv_keeps(3-6) [of tmp "mem s'" "mem s3", OF dl(2)]
    by (intro exI [of _ s'] exI [of _ tmp] exI [of _ ps] exI [of _ L] exI [of _ k])
      (simp add: reg_sym_root_def reg_sym_chdir_def reg_sym_loadfile_def s3_def)
qed

text \<open>
  C34: the way from the boot loader to a mounted file system. From a state without a heap, on at most two drives that meet the
  register-level contract and whose boot record chains end, \<open>k_main\<close> gets as far as the shell: the list of partitions is that of the
  tables on the drives and the ext2 driver is registered, in blocks that are all live at the same time; and \<open>root\<close> with the number
  of a Linux partition then calls \<open>ext2_root\<close> with the absolute first sector of that partition, drive 0 and the root inode.
\<close>

theorem k_boot_mounts:
  fixes s :: "'a fsys_scheme"
  assumes "freep s = NULL" "ata_reads dev disk" "ata_idents dev (\<lambda>d. d < length xs)" "length xs \<le> 2"
    and "region buf 512 \<inter> kernel_area = {}" "\<And>j. region (bufs j) 512 \<inter> kernel_area = {}"
    and "drives_ok disk 0 xs" "11 + drive_units xs < 0x1C0000"
    and "es = partitions_of disk 0 xs" "length es < 2147483648"
  shows "\<exists>s' ps L k. k_boot dev r c l buf bufs s = Some s' \<and> part_list s' L k ps \<and> listed (mem s') 1 es ps \<and>
    (\<exists>tmp. drv_list s' L [tmp] [str ''ext2'']) \<and>
    (\<forall>call_root i. i < length es \<and> pe_type (fst (es ! i)) = PART_LINUX_NATIVE \<longrightarrow>
       fs_root call_root (of_nat (Suc i)) s' =
         map_option (\<lambda>(f, t). (FS_DRV_FOUND, t\<lparr>fs_prop := f\<rparr>))
           (call_root r (snd (es ! i) + start_lba (fst (es ! i))) 0 2
             (s'\<lparr>part_temp := ps ! i, drv_root := r, drv_chdir := c, drv_loadfile := l\<rparr>)))"
proof -
  obtain s' tmp ps L k where b: "k_boot dev r c l buf bufs s = Some s'" "part_list s' L k ps" "listed (mem s') 1 es ps"
    "drv_list s' L [tmp] [str ''ext2'']" "mem s' (reg_type_byte tmp) = PART_LINUX_NATIVE" "ld32 (mem s') (reg_sym_root tmp) = r"
    "ld32 (mem s') (reg_sym_chdir tmp) = c" "ld32 (mem s') (reg_sym_loadfile tmp) = l"
    using k_boot_ok [where bufs = bufs, OF assms(1-8), of r c l] unfolding assms(9) by blast
  have d: "lseg 32 (mem s') (fs_drv_list s') [tmp] NULL" "NULL \<notin> set [tmp]" using b(4) by (simp_all add: drv_list_def)
  have "fs_root call_root (of_nat (Suc i)) s' =
      map_option (\<lambda>(f, t). (FS_DRV_FOUND, t\<lparr>fs_prop := f\<rparr>)) (call_root r (snd (es ! i) + start_lba (fst (es ! i))) 0 2
        (s'\<lparr>part_temp := ps ! i, drv_root := r, drv_chdir := c, drv_loadfile := l\<rparr>))"
    if i: "i < length es" "pe_type (fst (es ! i)) = PART_LINUX_NATIVE" for call_root i
  proof -
    have z: "part_list (s'\<lparr>part_temp := part_temp s'\<rparr>) L k ps" using b(2) by simp
    have y: "typed_part (pe_type (fst (es ! i)))" using i(2) by (simp add: typed_part_def)
    have "fs_root call_root (of_nat (Suc i)) s' = mounts call_root [tmp] (ps ! i) PART_LINUX_NATIVE (snd (es ! i) + start_lba (fst (es ! i))) s'"
      using fs_root_listed(1) [OF z b(3) assms(10) d i(1), of call_root] fs_root_listed(2) [OF z b(3) assms(10) d i(1) y] i(2) by simp
    then show ?thesis using b(5-8) by (simp add: mounts_def Let_def)
  qed
  then show ?thesis using b(1-4) by blast
qed

section \<open>Witness\<close>

lemma demo_idents: "ata_idents (ata_dev demo_drive) (\<lambda>d. d < 2)"
proof -
  have "answers (ata_dev demo_drive) h (map (In8 0x1F7) ([] @ [0x58]) @ [In8 0x1F7 0x58])" for h by (simp add: ata_dev_def)
  moreover have "(0x58 :: byte) AND 0x80 = 0" "(0x58 :: byte) AND 0x08 \<noteq> 0" by simp_all
  ultimately show ?thesis unfolding ata_idents_def
    by (intro allI ballI exI [of _ "[]"] exI [of _ "0x58"] conjI) auto
qed

theorem k_boot_mounts_witness:
  "\<exists>(s :: fsys) s'. k_boot (ata_dev demo_drive) 0x1000 0x2000 0x3000 0x90000 (\<lambda>_. 0x90000) s = Some s' \<and>
     (\<exists>t. fs_root (\<lambda>f lba drive inode s. Some (f + lba, s)) 1 s' = Some (FS_DRV_FOUND, t) \<and> fs_prop t = 0x103F)"
proof -
  let ?f = "\<lambda>f lba (drive :: int) (inode :: int) s. Some (f + lba, s :: fsys)" and ?x = "Some (1 :: nat, [demo_drive 0 100])"
  define es where es: "es = partitions_of demo_drive 0 [?x, ?x]"
  have 4: "i < 4 \<longleftrightarrow> i = 0 \<or> i = 1 \<or> i = 2 \<or> i = 3" for i :: nat by linarith
  have ok: "drives_ok demo_drive 0 [?x, ?x]"
    by (auto simp: demo_drive_def demo_table_at is_ext_def ld_entry_def ld32_def demo_entry_def Let_def 4)
  have e: "pe_type (fst (es ! 0)) = PART_LINUX_NATIVE" "snd (es ! 0) + start_lba (fst (es ! 0)) = 63" "0 < length es" "length es < 2147483648"
    by (simp_all add: es demo_drive_def demo_table_at ld_entry_def demo_entry_def ld32_def Let_def)
  have i: "ata_idents (ata_dev demo_drive) (\<lambda>d. d < length [?x, ?x])" using demo_idents by (simp add: numeral_2_eq_2)
  have p: "freep (demo_fsys\<lparr>freep := NULL\<rparr>) = NULL" "length [?x, ?x] \<le> 2" "11 + drive_units [?x, ?x] < 0x1C0000" by simp_all
  obtain s' :: fsys and ps L k where s': "k_boot (ata_dev demo_drive) 0x1000 0x2000 0x3000 0x90000 (\<lambda>_. 0x90000) (demo_fsys\<lparr>freep := NULL\<rparr>) = Some s'"
    "\<forall>call_root i. i < length es \<and> pe_type (fst (es ! i)) = PART_LINUX_NATIVE \<longrightarrow>
       fs_root call_root (of_nat (Suc i)) s' = map_option (\<lambda>(f, t). (FS_DRV_FOUND, t\<lparr>fs_prop := f\<rparr>))
         (call_root 0x1000 (snd (es ! i) + start_lba (fst (es ! i))) 0 2
           (s'\<lparr>part_temp := ps ! i, drv_root := 0x1000, drv_chdir := 0x2000, drv_loadfile := 0x3000\<rparr>))"
    using k_boot_mounts [where bufs = "\<lambda>_. 0x90000", OF p(1) demo_drive_reads i p(2) demo_stack demo_stack ok p(3) es e(4)] by blast
  have "fs_root ?f (of_nat (Suc 0)) s' = map_option (\<lambda>(f, t). (FS_DRV_FOUND, t\<lparr>fs_prop := f\<rparr>))
      (?f 0x1000 63 0 2 (s'\<lparr>part_temp := ps ! 0, drv_root := 0x1000, drv_chdir := 0x2000, drv_loadfile := 0x3000\<rparr>))"
    using s'(2) [rule_format, of 0 ?f] e(1-3) by simp
  then have "\<exists>t. fs_root ?f 1 s' = Some (FS_DRV_FOUND, t) \<and> fs_prop t = 0x103F" by auto
  then show ?thesis using s'(1) by (intro exI [of _ "demo_fsys\<lparr>freep := NULL\<rparr>"] exI [of _ s']) simp
qed

end
